(* ===== verification/Prelude.thy ===== *)
theory Prelude
  imports Main "HOL-Library.Word" "HOL-Library.AList" "HOL-Library.Char_ord"
    "HOL-Library.List_Lexorder" "HOL-Library.Sublist"
begin

text \<open>
  Shared vocabulary of the development.

  A Rust \<open>String\<close> or \<open>&str\<close> is the list of its UTF-8 bytes, written as an HOL
  \<open>string\<close> (an HOL \<open>char\<close> is one byte), so \<open>length\<close> is \<open>str::len\<close> and the
  lexicographic order is \<open>str::cmp\<close>. A \<open>Vec<u8>\<close> or \<open>&[u8]\<close> is a \<open>byte list\<close>.
  Fixed-width integers are words. A fallible function that leaves its receiver
  unchanged on error returns \<open>'e + 'a\<close> (\<open>Inl\<close> is \<open>Err\<close>); an operation on
  \<open>&mut self\<close> returns the result together with the state it leaves behind, on the
  error branches too.

  The named collections gather what the component proofs share: \<open>lookup_simps\<close> the
  effect of the finite-map operations on lookups and keys.
\<close>

type_synonym byte = "8 word"
type_synonym u8 = "8 word"
type_synonym u16 = "16 word"
type_synonym u32 = "32 word"
type_synonym u64 = "64 word"
type_synonym u128 = "128 word"
type_synonym ('s, 'e, 'a) op = "'s \<Rightarrow> ('e + 'a) \<times> 's"

named_theorems lookup_simps "lookups and keys after the finite-map operations"

section \<open>Checked machine arithmetic\<close>

text \<open>\<open>checked_add\<close> of the unsigned integer types: \<open>None\<close> when the sum does not fit.\<close>

definition checked_add :: "'w::len word \<Rightarrow> 'w word \<Rightarrow> 'w word option" where
  "checked_add a b = (if unat a + unat b < 2 ^ LENGTH('w) then Some (a + b) else None)"

lemma checked_add_Some:
  "checked_add a b = Some c \<Longrightarrow> unat c = unat a + unat b"
  by (auto simp: checked_add_def unat_word_ariths split: if_splits)

lemma checked_add_less:
  assumes "checked_add a 1 = Some c"
  shows "a < c"
  using checked_add_Some [OF assms]
  by (simp add: word_less_nat_alt)

lemma checked_add_le:
  assumes "checked_add a b = Some c"
  shows "a \<le> c"
  using checked_add_Some [OF assms] by (simp add: word_le_nat_alt)

lemma checked_add_1_lt:
  fixes a :: "'w::len word"
  assumes "a < b"
  shows "checked_add a 1 = Some (a + 1)"
proof -
  have "unat a + 1 \<le> unat b"
    using assms by (simp add: word_less_nat_alt)
  also have "unat b < 2 ^ LENGTH('w)" by simp
  finally show ?thesis by (simp add: checked_add_def)
qed

text \<open>\<open>checked_sub\<close> and the saturating operations of \<open>usize\<close>.\<close>

definition usize_max :: nat where
  "usize_max = 2 ^ 64 - 1"

definition usize_checked_add :: "nat \<Rightarrow> nat \<Rightarrow> nat option" where
  "usize_checked_add a b = (if a + b \<le> usize_max then Some (a + b) else None)"

definition usize_saturating_add :: "nat \<Rightarrow> nat \<Rightarrow> nat" where
  "usize_saturating_add a b = min (a + b) usize_max"

section \<open>Results\<close>

text \<open>\<open>bindE\<close> is the operator \<open>?\<close>: stop at an error, go on with the value.\<close>

definition bindE :: "'e + 'a \<Rightarrow> ('a \<Rightarrow> 'e + 'b) \<Rightarrow> 'e + 'b" where
  "bindE x f = (case x of Inl e \<Rightarrow> Inl e | Inr a \<Rightarrow> f a)"

lemma bindE_simps [simp]: "bindE (Inl e) f = Inl e" "bindE (Inr a) f = f a"
  by (simp_all add: bindE_def)

lemma bindE_Inr_iff: "bindE x f = Inr b \<longleftrightarrow> (\<exists>a. x = Inr a \<and> f a = Inr b)"
  by (cases x) auto

section \<open>Finite maps as association lists\<close>

text \<open>
  \<open>HashMap\<close> is an association list with distinct keys: the list order stands for the
  unspecified iteration order. The interface is what the components rely on.
\<close>

locale finite_map =
  fixes lookup :: "'m \<Rightarrow> 'k \<Rightarrow> 'v option"
    and insert_key :: "'k \<Rightarrow> 'v \<Rightarrow> 'm \<Rightarrow> 'm"
    and remove_key :: "'k \<Rightarrow> 'm \<Rightarrow> 'm"
    and entries :: "'m \<Rightarrow> ('k \<times> 'v) list"
    and invar :: "'m \<Rightarrow> bool"
  assumes lookup_insert: "invar m \<Longrightarrow> lookup (insert_key k v m) = (lookup m)(k \<mapsto> v)"
    and lookup_remove: "invar m \<Longrightarrow> lookup (remove_key k m) = (lookup m)(k := None)"
    and lookup_entries: "invar m \<Longrightarrow> lookup m = map_of (entries m)"
    and distinct_entries: "invar m \<Longrightarrow> distinct (map fst (entries m))"
    and invar_insert: "invar m \<Longrightarrow> invar (insert_key k v m)"
    and invar_remove: "invar m \<Longrightarrow> invar (remove_key k m)"
begin

lemma entries_iff: "invar m \<Longrightarrow> (k, v) \<in> set (entries m) \<longleftrightarrow> lookup m k = Some v"
  using lookup_entries distinct_entries by simp

lemma insert_dom: "invar m \<Longrightarrow> dom (lookup (insert_key k v m)) = insert k (dom (lookup m))"
  by (simp add: lookup_insert)

lemma length_insert_new:
  assumes "invar m" and "lookup m k = None"
  shows "length (entries (insert_key k v m)) = Suc (length (entries m))"
proof -
  have card: "length (entries n) = card (dom (lookup n))" if "invar n" for n
    using that lookup_entries [of n] distinct_entries [of n]
    by (metis dom_map_of_conv_image_fst distinct_card length_map set_map)
  have fin: "finite (dom (lookup m))"
    using assms(1) by (simp add: lookup_entries finite_dom_map_of)
  show ?thesis
    using assms fin by (simp add: card invar_insert insert_dom domIff)
qed

lemma remove_insert_new:
  assumes "invar m" and "lookup m k = None"
  shows "lookup (remove_key k (insert_key k v m)) = lookup m"
  using assms by (auto simp: lookup_insert lookup_remove invar_insert fun_eq_iff)

end

definition alist_ok :: "('k \<times> 'v) list \<Rightarrow> bool" where
  "alist_ok al \<longleftrightarrow> distinct (map fst al)"

lemma map_of_update [lookup_simps]: "map_of (AList.update k v al) = (map_of al)(k \<mapsto> v)"
  by (rule AList.update_conv')

lemma map_of_delete_upd [lookup_simps]: "map_of (AList.delete k al) = (map_of al)(k := None)"
  by (rule AList.delete_conv')

lemma alist_ok_Nil [simp]: "alist_ok []"
  by (simp add: alist_ok_def)

lemma alist_ok_update [simp]: "alist_ok al \<Longrightarrow> alist_ok (AList.update k v al)"
  by (simp add: alist_ok_def AList.distinct_update)

lemma alist_ok_delete [simp]: "alist_ok al \<Longrightarrow> alist_ok (AList.delete k al)"
  by (simp add: alist_ok_def AList.distinct_delete)

lemma length_update_new: "map_of al k = None \<Longrightarrow> length (AList.update k v al) = Suc (length al)"
  by (induction al) (auto split: if_splits)

interpretation hash_map: finite_map map_of AList.update AList.delete "\<lambda>m. m" alist_ok
  by unfold_locales (simp_all add: lookup_simps, simp add: alist_ok_def)

lemma alist_mem: "alist_ok al \<Longrightarrow> (k, v) \<in> set al \<longleftrightarrow> map_of al k = Some v"
  by (rule hash_map.entries_iff)

text \<open>Updating every value in place (\<open>values_mut\<close>).\<close>

definition map_values :: "('v \<Rightarrow> 'v) \<Rightarrow> ('k \<times> 'v) list \<Rightarrow> ('k \<times> 'v) list" where
  "map_values f al = map (\<lambda>(k, v). (k, f v)) al"

lemma map_of_map_values [lookup_simps]: "map_of (map_values f al) k = map_option f (map_of al k)"
  by (induction al) (auto simp: map_values_def)

lemma fst_map_values [simp]: "map fst (map_values f al) = map fst al"
  by (auto simp: map_values_def)

lemma alist_ok_map_values [simp]: "alist_ok (map_values f al) = alist_ok al"
  by (simp add: alist_ok_def)

text \<open>Removing a list of keys one after the other.\<close>

definition delete_all :: "'k list \<Rightarrow> ('k \<times> 'v) list \<Rightarrow> ('k \<times> 'v) list" where
  "delete_all ks al = fold AList.delete ks al"

lemma map_of_delete_all [lookup_simps]:
  "map_of (delete_all ks al) k = (if k \<in> set ks then None else map_of al k)"
  by (induction ks arbitrary: al) (auto simp: delete_all_def lookup_simps)

lemma alist_ok_delete_all [simp]: "alist_ok al \<Longrightarrow> alist_ok (delete_all ks al)"
  by (induction ks arbitrary: al) (auto simp: delete_all_def)

lemma alist_length_dom: "alist_ok al \<Longrightarrow> length al = card (dom (map_of al))"
  unfolding alist_ok_def
  by (metis dom_map_of_conv_image_fst distinct_card length_map set_map)

section \<open>Runs of a state machine\<close>

text \<open>
  A component with a step function and an invariant: what one step keeps, every run
  keeps. The components interpret it on their own step functions.
\<close>

locale invariant_machine =
  fixes step :: "'s \<Rightarrow> 'e \<Rightarrow> 's" and inv :: "'s \<Rightarrow> bool" and ok :: "'e \<Rightarrow> bool"
  assumes inv_step: "inv s \<Longrightarrow> ok e \<Longrightarrow> inv (step s e)"
begin

lemma inv_run: "inv s \<Longrightarrow> list_all ok es \<Longrightarrow> inv (foldl step s es)"
  by (induction es arbitrary: s) (simp_all add: inv_step)

lemma inv_prefix: "inv s \<Longrightarrow> list_all ok es \<Longrightarrow> prefix ds es \<Longrightarrow> inv (foldl step s ds)"
  by (rule inv_run) (auto simp: prefix_def)

end

section \<open>Lists\<close>

lemma sorted_wrt_strict_distinct:
  fixes f :: "'x \<Rightarrow> 'a::linorder"
  shows "sorted_wrt (\<lambda>i j. f i < f j) xs \<Longrightarrow> distinct xs"
proof (induction xs)
  case (Cons x xs)
  then have "x \<notin> set xs" by (metis order.strict_iff_not sorted_wrt.simps(2))
  with Cons show ?case by simp
qed simp

lemma sorted_wrt_strict:
  fixes f :: "'x \<Rightarrow> 'a::linorder"
  shows "distinct ys \<Longrightarrow> sorted_wrt (\<lambda>i j. f i \<le> f j) ys \<Longrightarrow> inj_on f (set ys) \<Longrightarrow>
    sorted_wrt (\<lambda>i j. f i < f j) ys"
proof (induction ys)
  case (Cons y ys)
  then have "f y \<noteq> f z" if "z \<in> set ys" for z
    using that by (auto simp: inj_on_def)
  with Cons show ?case by (fastforce simp: order_less_le)
qed simp

lemma strict_sort_key:
  fixes f :: "'x \<Rightarrow> 'a::linorder"
  assumes "distinct xs" and "inj_on f (set xs)"
  shows "sorted_wrt (\<lambda>i j. f i < f j) (sort_key f xs)"
proof -
  have d: "distinct (sort_key f xs)" using assms(1) by simp
  have s: "sorted_wrt (\<lambda>i j. f i \<le> f j) (sort_key f xs)"
    using sorted_sort_key [of f xs] by (simp add: sorted_wrt_map)
  have i: "inj_on f (set (sort_key f xs))" using assms(2) by simp
  from d s i show ?thesis by (rule sorted_wrt_strict)
qed

lemma filter_map_eq: "filter P (map f xs) = map f (filter (P \<circ> f) xs)"
  by (simp add: filter_map)

section \<open>Text\<close>

text \<open>
  \<open>str::trim\<close>: the code points with the Unicode property White_Space, as the byte
  sequences that encode them. \<open>ws_prefix\<close> is the number of bytes of a leading
  white-space character, \<open>0\<close> when there is none; \<open>ws_suffix\<close> the same for the reversed
  bytes of the text.
\<close>

abbreviation code :: "char \<Rightarrow> nat" where
  "code c \<equiv> of_char c"

definition ws2 :: "nat list list" where
  "ws2 = [[194, 133], [194, 160]]"

definition ws3 :: "nat list list" where
  "ws3 = [[225, 154, 128], [226, 128, 128], [226, 128, 129], [226, 128, 130], [226, 128, 131],
    [226, 128, 132], [226, 128, 133], [226, 128, 134], [226, 128, 135], [226, 128, 136],
    [226, 128, 137], [226, 128, 138], [226, 128, 168], [226, 128, 169], [226, 128, 175],
    [226, 129, 159], [227, 128, 128]]"

definition ws_ascii :: "nat \<Rightarrow> bool" where
  "ws_ascii b \<longleftrightarrow> b = 32 \<or> (9 \<le> b \<and> b \<le> 13)"

definition ws_prefix :: "string \<Rightarrow> nat" where
  "ws_prefix s = (case map code (take 3 s) of [] \<Rightarrow> 0
     | b # bs \<Rightarrow> if ws_ascii b then 1
        else if take 2 (b # bs) \<in> set ws2 then 2
        else if b # bs \<in> set ws3 then 3 else 0)"

definition ws_suffix :: "string \<Rightarrow> nat" where
  "ws_suffix r = (case map code (take 3 r) of [] \<Rightarrow> 0
     | b # bs \<Rightarrow> if ws_ascii b then 1
        else if rev (take 2 (b # bs)) \<in> set ws2 then 2
        else if rev (b # bs) \<in> set ws3 then 3 else 0)"

function strip_with :: "(string \<Rightarrow> nat) \<Rightarrow> string \<Rightarrow> string" where
  "strip_with w s = (if s = [] \<or> w s = 0 then s else strip_with w (drop (w s) s))"
  by pat_completeness auto
termination
  by (relation "measure (\<lambda>(w, s). length s)") auto

declare strip_with.simps [simp del]

definition trim_start :: "string \<Rightarrow> string" where
  "trim_start s = strip_with ws_prefix s"

definition trim_end :: "string \<Rightarrow> string" where
  "trim_end s = rev (strip_with ws_suffix (rev s))"

definition trim :: "string \<Rightarrow> string" where
  "trim s = trim_end (trim_start s)"

lemma strip_with_length: "length (strip_with w s) \<le> length s"
proof (induction w s rule: strip_with.induct)
  case (1 w s)
  then show ?case
    by (subst strip_with.simps) (auto intro: le_trans)
qed

lemma strip_with_suffix: "\<exists>p. s = p @ strip_with w s"
proof (induction w s rule: strip_with.induct)
  case (1 w s)
  show ?case
  proof (cases "s = [] \<or> w s = 0")
    case True
    then show ?thesis by (simp add: strip_with.simps [of w s])
  next
    case False
    then obtain p where "drop (w s) s = p @ strip_with w (drop (w s) s)"
      using 1 by auto
    then have "s = (take (w s) s @ p) @ strip_with w (drop (w s) s)"
      by (metis append.assoc append_take_drop_id)
    with False have "s = (take (w s) s @ p) @ strip_with w s"
      by (simp add: strip_with.simps [of w s])
    then show ?thesis by blast
  qed
qed

text \<open>Byte predicates of \<open>u8\<close> used on ASCII tokens.\<close>

definition is_ascii_digit :: "char \<Rightarrow> bool" where
  "is_ascii_digit c \<longleftrightarrow> 48 \<le> code c \<and> code c \<le> 57"

definition is_ascii_lowercase :: "char \<Rightarrow> bool" where
  "is_ascii_lowercase c \<longleftrightarrow> 97 \<le> code c \<and> code c \<le> 122"

definition is_ascii_uppercase :: "char \<Rightarrow> bool" where
  "is_ascii_uppercase c \<longleftrightarrow> 65 \<le> code c \<and> code c \<le> 90"

definition is_ascii_alphanumeric :: "char \<Rightarrow> bool" where
  "is_ascii_alphanumeric c \<longleftrightarrow>
     is_ascii_digit c \<or> is_ascii_lowercase c \<or> is_ascii_uppercase c"

definition to_ascii_lowercase :: "char \<Rightarrow> char" where
  "to_ascii_lowercase c = (if is_ascii_uppercase c then char_of (code c + 32) else c)"

definition starts_with :: "string \<Rightarrow> string \<Rightarrow> bool" where
  "starts_with p s \<longleftrightarrow> take (length p) s = p"

end
