(* ===== verification/Types.thy ===== *)
theory Types
  imports Prelude
begin

text \<open>
  Fundamental types (\<open>types.rs\<close>) and the fault taxonomy (\<open>fault.rs\<close>).
  \<open>Generation\<close> wraps a \<open>NonZeroU64\<close>: \<open>generation_ok\<close> is that type's invariant, and
  the constructors are shown to establish it. \<open>Generation\<close> is ordered as its integer,
  as the derived \<open>Ord\<close> orders it.
\<close>

section \<open>Worker generations\<close>

datatype invariant_violation = InvariantViolation string

datatype generation = Generation u64

primrec gen_get :: "generation \<Rightarrow> u64" where
  "gen_get (Generation g) = g"

definition generation_ok :: "generation \<Rightarrow> bool" where
  "generation_ok g \<longleftrightarrow> gen_get g \<noteq> 0"

definition genesis :: generation where
  "genesis = Generation 1"

definition gen_try_new :: "u64 \<Rightarrow> invariant_violation + generation" where
  "gen_try_new g =
     (if g = 0 then Inl (InvariantViolation ''worker generation must be non-zero'')
      else Inr (Generation g))"

definition gen_next :: "generation \<Rightarrow> invariant_violation + generation" where
  "gen_next g =
     (case checked_add (gen_get g) 1 of
        None \<Rightarrow> Inl (InvariantViolation ''worker generation exhausted u64'')
      | Some n \<Rightarrow> if n = 0 then Inl (InvariantViolation ''worker generation exhausted u64'')
                  else Inr (Generation n))"

instantiation generation :: linorder
begin

definition less_eq_generation :: "generation \<Rightarrow> generation \<Rightarrow> bool" where
  "less_eq_generation a b \<longleftrightarrow> gen_get a \<le> gen_get b"

definition less_generation :: "generation \<Rightarrow> generation \<Rightarrow> bool" where
  "less_generation a b \<longleftrightarrow> gen_get a < gen_get b"

instance
proof
  show "x = y" if "x \<le> y" "y \<le> x" for x y :: generation
    using that by (cases x; cases y) (simp add: less_eq_generation_def)
qed (auto simp: less_eq_generation_def less_generation_def)

end

lemma genesis_ok: "generation_ok genesis"
  by (simp add: generation_ok_def genesis_def)

lemma gen_try_new_ok: "gen_try_new g = Inr v \<Longrightarrow> generation_ok v \<and> gen_get v = g"
  by (auto simp: gen_try_new_def generation_ok_def split: if_splits)

lemma gen_next_Inr:
  assumes "gen_next g = Inr h"
  shows "unat (gen_get h) = Suc (unat (gen_get g))"
proof -
  obtain n where n: "checked_add (gen_get g) 1 = Some n" and h: "h = Generation n"
    using assms by (auto simp: gen_next_def split: option.splits if_splits)
  show ?thesis using checked_add_Some [OF n] h by simp
qed

lemma gen_next_less: "gen_next g = Inr h \<Longrightarrow> g < h"
  using gen_next_Inr [of g h] by (simp add: less_generation_def word_less_nat_alt)

lemma gen_next_ok: "gen_next g = Inr h \<Longrightarrow> generation_ok h"
  using gen_next_Inr [of g h] by (auto simp: generation_ok_def)

text \<open>Advancing \<open>n\<close> times, as the restarts of one session do.\<close>

fun gen_advance :: "nat \<Rightarrow> generation \<Rightarrow> invariant_violation + generation" where
  "gen_advance 0 g = Inr g"
| "gen_advance (Suc n) g = (case gen_next g of Inl e \<Rightarrow> Inl e | Inr h \<Rightarrow> gen_advance n h)"

lemma gen_advance_get:
  "gen_advance n g = Inr h \<Longrightarrow> unat (gen_get h) = unat (gen_get g) + n"
proof (induction n arbitrary: g)
  case (Suc n)
  then obtain k where k: "gen_next g = Inr k" and rest: "gen_advance n k = Inr h"
    by (auto split: sum.splits)
  show ?case using gen_next_Inr [OF k] Suc.IH [OF rest] by simp
qed simp

text \<open>
  A generation is never reused: however often a session advances its worker
  generation, distinct numbers of advances give distinct generations, each non-zero
  when the first is; running out of the 64-bit space is an error, not a wrap-around.
\<close>

theorem generation_never_reused:
  assumes "gen_advance m g = Inr h" and "gen_advance n g = Inr k" and "m < n"
  shows "h < k"
  using gen_advance_get [OF assms(1)] gen_advance_get [OF assms(2)] assms(3)
  by (simp add: less_generation_def word_less_nat_alt)

theorem generation_never_reused_witness:
  "Generation 2 < Generation 4 \<and> gen_next (Generation (- 1)) \<noteq> Inr (Generation 0)"
proof -
  have "gen_advance (Suc 0) genesis = Inr (Generation 2)"
    "gen_advance (Suc (Suc (Suc 0))) genesis = Inr (Generation 4)"
    by (simp_all add: genesis_def gen_next_def checked_add_def)
  then show ?thesis
    using generation_never_reused [of "Suc 0" genesis "Generation 2" "Suc (Suc (Suc 0))"]
    by (simp add: gen_next_def checked_add_def)
qed

section \<open>Faults\<close>

datatype fault_class = Transport | Process | Protocol | Timeout | Downstream | Resource
  | ReplayFault | Rollout | AmbiguousFault | InvariantFault

datatype recovery_hint = KeepWorker | ReplaceWorker | RollForward | AbortHost

datatype fault_code = FaultCode string

definition fault_code_try_new :: "string \<Rightarrow> invariant_violation + fault_code" where
  "fault_code_try_new c =
     (if c = [] \<or> \<not> list_all (\<lambda>b. is_ascii_lowercase b \<or> b = CHR ''_'' \<or> is_ascii_digit b) c
      then Inl (InvariantViolation ''fault code must be non-empty lowercase ascii snake_case'')
      else Inr (FaultCode c))"

record fault =
  f_generation :: generation
  f_class :: fault_class
  f_code :: fault_code
  f_recovery_hint :: "recovery_hint option"
  f_detail :: string

definition fault_new ::
    "generation \<Rightarrow> fault_class \<Rightarrow> fault_code \<Rightarrow> recovery_hint option \<Rightarrow> string \<Rightarrow> fault" where
  "fault_new g c k h d =
     \<lparr>f_generation = g, f_class = c, f_code = k, f_recovery_hint = h, f_detail = d\<rparr>"

lemma fault_code_ok:
  "fault_code_try_new c = Inr (FaultCode d) \<Longrightarrow>
     d = c \<and> c \<noteq> [] \<and> (\<forall>b\<in>set c. \<not> is_ascii_uppercase b)"
  by (auto simp: fault_code_try_new_def list_all_iff is_ascii_uppercase_def
      is_ascii_lowercase_def is_ascii_digit_def split: if_splits)

end
