(* ===== verification/Normalize.thy ===== *)
theory Normalize
  imports Prelude
begin

text \<open>
  Normalisation of model-facing input (\<open>normalize.rs\<close>): human-facing unsigned
  integers, the ASCII equivalence key, and local paths. \<open>parse_u64\<close> is the standard
  library's \<open>str::parse::<u64>\<close> (an optional leading plus sign, then ASCII digits).
  The URL parser (crate \<open>url\<close>) is the parameter \<open>file_path_of\<close>: \<open>None\<close> when the text
  is not a URL, \<open>Some None\<close> when it names no local file, \<open>Some (Some p)\<close> otherwise.
  Paths are those of a Unix target.
\<close>

section \<open>Decimal numbers\<close>

definition digit_val :: "char \<Rightarrow> nat" where
  "digit_val c = code c - 48"

definition digits_value :: "string \<Rightarrow> nat" where
  "digits_value ds = foldl (\<lambda>a c. 10 * a + digit_val c) 0 ds"

definition parse_u64 :: "string \<Rightarrow> u64 option" where
  "parse_u64 s =
     (let ds = (case s of [] \<Rightarrow> [] | c # cs \<Rightarrow> if c = CHR ''+'' then cs else s)
      in if ds = [] \<or> \<not> list_all is_ascii_digit ds then None
         else if digits_value ds < 2 ^ 64 then Some (of_nat (digits_value ds)) else None)"

definition digit_char :: "nat \<Rightarrow> char" where
  "digit_char d = char_of (48 + d)"

text \<open>The decimal text of a number, as \<open>Display\<close> of the unsigned types prints it.\<close>

fun show_nat :: "nat \<Rightarrow> string" where
  "show_nat n = (if n < 10 then [digit_char n] else show_nat (n div 10) @ [digit_char (n mod 10)])"

declare show_nat.simps [simp del]

lemma code_digit_char: "d < 10 \<Longrightarrow> code (digit_char d) = 48 + d"
  by (simp add: digit_char_def)

lemma digit_char_ascii: "d < 10 \<Longrightarrow> is_ascii_digit (digit_char d)"
  by (simp add: is_ascii_digit_def code_digit_char)

lemma show_nat_digits: "show_nat n \<noteq> [] \<and> list_all is_ascii_digit (show_nat n)"
proof (induction n rule: show_nat.induct)
  case (1 n)
  then show ?case
    by (subst (1 2) show_nat.simps) (auto simp: digit_char_ascii)
qed

lemma digits_value_snoc: "digits_value (ds @ [c]) = 10 * digits_value ds + digit_val c"
  by (simp add: digits_value_def)

lemma digits_value_show_nat: "digits_value (show_nat n) = n"
proof (induction n rule: show_nat.induct)
  case (1 n)
  show ?case
  proof (cases "n < 10")
    case True
    then show ?thesis
      by (simp add: show_nat.simps [of n] digits_value_def digit_val_def code_digit_char)
  next
    case False
    with 1 have "digits_value (show_nat (n div 10)) = n div 10" by simp
    with False show ?thesis
      by (simp add: show_nat.simps [of n] digits_value_snoc digit_val_def code_digit_char)
  qed
qed

lemma show_nat_inj: "show_nat m = show_nat n \<Longrightarrow> m = n"
  by (metis digits_value_show_nat)

lemma digit_not_plus: "is_ascii_digit c \<Longrightarrow> c \<noteq> CHR ''+''"
  by (auto simp: is_ascii_digit_def)

lemma parse_u64_digits:
  assumes "ds \<noteq> []" and "list_all is_ascii_digit ds"
  shows "parse_u64 ds = (if digits_value ds < 2 ^ 64 then Some (of_nat (digits_value ds)) else None)"
proof -
  obtain c cs where ds: "ds = c # cs" and c: "c \<noteq> CHR ''+''"
    using assms by (cases ds) (auto simp: digit_not_plus)
  then show ?thesis using assms by (simp add: parse_u64_def Let_def)
qed

section \<open>Human-facing integers\<close>

datatype numeric_parse_error = NumEmpty | NumInvalid | NumOutOfRange

definition split_once :: "char \<Rightarrow> string \<Rightarrow> (string \<times> string) option" where
  "split_once c s =
     (if c \<in> set s then Some (takeWhile (\<lambda>x. x \<noteq> c) s, tl (dropWhile (\<lambda>x. x \<noteq> c) s)) else None)"

definition parse_human_unsigned_u64 :: "string \<Rightarrow> numeric_parse_error + u64" where
  "parse_human_unsigned_u64 raw =
     (let trimmed = trim raw in
      if trimmed = [] then Inl NumEmpty
      else case parse_u64 trimmed of
        Some v \<Rightarrow> Inr v
      | None \<Rightarrow>
          if CHR ''.'' \<notin> set trimmed then
            (if list_all is_ascii_digit trimmed then Inl NumOutOfRange else Inl NumInvalid)
          else case split_once (CHR ''.'') trimmed of
            None \<Rightarrow> Inl NumInvalid
          | Some (int_part, fraction) \<Rightarrow>
              if int_part = [] \<or> fraction = [] \<or> \<not> list_all (\<lambda>b. b = CHR ''0'') fraction
              then Inl NumInvalid
              else case parse_u64 int_part of
                Some v \<Rightarrow> Inr v
              | None \<Rightarrow> Inl NumOutOfRange)"

definition checked_u64_to_usize :: "u64 \<Rightarrow> numeric_parse_error + nat" where
  "checked_u64_to_usize v = (if unat v \<le> usize_max then Inr (unat v) else Inl NumOutOfRange)"

definition fold_ascii_token :: "string \<Rightarrow> string" where
  "fold_ascii_token raw = map to_ascii_lowercase (filter is_ascii_alphanumeric raw)"

lemma ws_prefix_ascii: "33 \<le> code c \<Longrightarrow> code c < 128 \<Longrightarrow> ws_prefix (c # s) = 0"
  by (auto simp: ws_prefix_def ws_ascii_def ws2_def ws3_def numeral_3_eq_3 numeral_2_eq_2)

lemma ws_suffix_ascii: "33 \<le> code c \<Longrightarrow> code c < 128 \<Longrightarrow> ws_suffix (c # s) = 0"
  by (auto simp: ws_suffix_def ws_ascii_def ws2_def ws3_def numeral_3_eq_3 numeral_2_eq_2
      append_eq_Cons_conv)

lemma trim_graphic:
  assumes "s \<noteq> []" and "33 \<le> code (hd s)" "code (hd s) < 128"
    and "33 \<le> code (last s)" "code (last s) < 128"
  shows "trim s = s"
proof -
  obtain c cs where s: "s = c # cs" using assms(1) by (cases s) auto
  have "trim_start s = s"
    using assms s unfolding trim_start_def
    by (subst strip_with.simps) (simp add: ws_prefix_ascii)
  moreover have "trim_end s = s"
  proof -
    obtain d ds where r: "rev s = d # ds" using assms(1) by (cases "rev s") auto
    have "d = last s" using r by (metis hd_rev list.sel(1))
    then have "strip_with ws_suffix (rev s) = rev s"
      using assms(4,5) by (subst strip_with.simps) (simp add: r ws_suffix_ascii)
    then show ?thesis by (simp add: trim_end_def)
  qed
  ultimately show ?thesis by (simp add: trim_def)
qed

lemma digit_bounds: "is_ascii_digit c \<Longrightarrow> 33 \<le> code c \<and> code c < 128"
  by (auto simp: is_ascii_digit_def)

lemma digit_not_dot: "is_ascii_digit c \<Longrightarrow> c \<noteq> CHR ''.''"
  by (auto simp: is_ascii_digit_def)

lemma parse_u64_show: "parse_u64 (show_nat (unat v)) = Some v"
proof -
  have "unat v < 2 ^ 64" using unsigned_less [of v] by simp
  then show ?thesis
    using parse_u64_digits [of "show_nat (unat v)"] show_nat_digits
    by (simp add: digits_value_show_nat)
qed

lemma trim_digits:
  assumes "ds \<noteq> []" and "list_all is_ascii_digit ds" and "list_all is_ascii_digit zs"
  shows "trim ds = ds" and "trim (ds @ CHR ''.'' # zs @ [CHR ''0'']) = ds @ CHR ''.'' # zs @ [CHR ''0'']"
proof -
  have h: "33 \<le> code (hd ds)" "code (hd ds) < 128" "33 \<le> code (last ds)" "code (last ds) < 128"
    using assms(1,2) by (auto simp: list_all_iff dest!: digit_bounds)
  show "trim ds = ds" using assms(1) h by (rule trim_graphic)
  show "trim (ds @ CHR ''.'' # zs @ [CHR ''0'']) = ds @ CHR ''.'' # zs @ [CHR ''0'']"
    by (rule trim_graphic) (use assms(1) h in auto)
qed

lemma takeWhile_digits:
  "list_all is_ascii_digit ds \<Longrightarrow>
     takeWhile (\<lambda>x. x \<noteq> CHR ''.'') (ds @ CHR ''.'' # zs) = ds
   \<and> dropWhile (\<lambda>x. x \<noteq> CHR ''.'') (ds @ CHR ''.'' # zs) = CHR ''.'' # zs"
  by (induction ds) (auto simp: digit_not_dot)

lemma split_once_digits:
  "list_all is_ascii_digit ds \<Longrightarrow> split_once (CHR ''.'') (ds @ CHR ''.'' # zs) = Some (ds, zs)"
  using takeWhile_digits [of ds zs] by (simp add: split_once_def)

lemma zeros_replicate: "list_all (\<lambda>b. b = c) f \<Longrightarrow> f = replicate (length f) c"
  by (induction f) auto

lemma split_once_Some:
  assumes "split_once c s = Some (a, b)"
  shows "s = a @ c # b"
proof -
  have c: "c \<in> set s" and a: "a = takeWhile (\<lambda>x. x \<noteq> c) s" and b: "b = tl (dropWhile (\<lambda>x. x \<noteq> c) s)"
    using assms by (auto simp: split_once_def split: if_splits)
  have "dropWhile (\<lambda>x. x \<noteq> c) s \<noteq> []" using c by (simp add: dropWhile_eq_Nil_conv)
  then have "dropWhile (\<lambda>x. x \<noteq> c) s = c # b"
    using hd_dropWhile [of "\<lambda>x. x \<noteq> c" s] b by (metis list.collapse)
  then show ?thesis using a takeWhile_dropWhile_id [of "\<lambda>x. x \<noteq> c" s] by metis
qed

lemma parse_u64_dot: "parse_u64 (ds @ CHR ''.'' # zs) = None"
proof -
  have nd: "\<not> is_ascii_digit (CHR ''.'')" by (simp add: is_ascii_digit_def)
  have np: "CHR ''.'' \<noteq> CHR ''+''" by simp
  show ?thesis
    using nd by (cases ds) (auto simp: parse_u64_def Let_def list_all_iff)
qed

lemma parse_u64_Some:
  assumes "parse_u64 s = Some v"
  obtains ds where "ds \<noteq> []" "list_all is_ascii_digit ds" "s = ds \<or> s = CHR ''+'' # ds"
    "unat v = digits_value ds"
proof -
  define ds where "ds = (case s of [] \<Rightarrow> [] | c # cs \<Rightarrow> if c = CHR ''+'' then cs else s)"
  have *: "ds \<noteq> []" "list_all is_ascii_digit ds" "digits_value ds < 2 ^ 64"
    "v = of_nat (digits_value ds)"
    using assms unfolding parse_u64_def Let_def ds_def [symmetric]
    by (auto split: if_splits)
  have "unat v = digits_value ds"
    using *(3,4) by (simp add: unat_of_nat take_bit_nat_eq_self)
  moreover have "s = ds \<or> s = CHR ''+'' # ds"
    by (auto simp: ds_def split: list.splits if_splits)
  ultimately show ?thesis using * that by blast
qed

text \<open>
  The human-facing integer parser is exact on the spellings it documents: the
  decimal text of every 64-bit value parses to that value, and so does the text
  followed by a point and any positive number of zeros (no rounding through a
  floating-point value, even beyond 2^53).
\<close>

theorem human_integer_roundtrip:
  "parse_human_unsigned_u64 (show_nat (unat v)) = Inr v \<and>
   parse_human_unsigned_u64 (show_nat (unat v) @ CHR ''.'' # replicate n (CHR ''0'') @ [CHR ''0'']) = Inr v"
proof -
  let ?ds = "show_nat (unat v)" and ?zs = "replicate n (CHR ''0'')"
  have d: "?ds \<noteq> []" "list_all is_ascii_digit ?ds" using show_nat_digits by auto
  have z: "list_all is_ascii_digit ?zs" by (simp add: list_all_iff is_ascii_digit_def)
  have t: "trim ?ds = ?ds"
    "trim (?ds @ CHR ''.'' # ?zs @ [CHR ''0'']) = ?ds @ CHR ''.'' # ?zs @ [CHR ''0'']"
    using trim_digits [OF d z] by auto
  have 1: "parse_human_unsigned_u64 ?ds = Inr v"
    using d by (simp add: parse_human_unsigned_u64_def t parse_u64_show)
  have 2: "parse_human_unsigned_u64 (?ds @ CHR ''.'' # ?zs @ [CHR ''0'']) = Inr v"
    unfolding parse_human_unsigned_u64_def Let_def t
    using d by (simp add: parse_u64_dot split_once_digits parse_u64_show list_all_iff)
  show ?thesis using 1 2 by simp
qed

text \<open>
  Whatever the parser accepts is exact: the trimmed text is a run of digits
  (with an optional plus sign), or such a run followed by a point and zeros only, and
  the result is the value of those digits.
\<close>

theorem human_integer_sound:
  assumes "parse_human_unsigned_u64 raw = Inr v"
  shows "\<exists>ds sgn frac. list_all is_ascii_digit ds \<and> ds \<noteq> [] \<and> (sgn = [] \<or> sgn = ''+'') \<and>
    (frac = [] \<or> (\<exists>n. frac = CHR ''.'' # replicate (Suc n) (CHR ''0''))) \<and>
    trim raw = sgn @ ds @ frac \<and> unat v = digits_value ds"
proof (cases "parse_u64 (trim raw)")
  case (Some w)
  with assms have "w = v" by (auto simp: parse_human_unsigned_u64_def Let_def split: if_splits)
  with Some obtain ds where "ds \<noteq> []" "list_all is_ascii_digit ds"
    "trim raw = ds \<or> trim raw = CHR ''+'' # ds" "unat v = digits_value ds"
    by (auto elim: parse_u64_Some)
  then show ?thesis
    by (intro exI [of _ ds] exI [of _ "if trim raw = ds then [] else ''+''"] exI [of _ "[]"]) auto
next
  case None
  obtain i f where sp: "split_once (CHR ''.'') (trim raw) = Some (i, f)"
    and f: "f \<noteq> []" "list_all (\<lambda>b. b = CHR ''0'') f" and i: "parse_u64 i = Some v"
    using assms None
    by (auto simp: parse_human_unsigned_u64_def Let_def split: if_splits option.splits)
  obtain ds where ds: "ds \<noteq> []" "list_all is_ascii_digit ds" "i = ds \<or> i = CHR ''+'' # ds"
    "unat v = digits_value ds"
    using i by (auto elim: parse_u64_Some)
  from sp have raw: "trim raw = i @ CHR ''.'' # f" by (rule split_once_Some)
  obtain n where "f = replicate (Suc n) (CHR ''0'')"
    using zeros_replicate [OF f(2)] f(1) by (cases f) (metis length_Cons)+
  then have fr: "\<exists>n. CHR ''.'' # f = CHR ''.'' # replicate (Suc n) (CHR ''0'')" by blast
  from ds(3) show ?thesis
  proof
    assume "i = ds"
    with ds(1,2,4) raw fr show ?thesis
      by - (rule exI [of _ ds], rule exI [of _ "[]"], rule exI [of _ "CHR ''.'' # f"], simp)
  next
    assume "i = CHR ''+'' # ds"
    with ds(1,2,4) raw fr show ?thesis
      by - (rule exI [of _ ds], rule exI [of _ "''+''"], rule exI [of _ "CHR ''.'' # f"], simp)
  qed
qed

theorem human_integer_sound_witness:
  "\<exists>ds sgn frac. list_all is_ascii_digit ds \<and> ds \<noteq> [] \<and> (sgn = [] \<or> sgn = ''+'') \<and>
    (frac = [] \<or> (\<exists>n. frac = CHR ''.'' # replicate (Suc n) (CHR ''0''))) \<and>
    trim '' 42.0 '' = sgn @ ds @ frac \<and> unat (42 :: u64) = digits_value ds"
proof (rule human_integer_sound)
  have "trim '' 42.0 '' = ''42.0''" by code_simp
  then show "parse_human_unsigned_u64 '' 42.0 '' = Inr 42"
    by (simp add: parse_human_unsigned_u64_def parse_u64_def split_once_def digits_value_def
        digit_val_def is_ascii_digit_def)
qed

text \<open>
  The error of a text with a fraction of zeros and a non-numeric integer part is
  \<open>OutOfRange\<close>, not \<open>Invalid\<close>: such a text is reported as an integer that does not fit,
  though it is no integer at all.
\<close>

theorem human_integer_misclassified:
  "parse_human_unsigned_u64 ''abc.0'' = Inl NumOutOfRange \<and>
   parse_human_unsigned_u64 ''-1.0'' = Inl NumOutOfRange \<and>
   parse_human_unsigned_u64 ''-1'' = Inl NumInvalid"
proof -
  have "trim ''abc.0'' = ''abc.0''" "trim ''-1.0'' = ''-1.0''" "trim ''-1'' = ''-1''"
    by code_simp+
  then show ?thesis
    by (simp add: parse_human_unsigned_u64_def parse_u64_def split_once_def is_ascii_digit_def)
qed

section \<open>Local paths\<close>

datatype path_normalize_error = PathEmpty | PathSurroundingWhitespace | PathInvalidFileUri
  | PathNonLocalFileUri

definition is_absolute :: "string \<Rightarrow> bool" where
  "is_absolute p \<longleftrightarrow> starts_with ''/'' p"

definition path_join :: "string \<Rightarrow> string \<Rightarrow> string" where
  "path_join root p =
     (if is_absolute p then p
      else if root = [] \<or> last root = CHR ''/'' then root @ p else root @ ''/'' @ p)"

definition normalize_local_path ::
    "(string \<Rightarrow> string option option) \<Rightarrow> string \<Rightarrow> string option \<Rightarrow> path_normalize_error + string" where
  "normalize_local_path file_path_of raw workspace_root =
     (if raw = [] then Inl PathEmpty
      else if trim raw \<noteq> raw then Inl PathSurroundingWhitespace
      else case (if starts_with ''file://'' raw then
                   (case file_path_of raw of
                      None \<Rightarrow> Inl PathInvalidFileUri
                    | Some None \<Rightarrow> Inl PathNonLocalFileUri
                    | Some (Some p) \<Rightarrow> Inr p)
                 else Inr raw) of
        Inl e \<Rightarrow> Inl e
      | Inr parsed \<Rightarrow>
          Inr (if is_absolute parsed then parsed
               else case workspace_root of
                 Some root \<Rightarrow> path_join root parsed
               | None \<Rightarrow> parsed))"

lemma is_absolute_join: "is_absolute root \<Longrightarrow> is_absolute (path_join root p)"
  by (cases root) (auto simp: path_join_def is_absolute_def starts_with_def)

lemma normalize_local_path_absolute:
  "normalize_local_path fp raw (Some root) = Inr p \<Longrightarrow> is_absolute root \<Longrightarrow> is_absolute p"
  by (auto simp: normalize_local_path_def is_absolute_join split: if_splits sum.splits)

lemma normalize_local_path_idem:
  assumes "normalize_local_path fp raw (Some root) = Inr p" and "is_absolute root"
    and "trim p = p" and "\<not> starts_with ''file://'' p"
  shows "normalize_local_path fp p ws = Inr p"
proof -
  have "is_absolute p" by (rule normalize_local_path_absolute [OF assms(1,2)])
  moreover from this have "p \<noteq> []" by (auto simp: is_absolute_def starts_with_def)
  ultimately show ?thesis using assms(3,4) by (simp add: normalize_local_path_def)
qed

end
