(* ===== verification/Json.thy ===== *)
theory Json
  imports Prelude
begin

text \<open>
  JSON values and the library code they come from.

  \<open>'n json\<close> has one constructor per variant of \<open>serde_json::Value\<close> that the source
  matches on; \<open>'n\<close> is the library's opaque \<open>Number\<close>. An object is the list of its
  members in key order (\<open>serde_json\<close> is built without \<open>preserve_order\<close>, so its \<open>Map\<close>
  is a \<open>BTreeMap\<close>): \<open>obj_insert\<close>, \<open>obj_remove\<close> and \<open>map_of\<close> are that map's
  operations, shown to be a finite map by an interpretation of the shared interface.

  What the source calls in \<open>serde\<close>, \<open>serde_json\<close> and \<open>url\<close> is not part of the
  repository: it is the record \<open>'n extern\<close>, an argument of every definition that
  uses it. \<open>x_events\<close> is the byte parser as the visitor sees it: the tree of the
  \<open>visit_*\<close> calls it makes, \<open>None\<close> for text that is not JSON. A 64-bit float is its
  bit pattern.

  The last section is the visitor of \<open>jsonrpc.rs\<close> that builds a value and remembers
  the first repeated object member.
\<close>

datatype 'n json = JNull | JBool bool | JNumber 'n | JString string
  | JArray "'n json list" | JObject "(string \<times> 'n json) list"

type_synonym 'n obj = "(string \<times> 'n json) list"

datatype event = VisitBool bool | VisitI64 u64 | VisitU64 u64 | VisitF64 u64
  | VisitStr string | VisitNone | VisitUnit
  | VisitSeq "event list" | VisitMap "(string \<times> event) list"

record 'n extern =
  x_events :: "byte list \<Rightarrow> event option"
  x_from_i64 :: "u64 \<Rightarrow> 'n"
  x_from_u64 :: "u64 \<Rightarrow> 'n"
  x_from_f64 :: "u64 \<Rightarrow> 'n option"
  x_as_i64 :: "'n \<Rightarrow> u64 option"
  x_as_u64 :: "'n \<Rightarrow> u64 option"
  x_from_str :: "string \<Rightarrow> 'n json option"
  x_to_vec :: "'n json \<Rightarrow> byte list option"
  x_json_text :: "'n json \<Rightarrow> string"
  x_pointer :: "'n json \<Rightarrow> string \<Rightarrow> 'n json option"
  x_file_path :: "string \<Rightarrow> string option option"

section \<open>Objects\<close>

fun obj_insert :: "string \<Rightarrow> 'n json \<Rightarrow> 'n obj \<Rightarrow> 'n obj" where
  "obj_insert k v [] = [(k, v)]"
| "obj_insert k v ((k', v') # ms) =
     (if k = k' then (k, v) # ms
      else if k < k' then (k, v) # (k', v') # ms
      else (k', v') # obj_insert k v ms)"

definition obj_remove :: "string \<Rightarrow> 'n obj \<Rightarrow> 'n obj" where
  "obj_remove k ms = filter (\<lambda>(k', _). k' \<noteq> k) ms"

definition obj_ok :: "'n obj \<Rightarrow> bool" where
  "obj_ok ms \<longleftrightarrow> sorted_wrt (<) (map fst ms)"

definition contains_key :: "'n obj \<Rightarrow> string \<Rightarrow> bool" where
  "contains_key ms k \<longleftrightarrow> map_of ms k \<noteq> None"

definition obj_entry_or :: "string \<Rightarrow> 'n json \<Rightarrow> 'n obj \<Rightarrow> 'n obj" where
  "obj_entry_or k v ms = (if contains_key ms k then ms else obj_insert k v ms)"

lemma map_of_obj_insert [lookup_simps]: "map_of (obj_insert k v ms) = (map_of ms)(k \<mapsto> v)"
  by (induction k v ms rule: obj_insert.induct) (auto simp: fun_eq_iff)

lemma map_of_obj_remove [lookup_simps]: "map_of (obj_remove k ms) = (map_of ms)(k := None)"
  by (induction ms) (auto simp: obj_remove_def fun_eq_iff)

lemma keys_obj_insert: "fst ` set (obj_insert k v ms) = insert k (fst ` set ms)"
  by (induction k v ms rule: obj_insert.induct) auto

lemma obj_ok_Nil [simp]: "obj_ok []"
  by (simp add: obj_ok_def)

lemma obj_ok_Cons [simp]: "obj_ok ((k, v) # ms) \<longleftrightarrow> (\<forall>k'\<in>fst ` set ms. k < k') \<and> obj_ok ms"
  by (auto simp: obj_ok_def)

lemma obj_ok_insert [simp]: "obj_ok ms \<Longrightarrow> obj_ok (obj_insert k v ms)"
proof (induction k v ms rule: obj_insert.induct)
  case (2 k v k' v' ms)
  then show ?case
    by (cases "k = k'"; cases "k < k'")
      (auto simp: keys_obj_insert simp flip: image_iff dest: order.strict_trans)
qed simp

lemma obj_ok_remove [simp]: "obj_ok ms \<Longrightarrow> obj_ok (obj_remove k ms)"
  unfolding obj_ok_def obj_remove_def by (induction ms) auto

lemma obj_ok_entry_or [simp]: "obj_ok ms \<Longrightarrow> obj_ok (obj_entry_or k v ms)"
  by (simp add: obj_entry_or_def)

lemma obj_ok_distinct: "obj_ok ms \<Longrightarrow> distinct (map fst ms)"
  unfolding obj_ok_def by (induction ms) auto

interpretation json_obj: finite_map map_of obj_insert obj_remove "\<lambda>m. m" obj_ok
  by unfold_locales (simp_all add: lookup_simps obj_ok_distinct)

lemma contains_key_insert [simp]: "contains_key (obj_insert k v ms) k' = (k' = k \<or> contains_key ms k')"
  by (simp add: contains_key_def lookup_simps)

section \<open>Accessors of a value\<close>

definition as_object :: "'n json \<Rightarrow> 'n obj option" where
  "as_object v = (case v of JObject ms \<Rightarrow> Some ms | _ \<Rightarrow> None)"

definition as_array :: "'n json \<Rightarrow> 'n json list option" where
  "as_array v = (case v of JArray vs \<Rightarrow> Some vs | _ \<Rightarrow> None)"

definition as_str :: "'n json \<Rightarrow> string option" where
  "as_str v = (case v of JString s \<Rightarrow> Some s | _ \<Rightarrow> None)"

definition as_bool :: "'n json \<Rightarrow> bool option" where
  "as_bool v = (case v of JBool b \<Rightarrow> Some b | _ \<Rightarrow> None)"

definition as_i64 :: "'n extern \<Rightarrow> 'n json \<Rightarrow> u64 option" where
  "as_i64 X v = (case v of JNumber n \<Rightarrow> x_as_i64 X n | _ \<Rightarrow> None)"

definition as_u64 :: "'n extern \<Rightarrow> 'n json \<Rightarrow> u64 option" where
  "as_u64 X v = (case v of JNumber n \<Rightarrow> x_as_u64 X n | _ \<Rightarrow> None)"

definition is_object :: "'n json \<Rightarrow> bool" where
  "is_object v \<longleftrightarrow> as_object v \<noteq> None"

definition is_array :: "'n json \<Rightarrow> bool" where
  "is_array v \<longleftrightarrow> as_array v \<noteq> None"

definition get_member :: "'n json \<Rightarrow> string \<Rightarrow> 'n json option" where
  "get_member v k = Option.bind (as_object v) (\<lambda>ms. map_of ms k)"

lemma as_simps [simp]:
  "as_object (JObject ms) = Some ms" "as_array (JArray vs) = Some vs"
  "as_str (JString s) = Some s" "as_bool (JBool b) = Some b"
  "as_i64 X (JNumber n) = x_as_i64 X n" "as_u64 X (JNumber n) = x_as_u64 X n"
  by (simp_all add: as_object_def as_array_def as_str_def as_bool_def as_i64_def as_u64_def)

lemma as_Some_iff:
  "as_object v = Some ms \<longleftrightarrow> v = JObject ms" "as_array v = Some vs \<longleftrightarrow> v = JArray vs"
  "as_str v = Some s \<longleftrightarrow> v = JString s" "as_bool v = Some b \<longleftrightarrow> v = JBool b"
  by (auto simp: as_object_def as_array_def as_str_def as_bool_def split: json.splits)

text \<open>The weight of a value: a bound on the depth of the recursions over it.\<close>

fun jweight :: "'n json \<Rightarrow> nat" where
  "jweight (JString s) = Suc (length s)"
| "jweight (JArray vs) = Suc (sum_list (map jweight vs))"
| "jweight (JObject ms) = Suc (sum_list (map (\<lambda>m. jweight (snd m)) ms))"
| "jweight _ = 1"

lemma jweight_pos: "0 < jweight v"
  by (cases v) auto

section \<open>The visitor that rejects repeated members\<close>

record 'n distinct_json =
  d_value :: "'n json"
  d_duplicate :: "string option"

definition unique :: "'n json \<Rightarrow> 'n distinct_json" where
  "unique v = \<lparr>d_value = v, d_duplicate = None\<rparr>"

definition or_else :: "'a option \<Rightarrow> 'a option \<Rightarrow> 'a option" where
  "or_else a b = (case a of Some _ \<Rightarrow> a | None \<Rightarrow> b)"

fun visit :: "'n extern \<Rightarrow> event \<Rightarrow> 'n distinct_json option"
  and visit_seq :: "'n extern \<Rightarrow> event list \<Rightarrow> 'n json list \<Rightarrow> string option \<Rightarrow> 'n distinct_json option"
  and visit_map :: "'n extern \<Rightarrow> (string \<times> event) list \<Rightarrow> 'n obj \<Rightarrow> string option \<Rightarrow> 'n distinct_json option"
where
  "visit X (VisitBool b) = Some (unique (JBool b))"
| "visit X (VisitI64 i) = Some (unique (JNumber (x_from_i64 X i)))"
| "visit X (VisitU64 i) = Some (unique (JNumber (x_from_u64 X i)))"
| "visit X (VisitF64 f) = map_option (\<lambda>n. unique (JNumber n)) (x_from_f64 X f)"
| "visit X (VisitStr s) = Some (unique (JString s))"
| "visit X VisitNone = Some (unique JNull)"
| "visit X VisitUnit = Some (unique JNull)"
| "visit X (VisitSeq es) = visit_seq X es [] None"
| "visit X (VisitMap ms) = visit_map X ms [] None"
| "visit_seq X [] vs dup = Some \<lparr>d_value = JArray vs, d_duplicate = dup\<rparr>"
| "visit_seq X (e # es) vs dup =
     (case visit X e of None \<Rightarrow> None
      | Some d \<Rightarrow> visit_seq X es (vs @ [d_value d]) (or_else dup (d_duplicate d)))"
| "visit_map X [] obj dup = Some \<lparr>d_value = JObject obj, d_duplicate = dup\<rparr>"
| "visit_map X ((k, e) # ms) obj dup =
     (case visit X e of None \<Rightarrow> None
      | Some d \<Rightarrow>
          (let dup1 = or_else dup (d_duplicate d);
               dup2 = (if contains_key obj k then or_else dup1 (Some k) else dup1)
           in visit_map X ms (obj_insert k (d_value d) obj) dup2))"

text \<open>
  The reference reading of an event tree: the value it denotes, with later members
  overriding earlier ones, and whether all member names are distinct at every depth.
\<close>

fun value_of :: "'n extern \<Rightarrow> event \<Rightarrow> 'n json option" where
  "value_of X (VisitBool b) = Some (JBool b)"
| "value_of X (VisitI64 i) = Some (JNumber (x_from_i64 X i))"
| "value_of X (VisitU64 i) = Some (JNumber (x_from_u64 X i))"
| "value_of X (VisitF64 f) = map_option JNumber (x_from_f64 X f)"
| "value_of X (VisitStr s) = Some (JString s)"
| "value_of X VisitNone = Some JNull"
| "value_of X VisitUnit = Some JNull"
| "value_of X (VisitSeq es) = map_option JArray (those (map (value_of X) es))"
| "value_of X (VisitMap ms) =
     map_option (\<lambda>vs. JObject (foldl (\<lambda>o' (k, v). obj_insert k v o') [] (zip (map fst ms) vs)))
       (those (map (\<lambda>m. value_of X (snd m)) ms))"

fun distinct_members :: "event \<Rightarrow> bool" where
  "distinct_members (VisitSeq es) = list_all distinct_members es"
| "distinct_members (VisitMap ms) =
     (distinct (map fst ms) \<and> list_all (\<lambda>m. distinct_members (snd m)) ms)"
| "distinct_members _ = True"

lemma or_else_None [simp]: "or_else a b = None \<longleftrightarrow> a = None \<and> b = None"
  by (auto simp: or_else_def split: option.splits)

lemma those_Cons_Some:
  "those (x # xs) = Some ys \<longleftrightarrow> (\<exists>y zs. x = Some y \<and> those xs = Some zs \<and> ys = y # zs)"
  by (auto split: option.splits)

lemma visit_correct:
  "rel_option (\<lambda>d v. d_value d = v \<and> (d_duplicate d = None \<longleftrightarrow> distinct_members e))
     (visit X e) (value_of X e)"
  "rel_option (\<lambda>d ws. d_value d = JArray (vs @ ws) \<and>
       (d_duplicate d = None \<longleftrightarrow> dup = None \<and> list_all distinct_members es))
     (visit_seq X es vs dup) (those (map (value_of X) es))"
  "rel_option (\<lambda>d ws. d_value d =
         JObject (foldl (\<lambda>o' (k, v). obj_insert k v o') obj (zip (map fst ms) ws)) \<and>
       (d_duplicate d = None \<longleftrightarrow> dup = None \<and> distinct (map fst ms) \<and>
          (\<forall>k\<in>set (map fst ms). \<not> contains_key obj k) \<and> list_all (\<lambda>m. distinct_members (snd m)) ms))
     (visit_map X ms obj dup) (those (map (\<lambda>m. value_of X (snd m)) ms))"
proof (induction X e and X es vs dup and X ms obj dup rule: visit_visit_seq_visit_map.induct)
  case (4 X f)
  then show ?case by (cases "x_from_f64 X f") (auto simp: unique_def)
next
  case (8 X es)
  then show ?case
    by (cases "visit_seq X es [] None") (auto simp: option_rel_Some1)
next
  case (9 X ms)
  then show ?case
    by (cases "visit_map X ms [] None") (auto simp: option_rel_Some1 contains_key_def)
next
  case (11 X e es vs dup)
  show ?case
  proof (cases "visit X e")
    case None
    with 11(1) show ?thesis by simp
  next
    case (Some d)
    with 11(1) have v: "value_of X e = Some (d_value d)"
      and u: "d_duplicate d = None \<longleftrightarrow> distinct_members e" by (auto simp: option_rel_Some1)
    show ?thesis using 11(2) [OF Some] Some v u
      by (cases "visit_seq X es (vs @ [d_value d]) (or_else dup (d_duplicate d))")
        (auto simp: option_rel_Some1)
  qed
next
  case (13 X k e ms obj dup)
  show ?case
  proof (cases "visit X e")
    case None
    with 13(1) show ?thesis by simp
  next
    case (Some d)
    with 13(1) have v: "value_of X e = Some (d_value d)"
      and u: "d_duplicate d = None \<longleftrightarrow> distinct_members e" by (auto simp: option_rel_Some1)
    define dup2 where "dup2 = (if contains_key obj k then or_else (or_else dup (d_duplicate d)) (Some k)
      else or_else dup (d_duplicate d))"
    have d2: "dup2 = None \<longleftrightarrow> dup = None \<and> distinct_members e \<and> \<not> contains_key obj k"
      using u by (auto simp: dup2_def)
    have step: "visit_map X ((k, e) # ms) obj dup = visit_map X ms (obj_insert k (d_value d) obj) dup2"
      by (simp add: Some dup2_def Let_def)
    show ?thesis using 13(2) [OF Some refl dup2_def] v d2 unfolding step
      by (cases "visit_map X ms (obj_insert k (d_value d) obj) dup2")
        (auto simp: option_rel_Some1)
  qed
qed (simp_all add: unique_def)

text \<open>The visitor never yields a value whose objects are out of key order.\<close>

fun json_ok :: "'n json \<Rightarrow> bool" where
  "json_ok (JArray vs) = list_all json_ok vs"
| "json_ok (JObject ms) = (obj_ok ms \<and> list_all (\<lambda>m. json_ok (snd m)) ms)"
| "json_ok _ = True"

lemma set_obj_insert: "set (obj_insert k v ms) \<subseteq> insert (k, v) (set ms)"
  by (induction k v ms rule: obj_insert.induct) auto

lemma json_ok_insert:
  "obj_ok ms \<Longrightarrow> list_all (\<lambda>m. json_ok (snd m)) ms \<Longrightarrow> json_ok v \<Longrightarrow>
     json_ok (JObject (obj_insert k v ms))"
  using set_obj_insert [of k v ms] by (auto simp: list_all_iff)

lemma visit_json_ok:
  "visit X e = Some d \<Longrightarrow> json_ok (d_value d)"
  "visit_seq X es vs dup = Some d \<Longrightarrow> list_all json_ok vs \<Longrightarrow> json_ok (d_value d)"
  "visit_map X ms obj dup = Some d \<Longrightarrow> json_ok (JObject obj) \<Longrightarrow> json_ok (d_value d)"
proof (induction X e and X es vs dup and X ms obj dup arbitrary: d and d and d
    rule: visit_visit_seq_visit_map.induct)
  case (11 X e es vs dup)
  then show ?case by (auto split: option.splits)
next
  case (13 X k e ms obj dup)
  then show ?case using json_ok_insert by (fastforce simp: Let_def split: option.splits)
qed (auto simp: unique_def split: option.splits)

end
