(* ===== verification/Jsonrpc.thy ===== *)
theory Jsonrpc
  imports Json Normalize
begin

text \<open>
  JSON-RPC envelopes (\<open>jsonrpc.rs\<close>): request identifiers, method and tool tokens,
  the validated frame, and the telemetry metadata of a tool call.

  A frame seals payload, value and envelope together; \<open>frame_ok\<close> is the invariant that
  only \<open>FramedMessage::parse\<close> makes one. The path-hint search descends into JSON text
  nested in strings, which the library parses: it runs on fuel, and the weight of the
  value is shown to be enough whenever parsing yields values no heavier than their text.
\<close>

section \<open>Identifiers and tokens\<close>

datatype 'n request_id = IdNumber 'n | IdText string

definition request_id_from_json :: "'n json \<Rightarrow> 'n request_id option" where
  "request_id_from_json v =
     (case v of JNumber n \<Rightarrow> Some (IdNumber n) | JString t \<Rightarrow> Some (IdText t) | _ \<Rightarrow> None)"

definition request_id_to_json :: "'n request_id \<Rightarrow> 'n json" where
  "request_id_to_json i = (case i of IdNumber n \<Rightarrow> JNumber n | IdText t \<Rightarrow> JString t)"

lemma request_id_roundtrip [simp]: "request_id_from_json (request_id_to_json i) = Some i"
  by (cases i) (simp_all add: request_id_from_json_def request_id_to_json_def)

lemma request_id_to_json_inj [simp]: "request_id_to_json i = request_id_to_json j \<longleftrightarrow> i = j"
  by (cases i; cases j) (auto simp: request_id_to_json_def)

lemma request_id_to_json_from: "request_id_from_json v = Some i \<Longrightarrow> request_id_to_json i = v"
  by (auto simp: request_id_from_json_def request_id_to_json_def split: json.splits)

datatype rpc_method = RpcMethod string

primrec method_text :: "rpc_method \<Rightarrow> string" where
  "method_text (RpcMethod m) = m"

instantiation rpc_method :: linorder
begin

definition less_eq_rpc_method :: "rpc_method \<Rightarrow> rpc_method \<Rightarrow> bool" where
  "less_eq_rpc_method a b \<longleftrightarrow> method_text a \<le> method_text b"

definition less_rpc_method :: "rpc_method \<Rightarrow> rpc_method \<Rightarrow> bool" where
  "less_rpc_method a b \<longleftrightarrow> method_text a < method_text b"

instance
proof
  show "x = y" if "x \<le> y" "y \<le> x" for x y :: rpc_method
    using that by (cases x; cases y) (simp add: less_eq_rpc_method_def)
qed (auto simp: less_eq_rpc_method_def less_rpc_method_def)

end

definition method_try_new :: "string \<Rightarrow> rpc_method option" where
  "method_try_new m = (if trim m = [] then None else Some (RpcMethod m))"

definition tools_call :: rpc_method where
  "tools_call = RpcMethod ''tools/call''"

definition method_from_json :: "'n json \<Rightarrow> rpc_method option" where
  "method_from_json v = Option.bind (as_str v) method_try_new"

definition is_initialize :: "rpc_method \<Rightarrow> bool" where
  "is_initialize m \<longleftrightarrow> method_text m = ''initialize''"

definition is_initialized_notification :: "rpc_method \<Rightarrow> bool" where
  "is_initialized_notification m \<longleftrightarrow>
     method_text m = ''initialized'' \<or> method_text m = ''notifications/initialized''"

definition is_tools_call :: "rpc_method \<Rightarrow> bool" where
  "is_tools_call m \<longleftrightarrow> method_text m = ''tools/call''"

datatype tool_name = ToolName string

primrec tool_text :: "tool_name \<Rightarrow> string" where
  "tool_text (ToolName t) = t"

definition tool_name_try_new :: "string \<Rightarrow> tool_name option" where
  "tool_name_try_new t = (if trim t = [] then None else Some (ToolName t))"

definition is_advanced_lsp_request :: "tool_name \<Rightarrow> bool" where
  "is_advanced_lsp_request t \<longleftrightarrow> fold_ascii_token (tool_text t) = ''advancedlsprequest''"

section \<open>Envelopes and frames\<close>

datatype frame_error = InvalidJson | DuplicateObjectMember string | RootNotObject
  | InvalidVersion | InvalidMethod | InvalidRequestId | InvalidParams | AmbiguousEnvelope
  | InvalidError

datatype 'n envelope = Request "'n request_id" rpc_method | Notification rpc_method
  | Response "'n request_id" bool

record 'n frame =
  fr_payload :: "byte list"
  fr_value :: "'n json"
  fr_envelope :: "'n envelope"

definition valid_error_object :: "'n extern \<Rightarrow> 'n json \<Rightarrow> bool" where
  "valid_error_object X e = (case as_object e of None \<Rightarrow> False
     | Some ms \<Rightarrow> Option.bind (map_of ms ''code'') (as_i64 X) \<noteq> None
               \<and> Option.bind (map_of ms ''message'') as_str \<noteq> None)"

definition validate_envelope :: "'n extern \<Rightarrow> 'n obj \<Rightarrow> frame_error + 'n envelope" where
  "validate_envelope X ms =
     (if Option.bind (map_of ms ''jsonrpc'') as_str \<noteq> Some ''2.0'' then Inl InvalidVersion
      else case map_of ms ''method'' of
        Some method_value \<Rightarrow>
          if contains_key ms ''result'' \<or> contains_key ms ''error'' then Inl AmbiguousEnvelope
          else if (case map_of ms ''params'' of None \<Rightarrow> False
                   | Some p \<Rightarrow> \<not> is_object p \<and> \<not> is_array p) then Inl InvalidParams
          else (case method_from_json method_value of None \<Rightarrow> Inl InvalidMethod
            | Some m \<Rightarrow> (case map_of ms ''id'' of
                Some i \<Rightarrow> (case request_id_from_json i of
                    Some i' \<Rightarrow> Inr (Request i' m) | None \<Rightarrow> Inl InvalidRequestId)
              | None \<Rightarrow> Inr (Notification m)))
      | None \<Rightarrow>
          if contains_key ms ''params'' then Inl AmbiguousEnvelope
          else (case Option.bind (map_of ms ''id'') request_id_from_json of
              None \<Rightarrow> Inl InvalidRequestId
            | Some i \<Rightarrow>
                (let has_result = contains_key ms ''result''; has_error = contains_key ms ''error''
                 in if has_result = has_error then Inl AmbiguousEnvelope
                    else if has_error \<and> (case map_of ms ''error'' of None \<Rightarrow> True
                                          | Some e \<Rightarrow> \<not> valid_error_object X e)
                    then Inl InvalidError
                    else Inr (Response i has_error))))"

definition frame_parse :: "'n extern \<Rightarrow> byte list \<Rightarrow> frame_error + 'n frame" where
  "frame_parse X payload =
     (case Option.bind (x_events X payload) (visit X) of
        None \<Rightarrow> Inl InvalidJson
      | Some parsed \<Rightarrow>
          (case d_duplicate parsed of
             Some member \<Rightarrow> Inl (DuplicateObjectMember member)
           | None \<Rightarrow>
               (case as_object (d_value parsed) of
                  None \<Rightarrow> Inl RootNotObject
                | Some ms \<Rightarrow>
                    (case validate_envelope X ms of
                       Inl e \<Rightarrow> Inl e
                     | Inr env \<Rightarrow> Inr \<lparr>fr_payload = payload, fr_value = d_value parsed,
                                        fr_envelope = env\<rparr>))))"

definition frame_ok :: "'n extern \<Rightarrow> 'n frame \<Rightarrow> bool" where
  "frame_ok X f \<longleftrightarrow> frame_parse X (fr_payload f) = Inr f"

lemma frame_parse_ok: "frame_parse X p = Inr f \<Longrightarrow> frame_ok X f \<and> fr_payload f = p"
  by (auto simp: frame_ok_def frame_parse_def split: option.splits sum.splits)

lemma frame_parse_Inr:
  assumes "frame_parse X p = Inr f"
  obtains e ms where "x_events X p = Some e" "distinct_members e" "value_of X e = Some (JObject ms)"
    "obj_ok ms" "fr_value f = JObject ms" "validate_envelope X ms = Inr (fr_envelope f)"
    "fr_payload f = p"
proof -
  from assms obtain e d ms env where e: "x_events X p = Some e" and d: "visit X e = Some d"
    and dup: "d_duplicate d = None" and ms: "d_value d = JObject ms"
    and env: "validate_envelope X ms = Inr env"
    and f: "f = \<lparr>fr_payload = p, fr_value = d_value d, fr_envelope = env\<rparr>"
    by (auto simp: frame_parse_def as_Some_iff bind_eq_Some_conv
        split: option.splits sum.splits)
  have "value_of X e = Some (d_value d)" "distinct_members e"
    using visit_correct(1) [of e X] d dup by (auto simp: option_rel_Some1)
  moreover have "obj_ok ms" using visit_json_ok(1) [OF d] ms by simp
  ultimately show thesis using that e ms env f by simp
qed

text \<open>
  C20. A payload is accepted as a frame exactly when it is JSON whose object members are
  distinct at every depth, its root is an object, and the envelope rules hold; the frame
  then carries that payload, the value it denotes and the envelope, sealed together.
\<close>

theorem frame_parse_exact:
  "frame_parse X p = Inr f \<longleftrightarrow>
     (\<exists>e ms env. x_events X p = Some e \<and> distinct_members e \<and> value_of X e = Some (JObject ms) \<and>
        validate_envelope X ms = Inr env \<and>
        f = \<lparr>fr_payload = p, fr_value = JObject ms, fr_envelope = env\<rparr>)"
proof
  assume "frame_parse X p = Inr f"
  then show "\<exists>e ms env. x_events X p = Some e \<and> distinct_members e \<and>
      value_of X e = Some (JObject ms) \<and> validate_envelope X ms = Inr env \<and>
      f = \<lparr>fr_payload = p, fr_value = JObject ms, fr_envelope = env\<rparr>"
    by (elim frame_parse_Inr) (auto intro!: exI)
next
  assume "\<exists>e ms env. x_events X p = Some e \<and> distinct_members e \<and>
      value_of X e = Some (JObject ms) \<and> validate_envelope X ms = Inr env \<and>
      f = \<lparr>fr_payload = p, fr_value = JObject ms, fr_envelope = env\<rparr>"
  then obtain e ms env where *: "x_events X p = Some e" "distinct_members e"
    "value_of X e = Some (JObject ms)" "validate_envelope X ms = Inr env"
    "f = \<lparr>fr_payload = p, fr_value = JObject ms, fr_envelope = env\<rparr>" by blast
  then obtain d where "visit X e = Some d" "d_value d = JObject ms" "d_duplicate d = None"
    using visit_correct(1) [of e X] by (auto simp: option_rel_Some2)
  with * show "frame_parse X p = Inr f" by (simp add: frame_parse_def)
qed

text \<open>
  A repeated member name at any depth is rejected before the envelope is looked at,
  whatever else the text holds.
\<close>

theorem frame_parse_duplicate:
  "(\<exists>m. frame_parse X p = Inl (DuplicateObjectMember m)) \<longleftrightarrow>
     (\<exists>e v. x_events X p = Some e \<and> value_of X e = Some v \<and> \<not> distinct_members e)"
proof (cases "x_events X p")
  case None
  then show ?thesis by (simp add: frame_parse_def)
next
  case (Some e)
  note e = this
  show ?thesis
  proof (cases "visit X e")
    case None
    then show ?thesis using visit_correct(1) [of e X] e by (simp add: frame_parse_def)
  next
    case (Some d)
    then have "value_of X e = Some (d_value d)" "d_duplicate d = None \<longleftrightarrow> distinct_members e"
      using visit_correct(1) [of e X] by (auto simp: option_rel_Some1)
    moreover have "frame_error \<noteq> DuplicateObjectMember m"
      if "validate_envelope X ms = Inl frame_error" for ms frame_error m
      using that by (auto simp: validate_envelope_def Let_def split: if_splits option.splits)
    ultimately show ?thesis using e Some
      by (auto simp: frame_parse_def split: option.splits sum.splits)
  qed
qed

definition version_2 :: "'n obj \<Rightarrow> bool" where
  "version_2 ms \<longleftrightarrow> map_of ms ''jsonrpc'' = Some (JString ''2.0'')"

definition call_members :: "'n obj \<Rightarrow> rpc_method \<Rightarrow> bool" where
  "call_members ms m \<longleftrightarrow>
     map_of ms ''method'' = Some (JString (method_text m)) \<and> trim (method_text m) \<noteq> [] \<and>
     \<not> contains_key ms ''result'' \<and> \<not> contains_key ms ''error'' \<and>
     (\<forall>p. map_of ms ''params'' = Some p \<longrightarrow> is_object p \<or> is_array p)"

lemma method_from_json_Some:
  "method_from_json v = Some m \<longleftrightarrow> v = JString (method_text m) \<and> trim (method_text m) \<noteq> []"
  by (cases m) (auto simp: method_from_json_def method_try_new_def bind_eq_Some_conv as_Some_iff)

lemma request_id_from_json_Some: "request_id_from_json v = Some i \<longleftrightarrow> v = request_id_to_json i"
  using request_id_to_json_from request_id_roundtrip by metis

text \<open>
  The three envelope shapes are exclusive and exactly delimited: a request is a
  method token and an identifier with neither result nor error, a notification the same
  without identifier, a response an identifier with exactly one of result and a
  well-formed error and no method or params; all declare version 2.0.
\<close>

theorem envelope_exact:
  "validate_envelope X ms = Inr env \<longleftrightarrow> version_2 ms \<and>
     (case env of
        Request i m \<Rightarrow> call_members ms m \<and> map_of ms ''id'' = Some (request_id_to_json i)
      | Notification m \<Rightarrow> call_members ms m \<and> \<not> contains_key ms ''id''
      | Response i has_error \<Rightarrow> \<not> contains_key ms ''method'' \<and> \<not> contains_key ms ''params'' \<and>
          map_of ms ''id'' = Some (request_id_to_json i) \<and>
          (if has_error
           then \<not> contains_key ms ''result'' \<and> (\<exists>e. map_of ms ''error'' = Some e \<and> valid_error_object X e)
           else contains_key ms ''result'' \<and> \<not> contains_key ms ''error''))"
proof (cases "Option.bind (map_of ms ''jsonrpc'') as_str = Some ''2.0''")
  case False
  then show ?thesis
    by (auto simp: validate_envelope_def version_2_def bind_eq_Some_conv as_Some_iff)
next
  case True
  then have v: "version_2 ms" by (auto simp: version_2_def bind_eq_Some_conv as_Some_iff)
  show ?thesis
  proof (cases "map_of ms ''method''")
    case (Some mv)
    with True v show ?thesis
      by (auto simp: validate_envelope_def call_members_def contains_key_def method_from_json_Some
          request_id_from_json_Some split: envelope.split option.splits)
        (metis option.distinct(1) option.inject method_from_json_Some request_id_from_json_Some)+
  next
    case None
    with True v show ?thesis
      by (auto simp: validate_envelope_def call_members_def contains_key_def bind_eq_Some_conv
          request_id_from_json_Some Let_def split: envelope.split option.splits)
  qed
qed

section \<open>Rewriting an identifier\<close>

definition rewrite_members :: "'n obj \<Rightarrow> 'n request_id \<Rightarrow> 'n obj" where
  "rewrite_members ms i = obj_insert ''id'' (request_id_to_json i) ms"

fun envelope_with_id :: "'n request_id \<Rightarrow> 'n envelope \<Rightarrow> 'n envelope" where
  "envelope_with_id i (Request _ m) = Request i m"
| "envelope_with_id i (Notification m) = Request i m"
| "envelope_with_id i (Response _ b) = Response i b"

fun envelope_id :: "'n envelope \<Rightarrow> 'n request_id option" where
  "envelope_id (Request i _) = Some i"
| "envelope_id (Notification _) = None"
| "envelope_id (Response i _) = Some i"

lemma validate_rewrite:
  assumes "validate_envelope X ms = Inr env"
  shows "validate_envelope X (rewrite_members ms i) = Inr (envelope_with_id i env)"
proof -
  have look: "map_of (rewrite_members ms i) k = (if k = ''id'' then Some (request_id_to_json i) else map_of ms k)"
    for k by (simp add: rewrite_members_def lookup_simps)
  have has: "contains_key (rewrite_members ms i) k = (k = ''id'' \<or> contains_key ms k)" for k
    by (simp add: rewrite_members_def)
  show ?thesis
  proof (cases "map_of ms ''method''")
    case (Some v)
    with assms show ?thesis
      by (auto simp: validate_envelope_def look has split: if_splits option.splits)
  next
    case None
    with assms show ?thesis
      by (auto simp: validate_envelope_def look has Let_def split: if_splits option.splits)
  qed
qed

section \<open>Tool-call metadata\<close>

record tool_call_meta =
  tm_tool_name :: tool_name
  tm_lsp_method :: "rpc_method option"
  tm_path_hint :: "string option"

definition parse_nested_json_value :: "'n extern \<Rightarrow> string \<Rightarrow> 'n json option" where
  "parse_nested_json_value X raw =
     (case trim raw of
        [] \<Rightarrow> None
      | c # _ \<Rightarrow> if c = CHR ''{'' \<or> c = CHR ''['' then x_from_str X (trim raw) else None)"

fun first_str_member :: "'n obj \<Rightarrow> string list \<Rightarrow> string option" where
  "first_str_member ms [] = None"
| "first_str_member ms (k # ks) =
     (case Option.bind (map_of ms k) as_str of Some p \<Rightarrow> Some p | None \<Rightarrow> first_str_member ms ks)"

definition extract_direct_path_hint :: "'n json \<Rightarrow> string option" where
  "extract_direct_path_hint v =
     (case as_object v of None \<Rightarrow> None
      | Some ms \<Rightarrow>
          (case first_str_member ms [''file_path'', ''filePath'', ''path'', ''uri''] of
             Some p \<Rightarrow> Some p
           | None \<Rightarrow>
               (case Option.bind (map_of ms ''textDocument'') as_object of
                  Some td \<Rightarrow> first_str_member td [''uri'', ''file_path'', ''filePath'', ''path'']
                | None \<Rightarrow> None)))"

definition normalize_path_hint :: "'n extern \<Rightarrow> string \<Rightarrow> string" where
  "normalize_path_hint X raw =
     (if starts_with ''file://'' (trim raw) then
        (case x_file_path X (trim raw) of Some (Some p) \<Rightarrow> p | _ \<Rightarrow> trim raw)
      else trim raw)"

text \<open>
  \<open>None\<close> is running out of fuel; \<open>Some h\<close> is the result \<open>h\<close> of the search.
\<close>

fun path_hint :: "'n extern \<Rightarrow> nat \<Rightarrow> 'n json \<Rightarrow> string option option"
  and path_hint_list :: "'n extern \<Rightarrow> nat \<Rightarrow> 'n json list \<Rightarrow> string option option"
where
  "path_hint X 0 v = None"
| "path_hint X (Suc n) (JString t) =
     (case parse_nested_json_value X t of None \<Rightarrow> Some None | Some p \<Rightarrow> path_hint X n p)"
| "path_hint X (Suc n) (JObject ms) =
     (case extract_direct_path_hint (JObject ms) of
        Some p \<Rightarrow> Some (Some (normalize_path_hint X p))
      | None \<Rightarrow> path_hint_list X n (map snd ms))"
| "path_hint X (Suc n) (JArray vs) = path_hint_list X n vs"
| "path_hint X (Suc n) v = Some None"
| "path_hint_list X n [] = Some None"
| "path_hint_list X n (v # vs) =
     (case path_hint X n v of
        None \<Rightarrow> None
      | Some (Some p) \<Rightarrow> Some (Some p)
      | Some None \<Rightarrow> path_hint_list X n vs)"

definition extract_path_hint_from_value :: "'n extern \<Rightarrow> 'n json \<Rightarrow> string option option" where
  "extract_path_hint_from_value X v = path_hint X (jweight v) v"

definition parse_tool_call_meta :: "'n extern \<Rightarrow> 'n frame \<Rightarrow> rpc_method \<Rightarrow> tool_call_meta option" where
  "parse_tool_call_meta X f m =
     (if \<not> is_tools_call m then None
      else case Option.bind (get_member (fr_value f) ''params'') as_object of
        None \<Rightarrow> None
      | Some params \<Rightarrow>
          (case Option.bind (Option.bind (map_of params ''name'') as_str) tool_name_try_new of
             None \<Rightarrow> None
           | Some tool \<Rightarrow>
               (let arguments = map_of params ''arguments'';
                    lsp = (if is_advanced_lsp_request tool then
                        Option.bind (Option.bind (Option.bind (Option.bind arguments as_object)
                          (\<lambda>as. or_else (map_of as ''method'')
                             (or_else (map_of as ''lsp_method'') (map_of as ''lspMethod''))))
                          as_str) method_try_new
                      else None);
                    hint = Option.bind arguments (\<lambda>v. Option.bind (extract_path_hint_from_value X v) id)
                in Some \<lparr>tm_tool_name = tool, tm_lsp_method = lsp, tm_path_hint = hint\<rparr>)))"

text \<open>
  The documented law of the JSON parser the search relies on: a value is no heavier than
  the text it was parsed from (each string costs its quotes, each container its brackets).
\<close>

definition nested_parse_law :: "'n extern \<Rightarrow> bool" where
  "nested_parse_law X \<longleftrightarrow> (\<forall>t v. x_from_str X t = Some v \<longrightarrow> jweight v \<le> length t)"

lemma trim_length: "length (trim s) \<le> length s"
proof -
  have "length (trim s) \<le> length (trim_start s)"
    using strip_with_length [of ws_suffix "rev (trim_start s)"] by (simp add: trim_def trim_end_def)
  also have "\<dots> \<le> length s"
    using strip_with_length [of ws_prefix s] by (simp add: trim_start_def)
  finally show ?thesis .
qed

lemma path_hint_list_returns:
  "(\<And>v. v \<in> set vs \<Longrightarrow> path_hint X n v \<noteq> None) \<Longrightarrow> path_hint_list X n vs \<noteq> None"
  by (induction vs) (auto split: option.splits)

lemma sum_list_member: "v \<in> set vs \<Longrightarrow> f v \<le> (sum_list (map f vs) :: nat)"
  by (induction vs) auto

lemma path_hint_enough_fuel:
  assumes "nested_parse_law X"
  shows "jweight v \<le> n \<Longrightarrow> path_hint X n v \<noteq> None"
proof (induction n arbitrary: v)
  case 0
  then show ?case using jweight_pos [of v] by simp
next
  case (Suc n)
  show ?case
  proof (cases v)
    case (JString t)
    have "path_hint X n p \<noteq> None" if "parse_nested_json_value X t = Some p" for p
    proof (rule Suc.IH)
      have "x_from_str X (trim t) = Some p"
        using that by (auto simp: parse_nested_json_value_def split: list.splits if_splits)
      then have "jweight p \<le> length (trim t)" using assms by (simp add: nested_parse_law_def)
      then show "jweight p \<le> n" using trim_length [of t] Suc.prems JString by simp
    qed
    with JString show ?thesis by (auto split: option.splits)
  next
    case (JArray vs)
    have "path_hint X n w \<noteq> None" if "w \<in> set vs" for w
      using sum_list_member [OF that, of jweight] Suc.prems JArray by (intro Suc.IH) simp
    with JArray path_hint_list_returns [of vs X n] show ?thesis by simp
  next
    case (JObject ms)
    have "path_hint X n w \<noteq> None" if "w \<in> set (map snd ms)" for w
      using sum_list_member [OF that, of jweight] Suc.prems JObject
      by (intro Suc.IH) (simp add: comp_def)
    with JObject path_hint_list_returns [of "map snd ms" X n] show ?thesis
      by (auto split: option.splits)
  qed (use Suc.prems in \<open>auto\<close>)
qed

text \<open>
  The path-hint search always returns: it descends through nested JSON text without
  end only if the parser produced values heavier than their text.
\<close>

theorem path_hint_returns:
  assumes "nested_parse_law X"
  shows "\<exists>h. extract_path_hint_from_value X v = Some h"
  using path_hint_enough_fuel [OF assms, of v "jweight v"]
  by (auto simp: extract_path_hint_from_value_def)

end
