(* ===== verification/Framing.thy ===== *)
theory Framing
  imports Prelude
begin

text \<open>
  Line-delimited framing (\<open>jsonrpc.rs\<close>): the buffered readers, the timed reader of
  Unix file descriptors, and the writer, all within a byte limit.

  A buffered source is the list of what \<open>fill_buf\<close> will return: a chunk, or an I/O
  error; the end of the list is the end of the stream. \<open>frame_spec\<close> is the reference:
  the first frame of a flat byte sequence and what is left. Every reader is shown to
  refine it, so where the operating system splits the stream does not matter.
\<close>

datatype io_error = InvalidData string | InvalidInput string | PermissionDenied string
  | NotFound | OtherIo string

datatype frame_outcome = Frame "byte list" | EndOfStream

type_synonym source = "(io_error + byte list) list"

section \<open>Lines\<close>

definition newline :: byte where "newline = 10"
definition carriage_return :: byte where "carriage_return = 13"

fun position :: "byte list \<Rightarrow> nat option" where
  "position [] = None"
| "position (b # bs) = (if b = newline then Some 0 else map_option Suc (position bs))"

definition strip_cr :: "byte list \<Rightarrow> byte list" where
  "strip_cr line = (if line \<noteq> [] \<and> last line = carriage_return then butlast line else line)"

lemma position_None: "position bs = None \<longleftrightarrow> newline \<notin> set bs"
  by (induction bs) auto

lemma position_Some:
  "position bs = Some i \<Longrightarrow> i < length bs \<and> newline \<notin> set (take i bs) \<and> bs ! i = newline"
proof (induction bs arbitrary: i)
  case (Cons b bs)
  then show ?case by (cases i) (auto split: if_splits)
qed simp

lemma position_append:
  "newline \<notin> set as \<Longrightarrow> position (as @ bs) = map_option (\<lambda>i. length as + i) (position bs)"
  by (induction as; cases "position bs") auto

lemma position_append_Some: "position as = Some i \<Longrightarrow> position (as @ bs) = Some i"
  by (induction as arbitrary: i) (auto split: if_splits)

definition frame_limit_error :: io_error where
  "frame_limit_error = InvalidData ''JSON-RPC frame exceeds byte limit''"

datatype frame_limit = FrameLimit nat

definition frame_limit_try_new :: "nat \<Rightarrow> string + frame_limit" where
  "frame_limit_try_new n = (if n = 0 then Inl ''frame limit must be non-zero'' else Inr (FrameLimit n))"

primrec limit_get :: "frame_limit \<Rightarrow> nat" where
  "limit_get (FrameLimit n) = n"

section \<open>The reference\<close>

function frame_spec :: "nat \<Rightarrow> byte list \<Rightarrow> io_error + (frame_outcome \<times> byte list)" where
  "frame_spec limit bs =
     (case position bs of
        None \<Rightarrow>
          if length bs > limit then Inl frame_limit_error
          else if bs = [] then Inr (EndOfStream, []) else Inr (Frame bs, [])
      | Some i \<Rightarrow>
          if i > limit then Inl frame_limit_error
          else if strip_cr (take i bs) = [] then frame_spec limit (drop (Suc i) bs)
          else Inr (Frame (strip_cr (take i bs)), drop (Suc i) bs))"
  by pat_completeness auto
termination
  by (relation "measure (\<lambda>(limit, bs). length bs)") (auto dest: position_Some)

declare frame_spec.simps [simp del]

section \<open>The buffered reader\<close>

definition consume :: "nat \<Rightarrow> source \<Rightarrow> source" where
  "consume n src = (case src of
      Inr b # rest \<Rightarrow> if n \<ge> length b then rest else Inr (drop n b) # rest
    | _ \<Rightarrow> src)"

definition source_size :: "source \<Rightarrow> nat" where
  "source_size src = sum_list (map (case_sum (\<lambda>_. 1) (\<lambda>b. Suc (length b))) src)"

lemma consume_smaller: "0 < n \<Longrightarrow> b \<noteq> [] \<Longrightarrow> source_size (consume n (Inr b # rest)) < source_size (Inr b # rest)"
  by (simp add: consume_def source_size_def)

definition end_of_input :: "byte list \<Rightarrow> frame_outcome" where
  "end_of_input line = (if line = [] then EndOfStream else Frame line)"

function read_frame_loop :: "nat \<Rightarrow> byte list \<Rightarrow> source \<Rightarrow> (io_error + frame_outcome) \<times> source" where
  "read_frame_loop limit line [] = (Inr (end_of_input line), [])"
| "read_frame_loop limit line (Inl e # rest) = (Inl e, rest)"
| "read_frame_loop limit line (Inr buffer # rest) =
     (if buffer = [] then (Inr (end_of_input line), Inr buffer # rest)
      else
        let delimiter = position buffer;
            payload_bytes = (case delimiter of None \<Rightarrow> length buffer | Some i \<Rightarrow> i)
        in (case usize_checked_add (length line) payload_bytes of
              None \<Rightarrow> (Inl frame_limit_error, Inr buffer # rest)
            | Some next_len \<Rightarrow>
                if next_len > limit then (Inl frame_limit_error, Inr buffer # rest)
                else
                  let line' = line @ take payload_bytes buffer;
                      consumed = (case delimiter of None \<Rightarrow> payload_bytes | Some i \<Rightarrow> i + 1);
                      src' = consume consumed (Inr buffer # rest)
                  in if delimiter = None then read_frame_loop limit line' src'
                     else if strip_cr line' = [] then read_frame_loop limit [] src'
                     else (Inr (Frame (strip_cr line')), src')))"
  by pat_completeness auto
termination
  by (relation "measure (\<lambda>(limit, line, src). source_size src)")
    (auto intro!: consume_smaller simp: Let_def split: option.splits)

definition read_frame :: "nat \<Rightarrow> source \<Rightarrow> (io_error + frame_outcome) \<times> source" where
  "read_frame limit src = read_frame_loop limit [] src"

text \<open>
  \<open>read_frame_blocking\<close> runs the same loop over a blocking \<open>BufRead\<close>.
\<close>

definition read_frame_blocking :: "nat \<Rightarrow> source \<Rightarrow> (io_error + frame_outcome) \<times> source" where
  "read_frame_blocking limit src = read_frame_loop limit [] src"

definition source_bytes :: "source \<Rightarrow> byte list" where
  "source_bytes src = concat (map (\<lambda>c. case c of Inl _ \<Rightarrow> [] | Inr b \<Rightarrow> b) src)"

definition source_ok :: "source \<Rightarrow> bool" where
  "source_ok src \<longleftrightarrow> (\<forall>c\<in>set src. \<exists>b. c = Inr b \<and> b \<noteq> [])"

lemma source_bytes_simps [simp]:
  "source_bytes [] = []" "source_bytes (Inr b # rest) = b @ source_bytes rest"
  by (simp_all add: source_bytes_def)

lemma source_ok_simps [simp]:
  "source_ok []" "source_ok (Inr b # rest) \<longleftrightarrow> b \<noteq> [] \<and> source_ok rest" "\<not> source_ok (Inl e # rest)"
  by (auto simp: source_ok_def)

lemma consume_bytes:
  assumes "source_ok (Inr b # rest)" and "n \<le> length b"
  shows "source_ok (consume n (Inr b # rest))"
    and "source_bytes (consume n (Inr b # rest)) = drop n b @ source_bytes rest"
  using assms by (auto simp: consume_def)

definition refines :: "(io_error + frame_outcome) \<times> 's \<Rightarrow> ('s \<Rightarrow> bool) \<Rightarrow> ('s \<Rightarrow> byte list) \<Rightarrow>
    io_error + (frame_outcome \<times> byte list) \<Rightarrow> bool" where
  "refines r ok bytes spec \<longleftrightarrow>
     (case spec of
        Inl e \<Rightarrow> fst r = Inl e
      | Inr (out, rest) \<Rightarrow> fst r = Inr out \<and> ok (snd r) \<and> bytes (snd r) = rest)"

lemma read_frame_loop_refines:
  assumes "source_ok src" and "newline \<notin> set line" and "length line \<le> limit" and "limit \<le> usize_max"
  shows "refines (read_frame_loop limit line src) source_ok source_bytes
           (frame_spec limit (line @ source_bytes src))"
  using assms
proof (induction limit line src rule: read_frame_loop.induct)
  case (1 limit line)
  then have "position line = None" by (simp add: position_None)
  with 1 show ?case
    by (subst frame_spec.simps) (auto simp: refines_def end_of_input_def)
next
  case (2 limit line e rest)
  then show ?case by simp
next
  case (3 limit line b rest)
  then have b: "b \<noteq> []" and rest: "source_ok rest" by auto
  show ?case
  proof (cases "position b")
    case None
    let ?n = "length b"
    have nl: "newline \<notin> set (line @ b)" using None 3 by (simp add: position_None)
    show ?thesis
    proof (cases "length line + ?n > limit")
      case True
      have "frame_spec limit (line @ b @ source_bytes rest) = Inl frame_limit_error"
        using True nl position_append [of "line @ b" "source_bytes rest"]
        by (subst frame_spec.simps) (auto split: option.splits)
      with True b None show ?thesis
        by (auto simp: refines_def Let_def usize_checked_add_def)
    next
      case False
      then have add: "usize_checked_add (length line) ?n = Some (length line + ?n)"
        using 3 by (simp add: usize_checked_add_def)
      have c: "consume ?n (Inr b # rest) = rest" by (simp add: consume_def)
      have "refines (read_frame_loop limit (line @ b) rest) source_ok source_bytes
        (frame_spec limit ((line @ b) @ source_bytes rest))"
        using 3(1) [OF b refl _ add] None False nl rest 3 c by auto
      with False b None add c show ?thesis by (auto simp: Let_def)
    qed
  next
    case (Some i)
    have i: "i < length b" "newline \<notin> set (take i b)" "b ! i = newline"
      using position_Some [OF Some] by auto
    have pos: "position (line @ b @ source_bytes rest) = Some (length line + i)"
      using 3 position_append [of line] position_append_Some [OF Some] by simp
    have take: "take (length line + i) (line @ b @ source_bytes rest) = line @ take i b"
      and drop: "drop (Suc (length line + i)) (line @ b @ source_bytes rest) = drop (Suc i) b @ source_bytes rest"
      using i by auto
    let ?src = "consume (Suc i) (Inr b # rest)"
    have cb: "source_ok ?src" "source_bytes ?src = drop (Suc i) b @ source_bytes rest"
      using consume_bytes [of b rest "Suc i"] b rest i by auto
    show ?thesis
    proof (cases "length line + i > limit")
      case True
      with b Some pos show ?thesis
        by (subst frame_spec.simps) (auto simp: refines_def Let_def usize_checked_add_def)
    next
      case False
      then have add: "usize_checked_add (length line) i = Some (length line + i)"
        using 3 by (simp add: usize_checked_add_def)
      show ?thesis
      proof (cases "strip_cr (line @ take i b) = []")
        case True
        have "refines (read_frame_loop limit [] ?src) source_ok source_bytes
          (frame_spec limit ([] @ source_bytes ?src))"
          using 3(2) [OF b refl _ add] Some False True cb 3 by auto
        with False b Some add True pos take drop cb show ?thesis
          by (subst frame_spec.simps) (auto simp: Let_def)
      next
        case nonempty: False
        with False b Some add pos take drop cb show ?thesis
          by (subst frame_spec.simps) (auto simp: refines_def Let_def)
      qed
    qed
  qed
qed

text \<open>
  C21. The buffered readers depend on the bytes only: however the stream is cut into
  buffers, one call returns what the reference returns on the concatenated bytes (the
  same frame, end of stream or limit error) and leaves the same bytes unread.
\<close>

theorem read_frame_refines_spec:
  assumes "source_ok src" and "limit \<le> usize_max"
  shows "refines (read_frame limit src) source_ok source_bytes (frame_spec limit (source_bytes src)) \<and>
    read_frame_blocking limit src = read_frame limit src"
  using read_frame_loop_refines [OF assms(1), of "[]" limit] assms(2)
  by (auto simp: read_frame_def read_frame_blocking_def)

theorem read_frame_refines_spec_witness:
  "refines (read_frame 5 [Inr [10, 49], Inr [50, 13, 10]]) source_ok source_bytes
     (frame_spec 5 (source_bytes [Inr [10, 49], Inr [50, 13, 10]])) \<and>
   fst (read_frame 5 [Inr [10, 49], Inr [50, 13, 10]]) = Inr (Frame [49, 50])"
proof -
  let ?src = "[Inr [10, 49], Inr [50, 13, 10]] :: source"
  have "source_ok ?src" "(5::nat) \<le> usize_max" by (simp_all add: usize_max_def)
  note read_frame_refines_spec [OF this]
  moreover have "fst (read_frame 5 ?src) = Inr (Frame [49, 50])"
    by (simp add: read_frame_def newline_def carriage_return_def strip_cr_def consume_def
        usize_checked_add_def usize_max_def)
  ultimately show ?thesis by blast
qed

section \<open>The writer\<close>

definition validate_frame_payload :: "byte list \<Rightarrow> nat \<Rightarrow> io_error + unit" where
  "validate_frame_payload payload limit =
     (if payload = [] then Inl (InvalidInput ''JSON-RPC frame must not be empty'')
      else if length payload > limit then Inl (InvalidInput ''JSON-RPC frame exceeds byte limit'')
      else if newline \<in> set payload \<or> last payload = carriage_return
      then Inl (InvalidInput ''JSON-RPC frame payload must not contain a line delimiter'')
      else Inr ())"

text \<open>
  The writer appends to the bytes already written; \<open>write_frame\<close> and
  \<open>write_frame_blocking\<close> differ in the stream only. An I/O failure of the stream itself
  is the environment's choice, the argument \<open>io\<close> (\<open>None\<close> when the stream accepts).
\<close>

definition write_frame ::
    "io_error option \<Rightarrow> byte list \<Rightarrow> nat \<Rightarrow> byte list \<Rightarrow> (io_error + unit) \<times> byte list" where
  "write_frame io payload limit written =
     (case validate_frame_payload payload limit of
        Inl e \<Rightarrow> (Inl e, written)
      | Inr _ \<Rightarrow> (case io of Some e \<Rightarrow> (Inl e, written)
                 | None \<Rightarrow> (Inr (), written @ payload @ [newline])))"

lemma frame_spec_payload:
  assumes "validate_frame_payload p limit = Inr ()"
  shows "frame_spec limit (p @ newline # rest) = Inr (Frame p, rest)"
proof -
  have *: "p \<noteq> []" "length p \<le> limit" "newline \<notin> set p" "last p \<noteq> carriage_return"
    using assms by (auto simp: validate_frame_payload_def split: if_splits)
  then have "position (p @ newline # rest) = Some (length p)" "strip_cr p = p"
    by (auto simp: position_append strip_cr_def)
  with * show ?thesis by (subst frame_spec.simps) simp
qed

section \<open>The interface of a frame reader\<close>

text \<open>
  What a client of a reader relies on: one call agrees with the reference on the bytes
  still to come. From that alone, reading gives back written frames in order.
\<close>

locale frame_reader =
  fixes read :: "'s \<Rightarrow> (io_error + frame_outcome) \<times> 's"
    and invar :: "'s \<Rightarrow> bool" and bytes :: "'s \<Rightarrow> byte list" and limit :: nat
  assumes read_refines: "invar s \<Longrightarrow> refines (read s) invar bytes (frame_spec limit (bytes s))"
begin

lemma read_one:
  assumes "invar s" and "bytes s = p @ newline # rest"
    and "validate_frame_payload p limit = Inr ()"
  shows "fst (read s) = Inr (Frame p) \<and> invar (snd (read s)) \<and> bytes (snd (read s)) = rest"
  using read_refines [OF assms(1)] assms(2,3) frame_spec_payload by (simp add: refines_def)

fun read_all :: "nat \<Rightarrow> 's \<Rightarrow> (io_error + frame_outcome) list" where
  "read_all 0 s = []"
| "read_all (Suc n) s = fst (read s) # read_all n (snd (read s))"

lemma read_written:
  assumes "\<forall>p\<in>set ps. validate_frame_payload p limit = Inr ()"
    and "invar s" and "bytes s = concat (map (\<lambda>p. p @ [newline]) ps)"
  shows "read_all (Suc (length ps)) s = map (\<lambda>p. Inr (Frame p)) ps @ [Inr EndOfStream]"
  using assms
proof (induction ps arbitrary: s)
  case Nil
  then have "frame_spec limit (bytes s) = Inr (EndOfStream, [])"
    by (subst frame_spec.simps) simp
  with read_refines [OF Nil(2)] show ?case by (simp add: refines_def)
next
  case (Cons p ps)
  have r: "fst (read s) = Inr (Frame p)" "invar (snd (read s))"
    "bytes (snd (read s)) = concat (map (\<lambda>p. p @ [newline]) ps)"
    using read_one [OF Cons(3), of p] Cons(2,4) by auto
  show ?case using Cons.IH [OF _ r(2,3)] Cons(2) r(1) by simp
qed

end

interpretation buffered: frame_reader "read_frame limit" "\<lambda>src. source_ok src \<and> limit \<le> usize_max"
  source_bytes limit for limit
proof
  fix src :: source
  assume a: "source_ok src \<and> limit \<le> usize_max"
  then have "refines (read_frame limit src) source_ok source_bytes (frame_spec limit (source_bytes src))"
    using read_frame_loop_refines [of src "[]" limit] by (simp add: read_frame_def)
  then show "refines (read_frame limit src) (\<lambda>s. source_ok s \<and> limit \<le> usize_max) source_bytes
      (frame_spec limit (source_bytes src))"
    using a by (auto simp: refines_def split: sum.splits)
qed

fun write_all :: "byte list list \<Rightarrow> nat \<Rightarrow> byte list \<Rightarrow> byte list" where
  "write_all [] limit written = written"
| "write_all (p # ps) limit written = write_all ps limit (snd (write_frame None p limit written))"

fun read_frames :: "nat \<Rightarrow> nat \<Rightarrow> source \<Rightarrow> (io_error + frame_outcome) list" where
  "read_frames limit 0 src = []"
| "read_frames limit (Suc n) src =
     fst (read_frame limit src) # read_frames limit n (snd (read_frame limit src))"

lemma read_frames_eq: "read_frames limit n src = buffered.read_all limit n src"
  by (induction n arbitrary: src) simp_all

lemma write_all_bytes:
  "\<forall>p\<in>set ps. validate_frame_payload p limit = Inr () \<Longrightarrow>
     write_all ps limit w = w @ concat (map (\<lambda>p. p @ [newline]) ps)"
  by (induction ps arbitrary: w) (auto simp: write_frame_def)

text \<open>
  Framing round trip: frames the writer accepts come back from the reader, each
  whole and in order, then the end of the stream, however the written bytes are cut.
\<close>

theorem framing_roundtrip:
  assumes "\<forall>p\<in>set ps. validate_frame_payload p limit = Inr ()"
    and "source_ok src" and "source_bytes src = write_all ps limit []" and "limit \<le> usize_max"
  shows "read_frames limit (Suc (length ps)) src = map (\<lambda>p. Inr (Frame p)) ps @ [Inr EndOfStream]"
  unfolding read_frames_eq
  by (rule buffered.read_written) (use assms write_all_bytes [OF assms(1), of "[]"] in auto)

theorem framing_roundtrip_witness:
  "read_frames 5 3 [Inr [1, 2, 10, 3], Inr [4, 10]]
     = [Inr (Frame [1, 2]), Inr (Frame [3, 4]), Inr EndOfStream]"
proof -
  have "read_frames 5 (Suc (length [[1, 2], [3, 4 :: byte]])) [Inr [1, 2, 10, 3], Inr [4, 10]]
     = map (\<lambda>p. Inr (Frame p)) [[1, 2], [3, 4]] @ [Inr EndOfStream]"
    by (rule framing_roundtrip)
      (simp_all add: validate_frame_payload_def newline_def carriage_return_def usize_max_def
        write_frame_def)
  then show ?thesis by (simp add: numeral_3_eq_3)
qed


end
