(* ===== verification/TimedReader.thy ===== *)
theory TimedReader
  imports Framing
begin

text \<open>
  \<open>TimedFrameReader\<close> of \<open>jsonrpc.rs\<close>: a reader over a blocking descriptor that keeps
  partial and read-ahead bytes across timeouts. What \<open>poll\<close> and \<open>read\<close> report is the
  list of \<open>poll\<close> values still to come; running out of them is a deadline that passes.
  \<open>stream\<close> is what the reader has not yet returned: its pending bytes, then the bytes
  still to be read up to the end of the file.
\<close>

datatype poll = Interrupted | NotReady | PollFailed io_error | Readable "io_error + byte list"

datatype timed_outcome = TimedFrame "byte list" | TimedEnd | TimedOut

record timed_reader =
  tr_limit :: nat
  tr_buffer :: "byte list"
  tr_consumed :: nat
  tr_eof :: bool

definition timed_new :: "nat \<Rightarrow> timed_reader" where
  "timed_new limit = \<lparr>tr_limit = limit, tr_buffer = [], tr_consumed = 0, tr_eof = False\<rparr>"

definition has_buffered_input :: "timed_reader \<Rightarrow> bool" where
  "has_buffered_input r \<longleftrightarrow> tr_consumed r < length (tr_buffer r)"

definition tr_pending :: "timed_reader \<Rightarrow> byte list" where
  "tr_pending r = drop (tr_consumed r) (tr_buffer r)"

function extract_frame :: "timed_reader \<Rightarrow> (io_error + timed_outcome option) \<times> timed_reader" where
  "extract_frame r =
     (let pending = drop (tr_consumed r) (tr_buffer r) in
      case position pending of
        None \<Rightarrow>
          if length pending > tr_limit r then (Inl frame_limit_error, r)
          else if tr_eof r \<and> pending \<noteq> []
          then (Inr (Some (TimedFrame pending)), r\<lparr>tr_consumed := length (tr_buffer r)\<rparr>)
          else (Inr None, r)
      | Some delimiter \<Rightarrow>
          if delimiter > tr_limit r then (Inl frame_limit_error, r)
          else
            let start = tr_consumed r; stop = start + delimiter;
                r' = r\<lparr>tr_consumed := stop + 1\<rparr>;
                frame = strip_cr (drop start (take stop (tr_buffer r)))
            in if frame \<noteq> [] then (Inr (Some (TimedFrame frame)), r') else extract_frame r')"
  by pat_completeness auto
termination
  by (relation "measure (\<lambda>r. length (tr_buffer r) - tr_consumed r)")
    (auto dest: position_Some)

declare extract_frame.simps [simp del]

definition compact :: "timed_reader \<Rightarrow> timed_reader" where
  "compact r =
     (if tr_consumed r = length (tr_buffer r) then r\<lparr>tr_buffer := [], tr_consumed := 0\<rparr>
      else if tr_consumed r \<ge> 8 * 1024
      then r\<lparr>tr_buffer := drop (tr_consumed r) (tr_buffer r), tr_consumed := 0\<rparr>
      else r)"

text \<open>
  One call: \<open>deadline\<close> is whether the deadline can be represented.
\<close>

fun timed_loop :: "timed_reader \<Rightarrow> poll list \<Rightarrow> (io_error + timed_outcome) \<times> timed_reader \<times> poll list"
where
  "timed_loop r polls =
     (case extract_frame r of
        (Inl e, r1) \<Rightarrow> (Inl e, r1, polls)
      | (Inr (Some out), r1) \<Rightarrow> (Inr out, r1, polls)
      | (Inr None, r1) \<Rightarrow>
          if tr_eof r1 then (Inr TimedEnd, r1, polls)
          else (case polls of
              [] \<Rightarrow> (Inr TimedOut, r1, [])
            | Interrupted # ps \<Rightarrow> timed_loop r1 ps
            | NotReady # ps \<Rightarrow> (Inr TimedOut, r1, ps)
            | PollFailed e # ps \<Rightarrow> (Inl e, r1, ps)
            | Readable (Inl e) # ps \<Rightarrow> (Inl e, compact r1, ps)
            | Readable (Inr chunk) # ps \<Rightarrow>
                if chunk = [] then timed_loop ((compact r1)\<lparr>tr_eof := True\<rparr>) ps
                else timed_loop ((compact r1)\<lparr>tr_buffer := tr_buffer (compact r1) @ chunk\<rparr>) ps))"

declare timed_loop.simps [simp del]

definition timed_read_frame ::
    "bool \<Rightarrow> timed_reader \<Rightarrow> poll list \<Rightarrow> (io_error + timed_outcome) \<times> timed_reader \<times> poll list" where
  "timed_read_frame deadline r polls =
     (if \<not> deadline then (Inl (InvalidInput ''frame poll timeout is too large''), r, polls)
      else timed_loop r polls)"

section \<open>What a call does to the stream\<close>

definition timed_ok :: "timed_reader \<Rightarrow> bool" where
  "timed_ok r \<longleftrightarrow> tr_consumed r \<le> length (tr_buffer r)"

fun incoming :: "poll list \<Rightarrow> byte list" where
  "incoming [] = []"
| "incoming (Readable (Inr chunk) # ps) = (if chunk = [] then [] else chunk @ incoming ps)"
| "incoming (_ # ps) = incoming ps"

definition stream :: "timed_reader \<Rightarrow> poll list \<Rightarrow> byte list" where
  "stream r polls = tr_pending r @ (if tr_eof r then [] else incoming polls)"

definition outcome_of :: "timed_outcome \<Rightarrow> frame_outcome" where
  "outcome_of out = (case out of TimedFrame f \<Rightarrow> Frame f | _ \<Rightarrow> EndOfStream)"

lemma compact_pending [simp]:
  "tr_pending (compact r) = tr_pending r" "tr_eof (compact r) = tr_eof r"
  "tr_limit (compact r) = tr_limit r"
  by (auto simp: compact_def tr_pending_def)

lemma tr_pending_eof [simp]: "tr_pending (r\<lparr>tr_eof := b\<rparr>) = tr_pending r"
  by (simp add: tr_pending_def)

lemma compact_ok: "timed_ok r \<Longrightarrow> timed_ok (compact r)"
  by (auto simp: compact_def timed_ok_def)

lemma slice: "drop s (take (s + d) xs) = take d (drop s xs)"
  by (simp add: drop_take)

definition extract_post :: "timed_reader \<Rightarrow> (io_error + timed_outcome option) \<times> timed_reader \<Rightarrow> bool" where
  "extract_post r p \<longleftrightarrow>
     timed_ok (snd p) \<and> tr_eof (snd p) = tr_eof r \<and> tr_limit (snd p) = tr_limit r \<and>
     tr_buffer (snd p) = tr_buffer r \<and>
     (\<forall>x. (tr_eof r \<longrightarrow> x = []) \<longrightarrow>
        (case fst p of
           Inl e \<Rightarrow> e = frame_limit_error \<and> frame_spec (tr_limit r) (tr_pending r @ x) = Inl e
         | Inr (Some out) \<Rightarrow> (\<exists>f. out = TimedFrame f) \<and>
             frame_spec (tr_limit r) (tr_pending r @ x) = Inr (outcome_of out, tr_pending (snd p) @ x)
         | Inr None \<Rightarrow> length (tr_pending (snd p)) \<le> tr_limit r \<and>
             (tr_eof r \<longrightarrow> tr_pending (snd p) = []) \<and>
             frame_spec (tr_limit r) (tr_pending r @ x) = frame_spec (tr_limit r) (tr_pending (snd p) @ x)))"

lemma extract_frame_post: "timed_ok r \<Longrightarrow> extract_post r (extract_frame r)"
proof (induction r rule: extract_frame.induct)
  case (1 r)
  let ?p = "tr_pending r"
  show ?case
  proof (cases "position ?p")
    case None
    then have nl: "newline \<notin> set ?p" by (simp add: position_None)
    have big: "frame_spec (tr_limit r) (?p @ x) = Inl frame_limit_error"
      if "length ?p > tr_limit r" for x
      using that position_append [OF nl, of x] by (subst frame_spec.simps) (auto split: option.splits)
    show ?thesis
      using None "1.prems" big
      by (subst extract_frame.simps)
        (auto simp: extract_post_def tr_pending_def timed_ok_def Let_def outcome_of_def
          frame_spec.simps split: option.splits)
  next
    case (Some d)
    have d: "d < length ?p" using position_Some [OF Some] by simp
    have pos: "position (?p @ x) = Some d" for x by (rule position_append_Some [OF Some])
    let ?r = "r\<lparr>tr_consumed := tr_consumed r + d + 1\<rparr>"
    have ok: "timed_ok ?r" using d by (simp add: timed_ok_def tr_pending_def)
    have rest: "tr_pending ?r = drop (Suc d) ?p" by (simp add: tr_pending_def add.commute)
    have spec: "frame_spec (tr_limit r) (?p @ x) =
        (if d > tr_limit r then Inl frame_limit_error
         else if strip_cr (take d ?p) = [] then frame_spec (tr_limit r) (tr_pending ?r @ x)
         else Inr (Frame (strip_cr (take d ?p)), tr_pending ?r @ x))" for x
      using d rest by (subst frame_spec.simps) (auto simp: pos)
    have step: "extract_frame r = (if d > tr_limit r then (Inl frame_limit_error, r)
        else if strip_cr (take d ?p) \<noteq> [] then (Inr (Some (TimedFrame (strip_cr (take d ?p)))), ?r)
        else extract_frame ?r)"
      using Some by (subst extract_frame.simps) (simp add: Let_def slice tr_pending_def)
    show ?thesis
    proof (cases "d > tr_limit r \<or> strip_cr (take d ?p) \<noteq> []")
      case True
      then show ?thesis using step spec ok "1.prems" by (auto simp: extract_post_def outcome_of_def)
    next
      case False
      have "extract_post ?r (extract_frame ?r)"
        using "1.IH" [of ?p d "tr_consumed r" "tr_consumed r + d" ?r] Some False ok
        by (simp add: tr_pending_def slice)
      with False step spec show ?thesis by (auto simp: extract_post_def split: sum.splits option.splits)
    qed
  qed
qed

text \<open>
  The memory a reader holds: what is pending fits the limit whenever it reads more, and
  consumed bytes are dropped before they pass one chunk.
\<close>

definition bounded :: "timed_reader \<Rightarrow> bool" where
  "bounded r \<longleftrightarrow> length (tr_buffer r) \<le> tr_limit r + 2 * (8 * 1024)"

fun chunks_ok :: "poll list \<Rightarrow> bool" where
  "chunks_ok [] = True"
| "chunks_ok (Readable (Inr chunk) # ps) = (length chunk \<le> 8 * 1024 \<and> chunks_ok ps)"
| "chunks_ok (_ # ps) = chunks_ok ps"

lemma compact_length:
  "length (tr_buffer (compact r)) \<le> length (tr_pending r) + 8 * 1024"
  by (auto simp: compact_def tr_pending_def)

lemma compact_shrinks: "length (tr_buffer (compact r)) \<le> length (tr_buffer r)"
  by (auto simp: compact_def)

definition timed_post ::
    "timed_reader \<Rightarrow> poll list \<Rightarrow> (io_error + timed_outcome) \<times> timed_reader \<times> poll list \<Rightarrow> bool" where
  "timed_post r polls p \<longleftrightarrow>
     (let (res, r', ps) = p; spec = frame_spec (tr_limit r) (stream r polls) in
      timed_ok r' \<and> tr_limit r' = tr_limit r \<and>
      (case res of
         Inr TimedOut \<Rightarrow> frame_spec (tr_limit r) (stream r' ps) = spec
       | Inr out \<Rightarrow> spec = Inr (outcome_of out, stream r' ps)
       | Inl e \<Rightarrow> spec = Inl e \<or> (\<exists>q\<in>set polls. q = PollFailed e \<or> q = Readable (Inl e))))"

text \<open>
  The loop by cases: what one extraction decides, and where the loop continues.
\<close>

lemma timed_loop_unfold:
  assumes "extract_frame r = (Inr None, r1)" and "\<not> tr_eof r1"
  shows "timed_loop r [] = (Inr TimedOut, r1, [])"
    and "timed_loop r (Interrupted # ps) = timed_loop r1 ps"
    and "timed_loop r (NotReady # ps) = (Inr TimedOut, r1, ps)"
    and "timed_loop r (PollFailed e # ps) = (Inl e, r1, ps)"
    and "timed_loop r (Readable (Inl e) # ps) = (Inl e, compact r1, ps)"
    and "timed_loop r (Readable (Inr []) # ps) = timed_loop ((compact r1)\<lparr>tr_eof := True\<rparr>) ps"
    and "chunk \<noteq> [] \<Longrightarrow> timed_loop r (Readable (Inr chunk) # ps) =
      timed_loop ((compact r1)\<lparr>tr_buffer := tr_buffer (compact r1) @ chunk\<rparr>) ps"
  using assms by (simp_all add: timed_loop.simps [of r])

lemma timed_loop_stops:
  "extract_frame r = (Inl e, r1) \<Longrightarrow> timed_loop r polls = (Inl e, r1, polls)"
  "extract_frame r = (Inr (Some out), r1) \<Longrightarrow> timed_loop r polls = (Inr out, r1, polls)"
  "extract_frame r = (Inr None, r1) \<Longrightarrow> tr_eof r1 \<Longrightarrow> timed_loop r polls = (Inr TimedEnd, r1, polls)"
  by (simp_all add: timed_loop.simps [of r])

text \<open>Where the loop goes on, the reader it continues from has the same stream.\<close>

lemma timed_post_continue:
  assumes "timed_post r2 ps (timed_loop r2 ps)" and "tr_limit r2 = tr_limit r"
    and "frame_spec (tr_limit r) (stream r2 ps) = frame_spec (tr_limit r) (stream r (q # ps))"
  shows "timed_post r (q # ps) (timed_loop r2 ps)"
  using assms by (auto simp: timed_post_def Let_def split: sum.splits timed_outcome.splits prod.splits)

lemma pending_append:
  "timed_ok r \<Longrightarrow> tr_pending (r\<lparr>tr_buffer := tr_buffer r @ c\<rparr>) = tr_pending r @ c"
  by (simp add: tr_pending_def timed_ok_def)

lemma timed_loop_stop_post:
  assumes ok: "timed_ok r" and ex: "extract_frame r = (res, r1)"
    and stop: "res \<noteq> Inr None \<or> tr_eof r1"
  shows "timed_post r polls (timed_loop r polls)"
proof -
  define x where "x = (if tr_eof r then [] else incoming polls)"
  have p: "extract_post r (res, r1)" using extract_frame_post [OF ok] ex by simp
  have str: "stream r polls = tr_pending r @ x" "stream r1 polls = tr_pending r1 @ x"
    using p by (simp_all add: stream_def x_def extract_post_def)
  have xe: "tr_eof r \<Longrightarrow> x = []" by (simp add: x_def)
  consider (err) e where "res = Inl e" | (out) out where "res = Inr (Some out)"
    | (none) "res = Inr None" "tr_eof r1"
    using stop by (cases res) (metis option.exhaust)+
  then show ?thesis
  proof cases
    case err
    with p ex xe show ?thesis
      by (auto simp: timed_loop_stops timed_post_def extract_post_def str)
  next
    case out
    with p ex xe show ?thesis
      by (auto simp: timed_loop_stops timed_post_def extract_post_def str)
  next
    case none
    with p ex have "tr_pending r1 = []" "tr_eof r" by (auto simp: extract_post_def)
    moreover from this p none have "frame_spec (tr_limit r) (tr_pending r) = frame_spec (tr_limit r) []"
      by (auto simp: extract_post_def)
    ultimately show ?thesis using none p ex xe
      by (simp add: timed_loop_stops timed_post_def str extract_post_def outcome_of_def frame_spec.simps)
  qed
qed

lemma timed_loop_post: "timed_ok r \<Longrightarrow> timed_post r polls (timed_loop r polls)"
proof (induction polls arbitrary: r)
  case Nil
  obtain res r1 where ex: "extract_frame r = (res, r1)" by fastforce
  show ?case
  proof (cases "res \<noteq> Inr None \<or> tr_eof r1")
    case True
    with timed_loop_stop_post [OF Nil ex] show ?thesis by blast
  next
    case False
    then have none: "extract_frame r = (Inr None, r1)" "\<not> tr_eof r1" using ex by auto
    have "frame_spec (tr_limit r) (tr_pending r @ []) = frame_spec (tr_limit r) (tr_pending r1 @ [])"
      "timed_ok r1" "tr_eof r = tr_eof r1" "tr_limit r1 = tr_limit r"
      using extract_frame_post [OF Nil] none by (auto simp: extract_post_def simp del: append_Nil2)
    with none show ?thesis
      by (simp add: timed_loop_unfold timed_post_def stream_def)
  qed
next
  case (Cons q ps)
  obtain res r1 where ex: "extract_frame r = (res, r1)" by fastforce
  show ?case
  proof (cases "res \<noteq> Inr None \<or> tr_eof r1")
    case True
    with timed_loop_stop_post [OF Cons(2) ex] show ?thesis by blast
  next
    case False
    then have none: "extract_frame r = (Inr None, r1)" "\<not> tr_eof r1" using ex by auto
    have p: "timed_ok r1" "tr_eof r = tr_eof r1" "tr_limit r1 = tr_limit r"
      and eq: "frame_spec (tr_limit r) (tr_pending r @ x) = frame_spec (tr_limit r) (tr_pending r1 @ x)" for x
      using extract_frame_post [OF Cons(2)] none by (auto simp: extract_post_def)
    note unf = timed_loop_unfold [OF none]
    have c: "timed_ok (compact r1)" using p(1) by (rule compact_ok)
    note cont = timed_post_continue [OF Cons.IH]
    consider (i) "q = Interrupted" | (n) "q = NotReady" | (f) e where "q = PollFailed e"
      | (e) e where "q = Readable (Inl e)" | (z) "q = Readable (Inr [])"
      | (c) chunk where "q = Readable (Inr chunk)" "chunk \<noteq> []"
      by (metis poll.exhaust sum.exhaust)
    then show ?thesis
    proof cases
      case i
      have "timed_post r (q # ps) (timed_loop r1 ps)"
        by (rule cont) (use i p none eq in \<open>auto simp: stream_def\<close>)
      with i show ?thesis by (simp add: unf)
    next
      case n
      with p none eq show ?thesis by (simp add: unf timed_post_def stream_def)
    next
      case f
      with p show ?thesis by (simp add: unf timed_post_def)
    next
      case e
      with p c show ?thesis by (simp add: unf timed_post_def)
    next
      case z
      have "timed_post r (q # ps) (timed_loop ((compact r1)\<lparr>tr_eof := True\<rparr>) ps)"
        by (rule cont) (use z p none eq [of "[]"] c in \<open>auto simp: stream_def timed_ok_def\<close>)
      with z show ?thesis by (simp add: unf)
    next
      case (c chunk)
      let ?r = "(compact r1)\<lparr>tr_buffer := tr_buffer (compact r1) @ chunk\<rparr>"
      have "timed_post r (q # ps) (timed_loop ?r ps)"
        by (rule cont)
          (use c p none eq \<open>timed_ok (compact r1)\<close> in
            \<open>auto simp: stream_def pending_append timed_ok_def\<close>)
      with c show ?thesis by (simp add: unf)
    qed
  qed
qed

text \<open>
  C23. The timed reader loses and invents nothing: a frame it returns is the first frame
  of the bytes not yet returned, a time-out leaves the same frames to come, the end of
  the stream means no frame is left, and an error is the limit error of the reference or
  one the descriptor reported; this for any pattern of time-outs, interruptions and
  partial reads.
\<close>

theorem timed_reader_lossless:
  assumes "timed_ok r"
  shows "timed_post r polls (timed_read_frame True r polls)"
  using timed_loop_post [OF assms] by (simp add: timed_read_frame_def)

theorem timed_reader_lossless_witness:
  "timed_post (timed_new 5) [Readable (Inr [49]), NotReady]
     (timed_read_frame True (timed_new 5) [Readable (Inr [49]), NotReady])"
  by (rule timed_reader_lossless) (simp add: timed_ok_def timed_new_def)

lemma timed_loop_bounded:
  "timed_ok r \<Longrightarrow> bounded r \<Longrightarrow> chunks_ok polls \<Longrightarrow> bounded (fst (snd (timed_loop r polls)))"
proof (induction polls arbitrary: r)
  case Nil
  obtain res r1 where ex: "extract_frame r = (res, r1)" by fastforce
  have "tr_buffer r1 = tr_buffer r" "tr_limit r1 = tr_limit r"
    using extract_frame_post [OF Nil(1)] ex by (auto simp: extract_post_def)
  with Nil(2) ex show ?case
    by (auto simp: timed_loop.simps [of r] bounded_def split: sum.splits option.splits)
next
  case (Cons q ps)
  obtain res r1 where ex: "extract_frame r = (res, r1)" by fastforce
  have p: "timed_ok r1" "tr_buffer r1 = tr_buffer r" "tr_limit r1 = tr_limit r"
    using extract_frame_post [OF Cons(2)] ex by (auto simp: extract_post_def)
  have b1: "bounded r1" using Cons(3) p by (simp add: bounded_def)
  show ?case
  proof (cases "res \<noteq> Inr None \<or> tr_eof r1")
    case True
    with b1 ex show ?thesis by (cases res; cases "projr res") (auto simp: timed_loop_stops)
  next
    case False
    then have none: "extract_frame r = (Inr None, r1)" "\<not> tr_eof r1" using ex by auto
    have small: "length (tr_pending r1) \<le> tr_limit r1"
      using extract_frame_post [OF Cons(2)] none by (auto simp: extract_post_def)
    have cp: "timed_ok (compact r1)" "length (tr_buffer (compact r1)) \<le> tr_limit r1 + 8 * 1024"
      "length (tr_buffer (compact r1)) \<le> length (tr_buffer r1)"
      using compact_ok [OF p(1)] compact_length [of r1] compact_shrinks [of r1] small by auto
    have rest: "chunks_ok ps" using Cons(4) by (cases "(q # ps)" rule: chunks_ok.cases) auto
    note unf = timed_loop_unfold [OF none]
    consider (i) "q = Interrupted" | (n) "q = NotReady" | (f) e where "q = PollFailed e"
      | (e) e where "q = Readable (Inl e)" | (z) "q = Readable (Inr [])"
      | (c) chunk where "q = Readable (Inr chunk)" "chunk \<noteq> []"
      by (metis poll.exhaust sum.exhaust)
    then show ?thesis
    proof cases
      case i
      with Cons.IH [OF p(1) b1 rest] show ?thesis by (simp add: unf)
    next
      case z
      have "bounded (fst (snd (timed_loop ((compact r1)\<lparr>tr_eof := True\<rparr>) ps)))"
        by (rule Cons.IH) (use cp b1 rest in \<open>auto simp: bounded_def timed_ok_def\<close>)
      with z show ?thesis by (simp add: unf)
    next
      case (c chunk)
      have "bounded (fst (snd (timed_loop ((compact r1)\<lparr>tr_buffer := tr_buffer (compact r1) @ chunk\<rparr>) ps)))"
        by (rule Cons.IH) (use cp rest c Cons(4) in \<open>auto simp: bounded_def timed_ok_def\<close>)
      with c show ?thesis by (simp add: unf)
    qed (use b1 cp in \<open>auto simp: unf bounded_def\<close>)
  qed
qed

text \<open>
  The timed reader's buffer is bounded: whatever a peer sends, in chunks of at most
  8 KiB, it holds at most the frame limit and 16 KiB.
\<close>

theorem timed_reader_bounded:
  assumes "timed_ok r" and "bounded r" and "chunks_ok polls"
  shows "bounded (fst (snd (timed_read_frame d r polls)))"
  using timed_loop_bounded [OF assms] assms(2) by (simp add: timed_read_frame_def)

theorem timed_reader_bounded_witness:
  "bounded (fst (snd (timed_read_frame True (timed_new 5) [Readable (Inr [49, 50]), NotReady])))"
  by (rule timed_reader_bounded) (simp_all add: timed_ok_def timed_new_def bounded_def)

section \<open>The timed reader as a frame reader\<close>

text \<open>
  Over a descriptor that reports only readable chunks, the timed reader satisfies the
  interface of the buffered readers.
\<close>

definition timed_step :: "timed_reader \<times> poll list \<Rightarrow> (io_error + frame_outcome) \<times> timed_reader \<times> poll list" where
  "timed_step s = (case timed_read_frame True (fst s) (snd s) of
     (res, r', ps) \<Rightarrow> (map_sum id outcome_of res, r', ps))"

fun timed_frames :: "nat \<Rightarrow> timed_reader \<times> poll list \<Rightarrow> (io_error + frame_outcome) list" where
  "timed_frames 0 s = []"
| "timed_frames (Suc n) s = fst (timed_step s) # timed_frames n (snd (timed_step s))"

definition readable_chunk :: "poll \<Rightarrow> bool" where
  "readable_chunk q \<longleftrightarrow> (case q of Readable (Inr _) \<Rightarrow> True | _ \<Rightarrow> False)"

definition quiet :: "timed_reader \<times> poll list \<Rightarrow> bool" where
  "quiet s \<longleftrightarrow> timed_ok (fst s) \<and> list_all readable_chunk (snd s) \<and>
     (tr_eof (fst s) \<or> Readable (Inr []) \<in> set (snd s))"

lemma readable_chunk_iff: "readable_chunk q \<longleftrightarrow> (\<exists>c. q = Readable (Inr c))"
  by (auto simp: readable_chunk_def split: poll.splits sum.splits)

lemma timed_loop_quiet:
  "quiet (r, polls) \<Longrightarrow> fst (timed_loop r polls) \<noteq> Inr TimedOut \<and> quiet (snd (timed_loop r polls))"
proof (induction polls arbitrary: r)
  case Nil
  then have ok: "timed_ok r" "tr_eof r" by (simp_all add: quiet_def)
  obtain res r1 where ex: "extract_frame r = (res, r1)" by fastforce
  have p: "extract_post r (res, r1)" using extract_frame_post [OF ok(1)] ex by simp
  then have "timed_ok r1" "tr_eof r1" using ok by (simp_all add: extract_post_def)
  then show ?case using p ex
    by (cases res; cases "projr res") (auto simp: timed_loop_stops quiet_def extract_post_def)
next
  case (Cons q ps)
  then have ok: "timed_ok r" by (simp add: quiet_def)
  obtain res r1 where ex: "extract_frame r = (res, r1)" by fastforce
  have p: "extract_post r (res, r1)" using extract_frame_post [OF ok] ex by simp
  then have r1: "timed_ok r1" "tr_eof r1 = tr_eof r" by (simp_all add: extract_post_def)
  show ?case
  proof (cases "res \<noteq> Inr None \<or> tr_eof r1")
    case True
    then show ?thesis using p ex r1 Cons.prems
      by (cases res; cases "projr res") (auto simp: timed_loop_stops quiet_def extract_post_def)
  next
    case False
    then have none: "extract_frame r = (Inr None, r1)" "\<not> tr_eof r1" using ex by auto
    obtain c where q: "q = Readable (Inr c)"
      using Cons.prems by (auto simp: quiet_def readable_chunk_iff)
    note unf = timed_loop_unfold [OF none]
    show ?thesis
    proof (cases "c = []")
      case True
      have "quiet ((compact r1)\<lparr>tr_eof := True\<rparr>, ps)"
        using compact_ok [OF r1(1)] Cons.prems by (simp add: quiet_def timed_ok_def)
      from Cons.IH [OF this] show ?thesis using q True by (simp add: unf)
    next
      case c: False
      have "quiet ((compact r1)\<lparr>tr_buffer := tr_buffer (compact r1) @ c\<rparr>, ps)"
        using compact_ok [OF r1(1)] Cons.prems c q none r1 by (auto simp: quiet_def timed_ok_def)
      from Cons.IH [OF this] show ?thesis using q c by (simp add: unf)
    qed
  qed
qed

interpretation timed: frame_reader timed_step "\<lambda>s. quiet s \<and> tr_limit (fst s) = limit"
  "\<lambda>s. stream (fst s) (snd s)" limit for limit
proof
  fix s :: "timed_reader \<times> poll list"
  assume a: "quiet s \<and> tr_limit (fst s) = limit"
  obtain r polls where s: "s = (r, polls)" by fastforce
  obtain res r' ps where l: "timed_loop r polls = (res, r', ps)" by (metis prod_cases3)
  have "timed_post r polls (res, r', ps)"
    using timed_loop_post [of r polls] a s l by (simp add: quiet_def)
  moreover have "res \<noteq> Inr TimedOut" "quiet (r', ps)"
    using timed_loop_quiet [of r polls] a s l by auto
  moreover have "\<not> (\<exists>q\<in>set polls. q = PollFailed e \<or> q = Readable (Inl e))" for e
    using a s by (auto simp: quiet_def list_all_iff readable_chunk_def)
  ultimately show "refines (timed_step s) (\<lambda>s. quiet s \<and> tr_limit (fst s) = limit)
      (\<lambda>s. stream (fst s) (snd s)) (frame_spec limit (stream (fst s) (snd s)))"
    using a s l
    by (cases res; cases "projr res")
      (auto simp: timed_step_def timed_read_frame_def refines_def timed_post_def Let_def)
qed

lemma timed_frames_eq: "timed_frames n s = timed.read_all n s"
  by (induction n arbitrary: s) simp_all

text \<open>
  The timed reader also gives back written frames, each whole and in order, whatever
  the sizes of the chunks the descriptor delivers.
\<close>

theorem timed_roundtrip:
  assumes "\<forall>p\<in>set ps. validate_frame_payload p limit = Inr ()"
    and "quiet (timed_new limit, polls)" and "incoming polls = write_all ps limit []"
  shows "timed_frames (Suc (length ps)) (timed_new limit, polls)
    = map (\<lambda>p. Inr (Frame p)) ps @ [Inr EndOfStream]"
  unfolding timed_frames_eq
  by (rule timed.read_written [of _ limit])
    (use assms write_all_bytes [OF assms(1), of "[]"] in
      \<open>auto simp: stream_def timed_new_def tr_pending_def\<close>)

theorem timed_roundtrip_witness:
  "timed_frames 2 (timed_new 5, [Readable (Inr [1, 2]), Readable (Inr [10]), Readable (Inr [])])
    = [Inr (Frame [1, 2]), Inr EndOfStream]"
proof -
  have "timed_frames (Suc (length [[1, 2 :: byte]]))
      (timed_new 5, [Readable (Inr [1, 2]), Readable (Inr [10]), Readable (Inr [])])
    = map (\<lambda>p. Inr (Frame p)) [[1, 2]] @ [Inr EndOfStream]"
    by (rule timed_roundtrip)
      (simp_all add: validate_frame_payload_def newline_def carriage_return_def quiet_def
        timed_ok_def timed_new_def readable_chunk_def write_frame_def)
  then show ?thesis by (simp add: numeral_2_eq_2)
qed

end
