(* ===== verification/Replay.thy ===== *)
theory Replay
  imports Prelude
begin

text \<open>
  Replay contracts (\<open>replay.rs\<close>): what the host knows of an invocation's execution, and
  the total law that decides what may happen to it next. The functions are pure, so the
  theory is the decision table and the facts the kernel rests on: which dispatches the
  law can authorise, and the order in which knowledge can evolve.
\<close>

datatype knowledge = NotDispatched | InFlight | CompletedRun | OutcomeUnknown

datatype contract = Convergent | ProbeRequired | NeverReplay

datatype probe_resolution = AlreadyCompleted | SafeToReplay

record allowance =
  al_attempts_used :: u8
  al_max_attempts :: u8

definition allowance_new :: "u8 \<Rightarrow> u8 \<Rightarrow> allowance" where
  "allowance_new used limit = \<lparr>al_attempts_used = used, al_max_attempts = limit\<rparr>"

definition next_attempt :: "allowance \<Rightarrow> u8 option" where
  "next_attempt a =
     (case checked_add (al_attempts_used a) 1 of
        Some n \<Rightarrow> if n \<le> al_max_attempts a then Some n else None
      | None \<Rightarrow> None)"

datatype disposition = FirstDispatch | AwaitTerminal | CompletedDisp | ReplayDisp | HoldForProbe
  | CompleteFromProbe | RejectAmbiguousOutcome | RejectReplayExhausted
  | RejectUnexpectedProbeResolution

datatype transition_error = TransitionError knowledge disposition

section \<open>Execution knowledge\<close>

definition after_worker_loss :: "knowledge \<Rightarrow> knowledge" where
  "after_worker_loss k = (case k of InFlight \<Rightarrow> OutcomeUnknown | _ \<Rightarrow> k)"

definition after_dispatch :: "knowledge \<Rightarrow> disposition \<Rightarrow> transition_error + knowledge" where
  "after_dispatch k d =
     (case (k, d) of
        (NotDispatched, FirstDispatch) \<Rightarrow> Inr InFlight
      | (OutcomeUnknown, ReplayDisp) \<Rightarrow> Inr InFlight
      | _ \<Rightarrow> Inl (TransitionError k d))"

definition after_terminal_outcome :: "knowledge \<Rightarrow> transition_error + knowledge" where
  "after_terminal_outcome k =
     (if k = InFlight \<or> k = OutcomeUnknown then Inr CompletedRun
      else Inl (TransitionError k CompletedDisp))"

definition after_completed_probe :: "knowledge \<Rightarrow> transition_error + knowledge" where
  "after_completed_probe k =
     (if k = OutcomeUnknown then Inr CompletedRun else Inl (TransitionError k CompleteFromProbe))"

section \<open>The recovery law\<close>

definition replay_or_exhausted :: "allowance \<Rightarrow> disposition" where
  "replay_or_exhausted a = (if next_attempt a \<noteq> None then ReplayDisp else RejectReplayExhausted)"

definition request_disposition ::
    "knowledge \<Rightarrow> contract \<Rightarrow> probe_resolution option \<Rightarrow> allowance \<Rightarrow> disposition" where
  "request_disposition k c p a =
     (if p \<noteq> None \<and> \<not> (k = OutcomeUnknown \<and> c = ProbeRequired)
      then RejectUnexpectedProbeResolution
      else case k of
        NotDispatched \<Rightarrow> FirstDispatch
      | InFlight \<Rightarrow> AwaitTerminal
      | CompletedRun \<Rightarrow> CompletedDisp
      | OutcomeUnknown \<Rightarrow>
          (case c of
             Convergent \<Rightarrow> replay_or_exhausted a
           | ProbeRequired \<Rightarrow>
               (case p of None \<Rightarrow> HoldForProbe
                | Some AlreadyCompleted \<Rightarrow> CompleteFromProbe
                | Some SafeToReplay \<Rightarrow> replay_or_exhausted a)
           | NeverReplay \<Rightarrow> RejectAmbiguousOutcome))"

lemma next_attempt_Some:
  "next_attempt a = Some n \<longleftrightarrow>
     unat (al_attempts_used a) < unat (al_max_attempts a) \<and> n = al_attempts_used a + 1"
proof (cases "checked_add (al_attempts_used a) 1")
  case None
  then have "unat (al_attempts_used a) + 1 \<ge> 2 ^ 8" by (simp add: checked_add_def split: if_splits)
  moreover have "unat (al_max_attempts a) < 2 ^ 8" using unsigned_less [of "al_max_attempts a"] by simp
  ultimately show ?thesis using None by (auto simp: next_attempt_def)
next
  case (Some m)
  then have "m = al_attempts_used a + 1" by (auto simp: checked_add_def split: if_splits)
  with Some checked_add_Some [OF Some] show ?thesis
    by (auto simp: next_attempt_def word_le_nat_alt)
qed

lemma next_attempt_exists:
  "(\<exists>n. next_attempt a = Some n) \<longleftrightarrow> al_attempts_used a < al_max_attempts a"
  by (simp add: next_attempt_Some word_less_nat_alt)

lemma replay_or_exhausted_iff:
  "replay_or_exhausted a = ReplayDisp \<longleftrightarrow> al_attempts_used a < al_max_attempts a"
  "replay_or_exhausted a = RejectReplayExhausted \<longleftrightarrow> \<not> al_attempts_used a < al_max_attempts a"
  using next_attempt_exists [of a] by (auto simp: replay_or_exhausted_def)

lemma replay_disposition_iff:
  "request_disposition k c p a = ReplayDisp \<longleftrightarrow>
     k = OutcomeUnknown \<and> al_attempts_used a < al_max_attempts a \<and>
     (c = Convergent \<and> p = None \<or> c = ProbeRequired \<and> p = Some SafeToReplay)"
  using replay_or_exhausted_iff [of a]
  by (auto simp: request_disposition_def
      split: knowledge.splits contract.splits option.splits probe_resolution.splits)

text \<open>
  C1. The law and the transitions agree on what may execute: the disposition computed for
  an invocation is one its knowledge accepts as a dispatch exactly when it never reached a
  worker, or when its outcome is unknown, an attempt is left, and the contract is
  convergent or a probe-required one with evidence that repeating is safe. No other
  combination, and no unasked-for evidence, ever leads to an execution.
\<close>

theorem dispatch_authority:
  "after_dispatch k (request_disposition k c p a) = Inr InFlight \<longleftrightarrow>
     k = NotDispatched \<and> p = None \<or>
     k = OutcomeUnknown \<and> al_attempts_used a < al_max_attempts a \<and>
       (c = Convergent \<and> p = None \<or> c = ProbeRequired \<and> p = Some SafeToReplay)"
  using replay_or_exhausted_iff [of a]
  by (auto simp: request_disposition_def after_dispatch_def replay_or_exhausted_def
      split: knowledge.splits contract.splits option.splits probe_resolution.splits)

lemma requeue_disposition:
  "request_disposition OutcomeUnknown c None a \<in>
     {ReplayDisp, HoldForProbe, RejectReplayExhausted, RejectAmbiguousOutcome}"
  by (auto simp: request_disposition_def replay_or_exhausted_def split: contract.splits)

lemma requeue_disposition_cases:
  "request_disposition OutcomeUnknown c None a = HoldForProbe \<longleftrightarrow> c = ProbeRequired"
  "request_disposition OutcomeUnknown c None a = RejectAmbiguousOutcome \<longleftrightarrow> c = NeverReplay"
  "request_disposition OutcomeUnknown c None a = ReplayDisp \<longleftrightarrow>
     c = Convergent \<and> al_attempts_used a < al_max_attempts a"
  "request_disposition OutcomeUnknown c None a = RejectReplayExhausted \<longleftrightarrow>
     c = Convergent \<and> \<not> al_attempts_used a < al_max_attempts a"
  using replay_or_exhausted_iff [of a]
  by (auto simp: request_disposition_def split: contract.splits)

lemma probe_disposition_cases:
  "request_disposition OutcomeUnknown ProbeRequired (Some AlreadyCompleted) a = CompleteFromProbe"
  "request_disposition OutcomeUnknown ProbeRequired (Some SafeToReplay) a = replay_or_exhausted a"
  by (simp_all add: request_disposition_def)

section \<open>The evolution of knowledge\<close>

text \<open>
  One invocation as the law sees it: knowledge and attempts, under a fixed contract. A
  step is one of the transitions the host makes: the first dispatch, the loss of the
  worker, a replay the law authorises, a terminal response, a completed probe.
\<close>

datatype evidence = Dispatched | WorkerLost | Replayed "probe_resolution option"
  | Terminal | ProbedComplete

definition evolve :: "contract \<Rightarrow> u8 \<Rightarrow> knowledge \<times> u8 \<Rightarrow> evidence \<Rightarrow> (knowledge \<times> u8) option" where
  "evolve c limit s ev = (case s of (k, n) \<Rightarrow>
     (case ev of
        Dispatched \<Rightarrow> (case after_dispatch k (request_disposition k c None (allowance_new n limit)) of
            Inr k' \<Rightarrow> if k = NotDispatched then Some (k', n) else None | Inl _ \<Rightarrow> None)
      | WorkerLost \<Rightarrow> Some (after_worker_loss k, n)
      | Replayed p \<Rightarrow>
          (if request_disposition k c p (allowance_new n limit) = ReplayDisp then
             (case after_dispatch k ReplayDisp of
                Inr k' \<Rightarrow> map_option (\<lambda>n'. (k', n')) (checked_add n 1) | Inl _ \<Rightarrow> None)
           else None)
      | Terminal \<Rightarrow> (case after_terminal_outcome k of Inr k' \<Rightarrow> Some (k', n) | Inl _ \<Rightarrow> None)
      | ProbedComplete \<Rightarrow>
          (if request_disposition k c (Some AlreadyCompleted) (allowance_new n limit) = CompleteFromProbe
           then (case after_completed_probe k of Inr k' \<Rightarrow> Some (k', n) | Inl _ \<Rightarrow> None)
           else None)))"

inductive evolves :: "contract \<Rightarrow> u8 \<Rightarrow> evidence list \<Rightarrow> knowledge \<times> u8 \<Rightarrow> bool"
  for c :: contract and limit :: u8
where
  start: "evolves c limit [] (NotDispatched, 0)"
| advance: "evolves c limit evs s \<Longrightarrow> evolve c limit s ev = Some s' \<Longrightarrow> evolves c limit (evs @ [ev]) s'"

definition dispatches :: "evidence list \<Rightarrow> nat" where
  "dispatches evs = length (filter (\<lambda>ev. case ev of Dispatched \<Rightarrow> True | Replayed _ \<Rightarrow> True | _ \<Rightarrow> False) evs)"

definition terminals :: "evidence list \<Rightarrow> nat" where
  "terminals evs = length (filter (\<lambda>ev. ev = Terminal \<or> ev = ProbedComplete) evs)"

lemma dispatches_snoc [simp]: "dispatches [] = 0"
  "dispatches (evs @ [ev]) = dispatches evs + (case ev of Dispatched \<Rightarrow> 1 | Replayed _ \<Rightarrow> 1 | _ \<Rightarrow> 0)"
  by (auto simp: dispatches_def split: evidence.splits)

lemma terminals_snoc [simp]: "terminals [] = 0"
  "terminals (evs @ [ev]) = terminals evs + (if ev = Terminal \<or> ev = ProbedComplete then 1 else 0)"
  by (auto simp: terminals_def)

lemma evolves_account:
  "evolves c limit evs s \<Longrightarrow>
     dispatches evs = unat (snd s) + (if fst s = NotDispatched then 0 else 1) \<and>
     snd s \<le> limit \<and> (c = NeverReplay \<longrightarrow> snd s = 0) \<and>
     (fst s = NotDispatched \<longrightarrow> snd s = 0) \<and>
     terminals evs = (if fst s = CompletedRun then 1 else 0)"
proof (induction rule: evolves.induct)
  case (advance evs s ev s')
  obtain k n where s: "s = (k, n)" by (cases s)
  show ?case
  proof (cases ev)
    case (Replayed p)
    with advance s have auth: "request_disposition k c p (allowance_new n limit) = ReplayDisp"
      and k: "after_dispatch k ReplayDisp = Inr (fst s')" and n: "checked_add n 1 = Some (snd s')"
      by (auto simp: evolve_def split: if_splits sum.splits)
    have "k = OutcomeUnknown" "n < limit" "c \<noteq> NeverReplay" "fst s' = InFlight"
      using auth k replay_disposition_iff [of k c p "allowance_new n limit"]
      by (auto simp: allowance_new_def after_dispatch_def)
    then show ?thesis using advance.IH s Replayed checked_add_Some [OF n]
      by (auto simp: word_le_nat_alt word_less_nat_alt)
  qed (use advance s in \<open>auto simp: evolve_def after_dispatch_def after_terminal_outcome_def
      after_completed_probe_def after_worker_loss_def
      split: sum.splits if_splits knowledge.splits disposition.splits\<close>)
qed (simp_all add: dispatches_def terminals_def)

text \<open>
  Along every history the law allows, an invocation is dispatched at most one time
  more than its replay limit, exactly once under \<open>NeverReplay\<close> however the workers fail,
  and has at most one terminal outcome.
\<close>

theorem dispatch_bound:
  assumes "evolves c limit evs s"
  shows "dispatches evs \<le> unat limit + 1 \<and> (c = NeverReplay \<longrightarrow> dispatches evs \<le> 1) \<and>
    terminals evs \<le> 1"
  using evolves_account [OF assms] by (auto simp: word_le_nat_alt split: if_splits)

theorem dispatch_bound_witness:
  "evolves Convergent 1 [Dispatched, WorkerLost, Replayed None, Terminal] (CompletedRun, 1) \<and>
   dispatches [Dispatched, WorkerLost, Replayed None, Terminal] \<le> 2"
proof -
  note step = evolves.advance [where c = Convergent and limit = 1]
  note defs = evolve_def after_dispatch_def after_worker_loss_def after_terminal_outcome_def
    request_disposition_def replay_or_exhausted_def next_attempt_def allowance_new_def checked_add_def
  have 1: "evolves Convergent 1 [Dispatched] (InFlight, 0)"
    using step [OF evolves.start, of Dispatched] by (simp add: defs)
  have 2: "evolves Convergent 1 [Dispatched, WorkerLost] (OutcomeUnknown, 0)"
    using step [OF 1, of WorkerLost] by (simp add: defs)
  have 3: "evolves Convergent 1 [Dispatched, WorkerLost, Replayed None] (InFlight, 1)"
    using step [OF 2, of "Replayed None"] by (simp add: defs)
  have 4: "evolves Convergent 1 [Dispatched, WorkerLost, Replayed None, Terminal] (CompletedRun, 1)"
    using step [OF 3, of Terminal] by (simp add: defs)
  with dispatch_bound [OF 4] show ?thesis by simp
qed

end
