(* ===== verification/Host.thy ===== *)
theory Host
  imports Jsonrpc Replay
begin

text \<open>
  The session kernel (\<open>host.rs\<close>): the public MCP session phase, the pending invocations
  with what is known of their execution, and the queue of frames waiting for a worker.

  One operation of \<open>HostSessionKernel\<close> is one definition; it returns its result with the
  kernel it leaves, also when it fails half-way. \<open>pending\<close> is a \<open>HashMap\<close> (an association
  list), \<open>queued_frames\<close> a \<open>VecDeque\<close> (a list, front first). \<open>StdInstant::now()\<close> is the
  argument \<open>now\<close>, in milliseconds.
\<close>

section \<open>The state\<close>

datatype session_phase = Cold | Initializing | AwaitingInitialized | Live

record 'n seeded_request =
  si_id :: "'n request_id"
  si_payload :: "byte list"

record 'n seed =
  sd_request :: "'n seeded_request"
  sd_notification :: "byte list option"

datatype rejection = QueueOverflow | ReplayBudgetExhausted | DuplicateRequestId
  | PendingCapacityExhausted | InvalidRequestFrame | AmbiguousOutcome | RequestNotPending
  | InvalidExecutionState

definition rejection_code :: "rejection \<Rightarrow> int" where
  "rejection_code r = (case r of
      QueueOverflow \<Rightarrow> -32097 | ReplayBudgetExhausted \<Rightarrow> -32095 | DuplicateRequestId \<Rightarrow> -32600
    | PendingCapacityExhausted \<Rightarrow> -32096 | InvalidRequestFrame \<Rightarrow> -32600
    | AmbiguousOutcome \<Rightarrow> -32094 | RequestNotPending \<Rightarrow> -32600 | InvalidExecutionState \<Rightarrow> -32603)"

definition rejection_message :: "rejection \<Rightarrow> string" where
  "rejection_message r = (case r of
      QueueOverflow \<Rightarrow> ''worker queue overflow during recovery''
    | ReplayBudgetExhausted \<Rightarrow> ''worker restart replay budget exhausted for request''
    | DuplicateRequestId \<Rightarrow> ''public request id is already outstanding''
    | PendingCapacityExhausted \<Rightarrow> ''pending request capacity exhausted''
    | InvalidRequestFrame \<Rightarrow> ''frame is not a JSON-RPC request''
    | AmbiguousOutcome \<Rightarrow> ''request outcome is ambiguous and replay is forbidden''
    | RequestNotPending \<Rightarrow> ''request id is not pending''
    | InvalidExecutionState \<Rightarrow> ''request execution state transition is invalid'')"

record 'n pending_request =
  pr_method :: rpc_method
  pr_sequence :: u64
  pr_frame :: "'n frame"
  pr_contract :: contract
  pr_started_at :: nat
  pr_meta :: "tool_call_meta option"
  pr_knowledge :: knowledge
  pr_attempts :: u8
  pr_scheduled :: "disposition option"

datatype 'n queue_outcome = ReplayFrame "'n frame" | ClientFrame "'n frame"
  | HeldForProbe "'n request_id" | QueueEmpty

datatype 'n probe_outcome = ProbeCompleted "'n pending_request" | ReplayAuthorized "'n request_id"

record replay_budget =
  rb_max_attempts :: u8
  rb_queue_capacity :: nat

record 'n rejected_replay =
  rj_request_id :: "'n request_id"
  rj_request :: "'n pending_request"
  rj_next_attempt :: "u8 option"
  rj_reason :: rejection

record 'n requeue_outcome =
  ro_rejected :: "'n rejected_replay list"
  ro_held_for_probe :: "'n request_id list"

type_synonym 'n pending_map = "('n request_id \<times> 'n pending_request) list"

record 'n kernel =
  k_phase :: session_phase
  k_seed :: "'n seed option"
  k_pending :: "'n pending_map"
  k_queue :: "'n frame list"
  k_next :: u64

definition cold :: "'n kernel" where
  "cold = \<lparr>k_phase = Cold, k_seed = None, k_pending = [], k_queue = [], k_next = 0\<rparr>"

definition new_seed :: "'n request_id \<Rightarrow> 'n frame \<Rightarrow> 'n seed" where
  "new_seed i f =
     \<lparr>sd_request = \<lparr>si_id = i, si_payload = fr_payload f\<rparr>, sd_notification = None\<rparr>"

section \<open>Queries\<close>

definition request_has_id :: "'n request_id \<Rightarrow> 'n frame \<Rightarrow> bool" where
  "request_has_id i f \<longleftrightarrow> (case fr_envelope f of Request j _ \<Rightarrow> j = i | _ \<Rightarrow> False)"

definition queued_request_id :: "'n request_id \<Rightarrow> 'n kernel \<Rightarrow> bool" where
  "queued_request_id i k \<longleftrightarrow> list_ex (request_has_id i) (k_queue k)"

definition queued_len :: "'n kernel \<Rightarrow> nat" where
  "queued_len k = length (k_queue k)"

definition queue_is_empty :: "'n kernel \<Rightarrow> bool" where
  "queue_is_empty k \<longleftrightarrow> k_queue k = []"

definition pending_len :: "'n kernel \<Rightarrow> nat" where
  "pending_len k = length (k_pending k)"

definition pending_is_empty :: "'n kernel \<Rightarrow> bool" where
  "pending_is_empty k \<longleftrightarrow> k_pending k = []"

definition has_in_flight :: "'n kernel \<Rightarrow> bool" where
  "has_in_flight k \<longleftrightarrow> list_ex (\<lambda>(_, r). pr_scheduled r = None) (k_pending k)"

definition get_pending :: "'n kernel \<Rightarrow> 'n request_id \<Rightarrow> 'n pending_request option" where
  "get_pending k i = map_of (k_pending k) i"

definition prepare_replay_seed :: "session_phase \<Rightarrow> 'n seed option \<Rightarrow> rejection + 'n seed option" where
  "prepare_replay_seed ph sd =
     (case ph of
        Cold \<Rightarrow> Inr None
      | Initializing \<Rightarrow> Inr None
      | AwaitingInitialized \<Rightarrow>
          (case sd of Some s \<Rightarrow> if sd_notification s = None then Inr (Some s)
                               else Inl InvalidExecutionState
           | None \<Rightarrow> Inl InvalidExecutionState)
      | Live \<Rightarrow>
          (case sd of Some s \<Rightarrow> if sd_notification s \<noteq> None then Inr (Some s)
                               else Inl InvalidExecutionState
           | None \<Rightarrow> Inl InvalidExecutionState))"

definition replay_seed :: "'n kernel \<Rightarrow> rejection + 'n seed option" where
  "replay_seed k = prepare_replay_seed (k_phase k) (k_seed k)"

section \<open>Client frames\<close>

definition observe_client_frame :: "'n frame \<Rightarrow> ('n kernel, rejection, unit) op" where
  "observe_client_frame f k =
     (case fr_envelope f of
        Request i m \<Rightarrow>
          if is_initialize m then
            (if k_phase k \<noteq> Cold \<or> k_seed k \<noteq> None then (Inl InvalidExecutionState, k)
             else (Inr (), k\<lparr>k_seed := Some (new_seed i f)\<rparr>))
          else (Inr (), k)
      | Notification m \<Rightarrow>
          if is_initialized_notification m then
            (if k_phase k \<noteq> AwaitingInitialized then (Inl InvalidExecutionState, k)
             else case k_seed k of
                None \<Rightarrow> (Inl InvalidExecutionState, k)
              | Some s \<Rightarrow> (Inr (), k\<lparr>k_seed := Some (s\<lparr>sd_notification := Some (fr_payload f)\<rparr>),
                                     k_phase := Live\<rparr>))
          else (Inr (), k)
      | Response _ _ \<Rightarrow> (Inr (), k))"

definition queue_client_frame :: "'n frame \<Rightarrow> nat \<Rightarrow> ('n kernel, rejection, unit) op" where
  "queue_client_frame f queue_capacity k =
     (if length (k_queue k) \<ge> queue_capacity then (Inl QueueOverflow, k)
      else if (case fr_envelope f of
                 Request i _ \<Rightarrow> map_of (k_pending k) i \<noteq> None \<or> queued_request_id i k
               | _ \<Rightarrow> False) then (Inl DuplicateRequestId, k)
      else (Inr (), k\<lparr>k_queue := k_queue k @ [f]\<rparr>))"

section \<open>Dispatch\<close>

definition update_pending ::
    "'n request_id \<Rightarrow> 'n pending_request \<Rightarrow> 'n kernel \<Rightarrow> 'n kernel" where
  "update_pending i r k = k\<lparr>k_pending := AList.update i r (k_pending k)\<rparr>"

definition pop_next_dispatch :: "('n kernel, rejection, 'n queue_outcome) op" where
  "pop_next_dispatch k =
     (case k_queue k of
        [] \<Rightarrow> (Inr QueueEmpty, k)
      | f # rest \<Rightarrow>
          (case fr_envelope f of
             Request i _ \<Rightarrow>
               (case map_of (k_pending k) i of
                  None \<Rightarrow> (Inr (ClientFrame f), k\<lparr>k_queue := rest\<rparr>)
                | Some r \<Rightarrow>
                    (case pr_scheduled r of
                       Some HoldForProbe \<Rightarrow> (Inr (HeldForProbe i), k)
                     | Some ReplayDisp \<Rightarrow>
                         (case after_dispatch (pr_knowledge r) ReplayDisp of
                            Inl _ \<Rightarrow> (Inl InvalidExecutionState, k)
                          | Inr kn \<Rightarrow>
                              (let r1 = r\<lparr>pr_knowledge := kn\<rparr> in
                               case checked_add (pr_attempts r1) 1 of
                                 None \<Rightarrow> (Inl ReplayBudgetExhausted, update_pending i r1 k)
                               | Some n \<Rightarrow>
                                   (let r2 = r1\<lparr>pr_attempts := n, pr_scheduled := None\<rparr>
                                    in (Inr (ReplayFrame f),
                                        (update_pending i r2 k)\<lparr>k_queue := rest\<rparr>))))
                     | _ \<Rightarrow> (Inl InvalidExecutionState, k)))
           | _ \<Rightarrow> (Inr (ClientFrame f), k\<lparr>k_queue := rest\<rparr>)))"

definition seed_matches :: "'n request_id \<Rightarrow> 'n frame \<Rightarrow> 'n seed \<Rightarrow> bool" where
  "seed_matches i f s \<longleftrightarrow> si_id (sd_request s) = i \<and> si_payload (sd_request s) = fr_payload f"

definition begin_request_dispatch ::
    "'n extern \<Rightarrow> nat \<Rightarrow> 'n frame \<Rightarrow> contract \<Rightarrow> nat \<Rightarrow> ('n kernel, rejection, 'n request_id) op" where
  "begin_request_dispatch X now f c pending_capacity k =
     (case fr_envelope f of
        Request i m \<Rightarrow>
          if map_of (k_pending k) i \<noteq> None \<or> queued_request_id i k then (Inl DuplicateRequestId, k)
          else if length (k_pending k) \<ge> pending_capacity then (Inl PendingCapacityExhausted, k)
          else (case checked_add (k_next k) 1 of
              None \<Rightarrow> (Inl InvalidExecutionState, k)
            | Some next \<Rightarrow>
                let admit = (\<lambda>k'. (Inr i,
                      k'\<lparr>k_next := next,
                         k_pending := AList.update i
                           \<lparr>pr_method = m, pr_sequence = k_next k, pr_frame = f, pr_contract = c,
                            pr_started_at = now, pr_meta = parse_tool_call_meta X f m,
                            pr_knowledge = InFlight, pr_attempts = 0, pr_scheduled = None\<rparr>
                           (k_pending k')\<rparr>))
                in if is_initialize m then
                     (if k_phase k \<noteq> Cold then (Inl InvalidExecutionState, k)
                      else case k_seed k of
                          None \<Rightarrow> admit (k\<lparr>k_seed := Some (new_seed i f), k_phase := Initializing\<rparr>)
                        | Some s \<Rightarrow>
                            if seed_matches i f s then admit (k\<lparr>k_phase := Initializing\<rparr>)
                            else (Inl InvalidExecutionState, k))
                   else admit k)
      | _ \<Rightarrow> (Inl InvalidRequestFrame, k))"

definition remove_queued_request :: "'n request_id \<Rightarrow> 'n kernel \<Rightarrow> 'n kernel" where
  "remove_queued_request i k = k\<lparr>k_queue := filter (\<lambda>f. \<not> request_has_id i f) (k_queue k)\<rparr>"

definition complete_response :: "'n frame \<Rightarrow> ('n kernel, rejection, 'n pending_request) op" where
  "complete_response response k =
     (case fr_envelope response of
        Response i has_error \<Rightarrow>
          (case map_of (k_pending k) i of
             None \<Rightarrow> (Inl RequestNotPending, k)
           | Some r \<Rightarrow>
               (case after_terminal_outcome (pr_knowledge r) of
                  Inl _ \<Rightarrow> (Inl InvalidExecutionState, k)
                | Inr kn \<Rightarrow>
                    if is_initialize (pr_method r) \<and> k_phase k \<noteq> Initializing
                    then (Inl InvalidExecutionState, k)
                    else
                      let r1 = r\<lparr>pr_knowledge := kn\<rparr>;
                          k1 = k\<lparr>k_pending := AList.delete i (k_pending k)\<rparr>;
                          k2 = (if is_initialize (pr_method r1) then
                                  (if has_error then k1\<lparr>k_phase := Cold, k_seed := None\<rparr>
                                   else k1\<lparr>k_phase := AwaitingInitialized\<rparr>)
                                else k1)
                      in (Inr r1, remove_queued_request i k2)))
      | _ \<Rightarrow> (Inl InvalidRequestFrame, k))"

section \<open>Recovery\<close>

definition lose_worker :: "'n pending_request \<Rightarrow> 'n pending_request" where
  "lose_worker r = r\<lparr>pr_knowledge := after_worker_loss (pr_knowledge r), pr_scheduled := None\<rparr>"

definition keep_queued :: "'n pending_map \<Rightarrow> 'n frame \<Rightarrow> bool" where
  "keep_queued p f \<longleftrightarrow> (case fr_envelope f of Request i _ \<Rightarrow> map_of p i = None | _ \<Rightarrow> True)"

text \<open>
  The loop over the ordered pending requests, with the collections it fills:
  \<open>self.pending\<close>, \<open>replay_frames\<close>, \<open>dropped_ids\<close>, \<open>rejected\<close>, \<open>held_for_probe\<close>.
\<close>

record 'n requeue_state =
  rq_pending :: "'n pending_map"
  rq_frames :: "'n frame list"
  rq_dropped :: "'n request_id list"
  rq_rejected :: "'n rejected_replay list"
  rq_held :: "'n request_id list"

definition drop_reason :: "disposition \<Rightarrow> rejection option" where
  "drop_reason d = (case d of
      RejectReplayExhausted \<Rightarrow> Some ReplayBudgetExhausted
    | RejectAmbiguousOutcome \<Rightarrow> Some AmbiguousOutcome
    | ReplayDisp \<Rightarrow> None | HoldForProbe \<Rightarrow> None
    | _ \<Rightarrow> Some InvalidExecutionState)"

definition requeue_drop :: "'n request_id \<Rightarrow> 'n pending_request \<Rightarrow> u8 option \<Rightarrow> rejection \<Rightarrow>
    'n requeue_state \<Rightarrow> 'n requeue_state" where
  "requeue_drop i r n reason st =
     st\<lparr>rq_dropped := rq_dropped st @ [i],
        rq_rejected := rq_rejected st @
          [\<lparr>rj_request_id = i, rj_request = r, rj_next_attempt = n, rj_reason = reason\<rparr>]\<rparr>"

definition requeue_one :: "replay_budget \<Rightarrow> nat \<Rightarrow> 'n requeue_state \<Rightarrow>
    'n request_id \<times> 'n pending_request \<Rightarrow> 'n requeue_state" where
  "requeue_one budget retained st e = (case e of (i, r) \<Rightarrow>
     (let a = allowance_new (pr_attempts r) (rb_max_attempts budget);
          d = request_disposition (pr_knowledge r) (pr_contract r) None a
      in case drop_reason d of
           Some reason \<Rightarrow> requeue_drop i r (next_attempt a) reason st
         | None \<Rightarrow>
             if usize_saturating_add (length (rq_frames st)) retained \<ge> rb_queue_capacity budget
             then requeue_drop i r (next_attempt a) QueueOverflow st
             else
               st\<lparr>rq_pending := (case map_of (rq_pending st) i of
                      Some p \<Rightarrow> AList.update i (p\<lparr>pr_scheduled := Some d\<rparr>) (rq_pending st)
                    | None \<Rightarrow> rq_pending st),
                  rq_held := (if d = HoldForProbe then rq_held st @ [i] else rq_held st),
                  rq_frames := rq_frames st @ [pr_frame r]\<rparr>))"

definition requeue_pending_for_replay ::
    "replay_budget \<Rightarrow> 'n kernel \<Rightarrow> 'n requeue_outcome \<times> 'n kernel" where
  "requeue_pending_for_replay budget k =
     (let pending = map_values lose_worker (k_pending k);
          ordered = sort_key (pr_sequence \<circ> snd) pending;
          retained = filter (keep_queued pending) (k_queue k);
          st = foldl (requeue_one budget (length retained))
                 \<lparr>rq_pending = pending, rq_frames = [], rq_dropped = [], rq_rejected = [],
                  rq_held = []\<rparr> ordered
      in (\<lparr>ro_rejected = rq_rejected st, ro_held_for_probe = rq_held st\<rparr>,
          k\<lparr>k_pending := delete_all (rq_dropped st) (rq_pending st),
            k_queue := rq_frames st @ retained\<rparr>))"

definition resolve_probe ::
    "'n request_id \<Rightarrow> probe_resolution \<Rightarrow> u8 \<Rightarrow> ('n kernel, rejection, 'n probe_outcome) op" where
  "resolve_probe i resolution max_attempts k =
     (case map_of (k_pending k) i of
        None \<Rightarrow> (Inl RequestNotPending, k)
      | Some r \<Rightarrow>
          if pr_scheduled r \<noteq> Some HoldForProbe then (Inl InvalidExecutionState, k)
          else (case request_disposition (pr_knowledge r) (pr_contract r) (Some resolution)
                       (allowance_new (pr_attempts r) max_attempts) of
              ReplayDisp \<Rightarrow>
                (Inr (ReplayAuthorized i), update_pending i (r\<lparr>pr_scheduled := Some ReplayDisp\<rparr>) k)
            | CompleteFromProbe \<Rightarrow>
                (case after_completed_probe (pr_knowledge r) of
                   Inl _ \<Rightarrow> (Inl InvalidExecutionState, k)
                 | Inr kn \<Rightarrow>
                     (let k1 = remove_queued_request i k
                      in (Inr (ProbeCompleted (r\<lparr>pr_knowledge := kn\<rparr>)),
                          k1\<lparr>k_pending := AList.delete i (k_pending k1)\<rparr>)))
            | RejectReplayExhausted \<Rightarrow>
                (let k1 = remove_queued_request i k
                 in (Inl ReplayBudgetExhausted, k1\<lparr>k_pending := AList.delete i (k_pending k1)\<rparr>))
            | _ \<Rightarrow> (Inl InvalidExecutionState, k)))"

end
