(* ===== verification/HostInv.thy ===== *)
theory HostInv
  imports Host
begin

text \<open>
  The invariant of the session kernel and its preservation by every operation.

  \<open>kernel_inv\<close> says what a restored snapshot is checked for and what the operations
  rely on: each pending invocation sits under the identifier of its immutable frame, with
  a unique sequence below the next one and a schedule its knowledge allows; the queue is
  the scheduled invocations in sequence order, then a backlog of client frames whose
  identifiers are new. \<open>replay_bounded m\<close> adds what only a live history gives: an
  invocation scheduled for replay has an attempt left under the limit \<open>m\<close>.
\<close>

section \<open>The invariant\<close>

definition frame_id :: "'n frame \<Rightarrow> 'n request_id option" where
  "frame_id f = (case fr_envelope f of Request i _ \<Rightarrow> Some i | _ \<Rightarrow> None)"

definition request_ids :: "'n frame list \<Rightarrow> 'n request_id list" where
  "request_ids q = List.map_filter frame_id q"

definition frame_of :: "'n pending_map \<Rightarrow> 'n request_id \<Rightarrow> 'n frame" where
  "frame_of p i = pr_frame (the (map_of p i))"

definition seq_of :: "'n pending_map \<Rightarrow> 'n request_id \<Rightarrow> u64" where
  "seq_of p i = pr_sequence (the (map_of p i))"

definition scheduled_ids :: "'n pending_map \<Rightarrow> 'n request_id set" where
  "scheduled_ids p = {i. \<exists>r. map_of p i = Some r \<and> pr_scheduled r \<noteq> None}"

definition sched_ok :: "'n pending_request \<Rightarrow> bool" where
  "sched_ok r \<longleftrightarrow>
     (case pr_scheduled r of
        None \<Rightarrow> pr_knowledge r = InFlight \<or> pr_knowledge r = OutcomeUnknown
      | Some ReplayDisp \<Rightarrow> pr_knowledge r = OutcomeUnknown \<and>
          (pr_contract r = Convergent \<or> pr_contract r = ProbeRequired)
      | Some HoldForProbe \<Rightarrow> pr_knowledge r = OutcomeUnknown \<and> pr_contract r = ProbeRequired
      | _ \<Rightarrow> False)"

definition entry_ok :: "u64 \<Rightarrow> 'n request_id \<Rightarrow> 'n pending_request \<Rightarrow> bool" where
  "entry_ok next i r \<longleftrightarrow>
     fr_envelope (pr_frame r) = Request i (pr_method r) \<and> pr_sequence r < next \<and> sched_ok r"

definition unique_sequences :: "'n pending_map \<Rightarrow> bool" where
  "unique_sequences p \<longleftrightarrow>
     (\<forall>i j r s. map_of p i = Some r \<and> map_of p j = Some s \<and> pr_sequence r = pr_sequence s \<longrightarrow> i = j)"

definition pending_ok :: "u64 \<Rightarrow> 'n pending_map \<Rightarrow> bool" where
  "pending_ok next p \<longleftrightarrow> alist_ok p \<and> unique_sequences p \<and>
     (\<forall>i r. map_of p i = Some r \<longrightarrow> entry_ok next i r)"

definition backlog_ok :: "'n pending_map \<Rightarrow> 'n frame list \<Rightarrow> bool" where
  "backlog_ok p bl \<longleftrightarrow> distinct (request_ids bl) \<and> (\<forall>i\<in>set (request_ids bl). map_of p i = None)"

definition recovery_ok :: "'n pending_map \<Rightarrow> 'n request_id list \<Rightarrow> bool" where
  "recovery_ok p ids \<longleftrightarrow> set ids = scheduled_ids p \<and> sorted_wrt (\<lambda>i j. seq_of p i < seq_of p j) ids"

definition queue_ok :: "'n pending_map \<Rightarrow> 'n frame list \<Rightarrow> bool" where
  "queue_ok p q \<longleftrightarrow> (\<exists>ids bl. q = map (frame_of p) ids @ bl \<and> recovery_ok p ids \<and> backlog_ok p bl)"

definition kernel_inv :: "'n kernel \<Rightarrow> bool" where
  "kernel_inv k \<longleftrightarrow> pending_ok (k_next k) (k_pending k) \<and> queue_ok (k_pending k) (k_queue k)"

definition replay_bounded :: "u8 \<Rightarrow> 'n kernel \<Rightarrow> bool" where
  "replay_bounded m k \<longleftrightarrow>
     (\<forall>i r. map_of (k_pending k) i = Some r \<and> pr_scheduled r = Some ReplayDisp \<longrightarrow> pr_attempts r < m)"

section \<open>Identifiers in the queue\<close>

lemma request_has_id_iff: "request_has_id i f \<longleftrightarrow> frame_id f = Some i"
  by (simp add: request_has_id_def frame_id_def split: envelope.splits)

lemma request_ids_simps [simp]:
  "request_ids [] = []"
  "request_ids (f # q) = (case frame_id f of None \<Rightarrow> request_ids q | Some i \<Rightarrow> i # request_ids q)"
  "request_ids (q @ q') = request_ids q @ request_ids q'"
  by (simp_all add: request_ids_def List.map_filter_def split: option.splits)

lemma set_request_ids: "i \<in> set (request_ids q) \<longleftrightarrow> (\<exists>f\<in>set q. frame_id f = Some i)"
  by (induction q) (auto split: option.splits)

lemma queued_request_id_iff: "queued_request_id i k \<longleftrightarrow> i \<in> set (request_ids (k_queue k))"
  by (auto simp: queued_request_id_def list_ex_iff request_has_id_iff set_request_ids)

lemma request_ids_filter:
  "request_ids (filter (\<lambda>f. \<not> request_has_id i f) q) = filter (\<lambda>j. j \<noteq> i) (request_ids q)"
  by (induction q) (auto simp: request_has_id_iff split: option.splits)

lemma frame_id_entry: "entry_ok next i r \<Longrightarrow> frame_id (pr_frame r) = Some i"
  by (simp add: entry_ok_def frame_id_def)

lemma pending_frame_id:
  assumes "pending_ok next p" and "map_of p i \<noteq> None"
  shows "frame_id (frame_of p i) = Some i"
  using assms frame_id_entry by (fastforce simp: pending_ok_def frame_of_def)

lemma request_ids_frames:
  assumes "pending_ok next p" and "\<forall>i\<in>set ids. map_of p i \<noteq> None"
  shows "request_ids (map (frame_of p) ids) = ids"
  using assms(2) by (induction ids) (simp_all add: pending_frame_id [OF assms(1)])

lemma recovery_pending: "recovery_ok p ids \<Longrightarrow> i \<in> set ids \<Longrightarrow> map_of p i \<noteq> None"
  by (auto simp: recovery_ok_def scheduled_ids_def)

lemma recovery_distinct: "recovery_ok p ids \<Longrightarrow> distinct ids"
  unfolding recovery_ok_def using sorted_wrt_strict_distinct by blast

lemma pending_ok_entry: "pending_ok next p \<Longrightarrow> map_of p i = Some r \<Longrightarrow> entry_ok next i r"
  by (simp add: pending_ok_def)

lemma kernel_invE:
  assumes "kernel_inv k"
  obtains ids bl where "pending_ok (k_next k) (k_pending k)" "recovery_ok (k_pending k) ids"
    "backlog_ok (k_pending k) bl" "k_queue k = map (frame_of (k_pending k)) ids @ bl"
  using assms by (auto simp: kernel_inv_def queue_ok_def)

lemma kernel_invI:
  "pending_ok (k_next k) (k_pending k) \<Longrightarrow> recovery_ok (k_pending k) ids \<Longrightarrow>
   backlog_ok (k_pending k) bl \<Longrightarrow> k_queue k = map (frame_of (k_pending k)) ids @ bl \<Longrightarrow> kernel_inv k"
  by (auto simp: kernel_inv_def queue_ok_def)

text \<open>The queue never names an identifier twice.\<close>

lemma queue_distinct: "kernel_inv k \<Longrightarrow> distinct (request_ids (k_queue k))"
proof (erule kernel_invE)
  fix ids bl
  assume a: "pending_ok (k_next k) (k_pending k)" "recovery_ok (k_pending k) ids"
    "backlog_ok (k_pending k) bl" "k_queue k = map (frame_of (k_pending k)) ids @ bl"
  then have "request_ids (k_queue k) = ids @ request_ids bl"
    using request_ids_frames recovery_pending by fastforce
  with a show "distinct (request_ids (k_queue k))"
    using recovery_distinct [OF a(2)] recovery_pending [OF a(2)] by (fastforce simp: backlog_ok_def)
qed

section \<open>The primitive changes of the pending map\<close>

text \<open>
  Every operation changes the pending map in one of three ways; each keeps the two parts
  of the invariant.
\<close>

lemma pending_ok_update:
  assumes p: "pending_ok next p" and r: "entry_ok next' i r" and le: "next \<le> next'"
    and u: "\<And>j s. map_of p j = Some s \<Longrightarrow> pr_sequence s = pr_sequence r \<Longrightarrow> j = i"
  shows "pending_ok next' (AList.update i r p)"
proof -
  have "entry_ok next' j s" if "map_of p j = Some s" for j s
    using p that le order.strict_trans2 by (fastforce simp: pending_ok_def entry_ok_def)
  then show ?thesis using p r u
    by (auto simp: pending_ok_def unique_sequences_def lookup_simps)
qed

lemma same_frame_update:
  assumes "map_of p i = Some r" and "pr_frame r' = pr_frame r" and "pr_sequence r' = pr_sequence r"
  shows "frame_of (AList.update i r' p) = frame_of p" and "seq_of (AList.update i r' p) = seq_of p"
  using assms by (auto simp: frame_of_def seq_of_def lookup_simps fun_eq_iff)

lemma backlog_ok_update:
  "backlog_ok p bl \<Longrightarrow> i \<notin> set (request_ids bl) \<Longrightarrow> backlog_ok (AList.update i r p) bl"
  by (auto simp: backlog_ok_def lookup_simps)

lemma backlog_pending: "backlog_ok p bl \<Longrightarrow> map_of p i = Some r \<Longrightarrow> i \<notin> set (request_ids bl)"
  by (auto simp: backlog_ok_def)

lemma remove_entry_inv:
  assumes "kernel_inv k"
  shows "kernel_inv (remove_queued_request i (k\<lparr>k_pending := AList.delete i (k_pending k)\<rparr>))"
proof -
  let ?p = "k_pending k" and ?d = "AList.delete i (k_pending k)"
  from assms obtain ids bl where a: "pending_ok (k_next k) ?p" "recovery_ok ?p ids"
    "backlog_ok ?p bl" "k_queue k = map (frame_of ?p) ids @ bl" by (rule kernel_invE)
  let ?ids = "filter (\<lambda>j. j \<noteq> i) ids" and ?bl = "filter (\<lambda>f. \<not> request_has_id i f) bl"
  have look: "map_of ?d j = (if j = i then None else map_of ?p j)" for j by (simp add: lookup_simps)
  have same: "j \<noteq> i \<Longrightarrow> frame_of ?d j = frame_of ?p j \<and> seq_of ?d j = seq_of ?p j" for j
    by (simp add: frame_of_def seq_of_def look)
  have ok: "pending_ok (k_next k) ?d"
    using a(1) by (auto simp: pending_ok_def unique_sequences_def look split: if_splits)
  have sorted: "sorted_wrt (\<lambda>a b. seq_of ?d a < seq_of ?d b) ?ids"
  proof -
    have "sorted_wrt (\<lambda>a b. seq_of ?p a < seq_of ?p b) ?ids"
      using a(2) by (simp add: recovery_ok_def sorted_wrt_filter)
    then show ?thesis by (rule sorted_wrt_mono_rel [rotated]) (auto simp: same)
  qed
  have rec: "recovery_ok ?d ?ids"
    using a(2) sorted by (auto simp: recovery_ok_def scheduled_ids_def look)
  have "request_has_id i (frame_of ?p j) \<longleftrightarrow> j = i" if "j \<in> set ids" for j
    using pending_frame_id [OF a(1)] recovery_pending [OF a(2) that] by (auto simp: request_has_id_iff)
  then have "filter (\<lambda>f. \<not> request_has_id i f) (map (frame_of ?p) ids) = map (frame_of ?p) ?ids"
    by (simp add: filter_map comp_def cong: filter_cong)
  also have "\<dots> = map (frame_of ?d) ?ids" using same by simp
  finally have q: "filter (\<lambda>f. \<not> request_has_id i f) (k_queue k) = map (frame_of ?d) ?ids @ ?bl"
    using a(4) by simp
  have bl: "backlog_ok ?d ?bl"
    using a(3) by (auto simp: backlog_ok_def look request_ids_filter)
  show ?thesis
    by (rule kernel_invI [of _ ?ids ?bl]) (use ok rec bl q in \<open>auto simp: remove_queued_request_def\<close>)
qed

section \<open>The operations\<close>

lemma cold_inv: "kernel_inv cold"
  by (rule kernel_invI [of _ "[]" "[]"])
    (auto simp: cold_def pending_ok_def unique_sequences_def recovery_ok_def scheduled_ids_def
      backlog_ok_def)

lemma observe_same:
  "k_pending (snd (observe_client_frame f k)) = k_pending k"
  "k_queue (snd (observe_client_frame f k)) = k_queue k"
  "k_next (snd (observe_client_frame f k)) = k_next k"
  by (auto simp: observe_client_frame_def split: envelope.splits option.splits)

lemma observe_inv: "kernel_inv k \<Longrightarrow> kernel_inv (snd (observe_client_frame f k))"
  by (simp add: kernel_inv_def observe_same)

lemma queue_inv:
  assumes "kernel_inv k"
  shows "kernel_inv (snd (queue_client_frame f c k))"
proof (cases "fst (queue_client_frame f c k)")
  case (Inl e)
  then have "snd (queue_client_frame f c k) = k"
    by (auto simp: queue_client_frame_def split: if_splits)
  with assms show ?thesis by simp
next
  case (Inr u)
  from assms obtain ids bl where a: "pending_ok (k_next k) (k_pending k)"
    "recovery_ok (k_pending k) ids" "backlog_ok (k_pending k) bl"
    "k_queue k = map (frame_of (k_pending k)) ids @ bl" by (rule kernel_invE)
  have new: "i \<notin> set (request_ids (k_queue k)) \<and> map_of (k_pending k) i = None"
    if "frame_id f = Some i" for i
    using Inr that
    by (auto simp: queue_client_frame_def frame_id_def queued_request_id_iff
        split: if_splits envelope.splits)
  have "backlog_ok (k_pending k) (bl @ [f])"
    using a(3,4) new by (auto simp: backlog_ok_def split: option.splits)
  moreover have "snd (queue_client_frame f c k) = k\<lparr>k_queue := k_queue k @ [f]\<rparr>"
    using Inr by (auto simp: queue_client_frame_def split: if_splits)
  ultimately show ?thesis using a
    by (intro kernel_invI [of _ ids "bl @ [f]"]) simp_all
qed

text \<open>The head of the queue: a scheduled invocation, or the first of the backlog.\<close>

lemma queue_head:
  assumes inv: "kernel_inv k" and q: "k_queue k = f # rest"
  obtains
    (scheduled) i r ids bl where "frame_id f = Some i" "map_of (k_pending k) i = Some r"
      "f = pr_frame r" "pr_scheduled r = Some ReplayDisp \<or> pr_scheduled r = Some HoldForProbe"
      "pending_ok (k_next k) (k_pending k)" "recovery_ok (k_pending k) (i # ids)"
      "backlog_ok (k_pending k) bl" "rest = map (frame_of (k_pending k)) ids @ bl"
  | (client) "\<And>i. frame_id f = Some i \<Longrightarrow> map_of (k_pending k) i = None"
      "pending_ok (k_next k) (k_pending k)" "recovery_ok (k_pending k) []"
      "backlog_ok (k_pending k) (f # rest)"
proof -
  from inv obtain ids bl where a: "pending_ok (k_next k) (k_pending k)"
    "recovery_ok (k_pending k) ids" "backlog_ok (k_pending k) bl"
    "k_queue k = map (frame_of (k_pending k)) ids @ bl" by (rule kernel_invE)
  show ?thesis
  proof (cases ids)
    case Nil
    then show ?thesis using a q by (intro client) (auto simp: backlog_ok_def)
  next
    case (Cons i ids')
    then have "i \<in> scheduled_ids (k_pending k)"
      using a(2) by (metis list.set_intros(1) recovery_ok_def)
    then obtain r where r: "map_of (k_pending k) i = Some r" "pr_scheduled r \<noteq> None"
      by (auto simp: scheduled_ids_def)
    then have "sched_ok r" using pending_ok_entry [OF a(1)] by (auto simp: entry_ok_def)
    with r have "pr_scheduled r = Some ReplayDisp \<or> pr_scheduled r = Some HoldForProbe"
      by (auto simp: sched_ok_def split: option.splits disposition.splits)
    moreover have "f = pr_frame r" "rest = map (frame_of (k_pending k)) ids' @ bl"
      using a(4) q Cons r by (simp_all add: frame_of_def)
    moreover have "frame_id f = Some i"
      using pending_frame_id [OF a(1), of i] r \<open>f = pr_frame r\<close> by (simp add: frame_of_def)
    ultimately show ?thesis using r a Cons by (intro scheduled) simp_all
  qed
qed

lemma pop_scheduled:
  assumes "k_queue k = f # rest" and "frame_id f = Some i" and "map_of (k_pending k) i = Some r"
  shows "pr_scheduled r = Some HoldForProbe \<Longrightarrow> pop_next_dispatch k = (Inr (HeldForProbe i), k)"
    and "pr_scheduled r = Some ReplayDisp \<Longrightarrow> pr_knowledge r = OutcomeUnknown \<Longrightarrow>
      checked_add (pr_attempts r) 1 = Some n \<Longrightarrow>
      pop_next_dispatch k = (Inr (ReplayFrame f),
        (update_pending i (r\<lparr>pr_knowledge := InFlight, pr_attempts := n, pr_scheduled := None\<rparr>) k)
          \<lparr>k_queue := rest\<rparr>)"
  using assms
  by (auto simp: pop_next_dispatch_def frame_id_def after_dispatch_def split: envelope.splits)

lemma pop_client:
  assumes "k_queue k = f # rest" and "\<And>i. frame_id f = Some i \<Longrightarrow> map_of (k_pending k) i = None"
  shows "pop_next_dispatch k = (Inr (ClientFrame f), k\<lparr>k_queue := rest\<rparr>)"
  using assms by (auto simp: pop_next_dispatch_def frame_id_def split: envelope.splits)

lemma attempts_left: "(n::u8) < m \<Longrightarrow> checked_add n 1 = Some (n + 1)"
  by (rule checked_add_1_lt)

lemma pop_inv:
  assumes inv: "kernel_inv k" and bounded: "replay_bounded m k"
  shows "kernel_inv (snd (pop_next_dispatch k))"
proof (cases "k_queue k")
  case Nil
  with inv show ?thesis by (simp add: pop_next_dispatch_def)
next
  case (Cons f rest)
  show ?thesis
  proof (cases rule: queue_head [OF inv Cons])
    case 2
    note client = this
    have "snd (pop_next_dispatch k) = k\<lparr>k_queue := rest\<rparr>" using pop_client [OF Cons client(1)] by simp
    moreover have "backlog_ok (k_pending k) rest"
      using client(4) by (auto simp: backlog_ok_def split: option.splits)
    ultimately show ?thesis using client by (intro kernel_invI [of _ "[]" rest]) simp_all
  next
    case (1 i r ids bl)
    note scheduled = this
    note pop = pop_scheduled [OF Cons scheduled(1,2)]
    show ?thesis
    proof (cases "pr_scheduled r = Some HoldForProbe")
      case True
      with pop(1) inv show ?thesis by simp
    next
      case False
      then have rep: "pr_scheduled r = Some ReplayDisp" using scheduled(4) by simp
      have e: "entry_ok (k_next k) i r" using scheduled by (simp add: pending_ok_def)
      then have ku: "pr_knowledge r = OutcomeUnknown" using rep by (simp add: entry_ok_def sched_ok_def)
      have "pr_attempts r < m" using bounded scheduled(2) rep by (auto simp: replay_bounded_def)
      note n = attempts_left [OF this]
      let ?r = "r\<lparr>pr_knowledge := InFlight, pr_attempts := pr_attempts r + 1, pr_scheduled := None\<rparr>"
      let ?p = "AList.update i ?r (k_pending k)"
      note same = same_frame_update [OF scheduled(2), of ?r, simplified]
      have "entry_ok (k_next k) i ?r" using e by (simp add: entry_ok_def sched_ok_def)
      then have ok: "pending_ok (k_next k) ?p"
        using scheduled(2,5) by (intro pending_ok_update) (auto simp: pending_ok_def unique_sequences_def)
      have "i \<notin> set ids" using recovery_distinct [OF scheduled(6)] by simp
      then have rec: "recovery_ok ?p ids"
        using scheduled(6) same by (auto simp: recovery_ok_def scheduled_ids_def lookup_simps)
      have bl: "backlog_ok ?p bl"
        using scheduled(2,7) by (intro backlog_ok_update) (auto dest: backlog_pending)
      show ?thesis unfolding pop(2) [OF rep ku n]
        by (rule kernel_invI [of _ ids bl])
          (use ok rec bl scheduled(8) same in \<open>simp_all add: update_pending_def\<close>)
    qed
  qed
qed

text \<open>
  \<open>begin_request_dispatch\<close> and \<open>complete_response\<close> by what they do to the maps.
\<close>

lemma begin_Inl: "fst (begin_request_dispatch X now f c cap k) = Inl e \<Longrightarrow>
    snd (begin_request_dispatch X now f c cap k) = k"
  by (auto simp: begin_request_dispatch_def Let_def split: envelope.splits if_splits option.splits)

lemma begin_Inr:
  assumes "begin_request_dispatch X now f c cap k = (Inr i, k')"
  obtains m r where "fr_envelope f = Request i m"
    "pr_method r = m" "pr_sequence r = k_next k" "pr_frame r = f" "pr_contract r = c"
    "pr_knowledge r = InFlight" "pr_attempts r = 0" "pr_scheduled r = None"
    "pr_meta r = parse_tool_call_meta X f m"
    "k_pending k' = AList.update i r (k_pending k)" "k_queue k' = k_queue k"
    "checked_add (k_next k) 1 = Some (k_next k')" "map_of (k_pending k) i = None"
    "i \<notin> set (request_ids (k_queue k))" "length (k_pending k) < cap"
    "is_initialize m \<longrightarrow> k_phase k = Cold \<and> k_phase k' = Initializing \<and>
       (case k_seed k of None \<Rightarrow> k_seed k' = Some (new_seed i f)
        | Some s \<Rightarrow> seed_matches i f s \<and> k_seed k' = Some s)"
    "\<not> is_initialize m \<longrightarrow> k_phase k' = k_phase k \<and> k_seed k' = k_seed k"
proof -
  obtain m where m: "fr_envelope f = Request i m"
    using assms by (auto simp: begin_request_dispatch_def Let_def
        split: envelope.splits if_splits option.splits)
  show thesis
    by (rule that [OF m, of "\<lparr>pr_method = m, pr_sequence = k_next k, pr_frame = f, pr_contract = c,
          pr_started_at = now, pr_meta = parse_tool_call_meta X f m, pr_knowledge = InFlight,
          pr_attempts = 0, pr_scheduled = None\<rparr>"])
      (use assms m in \<open>auto simp: begin_request_dispatch_def Let_def queued_request_id_iff
        split: if_splits option.splits\<close>)
qed

lemma begin_inv:
  assumes inv: "kernel_inv k"
  shows "kernel_inv (snd (begin_request_dispatch X now f c cap k))"
proof (cases "fst (begin_request_dispatch X now f c cap k)")
  case (Inl e)
  with inv begin_Inl show ?thesis by metis
next
  case (Inr i)
  then obtain k' where eq: "begin_request_dispatch X now f c cap k = (Inr i, k')" by (metis prod.collapse)
  obtain m r where b: "fr_envelope f = Request i m" "pr_sequence r = k_next k"
    "pr_frame r = f" "pr_method r = m" "pr_scheduled r = None" "pr_knowledge r = InFlight"
    "k_pending k' = AList.update i r (k_pending k)" "k_queue k' = k_queue k"
    "checked_add (k_next k) 1 = Some (k_next k')" "map_of (k_pending k) i = None"
    "i \<notin> set (request_ids (k_queue k))"
    by (rule begin_Inr [OF eq]) blast
  have lt: "k_next k < k_next k'" using checked_add_less [OF b(9)] .
  from inv obtain ids bl where a: "pending_ok (k_next k) (k_pending k)"
    "recovery_ok (k_pending k) ids" "backlog_ok (k_pending k) bl"
    "k_queue k = map (frame_of (k_pending k)) ids @ bl" by (rule kernel_invE)
  let ?p = "AList.update i r (k_pending k)"
  have ok: "pending_ok (k_next k') ?p"
  proof (rule pending_ok_update [OF a(1)])
    show "entry_ok (k_next k') i r" using b lt by (simp add: entry_ok_def sched_ok_def)
    show "j = i" if "map_of (k_pending k) j = Some s" "pr_sequence s = pr_sequence r" for j s
      using pending_ok_entry [OF a(1) that(1)] that(2) b(2) by (simp add: entry_ok_def)
  qed (use lt in simp)
  have ni: "i \<notin> set ids" using recovery_pending [OF a(2)] b(10) by blast
  have same: "j \<in> set ids \<Longrightarrow> frame_of ?p j = frame_of (k_pending k) j \<and> seq_of ?p j = seq_of (k_pending k) j" for j
    using ni by (auto simp: frame_of_def seq_of_def lookup_simps)
  have sorted: "sorted_wrt (\<lambda>x y. seq_of ?p x < seq_of ?p y) ids"
    by (rule sorted_wrt_mono_rel [of _ "\<lambda>x y. seq_of (k_pending k) x < seq_of (k_pending k) y"])
      (use a(2) same in \<open>auto simp: recovery_ok_def\<close>)
  have rec: "recovery_ok ?p ids"
    using a(2) sorted b(5,10) by (auto simp: recovery_ok_def scheduled_ids_def lookup_simps)
  have bl: "backlog_ok ?p bl" using a(3,4) b(11) by (intro backlog_ok_update) auto
  have fr: "map (frame_of ?p) ids = map (frame_of (k_pending k)) ids" using same by simp
  show ?thesis unfolding eq
    by (rule kernel_invI [of _ ids bl]) (use ok rec bl b a(4) fr in simp_all)
qed

lemma complete_Inl: "fst (complete_response f k) = Inl e \<Longrightarrow> snd (complete_response f k) = k"
  by (auto simp: complete_response_def Let_def split: envelope.splits if_splits option.splits sum.splits)

lemma complete_Inr:
  assumes "complete_response f k = (Inr r', k')"
  obtains i has_error r where "fr_envelope f = Response i has_error"
    "map_of (k_pending k) i = Some r" "r' = r\<lparr>pr_knowledge := CompletedRun\<rparr>"
    "k_pending k' = AList.delete i (k_pending k)" "k_next k' = k_next k"
    "k_queue k' = filter (\<lambda>f. \<not> request_has_id i f) (k_queue k)"
    "is_initialize (pr_method r) \<longrightarrow> k_phase k = Initializing \<and>
       k_phase k' = (if has_error then Cold else AwaitingInitialized) \<and>
       k_seed k' = (if has_error then None else k_seed k)"
    "\<not> is_initialize (pr_method r) \<longrightarrow> k_phase k' = k_phase k \<and> k_seed k' = k_seed k"
proof -
  obtain i he where f: "fr_envelope f = Response i he"
    using assms by (auto simp: complete_response_def split: envelope.splits)
  obtain r where r: "map_of (k_pending k) i = Some r"
    using assms f by (auto simp: complete_response_def split: option.splits)
  show thesis
    by (rule that [OF f r])
      (use assms f r in \<open>auto simp: complete_response_def Let_def after_terminal_outcome_def
        remove_queued_request_def split: if_splits sum.splits\<close>)
qed

text \<open>The invariant does not look at the phase and the seed.\<close>

lemma kernel_inv_cong:
  "k_pending k' = k_pending k \<Longrightarrow> k_queue k' = k_queue k \<Longrightarrow> k_next k' = k_next k \<Longrightarrow>
   kernel_inv k' = kernel_inv k"
  by (simp add: kernel_inv_def)

lemma complete_inv:
  assumes inv: "kernel_inv k"
  shows "kernel_inv (snd (complete_response f k))"
proof (cases "fst (complete_response f k)")
  case (Inl e)
  with inv complete_Inl show ?thesis by metis
next
  case (Inr r')
  then obtain k' where eq: "complete_response f k = (Inr r', k')" by (metis prod.collapse)
  obtain i where c: "k_pending k' = AList.delete i (k_pending k)" "k_next k' = k_next k"
    "k_queue k' = filter (\<lambda>f. \<not> request_has_id i f) (k_queue k)"
    by (rule complete_Inr [OF eq]) blast
  from remove_entry_inv [OF inv, of i] show ?thesis
    using c eq by (subst kernel_inv_cong) (auto simp: remove_queued_request_def)
qed

lemma update_schedule_inv:
  assumes inv: "kernel_inv k" and r: "map_of (k_pending k) i = Some r"
    and frame: "pr_frame r' = pr_frame r" "pr_sequence r' = pr_sequence r" "pr_method r' = pr_method r"
    and sched: "pr_scheduled r \<noteq> None" "pr_scheduled r' \<noteq> None" "sched_ok r'"
  shows "kernel_inv (update_pending i r' k)"
proof -
  from inv obtain ids bl where a: "pending_ok (k_next k) (k_pending k)"
    "recovery_ok (k_pending k) ids" "backlog_ok (k_pending k) bl"
    "k_queue k = map (frame_of (k_pending k)) ids @ bl" by (rule kernel_invE)
  let ?p = "AList.update i r' (k_pending k)"
  note same = same_frame_update [OF r frame(1,2)]
  have "entry_ok (k_next k) i r'"
    using pending_ok_entry [OF a(1) r] frame sched by (simp add: entry_ok_def)
  then have ok: "pending_ok (k_next k) ?p"
    using a(1) r frame(2) by (intro pending_ok_update) (auto simp: pending_ok_def unique_sequences_def)
  have "scheduled_ids ?p = scheduled_ids (k_pending k)"
    using r sched by (auto simp: scheduled_ids_def lookup_simps)
  then have rec: "recovery_ok ?p ids" using a(2) same by (simp add: recovery_ok_def)
  have bl: "backlog_ok ?p bl" using a(3) r by (intro backlog_ok_update) (auto dest: backlog_pending)
  show ?thesis
    by (rule kernel_invI [of _ ids bl]) (use ok rec bl a(4) same in \<open>simp_all add: update_pending_def\<close>)
qed

text \<open>What \<open>resolve_probe\<close> can do to a held invocation of a kernel in its invariant.\<close>

lemma resolve_cases:
  assumes inv: "kernel_inv k" and "resolve_probe i res m k = (out, k')"
  obtains
    (refused) e where "out = Inl e" "k' = k" "e \<noteq> ReplayBudgetExhausted"
  | (authorized) r where "map_of (k_pending k) i = Some r" "pr_scheduled r = Some HoldForProbe"
      "res = SafeToReplay" "pr_attempts r < m" "pr_knowledge r = OutcomeUnknown"
      "pr_contract r = ProbeRequired" "out = Inr (ReplayAuthorized i)"
      "k' = update_pending i (r\<lparr>pr_scheduled := Some ReplayDisp\<rparr>) k"
  | (completed) r where "map_of (k_pending k) i = Some r" "pr_scheduled r = Some HoldForProbe"
      "res = AlreadyCompleted" "out = Inr (ProbeCompleted (r\<lparr>pr_knowledge := CompletedRun\<rparr>))"
      "k' = remove_queued_request i (k\<lparr>k_pending := AList.delete i (k_pending k)\<rparr>)"
  | (exhausted) r where "map_of (k_pending k) i = Some r" "pr_scheduled r = Some HoldForProbe"
      "res = SafeToReplay" "\<not> pr_attempts r < m" "out = Inl ReplayBudgetExhausted"
      "k' = remove_queued_request i (k\<lparr>k_pending := AList.delete i (k_pending k)\<rparr>)"
proof -
  consider "map_of (k_pending k) i = None"
    | r where "map_of (k_pending k) i = Some r" "pr_scheduled r \<noteq> Some HoldForProbe"
    | r where "map_of (k_pending k) i = Some r" "pr_scheduled r = Some HoldForProbe" by fastforce
  then show thesis
  proof cases
    case (3 r)
    have "sched_ok r" using inv 3(1) by (auto simp: kernel_inv_def pending_ok_def entry_ok_def)
    then have u: "pr_knowledge r = OutcomeUnknown" "pr_contract r = ProbeRequired"
      using 3(2) by (simp_all add: sched_ok_def)
    show thesis
    proof (cases res)
      case AlreadyCompleted
      then show thesis using assms(2) 3 u
        by (intro completed [of r]) (auto simp: resolve_probe_def probe_disposition_cases
            after_completed_probe_def remove_queued_request_def Let_def)
    next
      case SafeToReplay
      show thesis
      proof (cases "pr_attempts r < m")
        case True
        then show thesis using assms(2) 3 u SafeToReplay
          by (intro authorized [of r]) (auto simp: resolve_probe_def probe_disposition_cases
              replay_or_exhausted_def next_attempt_Some allowance_new_def word_less_nat_alt)
      next
        case False
        then have "replay_or_exhausted (allowance_new (pr_attempts r) m) = RejectReplayExhausted"
          by (simp add: replay_or_exhausted_iff allowance_new_def)
        then show thesis using assms(2) 3 u SafeToReplay False
          by (intro exhausted [of r]) (auto simp: resolve_probe_def probe_disposition_cases
              remove_queued_request_def Let_def)
      qed
    qed
  qed (use assms(2) in \<open>auto simp: resolve_probe_def intro!: refused\<close>)
qed

lemma resolve_inv:
  assumes "kernel_inv k"
  shows "kernel_inv (snd (resolve_probe i res m k))"
proof -
  obtain out k' where eq: "resolve_probe i res m k = (out, k')" by fastforce
  show ?thesis
  proof (cases rule: resolve_cases [OF assms eq])
    case (2 r)
    then show ?thesis unfolding eq
      by (simp add: update_schedule_inv [OF assms 2(1)] sched_ok_def)
  qed (use assms eq remove_entry_inv in simp_all)
qed

end
