(* ===== verification/Requeue.thy ===== *)
theory Requeue
  imports HostInv
begin

text \<open>
  Recovery (\<open>requeue_pending_for_replay\<close>) against a closed form: of the pending
  invocations in sequence order, those the law lets live, as many as the queue has room
  for after the client backlog, are scheduled in that order in front of it; every other
  one is dropped with its reason.
\<close>

section \<open>The closed form\<close>

definition recovery_disposition :: "replay_budget \<Rightarrow> 'n pending_request \<Rightarrow> disposition" where
  "recovery_disposition b r =
     request_disposition (pr_knowledge r) (pr_contract r) None
       (allowance_new (pr_attempts r) (rb_max_attempts b))"

definition survives :: "replay_budget \<Rightarrow> 'n request_id \<times> 'n pending_request \<Rightarrow> bool" where
  "survives b e \<longleftrightarrow> drop_reason (recovery_disposition b (snd e)) = None"

definition kept :: "replay_budget \<Rightarrow> nat \<Rightarrow> ('n request_id \<times> 'n pending_request) list \<Rightarrow>
    ('n request_id \<times> 'n pending_request) list" where
  "kept b n es = take (rb_queue_capacity b - n) (filter (survives b) es)"

definition reject_entry :: "replay_budget \<Rightarrow> 'n request_id \<times> 'n pending_request \<Rightarrow> 'n rejected_replay" where
  "reject_entry b e =
     \<lparr>rj_request_id = fst e, rj_request = snd e,
      rj_next_attempt = next_attempt (allowance_new (pr_attempts (snd e)) (rb_max_attempts b)),
      rj_reason = (case drop_reason (recovery_disposition b (snd e)) of
         Some reason \<Rightarrow> reason | None \<Rightarrow> QueueOverflow)\<rparr>"

definition schedule :: "replay_budget \<Rightarrow> 'n pending_request \<Rightarrow> 'n pending_request" where
  "schedule b r = r\<lparr>pr_scheduled := Some (recovery_disposition b r)\<rparr>"

lemma kept_snoc:
  "kept b n (es @ [e]) =
     (if survives b e \<and> length (kept b n es) + n < rb_queue_capacity b then kept b n es @ [e]
      else kept b n es)"
  by (auto simp: kept_def)

lemma kept_subset: "set (kept b n es) \<subseteq> set es"
  unfolding kept_def by (auto dest: in_set_takeD)

lemma kept_survives: "e \<in> set (kept b n es) \<Longrightarrow> survives b e"
  unfolding kept_def by (auto dest: in_set_takeD)

lemma saturating_ge:
  "c \<le> usize_max \<Longrightarrow> c \<le> usize_saturating_add a b \<longleftrightarrow> c \<le> a + b"
  by (auto simp: usize_saturating_add_def)

definition requeue_init :: "'n pending_map \<Rightarrow> 'n requeue_state" where
  "requeue_init p = \<lparr>rq_pending = p, rq_frames = [], rq_dropped = [], rq_rejected = [], rq_held = []\<rparr>"

definition requeue_result ::
    "replay_budget \<Rightarrow> nat \<Rightarrow> 'n pending_map \<Rightarrow> ('n request_id \<times> 'n pending_request) list \<Rightarrow>
     'n requeue_state \<Rightarrow> bool" where
  "requeue_result b n p es st \<longleftrightarrow>
     rq_frames st = map (pr_frame \<circ> snd) (kept b n es) \<and>
     rq_held st = map fst (filter (\<lambda>e. recovery_disposition b (snd e) = HoldForProbe) (kept b n es)) \<and>
     rq_rejected st = map (reject_entry b) (filter (\<lambda>e. e \<notin> set (kept b n es)) es) \<and>
     rq_dropped st = map fst (filter (\<lambda>e. e \<notin> set (kept b n es)) es) \<and>
     alist_ok (rq_pending st) \<and>
     map_of (rq_pending st) =
       (\<lambda>i. map_option (\<lambda>r. if i \<in> fst ` set (kept b n es) then schedule b r else r) (map_of p i))"

lemma requeue_one_cases:
  assumes "rb_queue_capacity b \<le> usize_max" and "e = (i, r)"
  shows "requeue_one b n st e =
    (if survives b e \<and> length (rq_frames st) + n < rb_queue_capacity b then
       st\<lparr>rq_pending := (case map_of (rq_pending st) i of
              Some p \<Rightarrow> AList.update i (p\<lparr>pr_scheduled := Some (recovery_disposition b r)\<rparr>) (rq_pending st)
            | None \<Rightarrow> rq_pending st),
          rq_held := (if recovery_disposition b r = HoldForProbe then rq_held st @ [i] else rq_held st),
          rq_frames := rq_frames st @ [pr_frame r]\<rparr>
     else st\<lparr>rq_dropped := rq_dropped st @ [i], rq_rejected := rq_rejected st @ [reject_entry b e]\<rparr>)"
proof (cases "drop_reason (recovery_disposition b r)")
  case (Some reason)
  then show ?thesis using assms(2)
    by (simp add: requeue_one_def Let_def recovery_disposition_def survives_def requeue_drop_def
        reject_entry_def)
next
  case None
  have "rb_queue_capacity b \<le> usize_saturating_add (length (rq_frames st)) n \<longleftrightarrow>
      rb_queue_capacity b \<le> length (rq_frames st) + n" using assms(1) by (rule saturating_ge)
  with None show ?thesis using assms(2)
    unfolding requeue_one_def Let_def recovery_disposition_def [symmetric]
    by (simp add: survives_def requeue_drop_def reject_entry_def)
qed

lemma requeue_fold:
  assumes "rb_queue_capacity b \<le> usize_max" and "alist_ok p"
  shows "distinct (map fst es) \<Longrightarrow> (\<And>i r. (i, r) \<in> set es \<Longrightarrow> map_of p i = Some r) \<Longrightarrow>
    requeue_result b n p es (foldl (requeue_one b n) (requeue_init p) es)"
proof (induction es rule: rev_induct)
  case Nil
  show ?case using assms(2)
    by (simp add: requeue_result_def requeue_init_def kept_def fun_eq_iff option.map_id0 [unfolded id_def])
next
  case (snoc e es)
  obtain i r where e: "e = (i, r)" by fastforce
  define st where "st = foldl (requeue_one b n) (requeue_init p) es"
  have IH: "requeue_result b n p es st" unfolding st_def using snoc by (intro snoc.IH) auto
  have new: "e \<notin> set es" "i \<notin> fst ` set es" "i \<notin> fst ` set (kept b n es)"
    using snoc.prems(1) kept_subset [of b n es] e by (auto simp: image_iff)
  have r: "map_of p i = Some r" using snoc.prems(2) e by simp
  have len: "length (rq_frames st) = length (kept b n es)" using IH by (simp add: requeue_result_def)
  have look: "map_of (rq_pending st) i = Some r" using IH r new(3) by (simp add: requeue_result_def)
  note one = requeue_one_cases [OF assms(1) e, of n st]
  show ?case
  proof (cases "survives b e \<and> length (kept b n es) + n < rb_queue_capacity b")
    case True
    have flt: "filter (\<lambda>x. x \<noteq> e \<and> x \<notin> set (kept b n es)) es = filter (\<lambda>x. x \<notin> set (kept b n es)) es"
      using new(1) by (intro filter_cong) auto
    show ?thesis using True IH one len look new flt r e
      by (simp add: requeue_result_def kept_snoc st_def [symmetric] alist_ok_update)
        (auto simp: lookup_simps fun_eq_iff schedule_def)
  next
    case False
    have "e \<notin> set (kept b n es)" using kept_subset [of b n es] new(1) by auto
    then show ?thesis using False IH one len e
      by (auto simp: requeue_result_def kept_snoc st_def [symmetric])
  qed
qed

text \<open>The ordered list the loop runs over, and the frames that stay behind it.\<close>

definition recovery_order :: "'n kernel \<Rightarrow> ('n request_id \<times> 'n pending_request) list" where
  "recovery_order k = sort_key (pr_sequence \<circ> snd) (map_values lose_worker (k_pending k))"

definition retained :: "'n kernel \<Rightarrow> 'n frame list" where
  "retained k = filter (keep_queued (k_pending k)) (k_queue k)"

lemma keep_queued_lose [simp]: "keep_queued (map_values lose_worker p) = keep_queued p"
  by (auto simp: keep_queued_def lookup_simps fun_eq_iff split: envelope.splits)

lemma recovery_order_mem:
  assumes "alist_ok (k_pending k)"
  shows "(i, r) \<in> set (recovery_order k) \<longleftrightarrow> map_of (map_values lose_worker (k_pending k)) i = Some r"
  using alist_mem [of "map_values lose_worker (k_pending k)" i r] assms by (simp add: recovery_order_def)

lemma recovery_order_distinct:
  assumes "alist_ok (k_pending k)"
  shows "distinct (map fst (recovery_order k))"
proof -
  have "distinct (map fst (map_values lose_worker (k_pending k)))"
    using assms by (simp add: alist_ok_def)
  from this [unfolded distinct_map] show ?thesis
    unfolding recovery_order_def distinct_map by simp
qed

lemma requeue_closed:
  assumes ok: "alist_ok (k_pending k)" and cap: "rb_queue_capacity b \<le> usize_max"
    and req: "requeue_pending_for_replay b k = (out, k')"
  defines "es \<equiv> recovery_order k" and "ks \<equiv> kept b (length (retained k)) (recovery_order k)"
  shows "ro_rejected out = map (reject_entry b) (filter (\<lambda>e. e \<notin> set ks) es)"
    and "ro_held_for_probe out = map fst (filter (\<lambda>e. recovery_disposition b (snd e) = HoldForProbe) ks)"
    and "k_queue k' = map (pr_frame \<circ> snd) ks @ retained k"
    and "alist_ok (k_pending k')"
    and "map_of (k_pending k') = map_of (map (\<lambda>(i, r). (i, schedule b r)) ks)"
    and "k_next k' = k_next k" "k_phase k' = k_phase k" "k_seed k' = k_seed k"
proof -
  let ?p = "map_values lose_worker (k_pending k)" and ?n = "length (retained k)"
  let ?st = "foldl (requeue_one b ?n) (requeue_init ?p) es"
  have dist: "distinct (map fst es)" unfolding es_def by (rule recovery_order_distinct [OF ok])
  have mem: "(i, r) \<in> set es \<longleftrightarrow> map_of ?p i = Some r" for i r
    unfolding es_def by (rule recovery_order_mem [OF ok])
  have res: "requeue_result b ?n ?p es ?st"
    using ok by (intro requeue_fold [OF cap _ dist]) (simp_all add: mem)
  have eq: "out = \<lparr>ro_rejected = rq_rejected ?st, ro_held_for_probe = rq_held ?st\<rparr>"
    "k' = k\<lparr>k_pending := delete_all (rq_dropped ?st) (rq_pending ?st),
            k_queue := rq_frames ?st @ retained k\<rparr>"
    using req by (simp_all add: requeue_pending_for_replay_def Let_def es_def recovery_order_def
        retained_def requeue_init_def comp_def)
  have ks: "kept b ?n es = ks" by (simp add: es_def ks_def)
  show "ro_rejected out = map (reject_entry b) (filter (\<lambda>e. e \<notin> set ks) es)"
    "ro_held_for_probe out = map fst (filter (\<lambda>e. recovery_disposition b (snd e) = HoldForProbe) ks)"
    "k_queue k' = map (pr_frame \<circ> snd) ks @ retained k" "alist_ok (k_pending k')"
    "k_next k' = k_next k" "k_phase k' = k_phase k" "k_seed k' = k_seed k"
    using res by (simp_all add: eq requeue_result_def ks)
  show "map_of (k_pending k') = map_of (map (\<lambda>(i, r). (i, schedule b r)) ks)"
  proof
    fix i
    have dk: "distinct (map fst ks)" unfolding ks_def kept_def es_def [symmetric]
      using dist by (simp add: distinct_map_filter take_map [symmetric] distinct_take)
    have sub: "set ks \<subseteq> set es" unfolding ks_def es_def by (rule kept_subset)
    show "map_of (k_pending k') i = map_of (map (\<lambda>(i, r). (i, schedule b r)) ks) i"
    proof (cases "i \<in> fst ` set ks")
      case True
      then obtain r where r: "(i, r) \<in> set ks" by auto
      then have "map_of ?p i = Some r" using sub mem by auto
      moreover have "i \<notin> fst ` {e \<in> set es. e \<notin> set ks}"
        using r sub dist by (auto dest: eq_key_imp_eq_value)
      moreover have "map_of (map (\<lambda>(i, r). (i, schedule b r)) ks) i = Some (schedule b r)"
        using dk r by (subst map_of_eq_Some_iff) (force simp: comp_def case_prod_beta)+
      ultimately show ?thesis using res True
        by (auto simp: eq requeue_result_def ks lookup_simps)
    next
      case False
      then have none: "map_of (map (\<lambda>(i, r). (i, schedule b r)) ks) i = None"
        by (subst map_of_eq_None_iff) force
      show ?thesis
      proof (cases "map_of ?p i")
        case None
        then show ?thesis using res none by (auto simp: eq requeue_result_def ks lookup_simps)
      next
        case (Some r)
        then have "(i, r) \<in> set es" "(i, r) \<notin> set ks" using mem False by force+
        then have "i \<in> set (rq_dropped ?st)" using res by (force simp: requeue_result_def ks)
        then show ?thesis using none by (simp add: eq lookup_simps)
      qed
    qed
  qed
qed

section \<open>Recovery keeps the invariant\<close>

lemma survives_cases:
  assumes "pr_knowledge r = OutcomeUnknown" and "survives b (i, r)"
  shows "recovery_disposition b r = HoldForProbe \<and> pr_contract r = ProbeRequired \<or>
    recovery_disposition b r = ReplayDisp \<and> pr_contract r = Convergent \<and>
      pr_attempts r < rb_max_attempts b"
  using assms requeue_disposition_cases [of "pr_contract r" "allowance_new (pr_attempts r) (rb_max_attempts b)"]
    requeue_disposition [of "pr_contract r" "allowance_new (pr_attempts r) (rb_max_attempts b)"]
  by (auto simp: survives_def recovery_disposition_def drop_reason_def allowance_new_def)

lemma lose_worker_simps [simp]:
  "pr_frame (lose_worker r) = pr_frame r" "pr_sequence (lose_worker r) = pr_sequence r"
  "pr_method (lose_worker r) = pr_method r" "pr_contract (lose_worker r) = pr_contract r"
  "pr_attempts (lose_worker r) = pr_attempts r"
  by (simp_all add: lose_worker_def)

lemma schedule_simps [simp]:
  "pr_frame (schedule b r) = pr_frame r" "pr_sequence (schedule b r) = pr_sequence r"
  "pr_method (schedule b r) = pr_method r" "pr_contract (schedule b r) = pr_contract r"
  "pr_attempts (schedule b r) = pr_attempts r" "pr_knowledge (schedule b r) = pr_knowledge r"
  "pr_scheduled (schedule b r) = Some (recovery_disposition b r)"
  by (simp_all add: schedule_def)

lemma sched_ok_lost: "sched_ok r \<Longrightarrow> pr_knowledge (lose_worker r) = OutcomeUnknown"
  by (auto simp: sched_ok_def lose_worker_def after_worker_loss_def
      split: option.splits disposition.splits knowledge.splits)

lemma kept_entry:
  assumes "kernel_inv k" and "(i, r) \<in> set (kept b n (recovery_order k))"
  obtains r0 where "map_of (k_pending k) i = Some r0" "r = lose_worker r0"
    "entry_ok (k_next k) i r0" "survives b (i, r)" "pr_knowledge r = OutcomeUnknown"
proof -
  have ok: "pending_ok (k_next k) (k_pending k)" using assms(1) by (simp add: kernel_inv_def)
  then have "map_of (map_values lose_worker (k_pending k)) i = Some r"
    using assms(2) kept_subset recovery_order_mem [of k i r] by (fastforce simp: pending_ok_def)
  then obtain r0 where r0: "map_of (k_pending k) i = Some r0" "r = lose_worker r0"
    by (auto simp: lookup_simps)
  moreover have "entry_ok (k_next k) i r0" using ok r0 by (simp add: pending_ok_entry)
  ultimately show thesis using that [of r0] kept_survives [OF assms(2)] sched_ok_lost
    by (auto simp: entry_ok_def)
qed

lemma kept_sorted:
  assumes "kernel_inv k"
  shows "sorted_wrt (\<lambda>x y. pr_sequence (snd x) < pr_sequence (snd y)) (kept b n (recovery_order k))"
proof -
  have ok: "pending_ok (k_next k) (k_pending k)" using assms by (simp add: kernel_inv_def)
  have al: "alist_ok (k_pending k)" using ok by (simp add: pending_ok_def)
  let ?p = "map_values lose_worker (k_pending k)"
  have "inj_on (pr_sequence \<circ> snd) (set ?p)"
  proof (rule inj_onI)
    fix x y assume xy: "x \<in> set ?p" "y \<in> set ?p" "(pr_sequence \<circ> snd) x = (pr_sequence \<circ> snd) y"
    obtain i r j s where "x = (i, r)" "y = (j, s)" by fastforce
    moreover have "map_of ?p i = Some r" "map_of ?p j = Some s"
      using xy alist_mem [of ?p] al calculation by simp_all
    moreover have "i = j" using xy(3) ok calculation
      by (auto simp: lookup_simps pending_ok_def unique_sequences_def)
    ultimately show "x = y" by simp
  qed
  moreover have "alist_ok ?p" using al by simp
  then have "distinct ?p" unfolding alist_ok_def distinct_map by blast
  ultimately have "sorted_wrt (\<lambda>x y. (pr_sequence \<circ> snd) x < (pr_sequence \<circ> snd) y) (recovery_order k)"
    unfolding recovery_order_def by (intro strict_sort_key)
  then show ?thesis unfolding kept_def by (simp add: sorted_wrt_take sorted_wrt_filter)
qed

lemma map_of_schedule:
  assumes "distinct (map fst ks)"
  shows "map_of (map (\<lambda>(i, r). (i, schedule b r)) ks) i = Some s \<longleftrightarrow>
    (\<exists>r. (i, r) \<in> set ks \<and> s = schedule b r)"
proof -
  have "distinct (map fst (map (\<lambda>(i, r). (i, schedule b r)) ks))"
    using assms by (simp add: comp_def case_prod_beta)
  then show ?thesis by (subst map_of_eq_Some_iff) auto
qed

lemma kept_distinct:
  assumes "alist_ok (k_pending k)"
  shows "distinct (map fst (kept b n (recovery_order k)))"
  using recovery_order_distinct [OF assms]
  by (simp add: kept_def distinct_map_filter take_map [symmetric] distinct_take)

lemma requeue_pending:
  assumes "alist_ok (k_pending k)" and "rb_queue_capacity b \<le> usize_max"
    and "requeue_pending_for_replay b k = (out, k')"
  shows "map_of (k_pending k') i = Some s \<longleftrightarrow>
    (\<exists>r. (i, r) \<in> set (kept b (length (retained k)) (recovery_order k)) \<and> s = schedule b r)"
  using requeue_closed(5) [OF assms] map_of_schedule [OF kept_distinct [OF assms(1)]] by simp

lemma requeue_inv:
  assumes inv: "kernel_inv k" and cap: "rb_queue_capacity b \<le> usize_max"
  shows "kernel_inv (snd (requeue_pending_for_replay b k))"
proof -
  obtain out k' where req: "requeue_pending_for_replay b k = (out, k')" by fastforce
  from inv obtain ids bl where a: "pending_ok (k_next k) (k_pending k)"
    "recovery_ok (k_pending k) ids" "backlog_ok (k_pending k) bl"
    "k_queue k = map (frame_of (k_pending k)) ids @ bl" by (rule kernel_invE)
  have al: "alist_ok (k_pending k)" using a(1) by (simp add: pending_ok_def)
  let ?ks = "kept b (length (retained k)) (recovery_order k)"
  note cl = requeue_closed [OF al cap req]
  note look = requeue_pending [OF al cap req]
  have dk: "distinct (map fst ?ks)" by (rule kept_distinct [OF al])
  have entry: "entry_ok (k_next k) i s" if "map_of (k_pending k') i = Some s" for i s
  proof -
    from that look obtain r where r: "(i, r) \<in> set ?ks" "s = schedule b r" by auto
    from kept_entry [OF inv r(1)] obtain r0 where r0: "r = lose_worker r0"
      "entry_ok (k_next k) i r0" "survives b (i, r)" "pr_knowledge r = OutcomeUnknown" by blast
    show ?thesis using survives_cases [OF r0(4,3)] r0 r(2) by (auto simp: entry_ok_def sched_ok_def)
  qed
  have uniq: "unique_sequences (k_pending k')"
  proof -
    have old: "\<exists>r0. map_of (k_pending k) i = Some r0 \<and> pr_sequence r0 = pr_sequence s"
      if "map_of (k_pending k') i = Some s" for i s
    proof -
      from that look obtain r where r: "(i, r) \<in> set ?ks" "s = schedule b r" by auto
      from kept_entry [OF inv r(1)] obtain r0 where "map_of (k_pending k) i = Some r0" "r = lose_worker r0"
        by blast
      then show ?thesis using r by auto
    qed
    show ?thesis using a(1) old unfolding unique_sequences_def pending_ok_def by metis
  qed
  have ok: "pending_ok (k_next k') (k_pending k')"
    using entry uniq cl(4,6) by (simp add: pending_ok_def)
  have seq: "seq_of (k_pending k') (fst e) = pr_sequence (snd e)"
    and frame: "frame_of (k_pending k') (fst e) = pr_frame (snd e)" if "e \<in> set ?ks" for e
  proof -
    have "map_of (k_pending k') (fst e) = Some (schedule b (snd e))"
      using look that by (metis prod.collapse)
    then show "seq_of (k_pending k') (fst e) = pr_sequence (snd e)"
      "frame_of (k_pending k') (fst e) = pr_frame (snd e)" by (simp_all add: seq_of_def frame_of_def)
  qed
  have "sorted_wrt (\<lambda>x y. seq_of (k_pending k') (fst x) < seq_of (k_pending k') (fst y)) ?ks"
    by (rule sorted_wrt_mono_rel [OF _ kept_sorted [OF inv]]) (simp add: seq)
  moreover have "set (map fst ?ks) = scheduled_ids (k_pending k')"
    using look by (force simp: scheduled_ids_def)
  ultimately have rec: "recovery_ok (k_pending k') (map fst ?ks)"
    by (simp add: recovery_ok_def sorted_wrt_map)
  have "filter (keep_queued (k_pending k)) (map (frame_of (k_pending k)) ids) = []"
    using pending_frame_id [OF a(1)] recovery_pending [OF a(2)]
    by (fastforce simp: filter_empty_conv keep_queued_def frame_id_def split: envelope.splits)
  moreover have "filter (keep_queued (k_pending k)) bl = bl"
    using a(3) by (fastforce simp: filter_id_conv keep_queued_def backlog_ok_def set_request_ids
        frame_id_def split: envelope.splits)
  ultimately have ret: "retained k = bl" by (simp add: retained_def a(4))
  have bl: "backlog_ok (k_pending k') bl"
  proof -
    have "map_of (k_pending k') i = None" if "map_of (k_pending k) i = None" for i
      using that look kept_entry [OF inv] by (metis not_None_eq option.distinct(1))
    then show ?thesis using a(3) by (simp add: backlog_ok_def)
  qed
  have q: "k_queue k' = map (frame_of (k_pending k')) (map fst ?ks) @ bl"
    using cl(3) frame ret by simp
  show ?thesis using kernel_invI [OF ok rec bl q] req by simp
qed

lemma requeue_bounded:
  assumes inv: "kernel_inv k" and cap: "rb_queue_capacity b \<le> usize_max" and m: "rb_max_attempts b \<le> m"
  shows "replay_bounded m (snd (requeue_pending_for_replay b k))"
proof -
  obtain out k' where req: "requeue_pending_for_replay b k = (out, k')" by fastforce
  have al: "alist_ok (k_pending k)" using inv by (simp add: kernel_inv_def pending_ok_def)
  have "pr_attempts s < m" if "map_of (k_pending k') i = Some s" "pr_scheduled s = Some ReplayDisp" for i s
  proof -
    from that requeue_pending [OF al cap req] obtain r
      where r: "(i, r) \<in> set (kept b (length (retained k)) (recovery_order k))" "s = schedule b r" by auto
    from kept_entry [OF inv r(1)] have "survives b (i, r)" "pr_knowledge r = OutcomeUnknown" by blast+
    from survives_cases [OF this(2,1)] show ?thesis using that(2) r(2) m by auto
  qed
  then show ?thesis unfolding req replay_bounded_def snd_conv by blast
qed

end
