(* ===== verification/KernelRuns.thy ===== *)
theory KernelRuns
  imports Requeue
begin

text \<open>
  Runs of the session kernel: any sequence of its operations, with two logs kept beside
  it. \<open>dispatched\<close> is the invocation an operation sends to a worker (a first dispatch or
  an authorised replay), \<open>terminated\<close> the invocations it ends (a response, a completed
  probe, a rejection). An invocation is identified by its sequence number, which the kernel
  never reuses, so the logs of a whole session can be compared.
\<close>

section \<open>Events\<close>

datatype 'n kevent = Observe "'n frame" | Enqueue "'n frame" nat | Pop
  | Begin nat "'n frame" contract nat | Complete "'n frame" | Requeue replay_budget
  | Resolve "'n request_id" probe_resolution u8

definition kstep :: "'n extern \<Rightarrow> 'n kernel \<Rightarrow> 'n kevent \<Rightarrow> 'n kernel" where
  "kstep X k ev = (case ev of
      Observe f \<Rightarrow> snd (observe_client_frame f k)
    | Enqueue f capacity \<Rightarrow> snd (queue_client_frame f capacity k)
    | Pop \<Rightarrow> snd (pop_next_dispatch k)
    | Begin now f c capacity \<Rightarrow> snd (begin_request_dispatch X now f c capacity k)
    | Complete f \<Rightarrow> snd (complete_response f k)
    | Requeue b \<Rightarrow> snd (requeue_pending_for_replay b k)
    | Resolve i res m \<Rightarrow> snd (resolve_probe i res m k))"

type_synonym dispatch_log = "(u64 \<times> contract) list"

definition dispatched :: "'n extern \<Rightarrow> 'n kernel \<Rightarrow> 'n kevent \<Rightarrow> dispatch_log" where
  "dispatched X k ev = (case ev of
      Begin now f c capacity \<Rightarrow>
        (case fst (begin_request_dispatch X now f c capacity k) of
           Inr _ \<Rightarrow> [(k_next k, c)] | Inl _ \<Rightarrow> [])
    | Pop \<Rightarrow>
        (case fst (pop_next_dispatch k) of
           Inr (ReplayFrame f) \<Rightarrow>
             (case Option.bind (frame_id f) (map_of (k_pending k)) of
                Some r \<Rightarrow> [(pr_sequence r, pr_contract r)] | None \<Rightarrow> [])
         | _ \<Rightarrow> [])
    | _ \<Rightarrow> [])"

definition terminated :: "'n kernel \<Rightarrow> 'n kevent \<Rightarrow> u64 list" where
  "terminated k ev = (case ev of
      Complete f \<Rightarrow> (case fst (complete_response f k) of Inr r \<Rightarrow> [pr_sequence r] | Inl _ \<Rightarrow> [])
    | Requeue b \<Rightarrow>
        map (\<lambda>j. pr_sequence (rj_request j)) (ro_rejected (fst (requeue_pending_for_replay b k)))
    | Resolve i res m \<Rightarrow>
        (case fst (resolve_probe i res m k) of
           Inr (ProbeCompleted r) \<Rightarrow> [pr_sequence r]
         | Inl ReplayBudgetExhausted \<Rightarrow>
             (case map_of (k_pending k) i of Some r \<Rightarrow> [pr_sequence r] | None \<Rightarrow> [])
         | _ \<Rightarrow> [])
    | _ \<Rightarrow> [])"

text \<open>What an environment that keeps to a replay limit \<open>m\<close> asks for.\<close>

fun event_ok :: "u8 \<Rightarrow> 'n kevent \<Rightarrow> bool" where
  "event_ok m (Requeue b) \<longleftrightarrow> rb_max_attempts b \<le> m \<and> rb_queue_capacity b \<le> usize_max"
| "event_ok m (Resolve i res n) \<longleftrightarrow> n \<le> m"
| "event_ok m _ \<longleftrightarrow> True"

type_synonym 'n run = "'n kernel \<times> dispatch_log \<times> u64 list"

fun run_step :: "'n extern \<Rightarrow> 'n run \<Rightarrow> 'n kevent \<Rightarrow> 'n run" where
  "run_step X (k, d, t) ev = (kstep X k ev, d @ dispatched X k ev, t @ terminated k ev)"

definition session_run :: "'n extern \<Rightarrow> 'n kevent list \<Rightarrow> 'n run" where
  "session_run X evs = foldl (run_step X) (cold, [], []) evs"

section \<open>What an operation does to the live invocations\<close>

definition account :: "'n pending_request \<Rightarrow> u64 \<times> contract \<times> u8" where
  "account r = (pr_sequence r, pr_contract r, pr_attempts r)"

definition requests :: "'n kernel \<Rightarrow> 'n pending_request set" where
  "requests k = {r. \<exists>i. map_of (k_pending k) i = Some r}"

definition live :: "'n kernel \<Rightarrow> (u64 \<times> contract \<times> u8) set" where
  "live k = account ` requests k"

lemma fst_account [simp]: "fst (account r) = pr_sequence r"
  by (simp add: account_def)

lemma account_lose [simp]: "account (lose_worker r) = account r"
  and account_schedule [simp]: "account (schedule b r) = account r"
  by (simp_all add: account_def)

lemma live_I: "map_of (k_pending k) i = Some r \<Longrightarrow> account r \<in> live k"
  by (auto simp: live_def requests_def)

lemma live_same: "k_pending k' = k_pending k \<Longrightarrow> live k' = live k"
  by (simp add: live_def requests_def)

lemma account_filter: "account ` {r \<in> A. P (pr_sequence r)} = {e \<in> account ` A. P (fst e)}"
  by auto

lemma sequence_owner:
  assumes "kernel_inv k" and "map_of (k_pending k) i = Some r" and "map_of (k_pending k) j = Some s"
    and "pr_sequence s = pr_sequence r"
  shows "j = i"
  using assms by (auto simp: kernel_inv_def pending_ok_def unique_sequences_def)

lemma live_delete:
  assumes "k_pending k' = AList.delete i (k_pending k)" and "kernel_inv k"
    and "map_of (k_pending k) i = Some r"
  shows "live k' = {e \<in> live k. fst e \<noteq> pr_sequence r}"
proof -
  have "map_of (k_pending k') j = Some s \<longleftrightarrow>
      map_of (k_pending k) j = Some s \<and> pr_sequence s \<noteq> pr_sequence r" for j s
    using sequence_owner [OF assms(2,3), of j s] assms(1,3) by (auto simp: lookup_simps)
  then have "requests k' = {s \<in> requests k. pr_sequence s \<noteq> pr_sequence r}" by (auto simp: requests_def)
  then show ?thesis by (simp add: live_def account_filter [of _ "\<lambda>x. x \<noteq> pr_sequence r"])
qed

lemma live_new:
  assumes "k_pending k' = AList.update i r (k_pending k)" and "map_of (k_pending k) i = None"
  shows "live k' = insert (account r) (live k)"
proof -
  have "map_of (k_pending k') j = Some s \<longleftrightarrow> j = i \<and> s = r \<or> map_of (k_pending k) j = Some s" for j s
    using assms by (auto simp: lookup_simps)
  then have "requests k' = insert r (requests k)" by (auto simp: requests_def)
  then show ?thesis by (simp add: live_def)
qed

lemma live_update:
  assumes "k_pending k' = AList.update i r (k_pending k)" and "kernel_inv k"
    and "map_of (k_pending k) i = Some r0" and "pr_sequence r = pr_sequence r0"
  shows "live k' = insert (account r) {e \<in> live k. fst e \<noteq> pr_sequence r0}"
proof -
  have "map_of (k_pending k') j = Some s \<longleftrightarrow> j = i \<and> s = r \<or>
      map_of (k_pending k) j = Some s \<and> pr_sequence s \<noteq> pr_sequence r0" for j s
    using sequence_owner [OF assms(2,3), of j s] assms(1,3) by (auto simp: lookup_simps)
  then have "requests k' = insert r {s \<in> requests k. pr_sequence s \<noteq> pr_sequence r0}"
    by (auto simp: requests_def)
  then show ?thesis by (simp add: live_def account_filter [of _ "\<lambda>x. x \<noteq> pr_sequence r0"])
qed

lemma recovery_order_live:
  assumes "kernel_inv k"
  shows "live k = (\<lambda>e. account (snd e)) ` set (recovery_order k)"
proof -
  have al: "alist_ok (k_pending k)" using assms by (simp add: kernel_inv_def pending_ok_def)
  have "(\<exists>i. (i, r) \<in> set (recovery_order k)) \<longleftrightarrow> r \<in> lose_worker ` requests k" for r
    unfolding recovery_order_mem [OF al] by (auto simp: lookup_simps requests_def)
  then have "snd ` set (recovery_order k) = lose_worker ` requests k"
    unfolding snd_eq_Range by blast
  then have "account ` snd ` set (recovery_order k) = live k" by (simp add: live_def image_image)
  then show ?thesis by (simp add: image_image)
qed

lemma recovery_sequences:
  assumes "kernel_inv k"
  shows "distinct (map (\<lambda>e. pr_sequence (snd e)) (recovery_order k))"
proof -
  have all: "kept \<lparr>rb_max_attempts = 0, rb_queue_capacity = 0\<rparr> 0 (recovery_order k) = []"
    by (simp add: kept_def)
  have al: "alist_ok (k_pending k)" using assms by (simp add: kernel_inv_def pending_ok_def)
  show ?thesis unfolding distinct_map
  proof (intro conjI inj_onI)
    show "distinct (recovery_order k)"
      using recovery_order_distinct [OF al] by (simp add: distinct_map)
  next
    fix x y assume xy: "x \<in> set (recovery_order k)" "y \<in> set (recovery_order k)"
      "pr_sequence (snd x) = pr_sequence (snd y)"
    obtain i r j s where e: "x = (i, r)" "y = (j, s)" by fastforce
    with xy recovery_order_mem [OF al] have m: "map_of (map_values lose_worker (k_pending k)) i = Some r"
      "map_of (map_values lose_worker (k_pending k)) j = Some s" by auto
    then have "i = j" using xy(3) e assms
      by (auto simp: lookup_simps kernel_inv_def pending_ok_def unique_sequences_def)
    with m e show "x = y" by simp
  qed
qed

lemma requeue_live:
  assumes inv: "kernel_inv k" and cap: "rb_queue_capacity b \<le> usize_max"
    and req: "requeue_pending_for_replay b k = (out, k')"
  defines "ts \<equiv> map (\<lambda>j. pr_sequence (rj_request j)) (ro_rejected out)"
  shows "distinct ts" "set ts \<subseteq> fst ` live k" "live k' = {e \<in> live k. fst e \<notin> set ts}"
proof -
  have al: "alist_ok (k_pending k)" using inv by (simp add: kernel_inv_def pending_ok_def)
  let ?es = "recovery_order k" and ?ks = "kept b (length (retained k)) (recovery_order k)"
  let ?seq = "\<lambda>e. pr_sequence (snd e)"
  have ts: "ts = map ?seq (filter (\<lambda>e. e \<notin> set ?ks) ?es)"
    by (simp add: ts_def requeue_closed(1) [OF al cap req] reject_entry_def comp_def)
  note seqs = recovery_sequences [OF inv]
  show "distinct ts" unfolding ts using seqs by (simp add: distinct_map_filter)
  show "set ts \<subseteq> fst ` live k"
    unfolding ts recovery_order_live [OF inv] image_image fst_account by auto
  have inj: "inj_on ?seq (set ?es)" using seqs by (simp add: distinct_map)
  have sub: "set ?ks \<subseteq> set ?es" by (rule kept_subset)
  have "requests k' = schedule b ` snd ` set ?ks"
    unfolding requests_def requeue_pending [OF al cap req] by force
  then have "live k' = (\<lambda>e. account (snd e)) ` set ?ks" by (simp add: live_def image_image)
  also have "set ?ks = {e \<in> set ?es. ?seq e \<notin> set ts}"
    unfolding ts using sub inj by (auto simp: inj_on_def)
  also have "(\<lambda>e. account (snd e)) ` \<dots> = {e \<in> live k. fst e \<notin> set ts}"
    unfolding recovery_order_live [OF inv] by auto
  finally show "live k' = {e \<in> live k. fst e \<notin> set ts}" .
qed

section \<open>The books of a session\<close>

text \<open>
  The logs agree with the live invocations: each live one was dispatched once more than
  the attempts it counts and has not ended; every dispatched one is live or has ended,
  once; none passed the limit, and none under \<open>NeverReplay\<close> was repeated.
\<close>

definition times :: "dispatch_log \<Rightarrow> u64 \<Rightarrow> nat" where
  "times d s = count_list (map fst d) s"

definition books :: "u8 \<Rightarrow> (u64 \<times> contract \<times> u8) set \<Rightarrow> u64 \<Rightarrow> dispatch_log \<Rightarrow> u64 list \<Rightarrow> bool" where
  "books m L next d t \<longleftrightarrow>
     (\<forall>s c n. (s, c, n) \<in> L \<longrightarrow>
        (s, c) \<in> set d \<and> s \<notin> set t \<and> times d s = unat n + 1 \<and> n \<le> m \<and> (c = NeverReplay \<longrightarrow> n = 0)) \<and>
     (\<forall>s. times d s \<le> unat m + 1) \<and>
     (\<forall>s. (s, NeverReplay) \<in> set d \<longrightarrow> times d s \<le> 1) \<and>
     (\<forall>s c. (s, c) \<in> set d \<longrightarrow> s < next) \<and>
     (\<forall>s c c'. (s, c) \<in> set d \<longrightarrow> (s, c') \<in> set d \<longrightarrow> c = c') \<and>
     distinct t \<and> set t \<subseteq> fst ` set d \<and> fst ` set d \<subseteq> set t \<union> fst ` L"

lemma times_snoc [simp]: "times (d @ [(s, c)]) s' = times d s' + (if s = s' then 1 else 0)"
  by (simp add: times_def)

lemma times_zero: "times d s = 0 \<longleftrightarrow> s \<notin> fst ` set d"
  by (simp add: times_def count_list_0_iff)

lemma books_live:
  assumes "books m L next d t" and "(s, c, n) \<in> L"
  shows "(s, c) \<in> set d" "s \<notin> set t" "times d s = unat n + 1" "n \<le> m" "c = NeverReplay \<Longrightarrow> n = 0"
  using assms by (auto simp: books_def)

lemma books_new:
  assumes b: "books m L next d t" and n: "next < next'"
  shows "books m (insert (next, c, 0) L) next' (d @ [(next, c)]) t"
proof -
  have below: "s < next" if "(s, c') \<in> set d" for s c' using that b by (auto simp: books_def)
  then have fresh: "(next, c') \<notin> set d" for c' by blast
  then have z: "times d next = 0" by (auto simp: times_zero)
  have "set t \<subseteq> fst ` set d" using b by (simp add: books_def)
  then have nt: "next \<notin> set t" using fresh by auto
  have old: "s \<noteq> next" if "(s, c', n') \<in> L" for s c' n'
    using books_live(1) [OF b that] fresh by auto
  show ?thesis unfolding books_def
  proof (intro conjI)
    show "\<forall>s c' n. (s, c', n) \<in> insert (next, c, 0) L \<longrightarrow>
        (s, c') \<in> set (d @ [(next, c)]) \<and> s \<notin> set t \<and> times (d @ [(next, c)]) s = unat n + 1 \<and>
        n \<le> m \<and> (c' = NeverReplay \<longrightarrow> n = 0)"
      using books_live [OF b] old z nt by auto
    show "\<forall>s c'. (s, c') \<in> set (d @ [(next, c)]) \<longrightarrow> s < next'"
      using below n by (auto dest: order.strict_trans)
    show "fst ` set (d @ [(next, c)]) \<subseteq> set t \<union> fst ` insert (next, c, 0) L"
    proof -
      have "fst ` set d \<subseteq> set t \<union> fst ` L" using b by (simp add: books_def)
      then show ?thesis by auto
    qed
  qed (use b z fresh in \<open>auto simp: books_def\<close>)
qed

lemma books_replay:
  assumes b: "books m L next d t" and mem: "(s, c, n) \<in> L" and lt: "n < m" and c: "c \<noteq> NeverReplay"
  shows "books m (insert (s, c, n + 1) {e \<in> L. fst e \<noteq> s}) next (d @ [(s, c)]) t"
proof -
  have le: "n + 1 \<le> m" using lt by (rule inc_le)
  have u: "unat (n + 1) = unat n + 1"
    using checked_add_Some [OF checked_add_1_lt [OF lt]] by simp
  have "unat n < unat m" using lt by (simp add: word_less_nat_alt)
  then have t: "times d s = unat n + 1" "times d s + 1 \<le> unat m + 1" "(s, c) \<in> set d" "s \<notin> set t"
    using books_live [OF b mem] by auto
  have contract: "c' = c" if "(s, c') \<in> set d" for c'
    using that t(3) b by (auto simp: books_def)
  then have notnever: "(s, NeverReplay) \<notin> set d" using c by blast
  show ?thesis unfolding books_def
  proof (intro conjI)
    show "\<forall>s' c' n'. (s', c', n') \<in> insert (s, c, n + 1) {e \<in> L. fst e \<noteq> s} \<longrightarrow>
        (s', c') \<in> set (d @ [(s, c)]) \<and> s' \<notin> set t \<and> times (d @ [(s, c)]) s' = unat n' + 1 \<and>
        n' \<le> m \<and> (c' = NeverReplay \<longrightarrow> n' = 0)"
      using books_live [OF b] t u le c by auto
    show "fst ` set (d @ [(s, c)]) \<subseteq> set t \<union> fst ` insert (s, c, n + 1) {e \<in> L. fst e \<noteq> s}"
    proof -
      have "fst ` L \<subseteq> fst ` insert (s, c, n + 1) {e \<in> L. fst e \<noteq> s}" by auto
      moreover have "fst ` set d \<subseteq> set t \<union> fst ` L" using b by (simp add: books_def)
      ultimately show ?thesis by auto
    qed
  qed (use b t notnever contract c in \<open>auto simp: books_def\<close>)
qed

lemma books_end:
  assumes b: "books m L next d t" and ts: "distinct ts" "set ts \<subseteq> fst ` L"
  shows "books m {e \<in> L. fst e \<notin> set ts} next d (t @ ts)"
proof -
  have mem: "s \<in> fst ` set d \<and> s \<notin> set t" if "s \<in> set ts" for s
  proof -
    have "s \<in> fst ` L" using that ts(2) by blast
    then obtain e where "s = fst e" "e \<in> L" by (rule imageE)
    then have "(s, fst (snd e), snd (snd e)) \<in> L" by simp
    from books_live [OF b this] show ?thesis by force
  qed
  have "fst ` L \<subseteq> set ts \<union> fst ` {e \<in> L. fst e \<notin> set ts}" by auto
  moreover have "fst ` set d \<subseteq> set t \<union> fst ` L" using b by (simp add: books_def)
  ultimately have cover: "fst ` set d \<subseteq> set (t @ ts) \<union> fst ` {e \<in> L. fst e \<notin> set ts}"
    unfolding set_append by blast
  show ?thesis unfolding books_def
  proof (intro conjI)
    show "\<forall>s c n. (s, c, n) \<in> {e \<in> L. fst e \<notin> set ts} \<longrightarrow> (s, c) \<in> set d \<and> s \<notin> set (t @ ts) \<and>
        times d s = unat n + 1 \<and> n \<le> m \<and> (c = NeverReplay \<longrightarrow> n = 0)"
      using books_live [OF b] by auto
    show "distinct (t @ ts)" "set (t @ ts) \<subseteq> fst ` set d"
      using b ts(1) mem by (auto simp: books_def)
  qed (use b cover in \<open>auto simp: books_def\<close>)
qed

section \<open>The invariant of a run\<close>

fun run_inv :: "u8 \<Rightarrow> 'n run \<Rightarrow> bool" where
  "run_inv m (k, d, t) \<longleftrightarrow>
     kernel_inv k \<and> replay_bounded m k \<and> books m (live k) (k_next k) d t"

lemma run_inv_start: "run_inv m (cold :: 'n kernel, [], [])"
proof -
  have "live (cold :: 'n kernel) = {}" "replay_bounded m (cold :: 'n kernel)"
    by (simp_all add: live_def requests_def cold_def replay_bounded_def)
  then show ?thesis by (simp add: cold_inv books_def times_def)
qed

lemma replay_bounded_same: "k_pending k' = k_pending k \<Longrightarrow> replay_bounded m k' = replay_bounded m k"
  by (simp add: replay_bounded_def)

lemma replay_bounded_subset:
  assumes "replay_bounded m k"
    and "\<And>i r. map_of (k_pending k') i = Some r \<Longrightarrow> map_of (k_pending k) i = Some r \<or>
      pr_scheduled r \<noteq> Some ReplayDisp \<or> pr_attempts r < m"
  shows "replay_bounded m k'"
  using assms unfolding replay_bounded_def by blast

lemma run_pop:
  assumes "run_inv m (k, d, t)"
  shows "run_inv m (run_step X (k, d, t) Pop)"
proof -
  have inv: "kernel_inv k" and bd: "replay_bounded m k" and bk: "books m (live k) (k_next k) d t"
    using assms by simp_all
  note ki = pop_inv [OF inv bd]
  show ?thesis
  proof (cases "k_queue k")
    case Nil
    then show ?thesis using assms by (simp add: kstep_def dispatched_def terminated_def pop_next_dispatch_def)
  next
    case (Cons f rest)
    show ?thesis
    proof (cases rule: queue_head [OF inv Cons])
      case 2
      note p = pop_client [OF Cons 2(1)]
      have "live (k\<lparr>k_queue := rest\<rparr>) = live k" by (rule live_same) simp
      then show ?thesis using ki bd bk p
        by (simp add: kstep_def dispatched_def terminated_def replay_bounded_def)
    next
      case (1 i r ids bl)
      note pop = pop_scheduled [OF Cons 1(1,2)]
      show ?thesis
      proof (cases "pr_scheduled r = Some HoldForProbe")
        case True
        with pop(1) assms show ?thesis by (simp add: kstep_def dispatched_def terminated_def)
      next
        case False
        then have rep: "pr_scheduled r = Some ReplayDisp" using 1(4) by simp
        have e: "entry_ok (k_next k) i r" using 1 by (simp add: pending_ok_def)
        then have ku: "pr_knowledge r = OutcomeUnknown" and nv: "pr_contract r \<noteq> NeverReplay"
          using rep by (auto simp: entry_ok_def sched_ok_def)
        have lt: "pr_attempts r < m" using bd 1(2) rep by (auto simp: replay_bounded_def)
        note n = attempts_left [OF lt]
        let ?r = "r\<lparr>pr_knowledge := InFlight, pr_attempts := pr_attempts r + 1, pr_scheduled := None\<rparr>"
        let ?k = "(update_pending i ?r k)\<lparr>k_queue := rest\<rparr>"
        note p = pop(2) [OF rep ku n]
        have pend: "k_pending ?k = AList.update i ?r (k_pending k)" by (simp add: update_pending_def)
        have l: "live ?k = insert (pr_sequence r, pr_contract r, pr_attempts r + 1)
            {e \<in> live k. fst e \<noteq> pr_sequence r}"
          using live_update [OF pend inv 1(2)] by (simp add: account_def)
        have mem: "(pr_sequence r, pr_contract r, pr_attempts r) \<in> live k"
          using live_I [OF 1(2)] by (simp add: account_def)
        have nx: "k_next ?k = k_next k" by (simp add: update_pending_def)
        have bd': "replay_bounded m ?k"
          by (rule replay_bounded_subset [OF bd]) (auto simp: pend lookup_simps split: if_splits)
        show ?thesis using ki p 1(1,2) bd' books_replay [OF bk mem lt nv]
          by (simp add: kstep_def dispatched_def terminated_def l nx)
      qed
    qed
  qed
qed

lemma run_begin:
  assumes "run_inv m (k, d, t)"
  shows "run_inv m (run_step X (k, d, t) (Begin now f c cap))"
proof (cases "fst (begin_request_dispatch X now f c cap k)")
  case (Inl e)
  then have "snd (begin_request_dispatch X now f c cap k) = k" by (rule begin_Inl)
  with Inl assms show ?thesis by (simp add: kstep_def dispatched_def terminated_def)
next
  case (Inr i)
  then obtain k' where eq: "begin_request_dispatch X now f c cap k = (Inr i, k')"
    by (metis prod.collapse)
  obtain r where b: "pr_sequence r = k_next k" "pr_contract r = c" "pr_attempts r = 0"
    "pr_scheduled r = None" "k_pending k' = AList.update i r (k_pending k)"
    "checked_add (k_next k) 1 = Some (k_next k')" "map_of (k_pending k) i = None"
    by (rule begin_Inr [OF eq]) blast
  have inv: "kernel_inv k" and bd: "replay_bounded m k" and bk: "books m (live k) (k_next k) d t"
    using assms by simp_all
  have l: "live k' = insert (k_next k, c, 0) (live k)"
    using live_new [OF b(5,7)] b(1,2,3) by (simp add: account_def)
  have "replay_bounded m k'"
    by (rule replay_bounded_subset [OF bd]) (use b in \<open>auto simp: lookup_simps split: if_splits\<close>)
  then show ?thesis
    using begin_inv [OF inv, of X now f c cap] books_new [OF bk checked_add_less [OF b(6)], of c] eq l
    by (simp add: kstep_def dispatched_def terminated_def)
qed

text \<open>Ending one invocation, by a response or a probe.\<close>

lemma run_remove:
  assumes inv: "kernel_inv k" and bd: "replay_bounded m k" and bk: "books m (live k) (k_next k) d t"
    and r: "map_of (k_pending k) i = Some r" and pend: "k_pending k' = AList.delete i (k_pending k)"
    and nx: "k_next k' = k_next k"
  shows "replay_bounded m k' \<and> books m (live k') (k_next k') d (t @ [pr_sequence r])"
proof -
  have "replay_bounded m k'"
    by (rule replay_bounded_subset [OF bd]) (auto simp: pend lookup_simps split: if_splits)
  moreover have "live k' = {e \<in> live k. fst e \<notin> set [pr_sequence r]}"
    using live_delete [OF pend inv r] by simp
  moreover have "set [pr_sequence r] \<subseteq> fst ` live k" using live_I [OF r] by force
  ultimately show ?thesis using books_end [OF bk, of "[pr_sequence r]"] nx by simp
qed

lemma run_complete:
  assumes "run_inv m (k, d, t)"
  shows "run_inv m (run_step X (k, d, t) (Complete f))"
proof (cases "fst (complete_response f k)")
  case (Inl e)
  then have "snd (complete_response f k) = k" by (rule complete_Inl)
  with Inl assms show ?thesis by (simp add: kstep_def dispatched_def terminated_def)
next
  case (Inr r')
  then obtain k' where eq: "complete_response f k = (Inr r', k')" by (metis prod.collapse)
  obtain i r where b: "map_of (k_pending k) i = Some r" "r' = r\<lparr>pr_knowledge := CompletedRun\<rparr>"
    "k_pending k' = AList.delete i (k_pending k)" "k_next k' = k_next k"
    by (rule complete_Inr [OF eq]) blast
  have inv: "kernel_inv k" and bd: "replay_bounded m k" and bk: "books m (live k) (k_next k) d t"
    using assms by simp_all
  show ?thesis using run_remove [OF inv bd bk b(1,3,4)] complete_inv [OF inv, of f] eq b(2)
    by (simp add: kstep_def dispatched_def terminated_def)
qed

lemma run_resolve:
  assumes "run_inv m (k, d, t)" and le: "n \<le> m"
  shows "run_inv m (run_step X (k, d, t) (Resolve i res n))"
proof -
  obtain out k' where eq: "resolve_probe i res n k = (out, k')" by fastforce
  have inv: "kernel_inv k" and bd: "replay_bounded m k" and bk: "books m (live k) (k_next k) d t"
    using assms by simp_all
  note ki = resolve_inv [OF inv, of i res n]
  note defs = kstep_def dispatched_def terminated_def
  show ?thesis
  proof (cases rule: resolve_cases [OF inv eq])
    case (1 e)
    then show ?thesis using assms eq by (cases e) (simp_all add: defs)
  next
    case (2 r)
    let ?r = "r\<lparr>pr_scheduled := Some ReplayDisp\<rparr>"
    have pend: "k_pending k' = AList.update i ?r (k_pending k)" using 2 by (simp add: update_pending_def)
    have mem: "account r \<in> live k" by (rule live_I [OF 2(1)])
    have own: "e = account r" if e: "e \<in> live k" "fst e = pr_sequence r" for e
    proof -
      from e(1) obtain s where s: "e = account s" and "s \<in> requests k"
        unfolding live_def by (rule imageE)
      then obtain j where j: "map_of (k_pending k) j = Some s" by (auto simp: requests_def)
      have "j = i" by (rule sequence_owner [OF inv 2(1) j]) (use e(2) s in simp)
      with j 2(1) s show ?thesis by simp
    qed
    have "e \<in> insert (account r) {e \<in> live k. fst e \<noteq> pr_sequence r} \<longleftrightarrow> e \<in> live k" for e
      using own [of e] mem by blast
    then have "insert (account r) {e \<in> live k. fst e \<noteq> pr_sequence r} = live k" by (rule set_eqI)
    moreover have "account ?r = account r" by (simp add: account_def)
    ultimately have "live k' = live k" using live_update [OF pend inv 2(1)] by simp
    moreover have "k_next k' = k_next k" using 2 by (simp add: update_pending_def)
    moreover have "replay_bounded m k'"
      by (rule replay_bounded_subset [OF bd])
        (use 2(4) le in \<open>auto simp: pend lookup_simps split: if_splits dest: order.strict_trans2\<close>)
    ultimately show ?thesis using ki eq bk 2 by (simp add: defs)
  next
    case (3 r)
    have "k_pending k' = AList.delete i (k_pending k)" "k_next k' = k_next k"
      using 3 by (simp_all add: remove_queued_request_def)
    from run_remove [OF inv bd bk 3(1) this] show ?thesis using ki eq 3 by (simp add: defs)
  next
    case (4 r)
    have "k_pending k' = AList.delete i (k_pending k)" "k_next k' = k_next k"
      using 4 by (simp_all add: remove_queued_request_def)
    from run_remove [OF inv bd bk 4(1) this] show ?thesis using ki eq 4 by (simp add: defs)
  qed
qed

lemma run_requeue:
  assumes "run_inv m (k, d, t)" and ok: "event_ok m (Requeue b)"
  shows "run_inv m (run_step X (k, d, t) (Requeue b))"
proof -
  obtain out k' where eq: "requeue_pending_for_replay b k = (out, k')" by fastforce
  have inv: "kernel_inv k" and bk: "books m (live k) (k_next k) d t" using assms by simp_all
  have cap: "rb_queue_capacity b \<le> usize_max" and le: "rb_max_attempts b \<le> m" using ok by simp_all
  have al: "alist_ok (k_pending k)" using inv by (simp add: kernel_inv_def pending_ok_def)
  note l = requeue_live [OF inv cap eq]
  show ?thesis
    using requeue_inv [OF inv cap] requeue_bounded [OF inv cap le] books_end [OF bk l(1,2)] l(3)
      requeue_closed(6) [OF al cap eq] eq
    by (simp add: kstep_def dispatched_def terminated_def)
qed

lemma run_step_inv: "run_inv m s \<Longrightarrow> event_ok m ev \<Longrightarrow> run_inv m (run_step X s ev)"
proof -
  assume a: "run_inv m s" and ok: "event_ok m ev"
  obtain k d t where s: "s = (k, d, t)" by (metis prod_cases3)
  then have bd: "replay_bounded m k" and bk: "books m (live k) (k_next k) d t" and inv: "kernel_inv k"
    using a by simp_all
  have quiet: "run_inv m (k', d, t)"
    if "kernel_inv k'" "k_pending k' = k_pending k" "k_next k' = k_next k" for k' :: "'a kernel"
    unfolding run_inv.simps live_same [OF that(2)] that(3) replay_bounded_same [OF that(2)]
    using that(1) bd bk by blast
  show ?thesis
  proof (cases ev)
    case (Observe f)
    have "run_inv m (snd (observe_client_frame f k), d, t)"
      by (rule quiet) (use inv observe_inv in \<open>simp_all add: observe_same\<close>)
    then show ?thesis by (simp add: Observe s kstep_def dispatched_def terminated_def)
  next
    case (Enqueue f c)
    have "run_inv m (snd (queue_client_frame f c k), d, t)"
      by (rule quiet) (rule queue_inv [OF inv], simp_all add: queue_client_frame_def)
    then show ?thesis by (simp add: Enqueue s kstep_def dispatched_def terminated_def)
  qed (use a ok s run_pop run_begin run_complete run_requeue run_resolve in \<open>simp_all del: run_step.simps run_inv.simps\<close>)
qed

interpretation kernel_machine: invariant_machine "run_step X" "run_inv m" "event_ok m"
  for X :: "'n extern" and m
  by unfold_locales (rule run_step_inv)

lemma session_run_inv: "list_all (event_ok m) evs \<Longrightarrow> run_inv m (session_run X evs)"
  unfolding session_run_def by (rule kernel_machine.inv_run [OF run_inv_start])

end
