(* ===== verification/Samples.thy ===== *)
theory Samples
  imports Jsonrpc
begin

text \<open>
  A concrete instance of the library parameter, on which the witnesses evaluate: a parser
  that knows a handful of one-byte payloads, each standing for one JSON-RPC text, and
  refuses the rest. Numbers are 64-bit words.
\<close>

definition sample_call :: "string \<Rightarrow> u64 \<Rightarrow> event" where
  "sample_call m i = VisitMap [(''jsonrpc'', VisitStr ''2.0''), (''method'', VisitStr m),
     (''id'', VisitU64 i), (''params'', VisitMap [])]"

definition sample_note :: "string \<Rightarrow> event" where
  "sample_note m = VisitMap [(''jsonrpc'', VisitStr ''2.0''), (''method'', VisitStr m)]"

definition sample_reply :: "u64 \<Rightarrow> event" where
  "sample_reply i = VisitMap [(''jsonrpc'', VisitStr ''2.0''), (''id'', VisitU64 i),
     (''result'', VisitNone)]"

definition sample_events :: "byte list \<Rightarrow> event option" where
  "sample_events p =
     (if p = [0] then Some (sample_call ''initialize'' 0)
      else if p = [1] then Some (sample_note ''notifications/initialized'')
      else if p = [2] then Some (sample_call ''tools/list'' 1)
      else if p = [3] then Some (sample_call ''tools/call'' 2)
      else if p = [4] then Some (sample_reply 0)
      else if p = [5] then Some (sample_reply 1)
      else if p = [6] then Some (sample_call ''initialize'' 7)
      else None)"

definition sample_extern :: "u64 extern" where
  "sample_extern = \<lparr>x_events = sample_events, x_from_i64 = id, x_from_u64 = id, x_from_f64 = Some,
     x_as_i64 = Some, x_as_u64 = Some, x_from_str = (\<lambda>_. None), x_to_vec = (\<lambda>_. Some []),
     x_json_text = (\<lambda>_. []), x_pointer = (\<lambda>_ _. None), x_file_path = (\<lambda>_. None)\<rparr>"

definition sample_frame :: "byte list \<Rightarrow> u64 frame" where
  "sample_frame p =
     (case frame_parse sample_extern p of Inr f \<Rightarrow> f
      | Inl _ \<Rightarrow> \<lparr>fr_payload = [], fr_value = JNull, fr_envelope = Notification (RpcMethod [])\<rparr>)"

lemma sample_parse:
  "frame_parse sample_extern [0] = Inr (sample_frame [0])"
  "frame_parse sample_extern [1] = Inr (sample_frame [1])"
  "frame_parse sample_extern [2] = Inr (sample_frame [2])"
  "frame_parse sample_extern [3] = Inr (sample_frame [3])"
  "frame_parse sample_extern [4] = Inr (sample_frame [4])"
  "frame_parse sample_extern [5] = Inr (sample_frame [5])"
  "frame_parse sample_extern [6] = Inr (sample_frame [6])"
  by code_simp+

lemma sample_frames_ok:
  "p \<in> {[0], [1], [2], [3], [4], [5], [6]} \<Longrightarrow> frame_ok sample_extern (sample_frame p)"
  using frame_parse_ok [OF sample_parse(1)] frame_parse_ok [OF sample_parse(2)]
    frame_parse_ok [OF sample_parse(3)] frame_parse_ok [OF sample_parse(4)]
    frame_parse_ok [OF sample_parse(5)] frame_parse_ok [OF sample_parse(6)]
    frame_parse_ok [OF sample_parse(7)]
  by auto

lemma sample_envelope:
  "fr_envelope (sample_frame [0]) = Request (IdNumber 0) (RpcMethod ''initialize'')"
  "fr_envelope (sample_frame [1]) = Notification (RpcMethod ''notifications/initialized'')"
  "fr_envelope (sample_frame [2]) = Request (IdNumber 1) (RpcMethod ''tools/list'')"
  "fr_envelope (sample_frame [3]) = Request (IdNumber 2) (RpcMethod ''tools/call'')"
  "fr_envelope (sample_frame [4]) = Response (IdNumber 0) False"
  "fr_envelope (sample_frame [5]) = Response (IdNumber 1) False"
  "fr_envelope (sample_frame [6]) = Request (IdNumber 7) (RpcMethod ''initialize'')"
  by code_simp+

lemma sample_payload:
  "fr_payload (sample_frame [0]) = [0]" "fr_payload (sample_frame [6]) = [6]"
  by code_simp+

text \<open>A parser of nested text that knows one document.\<close>

definition sample_nested :: "u64 extern" where
  "sample_nested =
     sample_extern\<lparr>x_from_str := (\<lambda>t. if t = ''[]'' then Some (JArray []) else None)\<rparr>"

theorem path_hint_returns_witness:
  "nested_parse_law sample_nested \<and>
   (\<exists>h. extract_path_hint_from_value sample_nested (JString ''[]'') = Some h)"
proof -
  have "nested_parse_law sample_nested" by (simp add: nested_parse_law_def sample_nested_def)
  with path_hint_returns [OF this, of "JString ''[]''"] show ?thesis by simp
qed

end
