(* ===== verification/Session.thy ===== *)
theory Session
  imports KernelRuns Samples
begin

text \<open>
  The public session: how the phase, the initialization seed and a pending \<open>initialize\<close>
  stay in step, and that everything the kernel stores still parses to what it stores.
  The properties of kernel runs that the theories before prepare are stated here.
\<close>

section \<open>Phase and seed\<close>

definition init_ok :: "session_phase \<Rightarrow> 'n seed option \<Rightarrow> 'n pending_map \<Rightarrow> bool" where
  "init_ok ph sd p \<longleftrightarrow>
     (\<forall>i r. map_of p i = Some r \<and> is_initialize (pr_method r) \<longrightarrow>
        ph = Initializing \<and> (\<exists>s. sd = Some s \<and> seed_matches i (pr_frame r) s))"

definition phase_ok :: "session_phase \<Rightarrow> 'n seed option \<Rightarrow> bool" where
  "phase_ok ph sd \<longleftrightarrow>
     (case ph of
        Cold \<Rightarrow> (case sd of None \<Rightarrow> True | Some s \<Rightarrow> sd_notification s = None)
      | Initializing \<Rightarrow> (case sd of None \<Rightarrow> False | Some s \<Rightarrow> sd_notification s = None)
      | AwaitingInitialized \<Rightarrow> (case sd of None \<Rightarrow> False | Some s \<Rightarrow> sd_notification s = None)
      | Live \<Rightarrow> (case sd of None \<Rightarrow> False | Some s \<Rightarrow> sd_notification s \<noteq> None))"

definition session_ok :: "'n kernel \<Rightarrow> bool" where
  "session_ok k \<longleftrightarrow>
     init_ok (k_phase k) (k_seed k) (k_pending k) \<and> phase_ok (k_phase k) (k_seed k)"

lemma init_okD:
  "init_ok ph sd p \<Longrightarrow> map_of p i = Some r \<Longrightarrow> is_initialize (pr_method r) \<Longrightarrow>
     ph = Initializing \<and> (\<exists>s. sd = Some s \<and> seed_matches i (pr_frame r) s)"
  unfolding init_ok_def by blast

lemma init_okI:
  "(\<And>i r. map_of p i = Some r \<Longrightarrow> is_initialize (pr_method r) \<Longrightarrow>
     ph = Initializing \<and> (\<exists>s. sd = Some s \<and> seed_matches i (pr_frame r) s)) \<Longrightarrow> init_ok ph sd p"
  unfolding init_ok_def by blast

definition seed_valid :: "'n extern \<Rightarrow> 'n seed \<Rightarrow> bool" where
  "seed_valid X s \<longleftrightarrow>
     (\<exists>f m. frame_parse X (si_payload (sd_request s)) = Inr f \<and>
        fr_envelope f = Request (si_id (sd_request s)) m \<and> is_initialize m) \<and>
     (\<forall>p. sd_notification s = Some p \<longrightarrow>
        (\<exists>f m. frame_parse X p = Inr f \<and> fr_envelope f = Notification m \<and> is_initialized_notification m))"

definition request_valid :: "'n extern \<Rightarrow> 'n pending_request \<Rightarrow> bool" where
  "request_valid X r \<longleftrightarrow>
     frame_ok X (pr_frame r) \<and> pr_meta r = parse_tool_call_meta X (pr_frame r) (pr_method r)"

definition wire_ok :: "'n extern \<Rightarrow> 'n kernel \<Rightarrow> bool" where
  "wire_ok X k \<longleftrightarrow>
     (\<forall>i r. map_of (k_pending k) i = Some r \<longrightarrow> request_valid X r) \<and>
     (\<forall>f\<in>set (k_queue k). frame_ok X f) \<and>
     (\<forall>s. k_seed k = Some s \<longrightarrow> seed_valid X s)"

text \<open>Every frame an event brings was parsed.\<close>

fun event_frames_ok :: "'n extern \<Rightarrow> 'n kevent \<Rightarrow> bool" where
  "event_frames_ok X (Observe f) = frame_ok X f"
| "event_frames_ok X (Enqueue f c) = frame_ok X f"
| "event_frames_ok X (Begin now f c cap) = frame_ok X f"
| "event_frames_ok X _ = True"

fun session_inv :: "'n extern \<Rightarrow> u8 \<Rightarrow> 'n run \<Rightarrow> bool" where
  "session_inv X m (k, d, t) \<longleftrightarrow> run_inv m (k, d, t) \<and> session_ok k \<and> wire_ok X k"

definition session_event_ok :: "'n extern \<Rightarrow> u8 \<Rightarrow> 'n kevent \<Rightarrow> bool" where
  "session_event_ok X m ev \<longleftrightarrow> event_ok m ev \<and> event_frames_ok X ev"

text \<open>Operations that only drop or re-schedule pending invocations and queued frames.\<close>

lemma session_shrink:
  assumes "session_ok k" and "wire_ok X k" and "k_phase k' = k_phase k" and "k_seed k' = k_seed k"
    and "\<And>i r. map_of (k_pending k') i = Some r \<Longrightarrow> \<exists>r0. map_of (k_pending k) i = Some r0 \<and>
      pr_method r = pr_method r0 \<and> pr_frame r = pr_frame r0 \<and> pr_meta r = pr_meta r0"
    and "set (k_queue k') \<subseteq> set (k_queue k) \<union> {f. \<exists>i r. map_of (k_pending k) i = Some r \<and> f = pr_frame r}"
  shows "session_ok k'" and "wire_ok X k'"
proof -
  have "init_ok (k_phase k) (k_seed k) (k_pending k')"
  proof (rule init_okI)
    fix i r assume r: "map_of (k_pending k') i = Some r" "is_initialize (pr_method r)"
    from assms(5) [OF r(1)] obtain r0 where "map_of (k_pending k) i = Some r0"
      "pr_method r = pr_method r0" "pr_frame r = pr_frame r0" by blast
    then show "k_phase k = Initializing \<and> (\<exists>s. k_seed k = Some s \<and> seed_matches i (pr_frame r) s)"
      using assms(1) r(2) init_okD [of "k_phase k" "k_seed k" "k_pending k" i r0]
      by (simp add: session_ok_def)
  qed
  then show "session_ok k'" using assms(1,3,4) by (simp add: session_ok_def)
  have "request_valid X r" if r: "map_of (k_pending k') i = Some r" for i r
  proof -
    from assms(5) [OF r] obtain r0 where "map_of (k_pending k) i = Some r0"
      "pr_method r = pr_method r0" "pr_frame r = pr_frame r0" "pr_meta r = pr_meta r0" by blast
    then show ?thesis using assms(2) by (auto simp: wire_ok_def request_valid_def)
  qed
  moreover have "frame_ok X f" if "f \<in> set (k_queue k')" for f
    using that assms(2,6) by (auto simp: wire_ok_def request_valid_def)
  ultimately show "wire_ok X k'" using assms(2,4) by (simp add: wire_ok_def)
qed

lemma session_observe:
  assumes "session_ok k" and "wire_ok X k" and "frame_ok X f"
  shows "session_ok (snd (observe_client_frame f k)) \<and> wire_ok X (snd (observe_client_frame f k))"
proof (cases "fr_envelope f")
  case (Request i m)
  show ?thesis
  proof (cases "is_initialize m \<and> k_phase k = Cold \<and> k_seed k = None")
    case True
    have "seed_valid X (new_seed i f)"
      using assms(3) True Request by (auto simp: seed_valid_def new_seed_def frame_ok_def)
    then show ?thesis using assms Request True
      by (simp add: observe_client_frame_def session_ok_def wire_ok_def phase_ok_def init_ok_def new_seed_def)
  qed (use assms Request in \<open>auto simp: observe_client_frame_def\<close>)
next
  case (Notification m)
  show ?thesis
  proof (cases "is_initialized_notification m \<and> k_phase k = AwaitingInitialized \<and> k_seed k \<noteq> None")
    case True
    then obtain s where s: "k_seed k = Some s" by auto
    have "seed_valid X (s\<lparr>sd_notification := Some (fr_payload f)\<rparr>)"
      using assms(2,3) True Notification s by (auto simp: seed_valid_def frame_ok_def wire_ok_def)
    then show ?thesis using assms Notification True s
      by (simp add: observe_client_frame_def session_ok_def wire_ok_def phase_ok_def init_ok_def)
  qed (use assms Notification in \<open>auto simp: observe_client_frame_def\<close>)
qed (use assms in \<open>simp add: observe_client_frame_def\<close>)

lemma session_enqueue:
  assumes "session_ok k" and "wire_ok X k" and "frame_ok X f"
  shows "session_ok (snd (queue_client_frame f c k)) \<and> wire_ok X (snd (queue_client_frame f c k))"
proof -
  have "snd (queue_client_frame f c k) = k \<or>
      snd (queue_client_frame f c k) = k\<lparr>k_queue := k_queue k @ [f]\<rparr>"
    by (simp add: queue_client_frame_def)
  moreover have "session_ok (k\<lparr>k_queue := k_queue k @ [f]\<rparr>)" "wire_ok X (k\<lparr>k_queue := k_queue k @ [f]\<rparr>)"
    using assms by (auto simp: session_ok_def wire_ok_def)
  ultimately show ?thesis using assms(1,2) by auto
qed

lemma session_begin:
  assumes ok: "session_ok k" and wire: "wire_ok X k" and f: "frame_ok X f" and inv: "kernel_inv k"
  shows "session_ok (snd (begin_request_dispatch X now f c cap k)) \<and>
    wire_ok X (snd (begin_request_dispatch X now f c cap k))"
proof (cases "fst (begin_request_dispatch X now f c cap k)")
  case (Inl e)
  then have "snd (begin_request_dispatch X now f c cap k) = k" by (rule begin_Inl)
  with ok wire show ?thesis by simp
next
  case (Inr i)
  then obtain k' where eq: "begin_request_dispatch X now f c cap k = (Inr i, k')"
    by (metis prod.collapse)
  obtain m r where b: "fr_envelope f = Request i m" "pr_method r = m" "pr_frame r = f"
    "pr_meta r = parse_tool_call_meta X f m"
    "k_pending k' = AList.update i r (k_pending k)" "k_queue k' = k_queue k"
    "is_initialize m \<longrightarrow> k_phase k = Cold \<and> k_phase k' = Initializing \<and>
       (case k_seed k of None \<Rightarrow> k_seed k' = Some (new_seed i f)
        | Some s \<Rightarrow> seed_matches i f s \<and> k_seed k' = Some s)"
    "\<not> is_initialize m \<longrightarrow> k_phase k' = k_phase k \<and> k_seed k' = k_seed k"
    by (rule begin_Inr [OF eq]) blast
  have valid: "request_valid X r" using b f by (simp add: request_valid_def)
  have wire': "wire_ok X k'" if "\<forall>s. k_seed k' = Some s \<longrightarrow> seed_valid X s"
    using wire that b(5,6) valid by (auto simp: wire_ok_def lookup_simps)
  show ?thesis
  proof (cases "is_initialize m")
    case False
    then have same: "k_phase k' = k_phase k" "k_seed k' = k_seed k" using b by simp_all
    then have "session_ok k'" using ok b(2,5) False
      by (auto simp: session_ok_def init_ok_def lookup_simps)
    moreover have "wire_ok X k'" using wire' wire same by (simp add: wire_ok_def)
    ultimately show ?thesis using eq by simp
  next
    case True
    then have ph: "k_phase k = Cold" "k_phase k' = Initializing" using b by simp_all
    have "\<not> is_initialize (pr_method r0)" if "map_of (k_pending k) j = Some r0" for j r0
      using ok ph(1) init_okD [OF _ that] by (auto simp: session_ok_def)
    moreover have "\<exists>s. k_seed k' = Some s \<and> seed_matches i f s \<and> sd_notification s = None \<and> seed_valid X s"
    proof (cases "k_seed k")
      case None
      have "seed_valid X (new_seed i f)"
        using f b(1) True by (auto simp: seed_valid_def new_seed_def frame_ok_def)
      with None True b show ?thesis by (auto simp: new_seed_def seed_matches_def)
    next
      case (Some s)
      then have "sd_notification s = None" using ok ph(1) by (simp add: session_ok_def phase_ok_def)
      with Some True b wire show ?thesis by (auto simp: wire_ok_def)
    qed
    ultimately have "session_ok k'" "\<forall>s. k_seed k' = Some s \<longrightarrow> seed_valid X s"
      using ph b(3,5) by (auto simp: session_ok_def init_ok_def phase_ok_def lookup_simps)
    then show ?thesis using eq wire' by simp
  qed
qed

lemma session_complete:
  assumes ok: "session_ok k" and wire: "wire_ok X k" and inv: "kernel_inv k"
  shows "session_ok (snd (complete_response f k)) \<and> wire_ok X (snd (complete_response f k))"
proof (cases "fst (complete_response f k)")
  case (Inl e)
  then have "snd (complete_response f k) = k" by (rule complete_Inl)
  with ok wire show ?thesis by simp
next
  case (Inr r')
  then obtain k' where eq: "complete_response f k = (Inr r', k')" by (metis prod.collapse)
  obtain i he r where b: "map_of (k_pending k) i = Some r"
    "k_pending k' = AList.delete i (k_pending k)"
    "k_queue k' = filter (\<lambda>f. \<not> request_has_id i f) (k_queue k)"
    "is_initialize (pr_method r) \<longrightarrow> k_phase k = Initializing \<and>
       k_phase k' = (if he then Cold else AwaitingInitialized) \<and>
       k_seed k' = (if he then None else k_seed k)"
    "\<not> is_initialize (pr_method r) \<longrightarrow> k_phase k' = k_phase k \<and> k_seed k' = k_seed k"
    by (rule complete_Inr [OF eq]) blast
  have old: "map_of (k_pending k') j = Some s \<Longrightarrow> map_of (k_pending k) j = Some s \<and> j \<noteq> i" for j s
    by (auto simp: b(2) lookup_simps split: if_splits)
  show ?thesis
  proof (cases "is_initialize (pr_method r)")
    case False
    then have same: "k_phase k' = k_phase k" "k_seed k' = k_seed k" using b by simp_all
    have pend: "\<exists>r0. map_of (k_pending k) j = Some r0 \<and> pr_method s = pr_method r0 \<and>
        pr_frame s = pr_frame r0 \<and> pr_meta s = pr_meta r0"
      if "map_of (k_pending k') j = Some s" for j s
      using old [OF that] by blast
    have q: "set (k_queue k') \<subseteq> set (k_queue k) \<union> {f. \<exists>i r. map_of (k_pending k) i = Some r \<and> f = pr_frame r}"
      unfolding b(3) by auto
    from session_shrink [OF ok wire same pend q] show ?thesis using eq by simp
  next
    case True
    then have s: "k_phase k = Initializing" "k_phase k' = (if he then Cold else AwaitingInitialized)"
      "k_seed k' = (if he then None else k_seed k)" using b by simp_all
    have uniq: "\<not> is_initialize (pr_method r0)" if "map_of (k_pending k') j = Some r0" for j r0
    proof
      assume init: "is_initialize (pr_method r0)"
      from old [OF that] have "map_of (k_pending k) j = Some r0" "j \<noteq> i" by auto
      with init True ok b(1) show False
        using init_okD [of "k_phase k" "k_seed k" "k_pending k" j r0]
          init_okD [of "k_phase k" "k_seed k" "k_pending k" i r]
        by (auto simp: session_ok_def seed_matches_def)
    qed
    have "init_ok ph sd (k_pending k')" for ph and sd :: "'a seed option" using uniq by (auto simp: init_ok_def)
    then have "session_ok k'" using ok s by (simp add: session_ok_def phase_ok_def)
    moreover have "wire_ok X k'" using wire old s(3) b(3) by (auto simp: wire_ok_def)
    ultimately show ?thesis using eq by simp
  qed
qed

lemma session_pop:
  assumes ok: "session_ok k" and wire: "wire_ok X k" and inv: "kernel_inv k" and bd: "replay_bounded m k"
  shows "session_ok (snd (pop_next_dispatch k)) \<and> wire_ok X (snd (pop_next_dispatch k))"
proof (cases "k_queue k")
  case Nil
  with ok wire show ?thesis by (simp add: pop_next_dispatch_def)
next
  case (Cons f rest)
  show ?thesis
  proof (cases rule: queue_head [OF inv Cons])
    case 2
    note p = pop_client [OF Cons 2(1)]
    have "session_ok (k\<lparr>k_queue := rest\<rparr>)" "wire_ok X (k\<lparr>k_queue := rest\<rparr>)"
      by (rule session_shrink [OF ok wire]; use Cons in auto)+
    with p show ?thesis by simp
  next
    case (1 i r ids bl)
    note pop = pop_scheduled [OF Cons 1(1,2)]
    show ?thesis
    proof (cases "pr_scheduled r = Some HoldForProbe")
      case True
      with pop(1) ok wire show ?thesis by simp
    next
      case False
      then have rep: "pr_scheduled r = Some ReplayDisp" using 1(4) by simp
      have "entry_ok (k_next k) i r" using 1 by (simp add: pending_ok_def)
      then have ku: "pr_knowledge r = OutcomeUnknown" using rep by (simp add: entry_ok_def sched_ok_def)
      have "pr_attempts r < m" using bd 1(2) rep by (auto simp: replay_bounded_def)
      note p = pop(2) [OF rep ku attempts_left [OF this]]
      let ?k = "(update_pending i (r\<lparr>pr_knowledge := InFlight, pr_attempts := pr_attempts r + 1,
          pr_scheduled := None\<rparr>) k)\<lparr>k_queue := rest\<rparr>"
      have "session_ok ?k" "wire_ok X ?k"
        by (rule session_shrink [OF ok wire];
            use Cons 1(2) in \<open>auto simp: update_pending_def lookup_simps split: if_splits\<close>)+
      with p show ?thesis by simp
    qed
  qed
qed

lemma session_requeue:
  assumes ok: "session_ok k" and wire: "wire_ok X k" and inv: "kernel_inv k"
    and cap: "rb_queue_capacity b \<le> usize_max"
  shows "session_ok (snd (requeue_pending_for_replay b k)) \<and> wire_ok X (snd (requeue_pending_for_replay b k))"
proof -
  obtain out k' where req: "requeue_pending_for_replay b k = (out, k')" by fastforce
  have al: "alist_ok (k_pending k)" using inv by (simp add: kernel_inv_def pending_ok_def)
  note cl = requeue_closed [OF al cap req]
  have pend: "\<exists>r0. map_of (k_pending k) i = Some r0 \<and>
      pr_method s = pr_method r0 \<and> pr_frame s = pr_frame r0 \<and> pr_meta s = pr_meta r0"
    if s: "map_of (k_pending k') i = Some s" for i s
  proof -
    from s requeue_pending [OF al cap req] obtain r
      where r: "(i, r) \<in> set (kept b (length (retained k)) (recovery_order k))" "s = schedule b r" by auto
    from kept_entry [OF inv r(1)] obtain r0 where "map_of (k_pending k) i = Some r0" "r = lose_worker r0"
      by blast
    then show ?thesis using r(2) by (auto simp: schedule_def lose_worker_def)
  qed
  have q: "set (k_queue k') \<subseteq> set (k_queue k) \<union> {f. \<exists>i r. map_of (k_pending k) i = Some r \<and> f = pr_frame r}"
  proof
    fix f assume "f \<in> set (k_queue k')"
    then consider "f \<in> set (retained k)"
      | i r where "(i, r) \<in> set (kept b (length (retained k)) (recovery_order k))" "f = pr_frame r"
      using cl(3) by auto
    then show "f \<in> set (k_queue k) \<union> {f. \<exists>i r. map_of (k_pending k) i = Some r \<and> f = pr_frame r}"
    proof cases
      case 1
      then show ?thesis by (simp add: retained_def)
    next
      case (2 i r)
      from kept_entry [OF inv 2(1)] obtain r0 where "map_of (k_pending k) i = Some r0" "r = lose_worker r0"
        by blast
      then show ?thesis using 2(2) by auto
    qed
  qed
  from session_shrink [OF ok wire cl(7,8) pend q] show ?thesis using req by simp
qed

lemma session_resolve:
  assumes ok: "session_ok k" and wire: "wire_ok X k" and inv: "kernel_inv k"
  shows "session_ok (snd (resolve_probe i res m k)) \<and> wire_ok X (snd (resolve_probe i res m k))"
proof -
  obtain out k' where eq: "resolve_probe i res m k = (out, k')" by fastforce
  have "session_ok k' \<and> wire_ok X k'"
  proof (cases rule: resolve_cases [OF inv eq])
    case (1 e)
    then show ?thesis using ok wire by simp
  next
    case (2 r)
    have "session_ok k'" "wire_ok X k'"
      by (rule session_shrink [OF ok wire];
          use 2 in \<open>auto simp: update_pending_def lookup_simps split: if_splits\<close>)+
    then show ?thesis by simp
  next
    case (3 r)
    have "session_ok k'" "wire_ok X k'"
      by (rule session_shrink [OF ok wire];
          use 3 in \<open>auto simp: remove_queued_request_def lookup_simps split: if_splits\<close>)+
    then show ?thesis by simp
  next
    case (4 r)
    have "session_ok k'" "wire_ok X k'"
      by (rule session_shrink [OF ok wire];
          use 4 in \<open>auto simp: remove_queued_request_def lookup_simps split: if_splits\<close>)+
    then show ?thesis by simp
  qed
  then show ?thesis using eq by simp
qed

lemma cold_session: "session_inv X m (cold, [], [])"
  using run_inv_start [of m]
  by (simp add: session_ok_def init_ok_def phase_ok_def wire_ok_def cold_def)

lemma session_step_inv:
  assumes "session_inv X m s" and "session_event_ok X m ev"
  shows "session_inv X m (run_step X s ev)"
proof -
  obtain k d t where s: "s = (k, d, t)" by (metis prod_cases3)
  have ok: "session_ok k" and wire: "wire_ok X k" and inv: "kernel_inv k" and bd: "replay_bounded m k"
    and run: "run_inv m (k, d, t)" using assms(1) s by simp_all
  have ev: "event_ok m ev" "event_frames_ok X ev" using assms(2) by (simp_all add: session_event_ok_def)
  have "session_ok (kstep X k ev) \<and> wire_ok X (kstep X k ev)"
  proof (cases ev)
    case Pop
    then show ?thesis using session_pop [OF ok wire inv bd] by (simp add: kstep_def)
  next
    case (Requeue b)
    then show ?thesis using ev session_requeue [OF ok wire inv, of b] by (simp add: kstep_def)
  qed (use ev ok wire inv session_observe session_enqueue session_begin session_complete
      session_resolve in \<open>simp_all add: kstep_def\<close>)
  then show ?thesis using run_step_inv [OF run ev(1), of X] s by simp
qed

interpretation session_machine: invariant_machine "run_step X" "session_inv X m" "session_event_ok X m"
  for X :: "'n extern" and m
  by unfold_locales (rule session_step_inv)

definition run_kernel :: "'n run \<Rightarrow> 'n kernel" where "run_kernel run = fst run"
definition run_dispatches :: "'n run \<Rightarrow> dispatch_log" where "run_dispatches run = fst (snd run)"
definition run_ends :: "'n run \<Rightarrow> u64 list" where "run_ends run = snd (snd run)"

lemma session_reach:
  assumes "list_all (session_event_ok X m) evs"
  shows "session_inv X m (session_run X evs)"
  unfolding session_run_def by (rule session_machine.inv_run [OF cold_session assms])

lemma session_parts:
  assumes "list_all (session_event_ok X m) evs"
  obtains k d t where "session_run X evs = (k, d, t)" "kernel_inv k" "replay_bounded m k"
    "books m (live k) (k_next k) d t" "session_ok k" "wire_ok X k"
    "run_kernel (session_run X evs) = k" "run_dispatches (session_run X evs) = d"
    "run_ends (session_run X evs) = t"
proof -
  obtain k d t where "session_run X evs = (k, d, t)" by (metis prod_cases3)
  with session_reach [OF assms] show thesis
    by (intro that [of k d t]) (simp_all add: run_kernel_def run_dispatches_def run_ends_def)
qed

section \<open>What holds in every run\<close>

text \<open>The witnesses run this session: a request is lost with its worker, twice.\<close>

definition sample_budget :: replay_budget where
  "sample_budget = \<lparr>rb_max_attempts = 1, rb_queue_capacity = 8\<rparr>"

definition sample_session :: "u64 kevent list" where
  "sample_session = [Observe (sample_frame [0]), Begin 0 (sample_frame [0]) Convergent 8,
     Complete (sample_frame [4]), Observe (sample_frame [1]),
     Begin 1 (sample_frame [2]) NeverReplay 8, Begin 2 (sample_frame [3]) Convergent 8,
     Requeue sample_budget, Pop, Requeue sample_budget]"

lemma sample_session_ok: "list_all (session_event_ok sample_extern 1) sample_session"
  by (simp add: sample_session_def session_event_ok_def sample_frames_ok sample_budget_def usize_max_def)

text \<open>
  C2. The kernel's invariant holds in every session: whatever the order of client frames,
  responses, worker losses and probes, pending invocations sit under the identifier of
  their immutable frame with unique sequences, the queue is the recovery work in sequence
  order followed by client frames that own no pending identifier, the phase agrees with
  the seed and the pending \<open>initialize\<close>, and every stored frame is a validated one.
\<close>

theorem kernel_invariant_reachable:
  assumes "list_all (session_event_ok X m) evs"
  shows "kernel_inv (run_kernel (session_run X evs)) \<and> session_ok (run_kernel (session_run X evs)) \<and>
    wire_ok X (run_kernel (session_run X evs))"
  by (rule session_parts [OF assms]) simp

theorem kernel_invariant_reachable_witness:
  "kernel_inv (run_kernel (session_run sample_extern sample_session))"
  using kernel_invariant_reachable [OF sample_session_ok] by blast

text \<open>
  C3. No invocation is lost and none ends twice: at any point of any session, the
  invocations ever dispatched are those still pending and those that got their one
  terminal outcome, the two apart.
\<close>

theorem one_terminal_outcome:
  assumes "list_all (session_event_ok X m) evs"
  shows "fst ` set (run_dispatches (session_run X evs)) =
      set (run_ends (session_run X evs)) \<union> pr_sequence ` requests (run_kernel (session_run X evs)) \<and>
    set (run_ends (session_run X evs)) \<inter> pr_sequence ` requests (run_kernel (session_run X evs)) = {} \<and>
    distinct (run_ends (session_run X evs))"
proof (rule session_parts [OF assms])
  fix k d t
  assume b: "books m (live k) (k_next k) d t" and eq: "run_kernel (session_run X evs) = k"
    "run_dispatches (session_run X evs) = d" "run_ends (session_run X evs) = t"
  have l: "fst ` live k = pr_sequence ` requests k" by (simp add: live_def image_image)
  have "s \<in> fst ` set d \<and> s \<notin> set t" if "s \<in> fst ` live k" for s
  proof -
    from that obtain e where "s = fst e" "e \<in> live k" by (rule imageE)
    then have "(s, fst (snd e), snd (snd e)) \<in> live k" by simp
    from books_live [OF b this] show ?thesis by force
  qed
  with b l show ?thesis by (auto simp: eq books_def)
qed

theorem one_terminal_outcome_witness:
  "distinct (run_ends (session_run sample_extern sample_session))"
  using one_terminal_outcome [OF sample_session_ok] by blast

text \<open>
  C4. Execution is bounded: no invocation is sent to a worker more than once plus the
  replay limit of the session, however often workers fail, and one under \<open>NeverReplay\<close>
  is sent exactly once.
\<close>

theorem dispatches_bounded:
  assumes "list_all (session_event_ok X m) evs"
  shows "times (run_dispatches (session_run X evs)) s \<le> unat m + 1 \<and>
    ((s, NeverReplay) \<in> set (run_dispatches (session_run X evs)) \<longrightarrow>
       times (run_dispatches (session_run X evs)) s = 1)"
proof (rule session_parts [OF assms])
  fix k d t
  assume b: "books m (live k) (k_next k) d t" and eq: "run_dispatches (session_run X evs) = d"
  have "times d s \<noteq> 0" if "(s, NeverReplay) \<in> set d" using that times_zero [of d s] by force
  moreover have "times d s \<le> 1" if "(s, NeverReplay) \<in> set d" using that b by (simp add: books_def)
  ultimately show ?thesis using b by (fastforce simp: eq books_def)
qed

theorem dispatches_bounded_witness:
  "times (run_dispatches (session_run sample_extern sample_session)) 2 \<le> 2"
  using dispatches_bounded [OF sample_session_ok, of 2] by simp

text \<open>
  C5. The queue never wedges and recovery comes first: in every reachable state taking the
  next entry succeeds; a client frame comes out only when no pending invocation waits for
  replay or a probe, and otherwise it is the oldest waiting invocation that comes out or
  blocks.
\<close>

theorem pop_in_recovery_order:
  assumes "list_all (session_event_ok X m) evs"
  defines "k \<equiv> run_kernel (session_run X evs)"
  shows "case fst (pop_next_dispatch k) of
      Inl _ \<Rightarrow> False
    | Inr QueueEmpty \<Rightarrow> k_queue k = [] \<and> scheduled_ids (k_pending k) = {}
    | Inr (ClientFrame f) \<Rightarrow> scheduled_ids (k_pending k) = {} \<and> f = hd (k_queue k)
    | Inr (ReplayFrame f) \<Rightarrow>
        (\<exists>i\<in>scheduled_ids (k_pending k). f = frame_of (k_pending k) i \<and>
           (\<forall>j\<in>scheduled_ids (k_pending k). seq_of (k_pending k) i \<le> seq_of (k_pending k) j))
    | Inr (HeldForProbe i) \<Rightarrow> i \<in> scheduled_ids (k_pending k) \<and>
           (\<forall>j\<in>scheduled_ids (k_pending k). seq_of (k_pending k) i \<le> seq_of (k_pending k) j)"
proof (rule session_parts [OF assms(1)])
  fix k' assume *: "kernel_inv k'" "replay_bounded m k'" "run_kernel (session_run X evs) = k'"
  then have k: "kernel_inv k" "replay_bounded m k" by (simp_all add: k_def)
  show ?thesis
  proof (cases "k_queue k")
    case Nil
    from k(1) obtain ids where "recovery_ok (k_pending k) ids" "map (frame_of (k_pending k)) ids = []"
      by (rule kernel_invE) (use Nil in auto)
    then show ?thesis using Nil by (simp add: pop_next_dispatch_def recovery_ok_def)
  next
    case (Cons f rest)
    show ?thesis
    proof (cases rule: queue_head [OF k(1) Cons])
      case 2
      then have "scheduled_ids (k_pending k) = {}" by (simp add: recovery_ok_def)
      then show ?thesis using pop_client [OF Cons 2(1)] Cons by simp
    next
      case (1 i r ids bl)
      have S: "scheduled_ids (k_pending k) = insert i (set ids)" using 1(6) by (simp add: recovery_ok_def)
      have le: "seq_of (k_pending k) i \<le> seq_of (k_pending k) j" if "j \<in> insert i (set ids)" for j
        using that 1(6) by (auto simp: recovery_ok_def)
      have fr: "f = frame_of (k_pending k) i" using 1 by (simp add: frame_of_def)
      note pop = pop_scheduled [OF Cons 1(1,2)]
      show ?thesis
      proof (cases "pr_scheduled r = Some HoldForProbe")
        case True
        with pop(1) show ?thesis using S le by simp
      next
        case False
        then have rep: "pr_scheduled r = Some ReplayDisp" using 1(4) by simp
        have "entry_ok (k_next k) i r" using 1 by (simp add: pending_ok_def)
        then have ku: "pr_knowledge r = OutcomeUnknown" using rep by (simp add: entry_ok_def sched_ok_def)
        have "pr_attempts r < m" using k(2) 1(2) rep by (auto simp: replay_bounded_def)
        note p = pop(2) [OF rep ku attempts_left [OF this]]
        show ?thesis unfolding p S using le fr by auto
      qed
    qed
  qed
qed

theorem pop_in_recovery_order_witness:
  "\<exists>out. fst (pop_next_dispatch (run_kernel (session_run sample_extern sample_session))) = Inr out"
  using pop_in_recovery_order [OF sample_session_ok] by (auto split: sum.splits)

text \<open>
  C17. A replacement worker can always be reseeded: in every reachable state the replay
  seed is defined, absent exactly before \<open>initialize\<close> succeeded, and otherwise parses to
  the client's own \<open>initialize\<close> request and, once live, its \<open>initialized\<close> notification.
\<close>

theorem replay_seed_total:
  assumes "list_all (session_event_ok X m) evs"
  defines "k \<equiv> run_kernel (session_run X evs)"
  shows "\<exists>sd. replay_seed k = Inr sd \<and> (sd = None \<longleftrightarrow> k_phase k = Cold \<or> k_phase k = Initializing) \<and>
    (case sd of None \<Rightarrow> True
     | Some s \<Rightarrow> seed_valid X s \<and> (k_phase k = Live \<longleftrightarrow> sd_notification s \<noteq> None))"
proof (rule session_parts [OF assms(1)])
  fix k' assume *: "session_ok k'" "wire_ok X k'" "run_kernel (session_run X evs) = k'"
  then have "session_ok k" "wire_ok X k" by (simp_all add: k_def)
  then show ?thesis
    by (cases "k_phase k")
      (auto simp: replay_seed_def prepare_replay_seed_def session_ok_def phase_ok_def wire_ok_def
        split: option.splits)
qed

theorem replay_seed_total_witness:
  "\<exists>sd. replay_seed (run_kernel (session_run sample_extern sample_session)) = Inr sd"
  using replay_seed_total [OF sample_session_ok] by blast

section \<open>One operation\<close>

text \<open>
  The closed form of recovery read off the kernel before the loss: which of the pending
  invocations live, in which order, and why the others do not.
\<close>

lemma survives_lost:
  assumes "kernel_inv k" and "map_of (k_pending k) i = Some r"
  shows "survives b (i, lose_worker r) \<longleftrightarrow> pr_contract r = ProbeRequired \<or>
      pr_contract r = Convergent \<and> pr_attempts r < rb_max_attempts b"
    and "pr_knowledge (lose_worker r) = OutcomeUnknown"
    and "recovery_disposition b (lose_worker r) = (case pr_contract r of
      NeverReplay \<Rightarrow> RejectAmbiguousOutcome | ProbeRequired \<Rightarrow> HoldForProbe
    | Convergent \<Rightarrow> if pr_attempts r < rb_max_attempts b then ReplayDisp else RejectReplayExhausted)"
proof -
  have "entry_ok (k_next k) i r" using assms pending_ok_entry unfolding kernel_inv_def by blast
  then show ku: "pr_knowledge (lose_worker r) = OutcomeUnknown" by (simp add: entry_ok_def sched_ok_lost)
  show rd: "recovery_disposition b (lose_worker r) = (case pr_contract r of
      NeverReplay \<Rightarrow> RejectAmbiguousOutcome | ProbeRequired \<Rightarrow> HoldForProbe
    | Convergent \<Rightarrow> if pr_attempts r < rb_max_attempts b then ReplayDisp else RejectReplayExhausted)"
    by (simp add: recovery_disposition_def ku requeue_disposition_cases allowance_new_def split: contract.split)
  show "survives b (i, lose_worker r) \<longleftrightarrow> pr_contract r = ProbeRequired \<or>
      pr_contract r = Convergent \<and> pr_attempts r < rb_max_attempts b"
    by (simp add: survives_def rd drop_reason_def split: contract.split)
qed

lemma survivors_sorted:
  assumes "kernel_inv k"
  shows "sorted_wrt (\<lambda>x y. pr_sequence (snd x) < pr_sequence (snd y)) (filter (survives b) (recovery_order k))"
proof -
  let ?b = "b\<lparr>rb_queue_capacity := length (recovery_order k)\<rparr>"
  have sv: "survives ?b = survives b" by (simp add: survives_def recovery_disposition_def fun_eq_iff)
  have "kept ?b 0 (recovery_order k) = filter (survives b) (recovery_order k)"
    unfolding kept_def sv by simp
  with kept_sorted [OF assms, of ?b 0] show ?thesis by simp
qed

lemma not_kept:
  assumes "kernel_inv k" and "e \<in> set (recovery_order k)" "survives b e" "e \<notin> set (kept b n (recovery_order k))"
  shows "rb_queue_capacity b \<le> length (kept b n (recovery_order k)) + n"
    and "d \<in> set (kept b n (recovery_order k)) \<Longrightarrow> pr_sequence (snd d) < pr_sequence (snd e)"
proof -
  let ?fs = "filter (survives b) (recovery_order k)" and ?n = "rb_queue_capacity b - n"
  have "e \<in> set (take ?n ?fs @ drop ?n ?fs)" using assms(2,3) unfolding append_take_drop_id by simp
  then have e: "e \<in> set (drop ?n ?fs)" using assms(4) by (simp add: kept_def del: append_take_drop_id)
  then have "?n < length ?fs" by (cases "?n < length ?fs") auto
  then show "rb_queue_capacity b \<le> length (kept b n (recovery_order k)) + n" by (simp add: kept_def)
  have "sorted_wrt (\<lambda>x y. pr_sequence (snd x) < pr_sequence (snd y)) (take ?n ?fs @ drop ?n ?fs)"
    using survivors_sorted [OF assms(1), of b] by simp
  then show "pr_sequence (snd d) < pr_sequence (snd e)" if "d \<in> set (kept b n (recovery_order k))"
    using that e by (simp add: kept_def sorted_wrt_append del: append_take_drop_id)
qed

lemma retained_frames:
  "retained k = filter (\<lambda>f. \<not> (\<exists>i m. fr_envelope f = Request i m \<and> map_of (k_pending k) i \<noteq> None)) (k_queue k)"
  unfolding retained_def by (rule filter_cong) (auto simp: keep_queued_def split: envelope.split)

definition survivors :: "replay_budget \<Rightarrow> 'n kernel \<Rightarrow> ('n request_id \<times> 'n pending_request) list" where
  "survivors b k = map (\<lambda>(i, _). (i, the (map_of (k_pending k) i)))
     (kept b (length (retained k)) (recovery_order k))"

abbreviation (input) lives :: "replay_budget \<Rightarrow> 'n pending_request \<Rightarrow> bool" where
  "lives b r \<equiv> pr_contract r = ProbeRequired \<or> pr_contract r = Convergent \<and> pr_attempts r < rb_max_attempts b"

lemma recovery_order_iff:
  assumes "kernel_inv k"
  shows "(i, q) \<in> set (recovery_order k) \<longleftrightarrow> (\<exists>r. map_of (k_pending k) i = Some r \<and> q = lose_worker r)"
proof -
  have "alist_ok (k_pending k)" using assms by (simp add: kernel_inv_def pending_ok_def)
  from recovery_order_mem [OF this] show ?thesis by (auto simp: lookup_simps)
qed

lemma kept_lives:
  assumes "kernel_inv k" and "(i, q) \<in> set (kept b n (recovery_order k))"
  shows "\<exists>r. map_of (k_pending k) i = Some r \<and> q = lose_worker r \<and> lives b r"
proof -
  from assms(2) kept_subset have "(i, q) \<in> set (recovery_order k)" by blast
  then obtain r where r: "map_of (k_pending k) i = Some r" "q = lose_worker r"
    unfolding recovery_order_iff [OF assms(1)] by blast
  have "survives b (i, lose_worker r)" using kept_survives [OF assms(2)] r(2) by simp
  with r survives_lost(1) [OF assms(1) r(1), of b] show ?thesis by (intro exI [of _ r]) simp
qed

lemma survivors_mem:
  assumes "kernel_inv k"
  shows "(i, r) \<in> set (survivors b k) \<longleftrightarrow> map_of (k_pending k) i = Some r \<and>
    (i, lose_worker r) \<in> set (kept b (length (retained k)) (recovery_order k))"
proof
  assume "(i, r) \<in> set (survivors b k)"
  then obtain q where q: "(i, q) \<in> set (kept b (length (retained k)) (recovery_order k))"
    "r = the (map_of (k_pending k) i)" by (auto simp: survivors_def)
  with kept_lives [OF assms q(1)] show "map_of (k_pending k) i = Some r \<and>
    (i, lose_worker r) \<in> set (kept b (length (retained k)) (recovery_order k))" by (metis option.sel)
next
  assume "map_of (k_pending k) i = Some r \<and>
    (i, lose_worker r) \<in> set (kept b (length (retained k)) (recovery_order k))"
  then show "(i, r) \<in> set (survivors b k)"
    unfolding survivors_def set_map by (intro image_eqI [of _ _ "(i, lose_worker r)"]) auto
qed

lemma survivors_live:
  assumes "kernel_inv k"
  shows "(i, r) \<in> set (survivors b k) \<Longrightarrow> map_of (k_pending k) i = Some r \<and> lives b r"
    and "map_of (k_pending k) i = Some r \<Longrightarrow> lives b r \<Longrightarrow> (i, r) \<notin> set (survivors b k) \<Longrightarrow>
      rb_queue_capacity b \<le> length (survivors b k) + length (retained k) \<and>
      (\<forall>(j, q)\<in>set (survivors b k). pr_sequence q < pr_sequence r)"
proof -
  let ?n = "length (retained k)"
  show "map_of (k_pending k) i = Some r \<and> lives b r" if "(i, r) \<in> set (survivors b k)"
  proof -
    from that survivors_mem [OF assms] have r: "map_of (k_pending k) i = Some r"
      "survives b (i, lose_worker r)" using kept_survives by blast+
    with survives_lost(1) [OF assms r(1)] show ?thesis by simp
  qed
  assume r: "map_of (k_pending k) i = Some r" "lives b r" "(i, r) \<notin> set (survivors b k)"
  then have "(i, lose_worker r) \<in> set (recovery_order k)" "survives b (i, lose_worker r)"
    "(i, lose_worker r) \<notin> set (kept b ?n (recovery_order k))"
    using recovery_order_iff [OF assms] survives_lost(1) [OF assms r(1)] survivors_mem [OF assms] by blast+
  note nk = not_kept [OF assms this]
  have "pr_sequence q < pr_sequence r" if "(j, q) \<in> set (survivors b k)" for j q
    using that nk(2) [of "(j, lose_worker q)"] survivors_mem [OF assms] by simp
  then show "rb_queue_capacity b \<le> length (survivors b k) + length (retained k) \<and>
      (\<forall>(j, q)\<in>set (survivors b k). pr_sequence q < pr_sequence r)"
    using nk(1) by (auto simp: survivors_def [of b k, THEN arg_cong [of _ _ length]])
qed

lemma survivors_kept:
  assumes "kernel_inv k"
  shows "kept b (length (retained k)) (recovery_order k) = map (\<lambda>(i, r). (i, lose_worker r)) (survivors b k)"
proof -
  have "(\<lambda>(i, r). (i, lose_worker r)) ((\<lambda>(i, _). (i, the (map_of (k_pending k) i))) e) = e"
    if "e \<in> set (kept b (length (retained k)) (recovery_order k))" for e
  proof -
    obtain i q where e: "e = (i, q)" by fastforce
    with that obtain r where "map_of (k_pending k) i = Some r" "q = lose_worker r"
      using kept_lives [OF assms, of i q b "length (retained k)"] by blast
    then show ?thesis using e by simp
  qed
  then show ?thesis unfolding survivors_def map_map comp_def by (simp add: map_idI)
qed

lemma survivor_scheduled:
  assumes "kernel_inv k" and "(i, r) \<in> set (survivors b k)"
  shows "schedule b (lose_worker r) = r\<lparr>pr_knowledge := OutcomeUnknown,
      pr_scheduled := Some (if pr_contract r = ProbeRequired then HoldForProbe else ReplayDisp)\<rparr>"
    and "recovery_disposition b (lose_worker r) = HoldForProbe \<longleftrightarrow> pr_contract r = ProbeRequired"
proof -
  note r = survivors_live(1) [OF assms]
  have rd: "recovery_disposition b (lose_worker r) =
      (if pr_contract r = ProbeRequired then HoldForProbe else ReplayDisp)"
    using r survives_lost(3) [OF assms(1), of i r b] by (auto split: contract.splits)
  then show "recovery_disposition b (lose_worker r) = HoldForProbe \<longleftrightarrow> pr_contract r = ProbeRequired" by simp
  show "schedule b (lose_worker r) = r\<lparr>pr_knowledge := OutcomeUnknown,
      pr_scheduled := Some (if pr_contract r = ProbeRequired then HoldForProbe else ReplayDisp)\<rparr>"
    using rd survives_lost(2) [OF assms(1), of i r] r
    unfolding schedule_def by (auto simp: lose_worker_def)
qed

lemma rejected_reasons:
  assumes "kernel_inv k"
  shows "(\<exists>x\<in>set (map (reject_entry b) (filter (\<lambda>e. e \<notin> set (kept b (length (retained k)) (recovery_order k)))
      (recovery_order k))). rj_request_id x = i \<and> rj_reason x = reason) \<longleftrightarrow>
    (\<exists>r. map_of (k_pending k) i = Some r \<and> (i, r) \<notin> set (survivors b k) \<and>
       reason = (if pr_contract r = NeverReplay then AmbiguousOutcome
         else if lives b r then QueueOverflow else ReplayBudgetExhausted))"
proof -
  have reason: "rj_reason (reject_entry b (i, lose_worker r)) = (if pr_contract r = NeverReplay then AmbiguousOutcome
      else if lives b r then QueueOverflow else ReplayBudgetExhausted)"
    if "map_of (k_pending k) i = Some r" for i r
    using survives_lost(3) [OF assms that, of b]
    by (auto simp: reject_entry_def drop_reason_def split: contract.splits)
  have "(\<exists>x\<in>set (map (reject_entry b) (filter (\<lambda>e. e \<notin> set (kept b (length (retained k)) (recovery_order k)))
      (recovery_order k))). rj_request_id x = i \<and> rj_reason x = reason) \<longleftrightarrow>
    (\<exists>q. (i, q) \<in> set (recovery_order k) \<and> (i, q) \<notin> set (kept b (length (retained k)) (recovery_order k)) \<and>
       rj_reason (reject_entry b (i, q)) = reason)"
    by (force simp: reject_entry_def)
  also have "\<dots> \<longleftrightarrow> (\<exists>r. map_of (k_pending k) i = Some r \<and> (i, r) \<notin> set (survivors b k) \<and>
       rj_reason (reject_entry b (i, lose_worker r)) = reason)"
    unfolding recovery_order_iff [OF assms] survivors_mem [OF assms] by blast
  also have "\<dots> \<longleftrightarrow> (\<exists>r. map_of (k_pending k) i = Some r \<and> (i, r) \<notin> set (survivors b k) \<and>
       reason = (if pr_contract r = NeverReplay then AmbiguousOutcome
         else if lives b r then QueueOverflow else ReplayBudgetExhausted))"
  proof (intro ex_cong1 conj_cong refl)
    fix r assume "map_of (k_pending k) i = Some r"
    note why = reason [OF this]
    show "(rj_reason (reject_entry b (i, lose_worker r)) = reason) =
      (reason = (if pr_contract r = NeverReplay then AmbiguousOutcome
         else if lives b r then QueueOverflow else ReplayBudgetExhausted))"
      unfolding why by (rule eq_commute)
  qed
  finally show ?thesis .
qed

text \<open>
  C16. Recovery is exact. After the loss of the worker the queue holds, first, in sequence
  order, the invocations that live: those that wait for a probe and those under a convergent
  contract with an attempt left, the oldest first and as many as fit the capacity beside the
  client's backlog; then that backlog, which is every queued frame but the requests that were
  pending, unchanged. Exactly the invocations that live stay pending, each of unknown outcome
  and scheduled for its probe or its replay; every other one is rejected once with its
  reason, and nothing is left in flight.
\<close>

theorem requeue_exact:
  assumes "kernel_inv k" and "rb_queue_capacity b \<le> usize_max"
    and "requeue_pending_for_replay b k = (out, k')"
  shows "\<exists>ks. let back = filter (\<lambda>f. \<not> (\<exists>i m. fr_envelope f = Request i m \<and> map_of (k_pending k) i \<noteq> None))
        (k_queue k);
      lives = (\<lambda>r. pr_contract r = ProbeRequired \<or>
        pr_contract r = Convergent \<and> pr_attempts r < rb_max_attempts b)
    in k_queue k' = map (pr_frame \<circ> snd) ks @ back \<and>
      sorted_wrt (\<lambda>x y. pr_sequence (snd x) < pr_sequence (snd y)) ks \<and>
      length ks \<le> rb_queue_capacity b - length back \<and>
      (\<forall>(i, r)\<in>set ks. map_of (k_pending k) i = Some r \<and> lives r) \<and>
      (\<forall>i r. map_of (k_pending k) i = Some r \<and> lives r \<and> (i, r) \<notin> set ks \<longrightarrow>
         rb_queue_capacity b \<le> length ks + length back \<and>
         (\<forall>(j, q)\<in>set ks. pr_sequence q < pr_sequence r)) \<and>
      (\<forall>i s. map_of (k_pending k') i = Some s \<longleftrightarrow> (\<exists>r. (i, r) \<in> set ks \<and>
         s = r\<lparr>pr_knowledge := OutcomeUnknown,
               pr_scheduled := Some (if pr_contract r = ProbeRequired then HoldForProbe else ReplayDisp)\<rparr>)) \<and>
      distinct (map rj_request_id (ro_rejected out)) \<and>
      (\<forall>i reason. (\<exists>x\<in>set (ro_rejected out). rj_request_id x = i \<and> rj_reason x = reason) \<longleftrightarrow>
         (\<exists>r. map_of (k_pending k) i = Some r \<and> (i, r) \<notin> set ks \<and>
            reason = (if pr_contract r = NeverReplay then AmbiguousOutcome
              else if lives r then QueueOverflow else ReplayBudgetExhausted))) \<and>
      ro_held_for_probe out = map fst (filter (\<lambda>(i, r). pr_contract r = ProbeRequired) ks) \<and>
      \<not> has_in_flight k'"
proof -
  note inv = assms(1)
  have al: "alist_ok (k_pending k)" using inv by (simp add: kernel_inv_def pending_ok_def)
  let ?ks = "survivors b k"
  note cl = requeue_closed [OF al assms(2,3)]
  note kept = survivors_kept [OF inv]
  have "k_queue k' = map (pr_frame \<circ> snd) ?ks @ retained k"
    unfolding cl(3) kept by (simp add: case_prod_beta comp_def)
  moreover have "sorted_wrt (\<lambda>x y. pr_sequence (snd x) < pr_sequence (snd y)) ?ks"
    using kept_sorted [OF inv, of b "length (retained k)"] unfolding kept
    by (simp add: sorted_wrt_map case_prod_beta)
  moreover have "length ?ks \<le> rb_queue_capacity b - length (retained k)" by (simp add: survivors_def kept_def)
  moreover have pend: "map_of (k_pending k') i = Some s \<longleftrightarrow> (\<exists>r. (i, r) \<in> set ?ks \<and>
      s = r\<lparr>pr_knowledge := OutcomeUnknown,
            pr_scheduled := Some (if pr_contract r = ProbeRequired then HoldForProbe else ReplayDisp)\<rparr>)" for i s
  proof -
    have "map_of (k_pending k') i = Some s \<longleftrightarrow> (\<exists>r. (i, r) \<in> set ?ks \<and> s = schedule b (lose_worker r))"
      unfolding requeue_pending [OF al assms(2,3)] kept by force
    then show ?thesis by (simp only: survivor_scheduled(1) [OF inv] cong: conj_cong)
  qed
  moreover have "distinct (map rj_request_id (ro_rejected out))"
    using recovery_order_distinct [OF al] unfolding cl(1)
    by (simp add: comp_def reject_entry_def distinct_map_filter)
  moreover have "ro_held_for_probe out = map fst (filter (\<lambda>(i, r). pr_contract r = ProbeRequired) ?ks)"
    unfolding cl(2) kept filter_map map_map
    using survivor_scheduled(2) [OF inv] by (auto intro!: map_cong filter_cong simp: comp_def)
  moreover have "\<not> has_in_flight k'"
    using alist_mem [OF cl(4)] pend by (fastforce simp: has_in_flight_def list_ex_iff)
  ultimately show ?thesis
    unfolding Let_def retained_frames [symmetric]
    using survivors_live [OF inv, where b = b] rejected_reasons [OF inv, of b] unfolding cl(1)
    by (intro exI [of _ ?ks] conjI) (assumption | blast)+
qed

theorem requeue_exact_witness:
  "\<not> has_in_flight (snd (requeue_pending_for_replay sample_budget
     (run_kernel (session_run sample_extern sample_session))))"
proof -
  have "kernel_inv (run_kernel (session_run sample_extern sample_session))"
    by (rule session_parts [OF sample_session_ok]) simp
  moreover have "rb_queue_capacity sample_budget \<le> usize_max"
    by (simp add: sample_budget_def usize_max_def)
  ultimately show ?thesis using requeue_exact [OF _ _ surjective_pairing] by (simp add: Let_def) blast
qed

text \<open>
  A refused operation changes nothing: on any kernel at all, an error of observing,
  queueing, dispatching or completing leaves the state as it was.
\<close>

theorem refused_operation_changes_nothing:
  "(fst (observe_client_frame f k) = Inl e1 \<longrightarrow> snd (observe_client_frame f k) = k) \<and>
   (fst (queue_client_frame f c k) = Inl e2 \<longrightarrow> snd (queue_client_frame f c k) = k) \<and>
   (fst (begin_request_dispatch X now f rc cap k) = Inl e3 \<longrightarrow>
      snd (begin_request_dispatch X now f rc cap k) = k) \<and>
   (fst (complete_response f k) = Inl e4 \<longrightarrow> snd (complete_response f k) = k)"
  using begin_Inl [of X now f rc cap k] complete_Inl [of f k]
  by (auto simp: observe_client_frame_def queue_client_frame_def
      split: envelope.splits option.splits)

theorem refused_operation_changes_nothing_witness:
  "snd (queue_client_frame (sample_frame [2]) 0 (cold :: u64 kernel)) = cold"
  using refused_operation_changes_nothing
    [of "sample_frame [2]" cold QueueOverflow 0 QueueOverflow sample_extern 0 Convergent 0
      QueueOverflow QueueOverflow]
  by (simp add: queue_client_frame_def cold_def)

section \<open>A dropped initialization\<close>

text \<open>
  The kernel between \<open>initialize\<close> and its answer with no \<open>initialize\<close> pending: no operation
  leaves this state.
\<close>

definition init_lost :: "'n kernel \<Rightarrow> bool" where
  "init_lost k \<longleftrightarrow> k_phase k = Initializing \<and>
     (\<forall>i r. map_of (k_pending k) i = Some r \<longrightarrow> \<not> is_initialize (pr_method r))"

lemma init_lostI:
  assumes "init_lost k" and "k_phase k' = k_phase k"
    and "\<And>i r. map_of (k_pending k') i = Some r \<Longrightarrow> \<not> is_initialize (pr_method r) \<or>
      (\<exists>j r0. map_of (k_pending k) j = Some r0 \<and> pr_method r = pr_method r0)"
  shows "init_lost k'"
  using assms unfolding init_lost_def by metis

lemma init_lost_observe: "init_lost k \<Longrightarrow> snd (observe_client_frame f k) = k"
  by (auto simp: init_lost_def observe_client_frame_def split: envelope.split option.split)

lemma init_lost_begin:
  assumes "init_lost k"
  shows "init_lost (snd (begin_request_dispatch X now f c cap k))"
proof (cases "begin_request_dispatch X now f c cap k")
  case (Pair b k')
  show ?thesis
  proof (cases b)
    case (Inl e)
    with assms Pair begin_Inl [of X now f c cap k e] show ?thesis by simp
  next
    case (Inr i)
    obtain m r where "pr_method r = m" "k_pending k' = AList.update i r (k_pending k)"
      "is_initialize m \<longrightarrow> k_phase k = Cold" "\<not> is_initialize m \<longrightarrow> k_phase k' = k_phase k"
      by (rule begin_Inr [OF Pair [unfolded Inr]]) blast
    with assms Pair show ?thesis by (auto simp: init_lost_def lookup_simps)
  qed
qed

lemma init_lost_complete:
  assumes "init_lost k"
  shows "init_lost (snd (complete_response f k))"
proof (cases "complete_response f k")
  case (Pair b k')
  show ?thesis
  proof (cases b)
    case (Inl e)
    with assms Pair complete_Inl [of f k e] show ?thesis by simp
  next
    case (Inr r')
    obtain i r where "map_of (k_pending k) i = Some r" "k_pending k' = AList.delete i (k_pending k)"
      "\<not> is_initialize (pr_method r) \<longrightarrow> k_phase k' = k_phase k"
      by (rule complete_Inr [OF Pair [unfolded Inr]]) blast
    with assms Pair show ?thesis by (auto simp: init_lost_def lookup_simps split: if_splits)
  qed
qed

lemma init_lost_step:
  assumes "init_lost k" and "kernel_inv k" and "session_event_ok X m ev"
  shows "init_lost (kstep X k ev)"
proof (cases ev)
  case (Observe f)
  with assms(1) show ?thesis by (simp add: kstep_def init_lost_observe)
next
  case (Enqueue f c)
  have "k_pending (kstep X k ev) = k_pending k \<and> k_phase (kstep X k ev) = k_phase k"
    by (simp add: kstep_def Enqueue queue_client_frame_def)
  with assms(1) show ?thesis by (simp add: init_lost_def)
next
  case Pop
  show ?thesis
    by (rule init_lostI [OF assms(1)],
      auto simp: kstep_def Pop pop_next_dispatch_def update_pending_def Let_def lookup_simps
        split: list.splits envelope.splits option.splits disposition.splits sum.splits if_splits, blast+)
next
  case (Begin now f c cap)
  with assms(1) show ?thesis by (simp add: kstep_def init_lost_begin)
next
  case (Complete f)
  with assms(1) show ?thesis by (simp add: kstep_def init_lost_complete)
next
  case (Requeue b)
  have al: "alist_ok (k_pending k)" using assms(2) by (simp add: kernel_inv_def pending_ok_def)
  have cap: "rb_queue_capacity b \<le> usize_max" using assms(3) Requeue by (simp add: session_event_ok_def)
  obtain out k' where req: "requeue_pending_for_replay b k = (out, k')" by fastforce
  have "\<exists>r0. map_of (k_pending k) i = Some r0 \<and> pr_method r = pr_method r0"
    if "map_of (k_pending k') i = Some r" for i r
  proof -
    from that requeue_pending [OF al cap req] obtain q where
      q: "(i, q) \<in> set (kept b (length (retained k)) (recovery_order k))" "r = schedule b q" by blast
    from kept_lives [OF assms(2) q(1)] q(2) show ?thesis by auto
  qed
  moreover have "k_phase k' = k_phase k" using requeue_closed(7) [OF al cap req] .
  ultimately have "init_lost k'" by (intro init_lostI [OF assms(1)]) blast+
  with req Requeue show ?thesis by (simp add: kstep_def)
next
  case (Resolve i res n)
  show ?thesis
    by (rule init_lostI [OF assms(1)],
      auto simp: kstep_def Resolve resolve_probe_def update_pending_def remove_queued_request_def Let_def
        lookup_simps split: option.splits disposition.splits sum.splits if_splits, blast+)
qed

lemma init_lost_run:
  assumes "init_lost (run_kernel (session_run X evs))" and "list_all (session_event_ok X m) (evs @ later)"
  shows "init_lost (run_kernel (session_run X (evs @ later)))"
  using assms
proof (induction later rule: rev_induct)
  case (snoc ev later)
  have ok: "list_all (session_event_ok X m) (evs @ later)" "session_event_ok X m ev" using snoc.prems(2) by auto
  have "kernel_inv (run_kernel (session_run X (evs @ later)))" by (rule session_parts [OF ok(1)]) simp
  moreover have "run_kernel (session_run X ((evs @ later) @ [ev])) =
      kstep X (run_kernel (session_run X (evs @ later))) ev"
    by (cases "session_run X (evs @ later)") (simp add: session_run_def run_kernel_def)
  ultimately show ?case using init_lost_step snoc.IH [OF snoc.prems(1) ok(1)] ok(2) by simp
qed simp

lemma drop_loses_init:
  assumes "list_all (session_event_ok X m) (evs @ [Requeue b])"
    and "map_of (k_pending (run_kernel (session_run X evs))) i = Some r" and "is_initialize (pr_method r)"
    and "map_of (k_pending (run_kernel (session_run X (evs @ [Requeue b])))) i = None"
  shows "init_lost (run_kernel (session_run X (evs @ [Requeue b])))"
proof -
  let ?k = "run_kernel (session_run X evs)" and ?k' = "run_kernel (session_run X (evs @ [Requeue b]))"
  have ok: "list_all (session_event_ok X m) evs" using assms(1) by simp
  have inv: "kernel_inv ?k" and sess: "session_ok ?k" by (rule session_parts [OF ok], simp)+
  have k': "?k' = snd (requeue_pending_for_replay b ?k)"
    by (cases "session_run X evs") (simp add: session_run_def run_kernel_def kstep_def)
  have al: "alist_ok (k_pending ?k)" using inv by (simp add: kernel_inv_def pending_ok_def)
  have cap: "rb_queue_capacity b \<le> usize_max" using assms(1) by (simp add: session_event_ok_def)
  note req = surjective_pairing [of "requeue_pending_for_replay b ?k"]
  have init: "init_ok (k_phase ?k) (k_seed ?k) (k_pending ?k)" using sess by (simp add: session_ok_def)
  have ph: "k_phase ?k = Initializing" using init_okD [OF init assms(2,3)] by simp
  have "\<not> is_initialize (pr_method s)" if s: "map_of (k_pending ?k') j = Some s" for j s
  proof
    assume new: "is_initialize (pr_method s)"
    from s requeue_pending [OF al cap req] k' obtain q where
      q: "(j, q) \<in> set (kept b (length (retained ?k)) (recovery_order ?k))" "s = schedule b q" by auto
    from kept_lives [OF inv q(1)] q(2) obtain r0 where
      "map_of (k_pending ?k) j = Some r0" "pr_method r0 = pr_method s" by auto
    with init_okD [OF init _ new [folded this(2)]] init_okD [OF init assms(2,3)] have "j = i"
      by (auto simp: seed_matches_def)
    with s assms(4) show False by simp
  qed
  moreover have "k_phase ?k' = Initializing" using requeue_closed(7) [OF al cap req] ph k' by simp
  ultimately show ?thesis unfolding init_lost_def by blast
qed

text \<open>
  C26. A session whose pending \<open>initialize\<close> is dropped in a recovery, its replays exhausted
  or the queue full, can never be initialized: whatever the session has been and whatever
  follows, the kernel stays between \<open>initialize\<close> and its answer with no \<open>initialize\<close>
  pending, and refuses every further one, when it is observed and when it is dispatched.
\<close>

theorem dropped_initialize_wedges:
  assumes "list_all (session_event_ok X m) (evs @ [Requeue b] @ later)"
    and "map_of (k_pending (run_kernel (session_run X evs))) i = Some r" and "is_initialize (pr_method r)"
    and "map_of (k_pending (run_kernel (session_run X (evs @ [Requeue b])))) i = None"
    and "k = run_kernel (session_run X (evs @ [Requeue b] @ later))"
    and "fr_envelope g = Request j n" and "is_initialize n"
  shows "k_phase k = Initializing \<and>
    (\<forall>i r. map_of (k_pending k) i = Some r \<longrightarrow> \<not> is_initialize (pr_method r)) \<and>
    observe_client_frame g k = (Inl InvalidExecutionState, k) \<and>
    (\<exists>e. begin_request_dispatch X now g c cap k = (Inl e, k))"
proof -
  have ok: "list_all (session_event_ok X m) ((evs @ [Requeue b]) @ later)" using assms(1) by simp
  then have "list_all (session_event_ok X m) (evs @ [Requeue b])" by simp
  from init_lost_run [OF drop_loses_init [OF this assms(2-4)] ok] have lost: "init_lost k"
    unfolding assms(5) by simp
  then have "observe_client_frame g k = (Inl InvalidExecutionState, k)"
    using assms(6,7) by (simp add: observe_client_frame_def init_lost_def)
  moreover have "\<exists>e. begin_request_dispatch X now g c cap k = (Inl e, k)"
    using assms(6,7) lost
    by (auto simp: begin_request_dispatch_def Let_def init_lost_def split: option.splits)
  ultimately show ?thesis using lost unfolding init_lost_def by blast
qed

definition lost_session :: "u64 kevent list" where
  "lost_session = [Observe (sample_frame [0]), Begin 0 (sample_frame [0]) Convergent 8, Requeue sample_budget, Pop]"

lemma run_kernel_foldl: "run_kernel (session_run X evs) = foldl (kstep X) cold evs"
proof (induction evs rule: rev_induct)
  case (snoc ev evs)
  then show ?case by (cases "session_run X evs") (simp add: session_run_def run_kernel_def)
qed (simp add: session_run_def run_kernel_def)

lemmas lost_defs = run_kernel_foldl lost_session_def sample_budget_def sample_envelope kstep_def
  observe_client_frame_def begin_request_dispatch_def cold_def is_initialize_def queued_request_id_def
  new_seed_def seed_matches_def checked_add_def Let_def requeue_pending_for_replay_def map_values_def
  lose_worker_def requeue_one_def requeue_drop_def request_disposition_def after_worker_loss_def
  replay_or_exhausted_def next_attempt_def allowance_new_def drop_reason_def delete_all_def
  pop_next_dispatch_def update_pending_def after_dispatch_def usize_saturating_add_def usize_max_def

theorem dropped_initialize_wedges_witness:
  "observe_client_frame (sample_frame [6]) (run_kernel (session_run sample_extern
      (lost_session @ [Requeue sample_budget] @ [Observe (sample_frame [1])]))) =
     (Inl InvalidExecutionState, run_kernel (session_run sample_extern
      (lost_session @ [Requeue sample_budget] @ [Observe (sample_frame [1])])))"
proof -
  let ?k = "run_kernel (session_run sample_extern lost_session)"
  have "list_all (session_event_ok sample_extern 1)
      (lost_session @ [Requeue sample_budget] @ [Observe (sample_frame [1])])"
    by (simp add: lost_session_def session_event_ok_def sample_frames_ok sample_budget_def usize_max_def)
  moreover have "\<exists>r. map_of (k_pending ?k) (IdNumber 0) = Some r \<and> is_initialize (pr_method r)"
    by (simp add: lost_defs)
  moreover have "map_of (k_pending (run_kernel (session_run sample_extern
      (lost_session @ [Requeue sample_budget])))) (IdNumber 0) = None"
    by (simp add: lost_defs) code_simp
  ultimately show ?thesis
    using dropped_initialize_wedges [OF _ _ _ _ refl sample_envelope(7)] by (auto simp: is_initialize_def)
qed

end
