(* ===== verification/Snapshot.thy ===== *)
theory Snapshot
  imports Session
begin

text \<open>
  The kernel across a self-reexec (\<open>host.rs\<close>): \<open>HostSessionKernel::snapshot\<close> and the
  restoration that validates a capsule before a kernel exists. A restored kernel has the
  invariant; a reachable kernel whose snapshot fits the limits restores to itself.

  Times are milliseconds on the monotonic clock: \<open>now\<close> at the snapshot and \<open>now\<close> at the
  restoration are arguments.
\<close>

section \<open>The capsule\<close>

record 'n pending_snapshot =
  ps_request_id :: "'n request_id"
  ps_method :: rpc_method
  ps_sequence :: u64
  ps_frame :: "byte list"
  ps_contract :: contract
  ps_knowledge :: knowledge
  ps_attempts :: u8
  ps_scheduled :: "disposition option"
  ps_age_ms :: u64

record 'n kernel_snapshot =
  ss_format_version :: u16
  ss_phase :: session_phase
  ss_seed :: "'n seed option"
  ss_pending :: "'n pending_snapshot list"
  ss_queued_frames :: "byte list list"
  ss_next :: u64

record snapshot_limits =
  sl_max_pending :: nat
  sl_max_queued :: nat
  sl_max_frame_bytes :: nat
  sl_max_replay_attempts :: u8

definition snapshot_limits_try_new :: "nat \<Rightarrow> nat \<Rightarrow> nat \<Rightarrow> u8 \<Rightarrow> string + snapshot_limits" where
  "snapshot_limits_try_new p q b a =
     (if b = 0 then Inl ''snapshot frame limit must be non-zero''
      else Inr \<lparr>sl_max_pending = p, sl_max_queued = q, sl_max_frame_bytes = b,
                sl_max_replay_attempts = a\<rparr>)"

datatype snapshot_error = UnsupportedVersion u16 | CapacityExceeded string
  | InvalidFrame frame_error | InvariantBroken string

definition snapshot_format_version :: u16 where
  "snapshot_format_version = 1"

definition duration_millis_u64 :: "nat \<Rightarrow> u64" where
  "duration_millis_u64 d = (if d < 2 ^ 64 then word_of_nat d else - 1)"

definition pending_to_snapshot ::
    "nat \<Rightarrow> 'n request_id \<times> 'n pending_request \<Rightarrow> 'n pending_snapshot" where
  "pending_to_snapshot now e = (case e of (i, r) \<Rightarrow>
     \<lparr>ps_request_id = i, ps_method = pr_method r, ps_sequence = pr_sequence r,
      ps_frame = fr_payload (pr_frame r), ps_contract = pr_contract r,
      ps_knowledge = pr_knowledge r, ps_attempts = pr_attempts r,
      ps_scheduled = pr_scheduled r, ps_age_ms = duration_millis_u64 (now - pr_started_at r)\<rparr>)"

definition snapshot :: "nat \<Rightarrow> 'n kernel \<Rightarrow> 'n kernel_snapshot" where
  "snapshot now k =
     \<lparr>ss_format_version = snapshot_format_version, ss_phase = k_phase k, ss_seed = k_seed k,
      ss_pending = sort_key ps_sequence (map (pending_to_snapshot now) (k_pending k)),
      ss_queued_frames = map fr_payload (k_queue k), ss_next = k_next k\<rparr>"

section \<open>Restoration\<close>

definition validate_scheduled_disposition :: "'n pending_snapshot \<Rightarrow> snapshot_error + unit" where
  "validate_scheduled_disposition s =
     (if (case ps_scheduled s of
            None \<Rightarrow> ps_knowledge s = InFlight \<or> ps_knowledge s = OutcomeUnknown
          | Some ReplayDisp \<Rightarrow> ps_knowledge s = OutcomeUnknown \<and>
              (ps_contract s = Convergent \<or> ps_contract s = ProbeRequired)
          | Some HoldForProbe \<Rightarrow> ps_knowledge s = OutcomeUnknown \<and> ps_contract s = ProbeRequired
          | Some _ \<Rightarrow> False)
      then Inr () else Inl (InvariantBroken ''pending execution state and scheduled disposition disagree''))"

fun restore_pending :: "'n extern \<Rightarrow> nat \<Rightarrow> snapshot_limits \<Rightarrow> u64 \<Rightarrow> 'n pending_snapshot list \<Rightarrow>
    'n pending_map \<Rightarrow> u64 list \<Rightarrow> snapshot_error + 'n pending_map" where
  "restore_pending X now lim next [] pending sequences = Inr pending"
| "restore_pending X now lim next (s # ss) pending sequences =
     (if length (ps_frame s) > sl_max_frame_bytes lim then Inl (CapacityExceeded ''frame bytes'')
      else if ps_attempts s > sl_max_replay_attempts lim then Inl (CapacityExceeded ''replay attempt'')
      else if ps_sequence s \<in> set sequences \<or> ps_sequence s \<ge> next
      then Inl (InvariantBroken ''pending sequences must be unique and below the next sequence'')
      else case validate_scheduled_disposition s of
        Inl e \<Rightarrow> Inl e
      | Inr _ \<Rightarrow>
          (case frame_parse X (ps_frame s) of
             Inl e \<Rightarrow> Inl (InvalidFrame e)
           | Inr f \<Rightarrow>
               if fr_envelope f \<noteq> Request (ps_request_id s) (ps_method s)
               then Inl (InvariantBroken ''pending identity diverges from its immutable frame'')
               else
                 let age = unat (ps_age_ms s);
                     r = \<lparr>pr_method = ps_method s, pr_sequence = ps_sequence s, pr_frame = f,
                          pr_contract = ps_contract s,
                          pr_started_at = (if age \<le> now then now - age else now),
                          pr_meta = parse_tool_call_meta X f (ps_method s),
                          pr_knowledge = ps_knowledge s, pr_attempts = ps_attempts s,
                          pr_scheduled = ps_scheduled s\<rparr>
                 in if map_of pending (ps_request_id s) \<noteq> None
                    then Inl (InvariantBroken ''duplicate request id in host snapshot'')
                    else restore_pending X now lim next ss
                           (AList.update (ps_request_id s) r pending) (ps_sequence s # sequences)))"

text \<open>
  The loop over the queued payloads, with its locals \<open>queued_ids\<close>, \<open>scheduled_seen\<close>,
  \<open>last_recovery_sequence\<close> and \<open>reached_client_backlog\<close>.
\<close>

fun restore_queue :: "'n extern \<Rightarrow> snapshot_limits \<Rightarrow> 'n pending_map \<Rightarrow> byte list list \<Rightarrow>
    'n request_id list \<Rightarrow> 'n request_id list \<Rightarrow> u64 option \<Rightarrow> bool \<Rightarrow>
    snapshot_error + ('n frame list \<times> 'n request_id list)" where
  "restore_queue X lim pending [] ids seen prev reached = Inr ([], seen)"
| "restore_queue X lim pending (payload # ps) ids seen prev reached =
     (if length payload > sl_max_frame_bytes lim then Inl (CapacityExceeded ''frame bytes'')
      else case frame_parse X payload of
        Inl e \<Rightarrow> Inl (InvalidFrame e)
      | Inr f \<Rightarrow>
          map_sum id (\<lambda>(q, s). (f # q, s))
            (case fr_envelope f of
               Request i _ \<Rightarrow>
                 if i \<in> set ids then Inl (InvariantBroken ''duplicate request id in queued snapshot frames'')
                 else (case map_of pending i of
                     Some r \<Rightarrow>
                       if reached \<or> pr_scheduled r = None \<or> fr_payload (pr_frame r) \<noteq> fr_payload f
                          \<or> (case prev of None \<Rightarrow> False | Some n \<Rightarrow> n \<ge> pr_sequence r)
                       then Inl (InvariantBroken ''recovery queue identity or order is invalid'')
                       else restore_queue X lim pending ps (i # ids) (i # seen)
                              (Some (pr_sequence r)) reached
                   | None \<Rightarrow> restore_queue X lim pending ps (i # ids) seen prev True)
             | _ \<Rightarrow> restore_queue X lim pending ps ids seen prev True))"

definition validate_session_snapshot ::
    "'n extern \<Rightarrow> session_phase \<Rightarrow> 'n seed option \<Rightarrow> 'n pending_map \<Rightarrow> nat \<Rightarrow> snapshot_error + unit" where
  "validate_session_snapshot X ph sd pending max_frame_bytes =
     (let inits = filter (\<lambda>(_, r). is_initialize (pr_method r)) pending in
      if length inits > 1 then Inl (InvariantBroken ''snapshot contains multiple initialize invocations'')
      else case sd of
        None \<Rightarrow>
          if ph = Cold \<and> inits = [] then Inr ()
          else Inl (InvariantBroken ''session phase requires an initialization seed'')
      | Some s \<Rightarrow>
          if length (si_payload (sd_request s)) > max_frame_bytes
             \<or> (case sd_notification s of None \<Rightarrow> False | Some p \<Rightarrow> length p > max_frame_bytes)
          then Inl (CapacityExceeded ''initialization frame bytes'')
          else (case frame_parse X (si_payload (sd_request s)) of
            Inl e \<Rightarrow> Inl (InvalidFrame e)
          | Inr f \<Rightarrow>
              if \<not> (case fr_envelope f of
                      Request i m \<Rightarrow> i = si_id (sd_request s) \<and> is_initialize m | _ \<Rightarrow> False)
              then Inl (InvariantBroken ''initialization seed request identity is invalid'')
              else (case (case sd_notification s of
                        None \<Rightarrow> Inr ()
                      | Some p \<Rightarrow>
                          (case frame_parse X p of
                             Inl e \<Rightarrow> Inl (InvalidFrame e)
                           | Inr g \<Rightarrow>
                               if \<not> (case fr_envelope g of
                                       Notification m \<Rightarrow> is_initialized_notification m | _ \<Rightarrow> False)
                               then Inl (InvariantBroken
                                      ''initialized seed frame is not the client notification'')
                               else Inr ())) of
                  Inl e \<Rightarrow> Inl e
                | Inr _ \<Rightarrow>
                    if (case ph of
                          Cold \<Rightarrow> inits = [] \<and> sd_notification s = None
                        | Initializing \<Rightarrow> sd_notification s = None \<and>
                            (case inits of [] \<Rightarrow> False
                             | (i, r) # _ \<Rightarrow> i = si_id (sd_request s) \<and>
                                 fr_payload (pr_frame r) = si_payload (sd_request s))
                        | AwaitingInitialized \<Rightarrow> inits = [] \<and> sd_notification s = None
                        | Live \<Rightarrow> inits = [] \<and> sd_notification s \<noteq> None)
                    then Inr ()
                    else Inl (InvariantBroken
                           ''public session phase contradicts initialization state''))))"

definition restore ::
    "'n extern \<Rightarrow> nat \<Rightarrow> snapshot_limits \<Rightarrow> 'n kernel_snapshot \<Rightarrow> snapshot_error + 'n kernel" where
  "restore X now lim ss =
     (if ss_format_version ss \<noteq> snapshot_format_version
      then Inl (UnsupportedVersion (ss_format_version ss))
      else if length (ss_pending ss) > sl_max_pending lim then Inl (CapacityExceeded ''pending request'')
      else if length (ss_queued_frames ss) > sl_max_queued lim then Inl (CapacityExceeded ''queued frame'')
      else case restore_pending X now lim (ss_next ss) (ss_pending ss) [] [] of
        Inl e \<Rightarrow> Inl e
      | Inr pending \<Rightarrow>
          (case restore_queue X lim pending (ss_queued_frames ss) [] [] None False of
             Inl e \<Rightarrow> Inl e
           | Inr (queue, seen) \<Rightarrow>
               if list_ex (\<lambda>(i, r). pr_scheduled r \<noteq> None \<and> i \<notin> set seen) pending
               then Inl (InvariantBroken ''scheduled recovery request is absent from the queue'')
               else (case validate_session_snapshot X (ss_phase ss) (ss_seed ss) pending
                            (sl_max_frame_bytes lim) of
                   Inl e \<Rightarrow> Inl e
                 | Inr _ \<Rightarrow>
                     Inr \<lparr>k_phase = ss_phase ss, k_seed = ss_seed ss, k_pending = pending,
                          k_queue = queue, k_next = ss_next ss\<rparr>)))"

section \<open>A restored kernel has the invariant\<close>

lemma map_sum_Inr_iff [simp]: "map_sum g f x = Inr y \<longleftrightarrow> (\<exists>z. x = Inr z \<and> y = f z)"
  by (cases x) auto

lemma validate_scheduled_ok:
  assumes "validate_scheduled_disposition s = Inr u" and "pr_scheduled r = ps_scheduled s"
    and "pr_knowledge r = ps_knowledge s" and "pr_contract r = ps_contract s"
  shows "sched_ok r"
  using assms by (auto simp: validate_scheduled_disposition_def sched_ok_def
      split: if_splits option.splits disposition.splits)

lemma frame_ok_inj: "frame_ok X f \<Longrightarrow> frame_ok X g \<Longrightarrow> fr_payload f = fr_payload g \<Longrightarrow> f = g"
  by (simp add: frame_ok_def)

lemma restore_pending_step:
  assumes "restore_pending X now lim next (s # ss) pending sequences = Inr p"
  obtains r where "fr_payload (pr_frame r) = ps_frame s"
    "fr_envelope (pr_frame r) = Request (ps_request_id s) (pr_method r)"
    "pr_method r = ps_method s" "pr_sequence r = ps_sequence s" "sched_ok r" "request_valid X r"
    "ps_sequence s \<notin> set sequences" "ps_sequence s < next" "map_of pending (ps_request_id s) = None"
    "restore_pending X now lim next ss (AList.update (ps_request_id s) r pending)
       (ps_sequence s # sequences) = Inr p"
proof -
  obtain f where v: "validate_scheduled_disposition s = Inr ()" and f: "frame_parse X (ps_frame s) = Inr f"
    and e: "fr_envelope f = Request (ps_request_id s) (ps_method s)"
    using assms by (auto simp: Let_def split: if_splits sum.splits)
  show thesis
    by (rule that [of "\<lparr>pr_method = ps_method s, pr_sequence = ps_sequence s, pr_frame = f,
          pr_contract = ps_contract s,
          pr_started_at = (if unat (ps_age_ms s) \<le> now then now - unat (ps_age_ms s) else now),
          pr_meta = parse_tool_call_meta X f (ps_method s),
          pr_knowledge = ps_knowledge s, pr_attempts = ps_attempts s,
          pr_scheduled = ps_scheduled s\<rparr>"])
      (use assms v f e frame_parse_ok [OF f] in
        \<open>auto simp: request_valid_def Let_def intro: validate_scheduled_ok [OF v] split: if_splits\<close>)
qed

lemma restore_pending_ok:
  assumes "restore_pending X now lim next ss pending sequences = Inr p"
    and "pending_ok next pending" and "\<forall>i r. map_of pending i = Some r \<longrightarrow> request_valid X r"
    and "\<forall>i r. map_of pending i = Some r \<longrightarrow> pr_sequence r \<in> set sequences"
  shows "pending_ok next p \<and> (\<forall>i r. map_of p i = Some r \<longrightarrow> request_valid X r)"
  using assms
proof (induction ss arbitrary: pending sequences)
  case (Cons s ss)
  from Cons.prems(1) obtain r where r: "fr_envelope (pr_frame r) = Request (ps_request_id s) (pr_method r)"
    "pr_sequence r = ps_sequence s" "sched_ok r" "request_valid X r" "ps_sequence s \<notin> set sequences"
    "ps_sequence s < next" "map_of pending (ps_request_id s) = None"
    "restore_pending X now lim next ss (AList.update (ps_request_id s) r pending)
       (ps_sequence s # sequences) = Inr p" by (rule restore_pending_step)
  have "entry_ok next (ps_request_id s) r" using r by (simp add: entry_ok_def)
  moreover have "j = ps_request_id s" if "map_of pending j = Some t" "pr_sequence t = pr_sequence r" for j t
    using that Cons.prems(4) r(2,5) by metis
  ultimately have "pending_ok next (AList.update (ps_request_id s) r pending)"
    using Cons.prems(2) by (intro pending_ok_update) auto
  then show ?case using r Cons.prems(3,4)
    by (intro Cons.IH [OF r(8)]) (auto simp: lookup_simps)
qed simp

text \<open>What the queue loop has established when it stops, from any point of it.\<close>

lemma restore_queue_ok:
  assumes "restore_queue X lim p payloads ids seen prev reached = Inr (q, seen')"
    and p: "pending_ok next p" and valid: "\<forall>i r. map_of p i = Some r \<longrightarrow> request_valid X r"
  shows "(\<forall>f\<in>set q. frame_ok X f) \<and> map fr_payload q = payloads \<and>
    set (request_ids q) \<inter> set ids = {} \<and>
    (\<exists>rec bl. q = map (frame_of p) rec @ bl \<and> (reached \<longrightarrow> rec = []) \<and>
       set seen' = set seen \<union> set rec \<and> set rec \<subseteq> scheduled_ids p \<and>
       sorted_wrt (\<lambda>i j. seq_of p i < seq_of p j) rec \<and>
       (\<forall>n. prev = Some n \<longrightarrow> (\<forall>i\<in>set rec. n < seq_of p i)) \<and> backlog_ok p bl)"
  using assms(1)
proof (induction payloads arbitrary: ids seen prev reached q)
  case Nil
  then show ?case by (auto simp: backlog_ok_def intro: exI [of _ "[]"])
next
  case (Cons payload ps)
  obtain f where f: "frame_parse X payload = Inr f" using Cons.prems
    by (auto split: if_splits sum.splits)
  have fok: "frame_ok X f" "fr_payload f = payload" using frame_parse_ok [OF f] by auto
  obtain q0 where q: "q = f # q0" using Cons.prems f
    by (auto split: if_splits envelope.splits option.splits)
  show ?case
  proof (cases "\<exists>i m. fr_envelope f = Request i m")
    case False
    then have id: "frame_id f = None" by (auto simp: frame_id_def split: envelope.splits)
    have rest: "restore_queue X lim p ps ids seen prev True = Inr (q0, seen')"
      using Cons.prems f q False
      by (cases "fr_envelope f") (auto split: if_splits)
    from Cons.IH [OF rest] q fok id show ?thesis
      by (auto simp: backlog_ok_def intro!: exI [of _ "[]"] exI [of _ "f # q0"])
  next
    case True
    then obtain i m where e: "fr_envelope f = Request i m" by blast
    then have id: "frame_id f = Some i" by (simp add: frame_id_def)
    have new: "i \<notin> set ids" using Cons.prems f e by (auto split: if_splits)
    show ?thesis
    proof (cases "map_of p i")
      case None
      have rest: "restore_queue X lim p ps (i # ids) seen prev True = Inr (q0, seen')"
        using Cons.prems f q e new None by (auto split: if_splits)
      from Cons.IH [OF rest] q fok id new None show ?thesis
        by (auto simp: backlog_ok_def intro!: exI [of _ "[]"] exI [of _ "f # q0"])
    next
      case (Some r)
      have c: "\<not> reached" "pr_scheduled r \<noteq> None" "fr_payload (pr_frame r) = fr_payload f"
        "\<And>n. prev = Some n \<Longrightarrow> n < pr_sequence r"
        and rest: "restore_queue X lim p ps (i # ids) (i # seen) (Some (pr_sequence r)) False = Inr (q0, seen')"
        using Cons.prems f q e new Some by (auto split: if_splits)
      have "frame_ok X (pr_frame r)" using valid Some by (simp add: request_valid_def)
      from frame_ok_inj [OF this fok(1) c(3)] have "pr_frame r = f" .
      then have fr: "frame_of p i = f" using Some by (simp add: frame_of_def)
      have sq: "seq_of p i = pr_sequence r" using Some by (simp add: seq_of_def)
      from Cons.IH [OF rest] obtain rec bl where IH: "\<forall>f\<in>set q0. frame_ok X f"
        "map fr_payload q0 = ps" "set (request_ids q0) \<inter> set (i # ids) = {}"
        "q0 = map (frame_of p) rec @ bl" "set seen' = set (i # seen) \<union> set rec"
        "set rec \<subseteq> scheduled_ids p" "sorted_wrt (\<lambda>i j. seq_of p i < seq_of p j) rec"
        "\<forall>j\<in>set rec. pr_sequence r < seq_of p j" "backlog_ok p bl" by auto
      have "\<forall>n. prev = Some n \<longrightarrow> (\<forall>j\<in>set (i # rec). n < seq_of p j)"
        using c(4) IH(8) sq by (auto dest: order.strict_trans)
      then show ?thesis using IH q fok id new c(1,2) fr sq Some
        by (auto simp: scheduled_ids_def intro!: exI [of _ "i # rec"] exI [of _ bl])
    qed
  qed
qed

text \<open>The restoration in stages.\<close>

lemma restore_stages:
  assumes "restore X now lim ss = Inr k"
  obtains q seen where
    "restore_pending X now lim (ss_next ss) (ss_pending ss) [] [] = Inr (k_pending k)"
    "restore_queue X lim (k_pending k) (ss_queued_frames ss) [] [] None False = Inr (k_queue k, seen)"
    "\<not> list_ex (\<lambda>(i, r). pr_scheduled r \<noteq> None \<and> i \<notin> set seen) (k_pending k)"
    "validate_session_snapshot X (k_phase k) (k_seed k) (k_pending k) (sl_max_frame_bytes lim) = Inr ()"
    "k_next k = ss_next ss" "k_phase k = ss_phase ss" "k_seed k = ss_seed ss"
    "length (ss_pending ss) \<le> sl_max_pending lim" "length (ss_queued_frames ss) \<le> sl_max_queued lim"
  using assms
  by (auto simp: restore_def split: if_splits sum.splits prod.splits)

lemma inits_empty:
  assumes "alist_ok p" and "filter (\<lambda>(_, r). is_initialize (pr_method r)) p = []"
  shows "map_of p i = Some r \<Longrightarrow> \<not> is_initialize (pr_method r)"
  using assms alist_mem [of p i r] by (auto simp: filter_empty_conv)

lemma validate_session_ok:
  assumes v: "validate_session_snapshot X ph sd p lim = Inr ()" and al: "alist_ok p"
    and fr: "\<forall>i r. map_of p i = Some r \<longrightarrow> request_valid X r"
  shows "init_ok ph sd p" "phase_ok ph sd" "\<forall>s. sd = Some s \<longrightarrow> seed_valid X s"
proof -
  let ?inits = "filter (\<lambda>(_, r). is_initialize (pr_method r)) p"
  have small: "length ?inits \<le> 1" using v
    by (auto simp: validate_session_snapshot_def Let_def split: if_splits)
  have "init_ok ph sd p \<and> phase_ok ph sd \<and> (\<forall>s. sd = Some s \<longrightarrow> seed_valid X s)"
  proof (cases sd)
    case None
    then have "ph = Cold" "?inits = []" using v
      by (auto simp: validate_session_snapshot_def Let_def split: if_splits)
    with None inits_empty [OF al] show ?thesis by (auto simp: init_ok_def phase_ok_def)
  next
    case (Some s)
    have seed: "seed_valid X s"
      using v Some by (auto simp: validate_session_snapshot_def Let_def seed_valid_def
          split: if_splits sum.splits option.splits envelope.splits)
    have ph: "case ph of
        Cold \<Rightarrow> ?inits = [] \<and> sd_notification s = None
      | Initializing \<Rightarrow> sd_notification s = None \<and>
          (case ?inits of [] \<Rightarrow> False
           | (i, r) # _ \<Rightarrow> i = si_id (sd_request s) \<and> fr_payload (pr_frame r) = si_payload (sd_request s))
      | AwaitingInitialized \<Rightarrow> ?inits = [] \<and> sd_notification s = None
      | Live \<Rightarrow> ?inits = [] \<and> sd_notification s \<noteq> None"
      using v Some by (auto simp: validate_session_snapshot_def Let_def split: if_splits sum.splits)
    show ?thesis
    proof (cases "ph = Initializing")
      case False
      with ph have "?inits = []" by (cases ph) auto
      with inits_empty [OF al] have "init_ok ph sd p" by (auto simp: init_ok_def)
      with ph False Some seed show ?thesis by (cases ph) (auto simp: phase_ok_def)
    next
      case True
      with ph obtain i r es where ir: "?inits = (i, r) # es" "i = si_id (sd_request s)"
        "fr_payload (pr_frame r) = si_payload (sd_request s)" and n: "sd_notification s = None"
        by (auto split: list.splits)
      with small have "?inits = [(i, r)]" by simp
      have "init_ok ph sd p"
      proof (rule init_okI)
        fix j t assume t: "map_of p j = Some t" "is_initialize (pr_method t)"
        then have "(j, t) \<in> set ?inits" using alist_mem [OF al] by simp
        with \<open>?inits = [(i, r)]\<close> have "j = i" "t = r" by auto
        with ir True Some show "ph = Initializing \<and> (\<exists>s. sd = Some s \<and> seed_matches j (pr_frame t) s)"
          by (simp add: seed_matches_def)
      qed
      with True n Some seed show ?thesis by (simp add: phase_ok_def)
    qed
  qed
  then show "init_ok ph sd p" "phase_ok ph sd" "\<forall>s. sd = Some s \<longrightarrow> seed_valid X s" by auto
qed

lemma restore_invariant:
  assumes "restore X now lim ss = Inr k"
  shows "kernel_inv k \<and> session_ok k \<and> wire_ok X k \<and> map fr_payload (k_queue k) = ss_queued_frames ss"
proof -
  obtain q seen where st:
    "restore_pending X now lim (ss_next ss) (ss_pending ss) [] [] = Inr (k_pending k)"
    "restore_queue X lim (k_pending k) (ss_queued_frames ss) [] [] None False = Inr (k_queue k, seen)"
    "\<not> list_ex (\<lambda>(i, r). pr_scheduled r \<noteq> None \<and> i \<notin> set seen) (k_pending k)"
    "validate_session_snapshot X (k_phase k) (k_seed k) (k_pending k) (sl_max_frame_bytes lim) = Inr ()"
    "k_next k = ss_next ss" "length (ss_queued_frames ss) \<le> sl_max_queued lim"
    by (rule restore_stages [OF assms]) blast
  have p: "pending_ok (k_next k) (k_pending k)"
    "\<forall>i r. map_of (k_pending k) i = Some r \<longrightarrow> request_valid X r"
    using restore_pending_ok [OF st(1)] st(5)
    by (auto simp: pending_ok_def unique_sequences_def)
  then have al: "alist_ok (k_pending k)" by (simp add: pending_ok_def)
  from restore_queue_ok [OF st(2) p] obtain rec bl where q: "\<forall>f\<in>set (k_queue k). frame_ok X f"
    "map fr_payload (k_queue k) = ss_queued_frames ss"
    "k_queue k = map (frame_of (k_pending k)) rec @ bl" "set seen = set rec"
    "set rec \<subseteq> scheduled_ids (k_pending k)"
    "sorted_wrt (\<lambda>i j. seq_of (k_pending k) i < seq_of (k_pending k) j) rec"
    "backlog_ok (k_pending k) bl" by auto
  have "scheduled_ids (k_pending k) \<subseteq> set rec"
    using st(3) q(4) alist_mem [OF al] by (fastforce simp: list_ex_iff scheduled_ids_def)
  then have "recovery_ok (k_pending k) rec" using q(5,6) by (auto simp: recovery_ok_def)
  then have "kernel_inv k" using p(1) q(3,7) by (intro kernel_invI)
  moreover have "session_ok k" "wire_ok X k"
    using validate_session_ok [OF st(4) al p(2)] p(2) q(1) by (simp_all add: session_ok_def wire_ok_def)
  ultimately show ?thesis using q(2) by blast
qed

text \<open>What the loops have checked of the limits, and what they take over of the capsule.\<close>

definition hydrates :: "snapshot_limits \<Rightarrow> 'n pending_snapshot \<Rightarrow> 'n pending_request \<Rightarrow> bool" where
  "hydrates lim s r \<longleftrightarrow> fr_payload (pr_frame r) = ps_frame s \<and> pr_method r = ps_method s \<and>
     pr_sequence r = ps_sequence s \<and> pr_contract r = ps_contract s \<and> pr_knowledge r = ps_knowledge s \<and>
     pr_attempts r = ps_attempts s \<and> pr_scheduled r = ps_scheduled s \<and>
     length (ps_frame s) \<le> sl_max_frame_bytes lim \<and> ps_attempts s \<le> sl_max_replay_attempts lim"

lemma restore_pending_hydrates:
  assumes "restore_pending X now lim next ss pending sequences = Inr p"
  shows "length p = length pending + length ss \<and>
    (\<forall>i r. map_of p i = Some r \<longrightarrow>
       map_of pending i = Some r \<or> (\<exists>s\<in>set ss. ps_request_id s = i \<and> hydrates lim s r))"
  using assms
proof (induction ss arbitrary: pending sequences)
  case (Cons s ss)
  obtain f where f: "frame_parse X (ps_frame s) = Inr f" "map_of pending (ps_request_id s) = None"
    using Cons.prems by (auto simp: Let_def split: if_splits sum.splits)
  obtain r where rest: "restore_pending X now lim next ss (AList.update (ps_request_id s) r pending)
      (ps_sequence s # sequences) = Inr p" and r: "hydrates lim s r"
    using Cons.prems f frame_parse_ok [OF f(1)]
    by (auto simp: Let_def hydrates_def not_less split: if_splits sum.splits)
  from Cons.IH [OF rest] f(2) r show ?case
    by (auto simp: length_update_new lookup_simps split: if_splits)
qed simp

lemma restore_queue_bytes:
  assumes "restore_queue X lim p payloads ids seen prev reached = Inr (q, seen')"
  shows "\<forall>b\<in>set payloads. length b \<le> sl_max_frame_bytes lim"
  using assms
proof (induction payloads arbitrary: ids seen prev reached q)
  case (Cons payload ps)
  then have "length payload \<le> sl_max_frame_bytes lim" by (auto split: if_splits)
  moreover obtain ids' seen0 prev' reached' q' where
    "restore_queue X lim p ps ids' seen0 prev' reached' = Inr (q', seen')"
    using Cons.prems by (auto split: if_splits sum.splits envelope.splits option.splits)
  ultimately show ?case using Cons.IH by auto
qed simp

lemma validate_session_bytes:
  assumes "validate_session_snapshot X ph sd p n = Inr u" and "sd = Some s"
  shows "length (si_payload (sd_request s)) \<le> n" "sd_notification s = Some b \<Longrightarrow> length b \<le> n"
  using assms by (auto simp: validate_session_snapshot_def Let_def split: if_splits)

text \<open>
  C18. Nothing invalid is hydrated: whatever a capsule holds, a restoration that succeeds
  yields a kernel with the whole invariant of reachable kernels. Its queue is the capsule's
  frames in order and its pending invocations are the capsule's, as many and with the same
  frame, method, sequence, contract, knowledge, attempts and schedule; and every limit holds
  of it: the number of pending invocations, the number of queued frames, the bytes of every
  frame it keeps, those of the initialization included, and the attempts of every invocation.
\<close>

theorem restore_sound:
  assumes "restore X now lim ss = Inr k"
  shows "kernel_inv k \<and> session_ok k \<and> wire_ok X k \<and> map fr_payload (k_queue k) = ss_queued_frames ss \<and>
    length (k_pending k) = length (ss_pending ss) \<and>
    (\<forall>i r. map_of (k_pending k) i = Some r \<longrightarrow> (\<exists>s\<in>set (ss_pending ss). ps_request_id s = i \<and>
       fr_payload (pr_frame r) = ps_frame s \<and> pr_method r = ps_method s \<and> pr_sequence r = ps_sequence s \<and>
       pr_contract r = ps_contract s \<and> pr_knowledge r = ps_knowledge s \<and> pr_attempts r = ps_attempts s \<and>
       pr_scheduled r = ps_scheduled s)) \<and>
    length (k_pending k) \<le> sl_max_pending lim \<and> length (k_queue k) \<le> sl_max_queued lim \<and>
    (\<forall>f\<in>set (k_queue k). length (fr_payload f) \<le> sl_max_frame_bytes lim) \<and>
    (\<forall>i r. map_of (k_pending k) i = Some r \<longrightarrow> length (fr_payload (pr_frame r)) \<le> sl_max_frame_bytes lim \<and>
       pr_attempts r \<le> sl_max_replay_attempts lim) \<and>
    (\<forall>s. k_seed k = Some s \<longrightarrow> length (si_payload (sd_request s)) \<le> sl_max_frame_bytes lim \<and>
       (\<forall>b. sd_notification s = Some b \<longrightarrow> length b \<le> sl_max_frame_bytes lim))"
proof -
  obtain q seen where st:
    "restore_pending X now lim (ss_next ss) (ss_pending ss) [] [] = Inr (k_pending k)"
    "restore_queue X lim (k_pending k) (ss_queued_frames ss) [] [] None False = Inr (k_queue k, seen)"
    "\<not> list_ex (\<lambda>(i, r). pr_scheduled r \<noteq> None \<and> i \<notin> set seen) (k_pending k)"
    "validate_session_snapshot X (k_phase k) (k_seed k) (k_pending k) (sl_max_frame_bytes lim) = Inr ()"
    "k_next k = ss_next ss" "length (ss_queued_frames ss) \<le> sl_max_queued lim"
    "length (ss_pending ss) \<le> sl_max_pending lim"
    by (rule restore_stages [OF assms]) blast
  note pend = restore_pending_hydrates [OF st(1)]
  note bytes = restore_queue_bytes [OF st(2)]
  have inv: "kernel_inv k \<and> session_ok k \<and> wire_ok X k \<and> map fr_payload (k_queue k) = ss_queued_frames ss"
    by (rule restore_invariant [OF assms])
  have "length (fr_payload f) \<le> sl_max_frame_bytes lim" if "f \<in> set (k_queue k)" for f
  proof -
    have "fr_payload f \<in> set (map fr_payload (k_queue k))" using that by simp
    with inv bytes show ?thesis by metis
  qed
  moreover have "length (k_queue k) = length (ss_queued_frames ss)" using inv by (metis length_map)
  moreover have "\<exists>s\<in>set (ss_pending ss). ps_request_id s = i \<and> hydrates lim s r"
    if "map_of (k_pending k) i = Some r" for i r using pend that by simp
  ultimately show ?thesis
    using inv pend st(6,7) validate_session_bytes [OF st(4)] unfolding hydrates_def by (simp add: Bex_def) metis
qed

definition sample_limits :: snapshot_limits where
  "sample_limits = \<lparr>sl_max_pending = 8, sl_max_queued = 8, sl_max_frame_bytes = 8,
     sl_max_replay_attempts = 255\<rparr>"

text \<open>A capsule whose one invocation has used all 255 attempts and is scheduled again.\<close>

definition sample_capsule :: "u64 kernel_snapshot" where
  "sample_capsule =
     \<lparr>ss_format_version = 1, ss_phase = Cold, ss_seed = None,
      ss_pending = [\<lparr>ps_request_id = IdNumber 1, ps_method = RpcMethod ''tools/list'',
        ps_sequence = 0, ps_frame = [2], ps_contract = Convergent, ps_knowledge = OutcomeUnknown,
        ps_attempts = 255, ps_scheduled = Some ReplayDisp, ps_age_ms = 0\<rparr>],
      ss_queued_frames = [[2]], ss_next = 1\<rparr>"

lemma sample_restores: "\<exists>k. restore sample_extern 0 sample_limits sample_capsule = Inr k \<and>
   k_queue k = [sample_frame [2]] \<and>
   (\<exists>r. map_of (k_pending k) (IdNumber 1) = Some r \<and> pr_scheduled r = Some ReplayDisp \<and>
      pr_knowledge r = OutcomeUnknown \<and> pr_attempts r = 255)"
  by (simp add: restore_def sample_capsule_def sample_limits_def snapshot_format_version_def
      validate_scheduled_disposition_def sample_parse sample_envelope
      validate_session_snapshot_def is_initialize_def Let_def)

theorem restore_sound_witness:
  "\<exists>k. restore sample_extern 0 sample_limits sample_capsule = Inr k \<and> kernel_inv k"
  using sample_restores restore_sound [of sample_extern 0 sample_limits sample_capsule] by blast

text \<open>
  A restored kernel can wedge: when the head of the queue is an invocation scheduled
  for replay that has used all 255 attempts, which a capsule may hold, taking the next
  entry fails half-way. It marks the invocation in flight but leaves it scheduled and
  queued, so the invariant is broken and every later call fails as well.
\<close>

theorem pop_overflow_wedges:
  assumes "k_queue k = f # rest" and "frame_id f = Some i" and "map_of (k_pending k) i = Some r"
    and "pr_scheduled r = Some ReplayDisp" and "pr_knowledge r = OutcomeUnknown"
    and "pr_attempts r = 255"
  defines "k' \<equiv> snd (pop_next_dispatch k)"
  shows "fst (pop_next_dispatch k) = Inl ReplayBudgetExhausted \<and> k_queue k' = k_queue k \<and>
    \<not> kernel_inv k' \<and> pop_next_dispatch k' = (Inl InvalidExecutionState, k')"
proof -
  let ?r = "r\<lparr>pr_knowledge := InFlight\<rparr>"
  have pop: "pop_next_dispatch k = (Inl ReplayBudgetExhausted, update_pending i ?r k)"
    using assms(1-6) by (auto simp: pop_next_dispatch_def frame_id_def after_dispatch_def Let_def
        checked_add_def split: envelope.splits)
  then have k': "k' = update_pending i ?r k" by (simp add: k'_def)
  have look: "map_of (k_pending k') i = Some ?r" by (simp add: k' update_pending_def lookup_simps)
  have "\<not> sched_ok ?r" using assms(4) by (simp add: sched_ok_def)
  then have "\<not> kernel_inv k'" using look by (auto simp: kernel_inv_def pending_ok_def entry_ok_def)
  moreover have "pop_next_dispatch k' = (Inl InvalidExecutionState, k')"
    using assms(1,2,4) look k'
    by (auto simp: pop_next_dispatch_def frame_id_def after_dispatch_def update_pending_def
        split: envelope.splits)
  ultimately show ?thesis using pop k' by (simp add: update_pending_def)
qed

theorem pop_overflow_wedges_witness:
  "\<exists>k. restore sample_extern 0 sample_limits sample_capsule = Inr k \<and>
     fst (pop_next_dispatch k) = Inl ReplayBudgetExhausted \<and>
     \<not> kernel_inv (snd (pop_next_dispatch k))"
proof -
  obtain k r where k: "restore sample_extern 0 sample_limits sample_capsule = Inr k"
    "k_queue k = [sample_frame [2]]" "map_of (k_pending k) (IdNumber 1) = Some r"
    "pr_scheduled r = Some ReplayDisp" "pr_knowledge r = OutcomeUnknown" "pr_attempts r = 255"
    using sample_restores by blast
  have "frame_id (sample_frame [2]) = Some (IdNumber 1)" by (simp add: frame_id_def sample_envelope)
  from pop_overflow_wedges [OF k(2) this k(3-6)] k(1) show ?thesis by blast
qed

section \<open>The round trip\<close>

text \<open>What survives of an invocation: all of it, its start rebased to the new clock.\<close>

definition rebase :: "nat \<Rightarrow> nat \<Rightarrow> 'n pending_request \<Rightarrow> 'n pending_request" where
  "rebase now now' r =
     (let age = unat (duration_millis_u64 (now - pr_started_at r))
      in r\<lparr>pr_started_at := if age \<le> now' then now' - age else now'\<rparr>)"

lemma rebase_simps [simp]:
  "pr_frame (rebase a b r) = pr_frame r" "pr_sequence (rebase a b r) = pr_sequence r"
  "pr_method (rebase a b r) = pr_method r" "pr_contract (rebase a b r) = pr_contract r"
  "pr_attempts (rebase a b r) = pr_attempts r" "pr_knowledge (rebase a b r) = pr_knowledge r"
  "pr_scheduled (rebase a b r) = pr_scheduled r" "pr_meta (rebase a b r) = pr_meta r"
  by (simp_all add: rebase_def Let_def)

lemma sched_ok_rebase [simp]: "sched_ok (rebase a b r) = sched_ok r"
  by (simp add: sched_ok_def split: option.split disposition.split)

definition fits :: "snapshot_limits \<Rightarrow> 'n kernel \<Rightarrow> bool" where
  "fits lim k \<longleftrightarrow>
     length (k_pending k) \<le> sl_max_pending lim \<and> length (k_queue k) \<le> sl_max_queued lim \<and>
     (\<forall>f\<in>set (k_queue k). length (fr_payload f) \<le> sl_max_frame_bytes lim) \<and>
     (\<forall>(i, r)\<in>set (k_pending k). length (fr_payload (pr_frame r)) \<le> sl_max_frame_bytes lim \<and>
        pr_attempts r \<le> sl_max_replay_attempts lim) \<and>
     (case k_seed k of None \<Rightarrow> True
      | Some s \<Rightarrow> length (si_payload (sd_request s)) \<le> sl_max_frame_bytes lim \<and>
          (case sd_notification s of None \<Rightarrow> True | Some p \<Rightarrow> length p \<le> sl_max_frame_bytes lim))"

lemma insort_key_map: "insort_key f (g x) (map g xs) = map g (insort_key (\<lambda>x. f (g x)) x xs)"
  by (induction xs) auto

lemma sort_key_map: "sort_key f (map g xs) = map g (sort_key (\<lambda>x. f (g x)) xs)"
  by (induction xs) (simp_all add: insort_key_map)

lemma sched_ok_validates:
  assumes "sched_ok r"
  shows "validate_scheduled_disposition (pending_to_snapshot now (i, r)) = Inr ()"
  using assms by (auto simp: validate_scheduled_disposition_def pending_to_snapshot_def sched_ok_def
      split: option.splits disposition.splits)

definition storable :: "'n extern \<Rightarrow> snapshot_limits \<Rightarrow> u64 \<Rightarrow> 'n request_id \<times> 'n pending_request \<Rightarrow> bool" where
  "storable X lim next e \<longleftrightarrow> (case e of (i, r) \<Rightarrow>
     entry_ok next i r \<and> request_valid X r \<and>
     length (fr_payload (pr_frame r)) \<le> sl_max_frame_bytes lim \<and>
     pr_attempts r \<le> sl_max_replay_attempts lim)"

lemma restore_pending_one:
  assumes "storable X lim next (i, r)" and "pr_sequence r \<notin> set sequences"
    and "map_of acc i = None"
  shows "restore_pending X now' lim next (pending_to_snapshot now (i, r) # ss) acc sequences =
    restore_pending X now' lim next ss (AList.update i (rebase now now' r) acc)
      (pr_sequence r # sequences)"
proof -
  have v: "validate_scheduled_disposition (pending_to_snapshot now (i, r)) = Inr ()"
    using assms(1) by (intro sched_ok_validates) (simp add: storable_def entry_ok_def)
  have f: "frame_parse X (fr_payload (pr_frame r)) = Inr (pr_frame r)"
    "fr_envelope (pr_frame r) = Request i (pr_method r)"
    "pr_meta r = parse_tool_call_meta X (pr_frame r) (pr_method r)"
    using assms(1) by (simp_all add: storable_def request_valid_def frame_ok_def entry_ok_def)
  let ?s = "pending_to_snapshot now (i, r)"
  have reb: "\<lparr>pr_method = pr_method r, pr_sequence = pr_sequence r, pr_frame = pr_frame r,
      pr_contract = pr_contract r,
      pr_started_at = (if unat (duration_millis_u64 (now - pr_started_at r)) \<le> now'
        then now' - unat (duration_millis_u64 (now - pr_started_at r)) else now'),
      pr_meta = parse_tool_call_meta X (pr_frame r) (pr_method r),
      pr_knowledge = pr_knowledge r, pr_attempts = pr_attempts r,
      pr_scheduled = pr_scheduled r\<rparr> = rebase now now' r"
    using f(3) by (simp add: rebase_def Let_def)
  have sel: "ps_frame ?s = fr_payload (pr_frame r)" "ps_attempts ?s = pr_attempts r"
    "ps_sequence ?s = pr_sequence r" "ps_request_id ?s = i" "ps_method ?s = pr_method r"
    "ps_contract ?s = pr_contract r" "ps_knowledge ?s = pr_knowledge r"
    "ps_scheduled ?s = pr_scheduled r"
    "ps_age_ms ?s = duration_millis_u64 (now - pr_started_at r)"
    by (simp_all add: pending_to_snapshot_def)
  have "\<not> sl_max_frame_bytes lim < length (fr_payload (pr_frame r))"
    "\<not> sl_max_replay_attempts lim < pr_attempts r" "\<not> next \<le> pr_sequence r"
    using assms(1) by (auto simp: storable_def entry_ok_def)
  then show ?thesis using assms(2,3) f(1,2)
    by (simp add: sel v Let_def reb [symmetric])
qed

lemma restore_pending_all:
  assumes "list_all (storable X lim next) es" and "distinct (map (pr_sequence \<circ> snd) es)"
    and "distinct (map fst es)" and "set (map (pr_sequence \<circ> snd) es) \<inter> set sequences = {}"
    and "\<forall>i\<in>set (map fst es). map_of acc i = None"
  shows "\<exists>p. restore_pending X now' lim next (map (pending_to_snapshot now) es) acc sequences = Inr p \<and>
    map_of p = map_of acc ++ map_of (map (\<lambda>(i, r). (i, rebase now now' r)) es) \<and>
    (alist_ok acc \<longrightarrow> alist_ok p)"
  using assms
proof (induction es arbitrary: acc sequences)
  case (Cons e es)
  obtain i r where e: "e = (i, r)" by fastforce
  have one: "restore_pending X now' lim next (map (pending_to_snapshot now) (e # es)) acc sequences =
    restore_pending X now' lim next (map (pending_to_snapshot now) es)
      (AList.update i (rebase now now' r) acc) (pr_sequence r # sequences)"
    unfolding e list.map by (rule restore_pending_one) (use Cons.prems e in auto)
  have none: "map_of (map (\<lambda>(i, r). (i, rebase now now' r)) es) i = None"
    using Cons.prems(3) e by (force simp: map_of_eq_None_iff)
  have eq: "map_of (AList.update i (rebase now now' r) acc) ++
      map_of (map (\<lambda>(i, r). (i, rebase now now' r)) es) =
    map_of acc ++ map_of (map (\<lambda>(i, r). (i, rebase now now' r)) (e # es))"
    using none by (auto simp: e fun_eq_iff map_add_def lookup_simps split: option.splits)
  have "\<exists>p. restore_pending X now' lim next (map (pending_to_snapshot now) es)
      (AList.update i (rebase now now' r) acc) (pr_sequence r # sequences) = Inr p \<and>
    map_of p = map_of (AList.update i (rebase now now' r) acc) ++
      map_of (map (\<lambda>(i, r). (i, rebase now now' r)) es) \<and>
    (alist_ok (AList.update i (rebase now now' r) acc) \<longrightarrow> alist_ok p)"
    by (rule Cons.IH) (use Cons.prems e in \<open>auto simp: lookup_simps\<close>)
  then obtain p where "restore_pending X now' lim next (map (pending_to_snapshot now) es)
      (AList.update i (rebase now now' r) acc) (pr_sequence r # sequences) = Inr p"
    "map_of p = map_of acc ++ map_of (map (\<lambda>(i, r). (i, rebase now now' r)) (e # es))"
    "alist_ok acc \<longrightarrow> alist_ok p" unfolding eq using alist_ok_update by metis
  then show ?case unfolding one by (intro exI [of _ p] conjI)
qed simp

lemma restore_queue_all:
  assumes p: "pending_ok next p" and "sorted_wrt (\<lambda>i j. seq_of p i < seq_of p j) rec"
    and "set rec \<subseteq> scheduled_ids p" and "backlog_ok p bl"
    and "\<forall>f\<in>set (map (frame_of p) rec @ bl). frame_ok X f \<and> length (fr_payload f) \<le> sl_max_frame_bytes lim"
    and "set (rec @ request_ids bl) \<inter> set ids = {}"
    and "\<forall>n. prev = Some n \<longrightarrow> (\<forall>i\<in>set rec. n < seq_of p i)" and "reached \<Longrightarrow> rec = []"
  shows "restore_queue X lim p (map fr_payload (map (frame_of p) rec @ bl)) ids seen prev reached =
    Inr (map (frame_of p) rec @ bl, rev rec @ seen)"
  using assms(2-)
proof (induction rec arbitrary: ids seen prev)
  case Nil
  then show ?case
  proof (induction bl arbitrary: ids reached)
    case (Cons f bl)
    have f: "frame_parse X (fr_payload f) = Inr f" "\<not> sl_max_frame_bytes lim < length (fr_payload f)"
      using Cons.prems(4) by (auto simp: frame_ok_def)
    show ?case
    proof (cases "frame_id f")
      case None
      have "restore_queue X lim p (map fr_payload bl) ids seen prev True = Inr (bl, seen)"
        using Cons.IH [of ids True] Cons.prems None by (simp add: backlog_ok_def)
      with f None show ?thesis by (auto simp: frame_id_def split: envelope.splits)
    next
      case (Some i)
      then obtain m where e: "fr_envelope f = Request i m" by (auto simp: frame_id_def split: envelope.splits)
      have "map_of p i = None" "i \<notin> set ids" using Cons.prems(3,5) Some by (auto simp: backlog_ok_def)
      moreover have "restore_queue X lim p (map fr_payload bl) (i # ids) seen prev True = Inr (bl, seen)"
        using Cons.IH [of "i # ids" True] Cons.prems Some by (auto simp: backlog_ok_def)
      ultimately show ?thesis using f e by simp
    qed
  qed simp
next
  case (Cons i rec)
  obtain r where r: "map_of p i = Some r" "pr_scheduled r \<noteq> None"
    using Cons.prems(2) by (auto simp: scheduled_ids_def)
  have fr: "frame_of p i = pr_frame r" "seq_of p i = pr_sequence r"
    using r by (simp_all add: frame_of_def seq_of_def)
  have e: "fr_envelope (pr_frame r) = Request i (pr_method r)"
    using pending_ok_entry [OF p r(1)] by (simp add: entry_ok_def)
  have f: "frame_parse X (fr_payload (pr_frame r)) = Inr (pr_frame r)"
    "\<not> sl_max_frame_bytes lim < length (fr_payload (pr_frame r))"
    using Cons.prems(4) fr by (auto simp: frame_ok_def)
  have "i \<notin> set rec" using Cons.prems(1) by auto
  moreover have "i \<notin> set (request_ids bl)" using Cons.prems(3) r(1) by (auto simp: backlog_ok_def)
  ultimately have "restore_queue X lim p (map fr_payload (map (frame_of p) rec @ bl)) (i # ids)
      (i # seen) (Some (pr_sequence r)) reached = Inr (map (frame_of p) rec @ bl, rev rec @ i # seen)"
    using Cons.prems fr by (intro Cons.IH) auto
  moreover have "\<not> reached" "i \<notin> set ids" "\<And>n. prev = Some n \<Longrightarrow> n < pr_sequence r"
    using Cons.prems fr by auto
  ultimately show ?case using f e r fr
    by (cases prev) (simp_all add: not_le [symmetric])
qed

lemma validate_session_complete:
  assumes init: "init_ok ph sd p" and phase: "phase_ok ph sd" and seed: "\<forall>s. sd = Some s \<longrightarrow> seed_valid X s"
    and al: "alist_ok p" and pending: "ph = Initializing \<longrightarrow> (\<exists>i r. map_of p i = Some r \<and> is_initialize (pr_method r))"
    and small: "case sd of None \<Rightarrow> True
      | Some s \<Rightarrow> length (si_payload (sd_request s)) \<le> lim \<and>
          (case sd_notification s of None \<Rightarrow> True | Some p \<Rightarrow> length p \<le> lim)"
  shows "validate_session_snapshot X ph sd p lim = Inr ()"
proof -
  let ?inits = "filter (\<lambda>(_, r). is_initialize (pr_method r)) p"
  have mem: "(i, r) \<in> set ?inits \<longleftrightarrow> map_of p i = Some r \<and> is_initialize (pr_method r)" for i r
    using alist_mem [OF al] by auto
  show ?thesis
  proof (cases "?inits")
    case Nil
    then have "ph \<noteq> Initializing" using pending mem by (metis empty_iff empty_set)
    with Nil phase seed small show ?thesis
      by (cases ph; cases sd)
        (auto simp: validate_session_snapshot_def phase_ok_def seed_valid_def Let_def
          split: option.splits)
  next
    case (Cons e es)
    obtain i r where e: "e = (i, r)" by fastforce
    then have "map_of p i = Some r" "is_initialize (pr_method r)" using mem Cons by auto
    from init_okD [OF init this] obtain s where s: "ph = Initializing" "sd = Some s"
      "seed_matches i (pr_frame r) s" by blast
    have "es = []"
    proof (rule ccontr)
      assume "es \<noteq> []"
      then obtain j t where jt: "(j, t) \<in> set es" by (cases es) auto
      then have "map_of p j = Some t" "is_initialize (pr_method t)" using mem Cons by auto
      from init_okD [OF init this] s have "j = i" by (auto simp: seed_matches_def)
      moreover have "distinct (map fst ?inits)" using al by (simp add: alist_ok_def distinct_map_filter)
      ultimately show False using jt Cons e by force
    qed
    with Cons e s phase seed small show ?thesis
      by (auto simp: validate_session_snapshot_def phase_ok_def seed_valid_def seed_matches_def Let_def)
  qed
qed

text \<open>
  Handing a session over loses nothing: a kernel in its invariant that fits the
  limits restores from its own snapshot, to the same phase, seed, queue and counter, and
  to the same pending invocations up to their start on the new clock, provided an
  \<open>Initializing\<close> phase still has its invocation.
\<close>

theorem snapshot_roundtrip:
  assumes inv: "kernel_inv k" and ok: "session_ok k" and wire: "wire_ok X k" and fit: "fits lim k"
    and init: "k_phase k = Initializing \<longrightarrow>
      (\<exists>i r. map_of (k_pending k) i = Some r \<and> is_initialize (pr_method r))"
  shows "\<exists>k'. restore X now' lim (snapshot now k) = Inr k' \<and> k_phase k' = k_phase k \<and>
    k_seed k' = k_seed k \<and> k_queue k' = k_queue k \<and> k_next k' = k_next k \<and>
    (\<forall>i. map_of (k_pending k') i = map_option (rebase now now') (map_of (k_pending k) i))"
proof -
  let ?p = "k_pending k" and ?f = "\<lambda>(i, r). (i, rebase now now' r)"
  from inv obtain ids bl where a: "pending_ok (k_next k) ?p" "recovery_ok ?p ids"
    "backlog_ok ?p bl" "k_queue k = map (frame_of ?p) ids @ bl" by (rule kernel_invE)
  have al: "alist_ok ?p" using a(1) by (simp add: pending_ok_def)
  define es where "es = sort_key (\<lambda>e. ps_sequence (pending_to_snapshot now e)) ?p"
  have seq: "ps_sequence (pending_to_snapshot now e) = pr_sequence (snd e)" for e
    by (cases e) (simp add: pending_to_snapshot_def)
  have set_es: "set es = set ?p" by (simp add: es_def)
  have keys: "distinct (map fst es)" "distinct es"
  proof -
    from al show "distinct es" unfolding es_def alist_ok_def distinct_map by simp
    from al show "distinct (map fst es)" unfolding es_def alist_ok_def distinct_map by simp
  qed
  have mem: "(i, r) \<in> set es \<longleftrightarrow> map_of ?p i = Some r" for i r
    unfolding set_es by (rule alist_mem [OF al])
  have es_map: "map_of es = map_of ?p"
    using keys(1) mem by (intro ext) (metis map_of_eq_Some_iff not_Some_eq)
  have seqs: "distinct (map (pr_sequence \<circ> snd) es)"
    unfolding distinct_map
  proof (intro conjI inj_onI keys(2))
    fix x y assume xy: "x \<in> set es" "y \<in> set es" "(pr_sequence \<circ> snd) x = (pr_sequence \<circ> snd) y"
    obtain i r j s where "x = (i, r)" "y = (j, s)" by fastforce
    with xy mem have m: "map_of ?p i = Some r" "map_of ?p j = Some s" "pr_sequence r = pr_sequence s"
      by auto
    then have "i = j" using a(1) unfolding pending_ok_def unique_sequences_def by blast
    with m \<open>x = (i, r)\<close> \<open>y = (j, s)\<close> show "x = y" by simp
  qed
  have stor: "list_all (storable X lim (k_next k)) es"
    unfolding list_all_iff
  proof
    fix e assume "e \<in> set es"
    moreover obtain i r where e: "e = (i, r)" by fastforce
    ultimately have r: "map_of ?p i = Some r" "(i, r) \<in> set ?p" using mem set_es by auto
    have "entry_ok (k_next k) i r" using pending_ok_entry [OF a(1) r(1)] .
    moreover have "request_valid X r" using wire r(1) by (simp add: wire_ok_def)
    ultimately show "storable X lim (k_next k) e"
      using fit r(2) by (auto simp: storable_def fits_def e)
  qed
  from restore_pending_all [OF stor seqs keys(1), of "[]" "[]" now' now]
  obtain p where p: "restore_pending X now' lim (k_next k) (map (pending_to_snapshot now) es) [] [] = Inr p"
    "map_of p = map_of (map ?f es)" "alist_ok p" by auto
  have look: "map_of p i = map_option (rebase now now') (map_of ?p i)" for i
    unfolding p(2) es_map [symmetric] by (induction es) auto
  have same: "frame_of p i = frame_of ?p i" "seq_of p i = seq_of ?p i" if "map_of ?p i \<noteq> None" for i
    using that look by (auto simp: frame_of_def seq_of_def)
  have pok: "pending_ok (k_next k) p"
  proof -
    have "entry_ok (k_next k) i r" if "map_of p i = Some r" for i r
      using that look [of i] pending_ok_entry [OF a(1)] by (auto simp: entry_ok_def)
    moreover have "unique_sequences p"
      using a(1) look unfolding unique_sequences_def pending_ok_def by auto
    ultimately show ?thesis using p(3) by (simp add: pending_ok_def)
  qed
  have sch: "scheduled_ids p = scheduled_ids ?p" using look by (auto simp: scheduled_ids_def)
  note rp = recovery_pending [OF a(2)]
  have sorted: "sorted_wrt (\<lambda>i j. seq_of p i < seq_of p j) ids"
    by (rule sorted_wrt_mono_rel [of _ "\<lambda>x y. seq_of ?p x < seq_of ?p y"])
      (use a(2) same rp in \<open>auto simp: recovery_ok_def\<close>)
  have bok: "backlog_ok p bl" using a(3) look by (auto simp: backlog_ok_def)
  have frames: "map (frame_of p) ids = map (frame_of ?p) ids" using same rp by simp
  have q: "restore_queue X lim p (map fr_payload (map (frame_of p) ids @ bl)) [] [] None False =
      Inr (map (frame_of p) ids @ bl, rev ids @ [])"
    by (rule restore_queue_all [OF pok sorted _ bok])
      (use a(2,4) sch frames wire fit in \<open>auto simp: recovery_ok_def wire_ok_def fits_def\<close>)
  have seen: "\<not> list_ex (\<lambda>(i, r). pr_scheduled r \<noteq> None \<and> i \<notin> set (rev ids @ [])) p"
    using a(2) sch alist_mem [OF p(3)] by (fastforce simp: list_ex_iff recovery_ok_def scheduled_ids_def)
  have "init_ok (k_phase k) (k_seed k) p"
    using ok look unfolding session_ok_def init_ok_def by auto
  moreover have "k_phase k = Initializing \<longrightarrow> (\<exists>i r. map_of p i = Some r \<and> is_initialize (pr_method r))"
  proof
    assume "k_phase k = Initializing"
    with init obtain i r where "map_of ?p i = Some r" "is_initialize (pr_method r)" by blast
    then have "map_of p i = Some (rebase now now' r)" "is_initialize (pr_method (rebase now now' r))"
      using look [of i] by simp_all
    then show "\<exists>i r. map_of p i = Some r \<and> is_initialize (pr_method r)" by blast
  qed
  ultimately have v: "validate_session_snapshot X (k_phase k) (k_seed k) p (sl_max_frame_bytes lim) = Inr ()"
    using ok wire fit p(3)
    by (intro validate_session_complete)
      (auto simp: session_ok_def wire_ok_def fits_def split: option.splits)
  have snap: "ss_pending (snapshot now k) = map (pending_to_snapshot now) es"
    "ss_queued_frames (snapshot now k) = map fr_payload (map (frame_of p) ids @ bl)"
    "ss_format_version (snapshot now k) = snapshot_format_version" "ss_next (snapshot now k) = k_next k"
    "ss_phase (snapshot now k) = k_phase k" "ss_seed (snapshot now k) = k_seed k"
    by (simp_all add: snapshot_def sort_key_map es_def a(4) frames)
  have len: "length es = length ?p" by (simp add: es_def)
  have "restore X now' lim (snapshot now k) = Inr \<lparr>k_phase = k_phase k, k_seed = k_seed k,
      k_pending = p, k_queue = map (frame_of p) ids @ bl, k_next = k_next k\<rparr>"
    using p(1) q seen v fit len
    by (simp add: restore_def snap fits_def a(4) frames [symmetric] del: map_map)
  then show ?thesis using look a(4) frames by auto
qed

theorem snapshot_roundtrip_witness:
  "\<exists>k'. restore sample_extern 5 sample_limits (snapshot 9 (cold :: u64 kernel)) = Inr k' \<and> k_queue k' = []"
  using snapshot_roundtrip [of "cold :: u64 kernel" sample_extern sample_limits 5 9]
    cold_session [of sample_extern 1]
  by (auto simp: fits_def cold_def)

end
