(* ===== verification/Effect.thy ===== *)
theory Effect
  imports Jsonrpc Replay Samples
begin

text \<open>
  Effect contracts (\<open>effect.rs\<close>): what a worker's \<open>tools/list\<close> result says about
  repeating a tool after a failure and about carrying its session state across worker
  generations, and the public catalog with that private metadata removed.

  \<open>Vec<Value>\<close> is a list, the contract table an association list.
\<close>

definition meta_key :: string where
  "meta_key = ''io.libmcp/effect''"

datatype effect_recovery = ReplaySafe | Deduplicated | ProbeRequiredEffect | AtMostOnce

definition replay_contract :: "effect_recovery \<Rightarrow> contract" where
  "replay_contract r = (case r of
      ReplaySafe \<Rightarrow> Convergent | Deduplicated \<Rightarrow> Convergent
    | ProbeRequiredEffect \<Rightarrow> ProbeRequired | AtMostOnce \<Rightarrow> NeverReplay)"

datatype state_contract = Stateless | Journaled string | Checkpointed u64 | GenerationPinned

record effect_contract =
  ec_recovery :: effect_recovery
  ec_state :: state_contract
  ec_key_pointer :: "string option"

definition effect_contract_new :: "effect_recovery \<Rightarrow> state_contract \<Rightarrow> effect_contract" where
  "effect_contract_new r s = \<lparr>ec_recovery = r, ec_state = s, ec_key_pointer = None\<rparr>"

record 'n tool_catalog =
  tc_public_tools :: "'n json list"
  tc_contracts :: "(tool_name \<times> effect_contract) list"

datatype effect_error = MissingTools | ToolNotObject | MissingToolName | InvalidToolName
  | DuplicateTool string | UnknownRecovery string string | InvalidState string string

section \<open>Reading one contract\<close>

definition get_str :: "'n obj \<Rightarrow> string \<Rightarrow> string option" where
  "get_str ms k = Option.bind (map_of ms k) as_str"

definition get_object :: "'n obj \<Rightarrow> string \<Rightarrow> 'n obj option" where
  "get_object ms k = Option.bind (map_of ms k) as_object"

definition parse_state :: "'n extern \<Rightarrow> string \<Rightarrow> 'n json option \<Rightarrow> effect_error + state_contract" where
  "parse_state X tool v =
     (case Option.bind v as_object of
        None \<Rightarrow> Inl (InvalidState tool ''missing state object'')
      | Some state \<Rightarrow>
          (case get_str state ''kind'' of
             None \<Rightarrow> Inl (InvalidState tool ''missing state kind'')
           | Some kind \<Rightarrow>
               if kind = ''stateless'' then Inr Stateless
               else if kind = ''journaled'' then
                 (case get_str state ''key'' of
                    Some key \<Rightarrow> if key \<noteq> [] then Inr (Journaled key)
                                else Inl (InvalidState tool ''journal key is missing'')
                  | None \<Rightarrow> Inl (InvalidState tool ''journal key is missing''))
               else if kind = ''checkpointed'' then
                 (case Option.bind (map_of state ''version'') (as_u64 X) of
                    Some version \<Rightarrow> Inr (Checkpointed version)
                  | None \<Rightarrow> Inl (InvalidState tool ''checkpoint version is missing''))
               else if kind = ''generation_pinned'' then Inr GenerationPinned
               else Inl (InvalidState tool ''unknown state kind'')))"

fun find_named_text :: "string \<Rightarrow> 'n json \<Rightarrow> string option"
  and find_in_members :: "string \<Rightarrow> 'n obj \<Rightarrow> string option"
  and find_in_list :: "string \<Rightarrow> 'n json list \<Rightarrow> string option"
where
  "find_named_text name (JObject ms) =
     (case get_str ms name of Some t \<Rightarrow> Some t | None \<Rightarrow> find_in_members name ms)"
| "find_named_text name (JArray vs) = find_in_list name vs"
| "find_named_text name _ = None"
| "find_in_members name [] = None"
| "find_in_members name ((k, v) # ms) =
     (case find_named_text name v of Some t \<Rightarrow> Some t | None \<Rightarrow> find_in_members name ms)"
| "find_in_list name [] = None"
| "find_in_list name (v # vs) =
     (case find_named_text name v of Some t \<Rightarrow> Some t | None \<Rightarrow> find_in_list name vs)"

definition legacy_recovery :: "'n obj \<Rightarrow> effect_recovery option" where
  "legacy_recovery ms =
     (case map_of ms ''annotations'' of
        None \<Rightarrow> None
      | Some annotations \<Rightarrow>
          (case find_named_text ''replayContract'' annotations of
             None \<Rightarrow> None
           | Some c \<Rightarrow>
               if c = ''convergent'' then Some ReplaySafe
               else if c = ''probe_required'' then Some ProbeRequiredEffect
               else if c = ''never_replay'' then Some AtMostOnce else None))"

definition recovery_kind :: "string \<Rightarrow> effect_recovery option" where
  "recovery_kind kind =
     (if kind = ''replay_safe'' then Some ReplaySafe
      else if kind = ''deduplicated'' then Some Deduplicated
      else if kind = ''probe_required'' then Some ProbeRequiredEffect
      else if kind = ''at_most_once'' then Some AtMostOnce else None)"

definition hint :: "'n obj option \<Rightarrow> string \<Rightarrow> bool" where
  "hint annotations name \<longleftrightarrow>
     Option.bind (Option.bind annotations (\<lambda>as. map_of as name)) as_bool = Some True"

definition private_contract :: "'n obj \<Rightarrow> 'n obj option" where
  "private_contract ms = Option.bind (get_object ms ''_meta'') (\<lambda>meta. get_object meta meta_key)"

definition parse_contract :: "'n extern \<Rightarrow> 'n obj \<Rightarrow> effect_error + effect_contract" where
  "parse_contract X ms =
     (let name = (case get_str ms ''name'' of Some n \<Rightarrow> n | None \<Rightarrow> []) in
      case private_contract ms of
        Some contract \<Rightarrow>
          (case get_object contract ''recovery'' of
             None \<Rightarrow> Inl (UnknownRecovery name ''<missing>'')
           | Some recovery_object \<Rightarrow>
               (case get_str recovery_object ''kind'' of
                  None \<Rightarrow> Inl (UnknownRecovery name ''<missing>'')
                | Some kind \<Rightarrow>
                    (case recovery_kind kind of
                       None \<Rightarrow> Inl (UnknownRecovery name kind)
                     | Some recovery \<Rightarrow>
                         (case parse_state X name (map_of contract ''state'') of
                            Inl e \<Rightarrow> Inl e
                          | Inr state \<Rightarrow>
                              if (case state of Journaled _ \<Rightarrow> True | _ \<Rightarrow> False) \<and>
                                 recovery \<noteq> ReplaySafe \<and> recovery \<noteq> Deduplicated
                              then Inl (InvalidState name ''journaled transitions must be replay-safe'')
                              else if recovery = Deduplicated then
                                (case get_str recovery_object ''key'' of
                                   Some pointer \<Rightarrow>
                                     if starts_with ''/'' pointer \<and> length pointer > 1
                                     then Inr \<lparr>ec_recovery = recovery, ec_state = state,
                                               ec_key_pointer = Some pointer\<rparr>
                                     else Inl (InvalidState name
                                            ''deduplicated recovery requires a JSON Pointer key'')
                                 | None \<Rightarrow> Inl (InvalidState name
                                            ''deduplicated recovery requires a JSON Pointer key''))
                              else Inr \<lparr>ec_recovery = recovery, ec_state = state,
                                        ec_key_pointer = None\<rparr>))))
      | None \<Rightarrow>
          Inr (effect_contract_new
            (case legacy_recovery ms of
               Some r \<Rightarrow> r
             | None \<Rightarrow>
                 let annotations = get_object ms ''annotations''
                 in if hint annotations ''readOnlyHint'' \<or> hint annotations ''idempotentHint''
                    then ReplaySafe else AtMostOnce)
            Stateless))"

section \<open>The catalog\<close>

definition strip_private_contract :: "'n json \<Rightarrow> 'n json" where
  "strip_private_contract tool =
     (case tool of
        JObject ms \<Rightarrow>
          (case map_of ms ''_meta'' of
             Some (JObject meta) \<Rightarrow>
               (let meta' = obj_remove meta_key meta
                in if meta' = [] then JObject (obj_remove ''_meta'' ms)
                   else JObject (obj_insert ''_meta'' (JObject meta') ms))
           | _ \<Rightarrow> tool)
      | _ \<Rightarrow> tool)"

fun parse_tools :: "'n extern \<Rightarrow> 'n json list \<Rightarrow> 'n tool_catalog \<Rightarrow> effect_error + 'n tool_catalog" where
  "parse_tools X [] acc = Inr acc"
| "parse_tools X (raw # tools) acc =
     (case as_object raw of
        None \<Rightarrow> Inl ToolNotObject
      | Some ms \<Rightarrow>
          (case get_str ms ''name'' of
             None \<Rightarrow> Inl MissingToolName
           | Some text \<Rightarrow>
               (case tool_name_try_new text of
                  None \<Rightarrow> Inl InvalidToolName
                | Some name \<Rightarrow>
                    if map_of (tc_contracts acc) name \<noteq> None then Inl (DuplicateTool (tool_text name))
                    else (case parse_contract X ms of
                        Inl e \<Rightarrow> Inl e
                      | Inr c \<Rightarrow>
                          parse_tools X tools
                            \<lparr>tc_public_tools = tc_public_tools acc @ [strip_private_contract raw],
                             tc_contracts = AList.update name c (tc_contracts acc)\<rparr>))))"

definition catalog_parse :: "'n extern \<Rightarrow> 'n json \<Rightarrow> effect_error + 'n tool_catalog" where
  "catalog_parse X result =
     (case Option.bind (get_member result ''tools'') as_array of
        None \<Rightarrow> Inl MissingTools
      | Some tools \<Rightarrow> parse_tools X tools \<lparr>tc_public_tools = [], tc_contracts = []\<rparr>)"

definition catalog_contract :: "'n tool_catalog \<Rightarrow> tool_name \<Rightarrow> effect_contract option" where
  "catalog_contract cat name = map_of (tc_contracts cat) name"

definition canonical_bytes :: "'n extern \<Rightarrow> 'n tool_catalog \<Rightarrow> byte list option" where
  "canonical_bytes X cat = x_to_vec X (JArray (tc_public_tools cat))"

section \<open>What a contract guarantees\<close>

definition contract_coherent :: "effect_contract \<Rightarrow> bool" where
  "contract_coherent c \<longleftrightarrow>
     ((\<exists>key. ec_state c = Journaled key) \<longrightarrow>
        replay_contract (ec_recovery c) = Convergent \<and> ec_state c \<noteq> Journaled []) \<and>
     (case ec_key_pointer c of
        None \<Rightarrow> ec_recovery c \<noteq> Deduplicated
      | Some p \<Rightarrow> ec_recovery c = Deduplicated \<and> starts_with ''/'' p \<and> length p > 1)"

lemma parse_state_key: "parse_state X tool v \<noteq> Inr (Journaled [])"
  by (auto simp: parse_state_def split: option.splits)

lemma legacy_not_dedup: "legacy_recovery ms \<noteq> Some Deduplicated"
  by (auto simp: legacy_recovery_def split: option.splits)

lemma parse_contract_coherent:
  assumes "parse_contract X ms = Inr c"
  shows "contract_coherent c"
proof (cases "private_contract ms")
  case None
  with assms legacy_not_dedup [of ms] show ?thesis
    by (auto simp: parse_contract_def Let_def effect_contract_new_def contract_coherent_def
        split: option.splits if_splits)
next
  case (Some contract)
  with assms obtain ro kind recovery state where p: "get_object contract ''recovery'' = Some ro"
    "get_str ro ''kind'' = Some kind" "recovery_kind kind = Some recovery"
    "parse_state X (case get_str ms ''name'' of Some n \<Rightarrow> n | None \<Rightarrow> []) (map_of contract ''state'') = Inr state"
    by (auto simp: parse_contract_def Let_def split: option.splits sum.splits)
  have "state \<noteq> Journaled []" using p(4) parse_state_key by metis
  with assms Some p show ?thesis
    by (cases recovery; cases state)
      (auto simp: parse_contract_def Let_def contract_coherent_def replay_contract_def
        split: option.splits if_splits)
qed

text \<open>
  The authority to repeat a tool without evidence: what its definition must say.
\<close>

definition grants_replay :: "'n obj \<Rightarrow> bool" where
  "grants_replay ms \<longleftrightarrow>
     (case private_contract ms of
        Some contract \<Rightarrow>
          (case Option.bind (get_object contract ''recovery'') (\<lambda>ro. get_str ro ''kind'') of
             Some kind \<Rightarrow> kind = ''replay_safe'' \<or> kind = ''deduplicated'' | None \<Rightarrow> False)
      | None \<Rightarrow>
          (case legacy_recovery ms of
             Some r \<Rightarrow> r = ReplaySafe
           | None \<Rightarrow> hint (get_object ms ''annotations'') ''readOnlyHint'' \<or>
                      hint (get_object ms ''annotations'') ''idempotentHint''))"

lemma parse_contract_replay:
  assumes "parse_contract X ms = Inr c"
  shows "replay_contract (ec_recovery c) = Convergent \<longleftrightarrow> grants_replay ms"
proof (cases "private_contract ms")
  case None
  with assms show ?thesis
    by (cases "legacy_recovery ms")
      (auto simp: parse_contract_def Let_def effect_contract_new_def grants_replay_def
        replay_contract_def legacy_recovery_def split: option.splits if_splits)
next
  case (Some contract)
  with assms obtain ro kind recovery where p: "get_object contract ''recovery'' = Some ro"
    "get_str ro ''kind'' = Some kind" "recovery_kind kind = Some recovery"
    by (auto simp: parse_contract_def Let_def split: option.splits sum.splits)
  have "ec_recovery c = recovery" using assms Some p
    by (auto simp: parse_contract_def Let_def split: option.splits sum.splits if_splits)
  then show ?thesis using Some p
    by (auto simp: grants_replay_def recovery_kind_def replay_contract_def split: if_splits)
qed

section \<open>What the projection keeps\<close>

lemma get_str_simps: "get_str (obj_insert k v ms) k' = (if k' = k then as_str v else get_str ms k')"
  by (simp add: get_str_def lookup_simps)

text \<open>\<open>stripped\<close> is the specification: every member but the reserved metadata stays.\<close>

definition stripped :: "'n obj \<Rightarrow> 'n obj \<Rightarrow> bool" where
  "stripped ms ms' \<longleftrightarrow>
     (\<forall>k. k \<noteq> ''_meta'' \<longrightarrow> map_of ms' k = map_of ms k) \<and>
     (case get_object ms ''_meta'' of
        None \<Rightarrow> map_of ms' ''_meta'' = map_of ms ''_meta''
      | Some meta \<Rightarrow>
          if \<forall>k. k \<noteq> meta_key \<longrightarrow> map_of meta k = None then map_of ms' ''_meta'' = None
          else (\<exists>meta'. map_of ms' ''_meta'' = Some (JObject meta') \<and>
                  map_of meta' = (map_of meta)(meta_key := None)))"

lemma obj_remove_empty: "obj_remove k ms = [] \<longleftrightarrow> (\<forall>k'. k' \<noteq> k \<longrightarrow> map_of ms k' = None)"
proof -
  have "obj_remove k ms = [] \<longleftrightarrow> (\<forall>k'. map_of (obj_remove k ms) k' = None)"
    by (cases "obj_remove k ms") auto
  then show ?thesis by (simp add: lookup_simps)
qed

lemma strip_stripped:
  "\<exists>ms'. strip_private_contract (JObject ms) = JObject ms' \<and> stripped ms ms'"
proof (cases "get_object ms ''_meta''")
  case None
  then have "strip_private_contract (JObject ms) = JObject ms"
    by (auto simp: strip_private_contract_def get_object_def as_object_def bind_eq_None_conv
        split: option.splits json.splits)
  with None show ?thesis by (simp add: stripped_def)
next
  case (Some meta)
  then have m: "map_of ms ''_meta'' = Some (JObject meta)"
    by (auto simp: get_object_def bind_eq_Some_conv as_Some_iff)
  show ?thesis
  proof (cases "obj_remove meta_key meta = []")
    case True
    with m Some show ?thesis
      by (auto simp: strip_private_contract_def stripped_def obj_remove_empty lookup_simps)
  next
    case False
    with m Some show ?thesis
      by (auto simp: strip_private_contract_def stripped_def obj_remove_empty lookup_simps Let_def)
  qed
qed

lemma stripped_private: "stripped ms ms' \<Longrightarrow> private_contract ms' = None"
proof (cases "get_object ms ''_meta''")
  case None
  moreover assume "stripped ms ms'"
  ultimately have "get_object ms' ''_meta'' = None" by (simp add: stripped_def get_object_def)
  then show ?thesis by (simp add: private_contract_def)
next
  case (Some meta)
  moreover assume "stripped ms ms'"
  ultimately consider "map_of ms' ''_meta'' = None"
    | meta' where "map_of ms' ''_meta'' = Some (JObject meta')" "map_of meta' = (map_of meta)(meta_key := None)"
    by (auto simp: stripped_def split: if_splits)
  then show ?thesis by cases (simp_all add: private_contract_def get_object_def)
qed

text \<open>What one run of the loop over the tools adds to the catalog.\<close>

definition tool_entry_ok :: "'n extern \<Rightarrow> 'n tool_catalog \<Rightarrow> 'n json \<Rightarrow> 'n json \<Rightarrow> bool" where
  "tool_entry_ok X cat raw public \<longleftrightarrow>
     (\<exists>ms ms' name c. raw = JObject ms \<and> public = JObject ms' \<and> stripped ms ms' \<and>
        map_of ms ''name'' = Some (JString (tool_text name)) \<and>
        map_of (tc_contracts cat) name = Some c \<and> parse_contract X ms = Inr c)"

lemma tool_name_text: "tool_name_try_new t = Some name \<Longrightarrow> tool_text name = t"
  by (auto simp: tool_name_try_new_def split: if_splits)

lemma parse_tools_result:
  assumes "parse_tools X tools acc = Inr cat"
  shows "\<exists>public. tc_public_tools cat = tc_public_tools acc @ public \<and>
    list_all2 (tool_entry_ok X cat) tools public \<and>
    (\<forall>name c. map_of (tc_contracts acc) name = Some c \<longrightarrow> map_of (tc_contracts cat) name = Some c) \<and>
    length (tc_contracts cat) = length (tc_contracts acc) + length tools"
  using assms
proof (induction tools arbitrary: acc)
  case (Cons raw tools)
  from Cons.prems obtain ms t name c where p: "raw = JObject ms" "get_str ms ''name'' = Some t"
    "tool_name_try_new t = Some name" "map_of (tc_contracts acc) name = None"
    "parse_contract X ms = Inr c"
    by (auto simp: as_object_def split: json.splits option.splits if_splits sum.splits)
  let ?acc = "\<lparr>tc_public_tools = tc_public_tools acc @ [strip_private_contract raw],
    tc_contracts = AList.update name c (tc_contracts acc)\<rparr>"
  have rest: "parse_tools X tools ?acc = Inr cat" using Cons.prems p by (auto split: if_splits)
  from Cons.IH [OF rest] obtain public where IH:
    "tc_public_tools cat = tc_public_tools ?acc @ public"
    "list_all2 (tool_entry_ok X cat) tools public"
    "\<forall>n d. map_of (tc_contracts ?acc) n = Some d \<longrightarrow> map_of (tc_contracts cat) n = Some d"
    "length (tc_contracts cat) = length (tc_contracts ?acc) + length tools" by blast
  obtain ms' where strip: "strip_private_contract raw = JObject ms'" "stripped ms ms'"
    using strip_stripped [of ms] p(1) by auto
  have "map_of (tc_contracts cat) name = Some c" using IH(3) by (simp add: lookup_simps)
  moreover have "map_of ms ''name'' = Some (JString (tool_text name))"
    using p(2,3) by (auto simp: get_str_def bind_eq_Some_conv as_Some_iff tool_name_text)
  ultimately have "tool_entry_ok X cat raw (strip_private_contract raw)"
    unfolding tool_entry_ok_def using p(1,5) strip by blast
  moreover have "length (AList.update name c (tc_contracts acc)) = Suc (length (tc_contracts acc))"
    using p(4) length_update_new by metis
  moreover have "map_of (tc_contracts cat) n = Some d" if "map_of (tc_contracts acc) n = Some d" for n d
    using IH(3) that p(4) by (simp add: lookup_simps) (metis option.distinct(1))
  ultimately show ?case using IH
    by (intro exI [of _ "strip_private_contract raw # public"]) simp
qed simp

lemma parse_tools_coherent:
  assumes "parse_tools X tools acc = Inr cat"
    and "\<forall>name c. map_of (tc_contracts acc) name = Some c \<longrightarrow> contract_coherent c"
  shows "\<forall>name c. map_of (tc_contracts cat) name = Some c \<longrightarrow> contract_coherent c"
  using assms
proof (induction tools arbitrary: acc)
  case (Cons raw tools)
  from Cons.prems(1) obtain name c where p: "\<exists>ms. parse_contract X ms = Inr c"
    "parse_tools X tools \<lparr>tc_public_tools = tc_public_tools acc @ [strip_private_contract raw],
       tc_contracts = AList.update name c (tc_contracts acc)\<rparr> = Inr cat"
    by (auto split: option.splits if_splits sum.splits)
  have "contract_coherent c" using p(1) parse_contract_coherent by blast
  with Cons.prems(2) show ?case by (intro Cons.IH [OF p(2)]) (auto simp: lookup_simps)
qed simp

section \<open>The catalog as a whole\<close>

lemma catalog_parse_tools:
  assumes "catalog_parse X result = Inr cat"
  obtains tools where "get_member result ''tools'' = Some (JArray tools)"
    "list_all2 (tool_entry_ok X cat) tools (tc_public_tools cat)"
    "length (tc_contracts cat) = length tools"
proof -
  from assms obtain tools where t: "get_member result ''tools'' = Some (JArray tools)"
    "parse_tools X tools \<lparr>tc_public_tools = [], tc_contracts = []\<rparr> = Inr cat"
    by (auto simp: catalog_parse_def bind_eq_Some_conv as_Some_iff split: option.splits)
  from parse_tools_result [OF t(2)] that [OF t(1)] show thesis by auto
qed

text \<open>The concrete catalog of the witnesses: one tool with a private contract.\<close>

definition sample_tool :: "u64 json" where
  "sample_tool = JObject [(''_meta'', JObject [(meta_key, JObject
       [(''recovery'', JObject [(''key'', JString ''/id''), (''kind'', JString ''deduplicated'')]),
        (''state'', JObject [(''key'', JString ''view''), (''kind'', JString ''journaled'')])]),
       (''title'', JNull)]), (''name'', JString ''open'')]"

definition sample_result :: "u64 json" where
  "sample_result = JObject [(''tools'', JArray [sample_tool])]"

lemma sample_catalog:
  "catalog_parse sample_extern sample_result = Inr
     \<lparr>tc_public_tools = [JObject [(''_meta'', JObject [(''title'', JNull)]), (''name'', JString ''open'')]],
      tc_contracts = [(ToolName ''open'', \<lparr>ec_recovery = Deduplicated, ec_state = Journaled ''view'',
        ec_key_pointer = Some ''/id''\<rparr>)]\<rparr>"
  by code_simp

text \<open>
  C19. The public catalog is the worker's own with the private metadata gone: tool by tool,
  in order, every member is kept but the reserved effect metadata, an emptied \<open>_meta\<close> goes
  with it, and no projected tool still carries a contract.
\<close>

theorem catalog_projection_exact:
  assumes "catalog_parse X result = Inr cat"
  shows "\<exists>tools. get_member result ''tools'' = Some (JArray tools) \<and>
    list_all2 (\<lambda>raw public. \<exists>ms ms'. raw = JObject ms \<and> public = JObject ms' \<and>
      stripped ms ms' \<and> private_contract ms' = None) tools (tc_public_tools cat)"
proof (rule catalog_parse_tools [OF assms])
  fix tools
  assume t: "get_member result ''tools'' = Some (JArray tools)"
    and l: "list_all2 (tool_entry_ok X cat) tools (tc_public_tools cat)"
  have "list_all2 (\<lambda>raw public. \<exists>ms ms'. raw = JObject ms \<and> public = JObject ms' \<and>
      stripped ms ms' \<and> private_contract ms' = None) tools (tc_public_tools cat)"
    by (rule list_all2_mono [OF l]) (use stripped_private in \<open>auto simp: tool_entry_ok_def\<close>)
  with t show ?thesis by blast
qed

theorem catalog_projection_exact_witness:
  "\<exists>tools. get_member sample_result ''tools'' = Some (JArray tools) \<and> length tools = 1"
  using catalog_projection_exact [OF sample_catalog] by (auto simp: list_all2_Cons2)

text \<open>
  Replay authority is granted, never assumed: a catalogued tool may be repeated
  without evidence exactly when its definition says so, by its private contract or, only
  without one, by a legacy annotation or a read-only or idempotent hint.
\<close>

theorem replay_needs_grant:
  assumes "catalog_parse X result = Inr cat" and "get_member result ''tools'' = Some (JArray tools)"
    and "JObject ms \<in> set tools" and "map_of ms ''name'' = Some (JString (tool_text name))"
  shows "\<exists>c. catalog_contract cat name = Some c \<and>
    (replay_contract (ec_recovery c) = Convergent \<longleftrightarrow> grants_replay ms)"
proof (rule catalog_parse_tools [OF assms(1)])
  fix tools'
  assume "get_member result ''tools'' = Some (JArray tools')"
    and l: "list_all2 (tool_entry_ok X cat) tools' (tc_public_tools cat)"
  then have "JObject ms \<in> set tools'" using assms(2,3) by simp
  then obtain public where "tool_entry_ok X cat (JObject ms) public"
    using l by (auto simp: list_all2_conv_all_nth in_set_conv_nth)
  then obtain name' c where *: "map_of ms ''name'' = Some (JString (tool_text name'))"
    "map_of (tc_contracts cat) name' = Some c" "parse_contract X ms = Inr c"
    by (auto simp: tool_entry_ok_def)
  then have "name' = name" using assms(4) by (cases name; cases name') simp
  with * parse_contract_replay [OF *(3)] show ?thesis by (auto simp: catalog_contract_def)
qed

definition sample_reader :: "u64 obj" where
  "sample_reader = [(''annotations'', JObject [(''readOnlyHint'', JBool True)]), (''name'', JString ''look'')]"

theorem replay_needs_grant_witness:
  "grants_replay sample_reader =
     (replay_contract (ec_recovery (effect_contract_new ReplaySafe Stateless)) = Convergent)"
proof -
  let ?r = "JObject [(''tools'', JArray [JObject sample_reader])] :: u64 json"
  let ?cat = "\<lparr>tc_public_tools = [JObject sample_reader],
     tc_contracts = [(ToolName ''look'', effect_contract_new ReplaySafe Stateless)]\<rparr>"
  have p: "catalog_parse sample_extern ?r = Inr ?cat" by code_simp
  have n: "map_of sample_reader ''name'' = Some (JString (tool_text (ToolName ''look'')))" by code_simp
  have "\<exists>c. catalog_contract ?cat (ToolName ''look'') = Some c \<and>
    (replay_contract (ec_recovery c) = Convergent \<longleftrightarrow> grants_replay sample_reader)"
    by (rule replay_needs_grant [OF p, of "[JObject sample_reader]" sample_reader "ToolName ''look''"])
      (simp_all add: get_member_def n)
  then show ?thesis by (simp add: catalog_contract_def)
qed

text \<open>
  Every catalogued contract is coherent: journaled session state is only accepted
  with an unconditionally repeatable effect and a non-empty key, and a deduplication key is
  present exactly for deduplicated effects, as a JSON pointer below the root.
\<close>

theorem catalog_contracts_coherent:
  assumes "catalog_parse X result = Inr cat" and "catalog_contract cat name = Some c"
  shows "contract_coherent c"
proof -
  from assms(1) obtain tools where "parse_tools X tools \<lparr>tc_public_tools = [], tc_contracts = []\<rparr> = Inr cat"
    by (auto simp: catalog_parse_def split: option.splits)
  from parse_tools_coherent [OF this] assms(2) show ?thesis by (simp add: catalog_contract_def)
qed

theorem catalog_contracts_coherent_witness:
  "contract_coherent \<lparr>ec_recovery = Deduplicated, ec_state = Journaled ''view'', ec_key_pointer = Some ''/id''\<rparr>"
  by (rule catalog_contracts_coherent [OF sample_catalog, of "ToolName ''open''"])
    (simp add: catalog_contract_def)

end
