(* ===== verification/Health.thy ===== *)
theory Health
  imports Jsonrpc Types
begin

text \<open>
  Health and telemetry payloads (\<open>health.rs\<close>): the operational ledger of a session, its
  counter transitions, and the snapshots made from it. \<open>BTreeMap<RpcMethod, _>\<close> is the
  list of its entries in key order. An operation of the ledger works on a clone and
  replaces the ledger only at its end: it is a function into an error or the new ledger,
  and \<open>commit\<close> is that replacement.
\<close>

section \<open>Ordered maps\<close>

fun bt_insert :: "'k::linorder \<Rightarrow> 'v \<Rightarrow> ('k \<times> 'v) list \<Rightarrow> ('k \<times> 'v) list" where
  "bt_insert k v [] = [(k, v)]"
| "bt_insert k v ((k', v') # ms) =
     (if k = k' then (k, v) # ms
      else if k < k' then (k, v) # (k', v') # ms
      else (k', v') # bt_insert k v ms)"

definition bt_remove :: "'k \<Rightarrow> ('k \<times> 'v) list \<Rightarrow> ('k \<times> 'v) list" where
  "bt_remove k ms = filter (\<lambda>(k', _). k' \<noteq> k) ms"

definition bt_ok :: "('k::linorder \<times> 'v) list \<Rightarrow> bool" where
  "bt_ok ms \<longleftrightarrow> sorted_wrt (<) (map fst ms)"

lemma map_of_bt_insert [lookup_simps]: "map_of (bt_insert k v ms) = (map_of ms)(k \<mapsto> v)"
  by (induction k v ms rule: bt_insert.induct) (auto simp: fun_eq_iff)

lemma map_of_bt_remove [lookup_simps]: "map_of (bt_remove k ms) = (map_of ms)(k := None)"
  by (induction ms) (auto simp: bt_remove_def fun_eq_iff)

lemma keys_bt_insert: "fst ` set (bt_insert k v ms) = insert k (fst ` set ms)"
  by (induction k v ms rule: bt_insert.induct) auto

lemma bt_ok_simps [simp]: "bt_ok []" "bt_ok ((k, v) # ms) \<longleftrightarrow> (\<forall>k'\<in>fst ` set ms. k < k') \<and> bt_ok ms"
  by (auto simp: bt_ok_def)

lemma bt_ok_insert [simp]: "bt_ok ms \<Longrightarrow> bt_ok (bt_insert k v ms)"
proof (induction k v ms rule: bt_insert.induct)
  case (2 k v k' v' ms)
  then show ?case
    by (cases "k = k'"; cases "k < k'")
      (auto simp: keys_bt_insert simp flip: image_iff dest: order.strict_trans)
qed simp

lemma bt_ok_remove [simp]: "bt_ok ms \<Longrightarrow> bt_ok (bt_remove k ms)"
  unfolding bt_ok_def bt_remove_def by (induction ms) auto

lemma bt_ok_distinct: "bt_ok ms \<Longrightarrow> distinct (map fst ms)"
  unfolding bt_ok_def by (induction ms) auto

interpretation btree: finite_map map_of bt_insert bt_remove "\<lambda>m. m" bt_ok
  by unfold_locales (simp_all add: lookup_simps bt_ok_distinct)

definition bt_sum :: "('v \<Rightarrow> nat) \<Rightarrow> ('k \<times> 'v) list \<Rightarrow> nat" where
  "bt_sum f ms = sum_list (map (f \<circ> snd) ms)"

lemma bt_sum_insert:
  assumes "bt_ok ms"
  shows "bt_sum f (bt_insert k v ms) + (case map_of ms k of None \<Rightarrow> 0 | Some w \<Rightarrow> f w) = bt_sum f ms + f v"
  using assms
proof (induction k v ms rule: bt_insert.induct)
  case (2 k v k' v' ms)
  have "map_of ms k = None" if "k < k'"
    using 2(2) that by (force simp: map_of_eq_None_iff dest: order.strict_trans)
  then show ?case using 2 by (auto simp: bt_sum_def split: option.splits)
qed (simp add: bt_sum_def)

section \<open>The ledger\<close>

datatype lifecycle_state = LifecycleCold | LifecycleStarting | LifecycleReady | LifecycleRecovering

datatype worker_handshake = Absent | Starting | HandshakeInitializing | Ready | Failed

datatype rollout_state = Stable | RolloutPending | Reloading

record telemetry_totals =
  tt_request_count :: u64
  tt_success_count :: u64
  tt_error_count :: u64
  tt_response_error_count :: u64
  tt_recovery_error_count :: u64
  tt_recovery_fault_count :: u64
  tt_retry_count :: u64

record method_ledger =
  ml_request_count :: u64
  ml_in_flight :: u64
  ml_success_count :: u64
  ml_error_count :: u64
  ml_response_error_count :: u64
  ml_recovery_error_count :: u64
  ml_recovery_fault_count :: u64
  ml_retry_count :: u64
  ml_latency_sample_count :: u64
  ml_total_latency_ms :: u64
  ml_last_latency_ms :: "u64 option"
  ml_max_latency_ms :: u64
  ml_last_error :: "string option"

definition method_ledger_default :: method_ledger where
  "method_ledger_default = \<lparr>ml_request_count = 0, ml_in_flight = 0, ml_success_count = 0,
     ml_error_count = 0, ml_response_error_count = 0, ml_recovery_error_count = 0,
     ml_recovery_fault_count = 0, ml_retry_count = 0, ml_latency_sample_count = 0,
     ml_total_latency_ms = 0, ml_last_latency_ms = None, ml_max_latency_ms = 0,
     ml_last_error = None\<rparr>"

record ledger =
  ld_generation :: generation
  ld_consecutive_failures :: u32
  ld_restart_count :: u64
  ld_totals :: telemetry_totals
  ld_methods :: "(rpc_method \<times> method_ledger) list"
  ld_last_fault :: "fault option"

datatype metric_error = CounterExhausted string | NoInFlightInvocation
  | GenerationDidNotAdvance | FaultGenerationMismatch

definition ledger_new :: "generation \<Rightarrow> ledger" where
  "ledger_new g = \<lparr>ld_generation = g, ld_consecutive_failures = 0, ld_restart_count = 0,
     ld_totals = \<lparr>tt_request_count = 0, tt_success_count = 0, tt_error_count = 0,
       tt_response_error_count = 0, tt_recovery_error_count = 0, tt_recovery_fault_count = 0,
       tt_retry_count = 0\<rparr>,
     ld_methods = [], ld_last_fault = None\<rparr>"

definition checked_increment :: "u64 \<Rightarrow> string \<Rightarrow> metric_error + u64" where
  "checked_increment v name =
     (case checked_add v 1 of Some n \<Rightarrow> Inr n | None \<Rightarrow> Inl (CounterExhausted name))"

definition record_latency :: "method_ledger \<Rightarrow> u64 \<Rightarrow> metric_error + method_ledger" where
  "record_latency x latency_ms =
     bindE (checked_increment (ml_latency_sample_count x) ''method latency samples'') (\<lambda>samples.
       case checked_add (ml_total_latency_ms x) latency_ms of
         None \<Rightarrow> Inl (CounterExhausted ''method total latency'')
       | Some tot \<Rightarrow>
           Inr (x\<lparr>ml_latency_sample_count := samples, ml_total_latency_ms := tot,
                  ml_last_latency_ms := Some latency_ms,
                  ml_max_latency_ms := max (ml_max_latency_ms x) latency_ms\<rparr>))"

definition live_method :: "rpc_method \<Rightarrow> ledger \<Rightarrow> metric_error + method_ledger" where
  "live_method m l =
     (case map_of (ld_methods l) m of
        Some x \<Rightarrow> if ml_in_flight x > 0 then Inr x else Inl NoInFlightInvocation
      | None \<Rightarrow> Inl NoInFlightInvocation)"

definition put_method :: "rpc_method \<Rightarrow> method_ledger \<Rightarrow> ledger \<Rightarrow> ledger" where
  "put_method m x l = l\<lparr>ld_methods := bt_insert m x (ld_methods l)\<rparr>"

section \<open>The transitions\<close>

definition record_request :: "rpc_method \<Rightarrow> ledger \<Rightarrow> metric_error + ledger" where
  "record_request m l =
     (let x = (case map_of (ld_methods l) m of Some x \<Rightarrow> x | None \<Rightarrow> method_ledger_default);
          t = ld_totals l in
      bindE (checked_increment (ml_request_count x) ''method requests'') (\<lambda>requests.
      bindE (checked_increment (ml_in_flight x) ''method in flight'') (\<lambda>in_flight.
      bindE (checked_increment (tt_request_count t) ''total requests'') (\<lambda>tot.
        Inr ((put_method m (x\<lparr>ml_request_count := requests, ml_in_flight := in_flight\<rparr>) l)
               \<lparr>ld_totals := t\<lparr>tt_request_count := tot\<rparr>\<rparr>)))))"

definition record_success :: "rpc_method \<Rightarrow> u64 \<Rightarrow> ledger \<Rightarrow> metric_error + ledger" where
  "record_success m latency_ms l =
     (let t = ld_totals l in
      bindE (live_method m l) (\<lambda>x0.
      bindE (record_latency x0 latency_ms) (\<lambda>x.
      bindE (checked_increment (ml_success_count x) ''method successes'') (\<lambda>successes.
      bindE (checked_increment (tt_success_count t) ''total successes'') (\<lambda>tot.
        Inr ((put_method m (x\<lparr>ml_success_count := successes, ml_in_flight := ml_in_flight x - 1\<rparr>) l)
               \<lparr>ld_totals := t\<lparr>tt_success_count := tot\<rparr>, ld_consecutive_failures := 0\<rparr>))))))"

definition record_error :: "rpc_method \<Rightarrow> u64 \<Rightarrow> string \<Rightarrow> ledger \<Rightarrow> metric_error + ledger" where
  "record_error m latency_ms detail l =
     (let t = ld_totals l in
      bindE (live_method m l) (\<lambda>x0.
      bindE (record_latency x0 latency_ms) (\<lambda>x.
      bindE (checked_increment (ml_error_count x) ''method errors'') (\<lambda>errors.
      bindE (checked_increment (tt_error_count t) ''total errors'') (\<lambda>tot.
        Inr ((put_method m (x\<lparr>ml_error_count := errors, ml_in_flight := ml_in_flight x - 1,
                  ml_last_error := Some detail\<rparr>) l)
               \<lparr>ld_totals := t\<lparr>tt_error_count := tot\<rparr>\<rparr>))))))"

definition record_response_error :: "rpc_method \<Rightarrow> u64 \<Rightarrow> string \<Rightarrow> ledger \<Rightarrow> metric_error + ledger" where
  "record_response_error m latency_ms detail l =
     (let t = ld_totals l in
      bindE (live_method m l) (\<lambda>x0.
      bindE (record_latency x0 latency_ms) (\<lambda>x.
      bindE (checked_increment (ml_response_error_count x) ''method response errors'') (\<lambda>responses.
      bindE (checked_increment (ml_error_count x) ''method errors'') (\<lambda>errors.
      bindE (checked_increment (tt_response_error_count t) ''total response errors'') (\<lambda>total_r.
      bindE (checked_increment (tt_error_count t) ''total errors'') (\<lambda>tot.
        Inr ((put_method m (x\<lparr>ml_response_error_count := responses, ml_error_count := errors,
                  ml_in_flight := ml_in_flight x - 1, ml_last_error := Some detail\<rparr>) l)
               \<lparr>ld_totals := t\<lparr>tt_response_error_count := total_r, tt_error_count := tot\<rparr>\<rparr>))))))))"

definition record_recovery_error :: "rpc_method \<Rightarrow> string \<Rightarrow> ledger \<Rightarrow> metric_error + ledger" where
  "record_recovery_error m detail l =
     (let t = ld_totals l in
      bindE (live_method m l) (\<lambda>x.
      bindE (checked_increment (ml_recovery_error_count x) ''method recovery errors'') (\<lambda>recoveries.
      bindE (checked_increment (ml_error_count x) ''method errors'') (\<lambda>errors.
      bindE (checked_increment (tt_recovery_error_count t) ''total recovery errors'') (\<lambda>total_r.
      bindE (checked_increment (tt_error_count t) ''total errors'') (\<lambda>tot.
        Inr ((put_method m (x\<lparr>ml_recovery_error_count := recoveries, ml_error_count := errors,
                  ml_in_flight := ml_in_flight x - 1, ml_last_error := Some detail\<rparr>) l)
               \<lparr>ld_totals := t\<lparr>tt_recovery_error_count := total_r, tt_error_count := tot\<rparr>\<rparr>)))))))"

definition record_recovery_fault :: "rpc_method option \<Rightarrow> fault \<Rightarrow> ledger \<Rightarrow> metric_error + ledger" where
  "record_recovery_fault method f l =
     (if f_generation f \<noteq> ld_generation l then Inl FaultGenerationMismatch
      else
        let t = ld_totals l in
        bindE (case method of
                 None \<Rightarrow> Inr l
               | Some m \<Rightarrow>
                   bindE (live_method m l) (\<lambda>x.
                   bindE (checked_increment (ml_recovery_fault_count x) ''method recovery faults'') (\<lambda>faults.
                     Inr (put_method m (x\<lparr>ml_recovery_fault_count := faults,
                            ml_last_error := Some (f_detail f)\<rparr>) l)))) (\<lambda>next.
        bindE (checked_increment (tt_recovery_fault_count t) ''total recovery faults'') (\<lambda>tot.
          case checked_add (ld_consecutive_failures next) 1 of
            None \<Rightarrow> Inl (CounterExhausted ''consecutive failures'')
          | Some failures \<Rightarrow>
              Inr (next\<lparr>ld_totals := t\<lparr>tt_recovery_fault_count := tot\<rparr>,
                        ld_consecutive_failures := failures, ld_last_fault := Some f\<rparr>))))"

definition record_replay :: "rpc_method \<Rightarrow> ledger \<Rightarrow> metric_error + ledger" where
  "record_replay m l =
     (let t = ld_totals l in
      bindE (live_method m l) (\<lambda>x.
      bindE (checked_increment (ml_retry_count x) ''method retries'') (\<lambda>retries.
      bindE (checked_increment (tt_retry_count t) ''total retries'') (\<lambda>tot.
        Inr ((put_method m (x\<lparr>ml_retry_count := retries\<rparr>) l)
               \<lparr>ld_totals := t\<lparr>tt_retry_count := tot\<rparr>\<rparr>)))))"

definition replace_worker :: "generation \<Rightarrow> ledger \<Rightarrow> metric_error + ledger" where
  "replace_worker g l =
     (if g \<le> ld_generation l then Inl GenerationDidNotAdvance
      else bindE (checked_increment (ld_restart_count l) ''worker restarts'') (\<lambda>restarts.
        Inr (l\<lparr>ld_restart_count := restarts, ld_generation := g\<rparr>)))"

definition commit :: "(ledger \<Rightarrow> metric_error + ledger) \<Rightarrow> (ledger, metric_error, unit) op" where
  "commit f l = (case f l of Inl e \<Rightarrow> (Inl e, l) | Inr next \<Rightarrow> (Inr (), next))"

section \<open>Snapshots\<close>

record health_report =
  hs_state :: lifecycle_state
  hs_worker_handshake :: worker_handshake
  hs_generation :: generation
  hs_uptime_ms :: u64
  hs_consecutive_failures :: u32
  hs_restart_count :: u64
  hs_rollout :: "rollout_state option"
  hs_last_fault :: "fault option"

definition health_snapshot ::
    "ledger \<Rightarrow> u64 \<Rightarrow> lifecycle_state \<Rightarrow> worker_handshake \<Rightarrow> rollout_state option \<Rightarrow> health_report" where
  "health_snapshot l uptime_ms state handshake rollout =
     \<lparr>hs_state = state, hs_worker_handshake = handshake, hs_generation = ld_generation l,
      hs_uptime_ms = uptime_ms, hs_consecutive_failures = ld_consecutive_failures l,
      hs_restart_count = ld_restart_count l, hs_rollout = rollout, hs_last_fault = ld_last_fault l\<rparr>"

record method_telemetry =
  mt_method :: rpc_method
  mt_request_count :: u64
  mt_success_count :: u64
  mt_error_count :: u64
  mt_response_error_count :: u64
  mt_recovery_error_count :: u64
  mt_recovery_fault_count :: u64
  mt_retry_count :: u64
  mt_last_latency_ms :: "u64 option"
  mt_max_latency_ms :: u64
  mt_avg_latency_ms :: u64
  mt_last_error :: "string option"

definition method_snapshot :: "rpc_method \<times> method_ledger \<Rightarrow> method_telemetry" where
  "method_snapshot e = (case e of (m, x) \<Rightarrow>
     \<lparr>mt_method = m, mt_request_count = ml_request_count x, mt_success_count = ml_success_count x,
      mt_error_count = ml_error_count x, mt_response_error_count = ml_response_error_count x,
      mt_recovery_error_count = ml_recovery_error_count x,
      mt_recovery_fault_count = ml_recovery_fault_count x, mt_retry_count = ml_retry_count x,
      mt_last_latency_ms = ml_last_latency_ms x, mt_max_latency_ms = ml_max_latency_ms x,
      mt_avg_latency_ms = (if ml_latency_sample_count x = 0 then 0
         else ml_total_latency_ms x div ml_latency_sample_count x),
      mt_last_error = ml_last_error x\<rparr>)"

record telemetry_report =
  ts_uptime_ms :: u64
  ts_state :: lifecycle_state
  ts_worker_handshake :: worker_handshake
  ts_generation :: generation
  ts_consecutive_failures :: u32
  ts_restart_count :: u64
  ts_totals :: telemetry_totals
  ts_methods :: "method_telemetry list"
  ts_last_fault :: "fault option"

definition telemetry_snapshot ::
    "ledger \<Rightarrow> u64 \<Rightarrow> lifecycle_state \<Rightarrow> worker_handshake \<Rightarrow> telemetry_report" where
  "telemetry_snapshot l uptime_ms state handshake =
     \<lparr>ts_uptime_ms = uptime_ms, ts_state = state, ts_worker_handshake = handshake,
      ts_generation = ld_generation l, ts_consecutive_failures = ld_consecutive_failures l,
      ts_restart_count = ld_restart_count l, ts_totals = ld_totals l,
      ts_methods = map method_snapshot (ld_methods l), ts_last_fault = ld_last_fault l\<rparr>"

section \<open>The invariant of the ledger\<close>

text \<open>
  Counters are compared as natural numbers: a wrap-around anywhere would break an equation.
\<close>

definition latency_seen :: "u64 option \<Rightarrow> u64 \<Rightarrow> u64 \<Rightarrow> bool" where
  "latency_seen latest biggest samples \<longleftrightarrow>
     (case latest of None \<Rightarrow> samples = 0 | Some v \<Rightarrow> v \<le> biggest \<and> samples \<noteq> 0)"

definition fault_not_newer :: "fault option \<Rightarrow> generation \<Rightarrow> bool" where
  "fault_not_newer f g \<longleftrightarrow> (case f of None \<Rightarrow> True | Some f \<Rightarrow> f_generation f \<le> g)"

definition method_ok :: "method_ledger \<Rightarrow> bool" where
  "method_ok x \<longleftrightarrow>
     unat (ml_request_count x) =
       unat (ml_success_count x) + unat (ml_error_count x) + unat (ml_in_flight x) \<and>
     unat (ml_response_error_count x) + unat (ml_recovery_error_count x) \<le> unat (ml_error_count x) \<and>
     unat (ml_latency_sample_count x) + unat (ml_recovery_error_count x) =
       unat (ml_success_count x) + unat (ml_error_count x) \<and>
     unat (ml_total_latency_ms x) \<le> unat (ml_latency_sample_count x) * unat (ml_max_latency_ms x) \<and>
     latency_seen (ml_last_latency_ms x) (ml_max_latency_ms x) (ml_latency_sample_count x)"

definition totals_ok :: "telemetry_totals \<Rightarrow> (rpc_method \<times> method_ledger) list \<Rightarrow> bool" where
  "totals_ok t ms \<longleftrightarrow>
     unat (tt_request_count t) = bt_sum (\<lambda>x. unat (ml_request_count x)) ms \<and>
     unat (tt_success_count t) = bt_sum (\<lambda>x. unat (ml_success_count x)) ms \<and>
     unat (tt_error_count t) = bt_sum (\<lambda>x. unat (ml_error_count x)) ms \<and>
     unat (tt_response_error_count t) = bt_sum (\<lambda>x. unat (ml_response_error_count x)) ms \<and>
     unat (tt_recovery_error_count t) = bt_sum (\<lambda>x. unat (ml_recovery_error_count x)) ms \<and>
     unat (tt_retry_count t) = bt_sum (\<lambda>x. unat (ml_retry_count x)) ms \<and>
     bt_sum (\<lambda>x. unat (ml_recovery_fault_count x)) ms \<le> unat (tt_recovery_fault_count t)"

definition ledger_ok :: "ledger \<Rightarrow> bool" where
  "ledger_ok l \<longleftrightarrow> bt_ok (ld_methods l) \<and> totals_ok (ld_totals l) (ld_methods l) \<and>
     (\<forall>m x. map_of (ld_methods l) m = Some x \<longrightarrow> method_ok x) \<and>
     fault_not_newer (ld_last_fault l) (ld_generation l)"

definition metrics_of :: "rpc_method \<Rightarrow> ledger \<Rightarrow> method_ledger" where
  "metrics_of m l = (case map_of (ld_methods l) m of Some x \<Rightarrow> x | None \<Rightarrow> method_ledger_default)"

lemma default_ok: "method_ok method_ledger_default"
  by (simp add: method_ok_def method_ledger_default_def latency_seen_def)

lemma metrics_ok: "ledger_ok l \<Longrightarrow> method_ok (metrics_of m l)"
  by (auto simp: ledger_ok_def metrics_of_def default_ok split: option.splits)

lemma increment_Inr: "checked_increment v n = Inr w \<Longrightarrow> unat w = unat v + 1"
  using checked_add_Some [of v 1] by (auto simp: checked_increment_def split: option.splits)

lemma live_Inr: "live_method m l = Inr x \<Longrightarrow> x = metrics_of m l \<and> unat (ml_in_flight x) > 0"
  by (auto simp: live_method_def metrics_of_def word_less_nat_alt split: option.splits if_splits)

lemma unat_decrement: "0 < unat (v :: u64) \<Longrightarrow> unat (v - 1) = unat v - 1"
  using unat_minus_one [of v] by (cases "v = 0") auto

lemma bt_sum_put:
  assumes "bt_ok ms" and "f method_ledger_default = 0"
  shows "bt_sum f (bt_insert m x' ms) +
    f (case map_of ms m of Some x \<Rightarrow> x | None \<Rightarrow> method_ledger_default) = bt_sum f ms + f x'"
  using bt_sum_insert [OF assms(1), of f m x'] assms(2) by (auto split: option.splits)

text \<open>
  The balance of one change: what the method gains, the totals gain.
\<close>

definition balanced :: "method_ledger \<Rightarrow> method_ledger \<Rightarrow> telemetry_totals \<Rightarrow> telemetry_totals \<Rightarrow> bool" where
  "balanced x x' t t' \<longleftrightarrow>
     unat (tt_request_count t') + unat (ml_request_count x) = unat (tt_request_count t) + unat (ml_request_count x') \<and>
     unat (tt_success_count t') + unat (ml_success_count x) = unat (tt_success_count t) + unat (ml_success_count x') \<and>
     unat (tt_error_count t') + unat (ml_error_count x) = unat (tt_error_count t) + unat (ml_error_count x') \<and>
     unat (tt_response_error_count t') + unat (ml_response_error_count x) =
       unat (tt_response_error_count t) + unat (ml_response_error_count x') \<and>
     unat (tt_recovery_error_count t') + unat (ml_recovery_error_count x) =
       unat (tt_recovery_error_count t) + unat (ml_recovery_error_count x') \<and>
     unat (tt_retry_count t') + unat (ml_retry_count x) = unat (tt_retry_count t) + unat (ml_retry_count x') \<and>
     unat (tt_recovery_fault_count t) + unat (ml_recovery_fault_count x') \<le>
       unat (tt_recovery_fault_count t') + unat (ml_recovery_fault_count x)"

lemma totals_put:
  assumes "totals_ok t ms" and "bt_ok ms"
    and "balanced (case map_of ms m of Some x \<Rightarrow> x | None \<Rightarrow> method_ledger_default) x' t t'"
  shows "totals_ok t' (bt_insert m x' ms)"
proof -
  let ?x = "case map_of ms m of Some x \<Rightarrow> x | None \<Rightarrow> method_ledger_default"
  note sum = bt_sum_put [OF assms(2), of _ m x']
  have "bt_sum (\<lambda>x. unat (ml_request_count x)) (bt_insert m x' ms) + unat (ml_request_count ?x) =
      bt_sum (\<lambda>x. unat (ml_request_count x)) ms + unat (ml_request_count x')"
    "bt_sum (\<lambda>x. unat (ml_success_count x)) (bt_insert m x' ms) + unat (ml_success_count ?x) =
      bt_sum (\<lambda>x. unat (ml_success_count x)) ms + unat (ml_success_count x')"
    "bt_sum (\<lambda>x. unat (ml_error_count x)) (bt_insert m x' ms) + unat (ml_error_count ?x) =
      bt_sum (\<lambda>x. unat (ml_error_count x)) ms + unat (ml_error_count x')"
    "bt_sum (\<lambda>x. unat (ml_response_error_count x)) (bt_insert m x' ms) + unat (ml_response_error_count ?x) =
      bt_sum (\<lambda>x. unat (ml_response_error_count x)) ms + unat (ml_response_error_count x')"
    "bt_sum (\<lambda>x. unat (ml_recovery_error_count x)) (bt_insert m x' ms) + unat (ml_recovery_error_count ?x) =
      bt_sum (\<lambda>x. unat (ml_recovery_error_count x)) ms + unat (ml_recovery_error_count x')"
    "bt_sum (\<lambda>x. unat (ml_retry_count x)) (bt_insert m x' ms) + unat (ml_retry_count ?x) =
      bt_sum (\<lambda>x. unat (ml_retry_count x)) ms + unat (ml_retry_count x')"
    "bt_sum (\<lambda>x. unat (ml_recovery_fault_count x)) (bt_insert m x' ms) + unat (ml_recovery_fault_count ?x) =
      bt_sum (\<lambda>x. unat (ml_recovery_fault_count x)) ms + unat (ml_recovery_fault_count x')"
    by (rule sum, simp add: method_ledger_default_def)+
  with assms(1,3) show ?thesis unfolding totals_ok_def balanced_def by linarith
qed

lemma ledger_put:
  assumes "ledger_ok l" and "method_ok x'" and "balanced (metrics_of m l) x' (ld_totals l) t'"
  shows "ledger_ok ((put_method m x' l)\<lparr>ld_totals := t'\<rparr>)"
  using assms totals_put [of "ld_totals l" "ld_methods l" m x' t']
  by (auto simp: ledger_ok_def put_method_def metrics_of_def lookup_simps)

lemma ledger_ok_failures [simp]: "ledger_ok (l\<lparr>ld_consecutive_failures := n\<rparr>) = ledger_ok l"
  by (simp add: ledger_ok_def)

lemma latency_ok:
  assumes "record_latency x v = Inr y" and "method_ok x"
  shows "unat (ml_total_latency_ms y) \<le> unat (ml_latency_sample_count y) * unat (ml_max_latency_ms y)"
    and "unat (ml_latency_sample_count y) = unat (ml_latency_sample_count x) + 1"
    and "ml_last_latency_ms y = Some v" "v \<le> ml_max_latency_ms y"
    and "ml_request_count y = ml_request_count x" "ml_in_flight y = ml_in_flight x"
      "ml_success_count y = ml_success_count x" "ml_error_count y = ml_error_count x"
      "ml_response_error_count y = ml_response_error_count x"
      "ml_recovery_error_count y = ml_recovery_error_count x"
      "ml_recovery_fault_count y = ml_recovery_fault_count x" "ml_retry_count y = ml_retry_count x"
proof -
  from assms(1) obtain n t where n: "checked_increment (ml_latency_sample_count x) ''method latency samples'' = Inr n"
    and t: "checked_add (ml_total_latency_ms x) v = Some t"
    and y: "y = x\<lparr>ml_latency_sample_count := n, ml_total_latency_ms := t, ml_last_latency_ms := Some v,
      ml_max_latency_ms := max (ml_max_latency_ms x) v\<rparr>"
    by (auto simp: record_latency_def bindE_Inr_iff split: option.splits)
  have mx: "unat (ml_max_latency_ms x) \<le> unat (max (ml_max_latency_ms x) v)"
    "unat v \<le> unat (max (ml_max_latency_ms x) v)" by (simp_all add: word_le_nat_alt [symmetric])
  have "unat (ml_total_latency_ms x) \<le> unat (ml_latency_sample_count x) * unat (ml_max_latency_ms x)"
    using assms(2) by (simp add: method_ok_def)
  also have "\<dots> \<le> unat (ml_latency_sample_count x) * unat (max (ml_max_latency_ms x) v)"
    using mx(1) by simp
  finally show "unat (ml_total_latency_ms y) \<le> unat (ml_latency_sample_count y) * unat (ml_max_latency_ms y)"
    using mx(2) checked_add_Some [OF t] increment_Inr [OF n] y by (simp add: algebra_simps)
  show "unat (ml_latency_sample_count y) = unat (ml_latency_sample_count x) + 1"
    using increment_Inr [OF n] y by simp
qed (use assms(1) in \<open>auto simp: record_latency_def bindE_Inr_iff split: option.splits\<close>)

lemmas ledger_step_simps = bindE_Inr_iff Let_def

lemma record_request_ok: "ledger_ok l \<Longrightarrow> record_request m l = Inr l' \<Longrightarrow> ledger_ok l'"
  unfolding record_request_def metrics_of_def [symmetric]
  by (auto simp: ledger_step_simps balanced_def method_ok_def
      dest!: increment_Inr dest: metrics_ok [of l m] intro!: ledger_put split: option.splits)

lemma unat_pos_iff: "(v :: u64) \<noteq> 0 \<longleftrightarrow> 0 < unat v"
  by (simp add: unat_gt_0)

lemma record_success_ok:
  assumes ok: "ledger_ok l" and r: "record_success m v l = Inr l'"
  shows "ledger_ok l'"
proof -
  from r obtain x y s t where x: "live_method m l = Inr x" and y: "record_latency x v = Inr y"
    and s: "checked_increment (ml_success_count y) ''method successes'' = Inr s"
    and t: "checked_increment (tt_success_count (ld_totals l)) ''total successes'' = Inr t"
    and l': "l' = (put_method m (y\<lparr>ml_success_count := s, ml_in_flight := ml_in_flight y - 1\<rparr>) l)
               \<lparr>ld_totals := (ld_totals l)\<lparr>tt_success_count := t\<rparr>, ld_consecutive_failures := 0\<rparr>"
    by (auto simp: record_success_def ledger_step_simps)
  have mx: "method_ok x" "x = metrics_of m l" "0 < unat (ml_in_flight x)"
    using live_Inr [OF x] metrics_ok [OF ok] by auto
  note lat = latency_ok [OF y mx(1)]
  have "ledger_ok ((put_method m (y\<lparr>ml_success_count := s, ml_in_flight := ml_in_flight y - 1\<rparr>) l)
               \<lparr>ld_totals := (ld_totals l)\<lparr>tt_success_count := t\<rparr>\<rparr>)"
    by (rule ledger_put [OF ok])
      (use mx lat increment_Inr [OF s] increment_Inr [OF t] unat_decrement [of "ml_in_flight x"] in
        \<open>auto simp: method_ok_def balanced_def unat_pos_iff latency_seen_def\<close>)
  then show ?thesis using l' by simp
qed

lemma record_error_ok:
  assumes ok: "ledger_ok l" and r: "record_error m v d l = Inr l'"
  shows "ledger_ok l'"
proof -
  from r obtain x y s t where x: "live_method m l = Inr x" and y: "record_latency x v = Inr y"
    and s: "checked_increment (ml_error_count y) ''method errors'' = Inr s"
    and t: "checked_increment (tt_error_count (ld_totals l)) ''total errors'' = Inr t"
    and l': "l' = (put_method m (y\<lparr>ml_error_count := s, ml_in_flight := ml_in_flight y - 1,
        ml_last_error := Some d\<rparr>) l)\<lparr>ld_totals := (ld_totals l)\<lparr>tt_error_count := t\<rparr>\<rparr>"
    by (auto simp: record_error_def ledger_step_simps)
  have mx: "method_ok x" "x = metrics_of m l" "0 < unat (ml_in_flight x)"
    using live_Inr [OF x] metrics_ok [OF ok] by auto
  note lat = latency_ok [OF y mx(1)]
  show ?thesis unfolding l'
    by (rule ledger_put [OF ok])
      (use mx lat increment_Inr [OF s] increment_Inr [OF t] unat_decrement [of "ml_in_flight x"] in
        \<open>auto simp: method_ok_def balanced_def unat_pos_iff latency_seen_def\<close>)
qed

lemma record_response_error_ok:
  assumes ok: "ledger_ok l" and r: "record_response_error m v d l = Inr l'"
  shows "ledger_ok l'"
proof -
  from r obtain x y q s tq t where x: "live_method m l = Inr x" and y: "record_latency x v = Inr y"
    and q: "checked_increment (ml_response_error_count y) ''method response errors'' = Inr q"
    and s: "checked_increment (ml_error_count y) ''method errors'' = Inr s"
    and tq: "checked_increment (tt_response_error_count (ld_totals l)) ''total response errors'' = Inr tq"
    and t: "checked_increment (tt_error_count (ld_totals l)) ''total errors'' = Inr t"
    and l': "l' = (put_method m (y\<lparr>ml_response_error_count := q, ml_error_count := s,
        ml_in_flight := ml_in_flight y - 1, ml_last_error := Some d\<rparr>) l)
        \<lparr>ld_totals := (ld_totals l)\<lparr>tt_response_error_count := tq, tt_error_count := t\<rparr>\<rparr>"
    by (auto simp: record_response_error_def ledger_step_simps)
  have mx: "method_ok x" "x = metrics_of m l" "0 < unat (ml_in_flight x)"
    using live_Inr [OF x] metrics_ok [OF ok] by auto
  note lat = latency_ok [OF y mx(1)]
  show ?thesis unfolding l'
    by (rule ledger_put [OF ok])
      (use mx lat increment_Inr [OF q] increment_Inr [OF s] increment_Inr [OF tq] increment_Inr [OF t]
        unat_decrement [of "ml_in_flight x"] in
        \<open>auto simp: method_ok_def balanced_def unat_pos_iff latency_seen_def\<close>)
qed

lemma record_recovery_error_ok:
  assumes ok: "ledger_ok l" and r: "record_recovery_error m d l = Inr l'"
  shows "ledger_ok l'"
proof -
  from r obtain x q s tq t where x: "live_method m l = Inr x"
    and q: "checked_increment (ml_recovery_error_count x) ''method recovery errors'' = Inr q"
    and s: "checked_increment (ml_error_count x) ''method errors'' = Inr s"
    and tq: "checked_increment (tt_recovery_error_count (ld_totals l)) ''total recovery errors'' = Inr tq"
    and t: "checked_increment (tt_error_count (ld_totals l)) ''total errors'' = Inr t"
    and l': "l' = (put_method m (x\<lparr>ml_recovery_error_count := q, ml_error_count := s,
        ml_in_flight := ml_in_flight x - 1, ml_last_error := Some d\<rparr>) l)
        \<lparr>ld_totals := (ld_totals l)\<lparr>tt_recovery_error_count := tq, tt_error_count := t\<rparr>\<rparr>"
    by (auto simp: record_recovery_error_def ledger_step_simps)
  have mx: "method_ok x" "x = metrics_of m l" "0 < unat (ml_in_flight x)"
    using live_Inr [OF x] metrics_ok [OF ok] by auto
  show ?thesis unfolding l'
    by (rule ledger_put [OF ok])
      (use mx increment_Inr [OF q] increment_Inr [OF s] increment_Inr [OF tq] increment_Inr [OF t]
        unat_decrement [of "ml_in_flight x"] in
        \<open>auto simp: method_ok_def balanced_def\<close>)
qed

lemma record_replay_ok:
  assumes ok: "ledger_ok l" and r: "record_replay m l = Inr l'"
  shows "ledger_ok l'"
proof -
  from r obtain x s t where x: "live_method m l = Inr x"
    and s: "checked_increment (ml_retry_count x) ''method retries'' = Inr s"
    and t: "checked_increment (tt_retry_count (ld_totals l)) ''total retries'' = Inr t"
    and l': "l' = (put_method m (x\<lparr>ml_retry_count := s\<rparr>) l)\<lparr>ld_totals := (ld_totals l)\<lparr>tt_retry_count := t\<rparr>\<rparr>"
    by (auto simp: record_replay_def ledger_step_simps)
  have mx: "method_ok x" "x = metrics_of m l"
    using live_Inr [OF x] metrics_ok [OF ok] by auto
  show ?thesis unfolding l'
    by (rule ledger_put [OF ok])
      (use mx increment_Inr [OF s] increment_Inr [OF t] in \<open>auto simp: method_ok_def balanced_def\<close>)
qed

lemma ledger_fault_update:
  assumes "ledger_ok l" and "f_generation f = ld_generation l"
    and "unat (tt_recovery_fault_count (ld_totals l)) \<le> unat n"
  shows "ledger_ok (l\<lparr>ld_totals := (ld_totals l)\<lparr>tt_recovery_fault_count := n\<rparr>,
    ld_consecutive_failures := c, ld_last_fault := Some f\<rparr>)"
  using assms by (auto simp: ledger_ok_def totals_ok_def fault_not_newer_def)

lemma record_recovery_fault_ok:
  assumes ok: "ledger_ok l" and r: "record_recovery_fault target f l = Inr l'"
  shows "ledger_ok l'"
proof (cases target)
  case None
  with r obtain t c where "f_generation f = ld_generation l"
    "checked_increment (tt_recovery_fault_count (ld_totals l)) ''total recovery faults'' = Inr t"
    "l' = l\<lparr>ld_totals := (ld_totals l)\<lparr>tt_recovery_fault_count := t\<rparr>, ld_consecutive_failures := c,
      ld_last_fault := Some f\<rparr>"
    by (auto simp: record_recovery_fault_def ledger_step_simps split: if_splits option.splits)
  with ledger_fault_update [OF ok] increment_Inr show ?thesis by auto
next
  case (Some m)
  with r obtain x q t c where g: "f_generation f = ld_generation l"
    and x: "live_method m l = Inr x"
    and q: "checked_increment (ml_recovery_fault_count x) ''method recovery faults'' = Inr q"
    and t: "checked_increment (tt_recovery_fault_count (ld_totals l)) ''total recovery faults'' = Inr t"
    and l': "l' = (put_method m (x\<lparr>ml_recovery_fault_count := q, ml_last_error := Some (f_detail f)\<rparr>) l)
      \<lparr>ld_totals := (ld_totals l)\<lparr>tt_recovery_fault_count := t\<rparr>, ld_consecutive_failures := c,
      ld_last_fault := Some f\<rparr>"
    by (auto simp: record_recovery_fault_def ledger_step_simps split: if_splits option.splits)
  have mx: "method_ok x" "x = metrics_of m l"
    using live_Inr [OF x] metrics_ok [OF ok] by auto
  let ?l = "(put_method m (x\<lparr>ml_recovery_fault_count := q, ml_last_error := Some (f_detail f)\<rparr>) l)
      \<lparr>ld_totals := (ld_totals l)\<lparr>tt_recovery_fault_count := t\<rparr>\<rparr>"
  have "ledger_ok ?l"
    by (rule ledger_put [OF ok])
      (use mx increment_Inr [OF q] increment_Inr [OF t] in \<open>auto simp: method_ok_def balanced_def\<close>)
  then show ?thesis using g l' by (simp add: ledger_ok_def put_method_def fault_not_newer_def)
qed

lemma replace_worker_ok: "ledger_ok l \<Longrightarrow> replace_worker g l = Inr l' \<Longrightarrow> ledger_ok l'"
  by (auto simp: replace_worker_def bindE_Inr_iff ledger_ok_def fault_not_newer_def
      split: if_splits option.splits)

section \<open>Histories\<close>

datatype ledger_event = Requested rpc_method | Succeeded rpc_method u64
  | HostErrored rpc_method u64 string | ResponseErrored rpc_method u64 string
  | RecoveryErrored rpc_method string | FaultSeen "rpc_method option" fault
  | Redispatched rpc_method | WorkerReplaced generation

fun ledger_step :: "ledger \<Rightarrow> ledger_event \<Rightarrow> metric_error + ledger" where
  "ledger_step l (Requested m) = record_request m l"
| "ledger_step l (Succeeded m v) = record_success m v l"
| "ledger_step l (HostErrored m v d) = record_error m v d l"
| "ledger_step l (ResponseErrored m v d) = record_response_error m v d l"
| "ledger_step l (RecoveryErrored m d) = record_recovery_error m d l"
| "ledger_step l (FaultSeen m f) = record_recovery_fault m f l"
| "ledger_step l (Redispatched m) = record_replay m l"
| "ledger_step l (WorkerReplaced g) = replace_worker g l"

text \<open>A history keeps the events the ledger accepted beside the ledger.\<close>

fun history_step :: "ledger \<times> ledger_event list \<Rightarrow> ledger_event \<Rightarrow> ledger \<times> ledger_event list" where
  "history_step (l, seen) ev =
     (case commit (\<lambda>l. ledger_step l ev) l of
        (Inr _, l') \<Rightarrow> (l', seen @ [ev]) | (Inl _, l') \<Rightarrow> (l', seen))"

definition ledger_history :: "generation \<Rightarrow> ledger_event list \<Rightarrow> ledger \<times> ledger_event list" where
  "ledger_history g evs = foldl history_step (ledger_new g, []) evs"

lemma ledger_step_ok:
  assumes ok: "ledger_ok l" and r: "ledger_step l ev = Inr l'"
  shows "ledger_ok l'"
proof (cases ev)
  case (Requested m)
  then have "record_request m l = Inr l'" using r by simp
  from record_request_ok [OF ok this] show ?thesis .
next
  case (Succeeded m v)
  then have "record_success m v l = Inr l'" using r by simp
  from record_success_ok [OF ok this] show ?thesis .
next
  case (HostErrored m v d)
  then have "record_error m v d l = Inr l'" using r by simp
  from record_error_ok [OF ok this] show ?thesis .
next
  case (ResponseErrored m v d)
  then have "record_response_error m v d l = Inr l'" using r by simp
  from record_response_error_ok [OF ok this] show ?thesis .
next
  case (RecoveryErrored m d)
  then have "record_recovery_error m d l = Inr l'" using r by simp
  from record_recovery_error_ok [OF ok this] show ?thesis .
next
  case (FaultSeen m f)
  then have "record_recovery_fault m f l = Inr l'" using r by simp
  from record_recovery_fault_ok [OF ok this] show ?thesis .
next
  case (Redispatched m)
  then have "record_replay m l = Inr l'" using r by simp
  from record_replay_ok [OF ok this] show ?thesis .
next
  case (WorkerReplaced g)
  then have "replace_worker g l = Inr l'" using r by simp
  from replace_worker_ok [OF ok this] show ?thesis .
qed

lemma ledger_new_ok: "ledger_ok (ledger_new g)"
  by (simp add: ledger_new_def ledger_ok_def totals_ok_def bt_sum_def fault_not_newer_def)

fun about :: "rpc_method \<Rightarrow> ledger_event \<Rightarrow> nat \<times> nat \<times> nat \<times> nat" where
  "about m (Requested m') = (if m' = m then 1 else 0, 0, 0, 0)"
| "about m (Succeeded m' _) = (0, if m' = m then 1 else 0, 0, 0)"
| "about m (HostErrored m' _ _) = (0, 0, if m' = m then 1 else 0, 0)"
| "about m (ResponseErrored m' _ _) = (0, 0, if m' = m then 1 else 0, 0)"
| "about m (RecoveryErrored m' _) = (0, 0, if m' = m then 1 else 0, 0)"
| "about m (Redispatched m') = (0, 0, 0, if m' = m then 1 else 0)"
| "about m (FaultSeen _ _) = (0, 0, 0, 0)"
| "about m (WorkerReplaced _) = (0, 0, 0, 0)"

definition occurrences :: "(nat \<times> nat \<times> nat \<times> nat \<Rightarrow> nat) \<Rightarrow> rpc_method \<Rightarrow> ledger_event list \<Rightarrow> nat" where
  "occurrences f m evs = sum_list (map (\<lambda>ev. f (about m ev)) evs)"

lemma metrics_put [simp]:
  "metrics_of m (put_method m' x l) = (if m = m' then x else metrics_of m l)"
  "metrics_of m (l\<lparr>ld_totals := t\<rparr>) = metrics_of m l"
  "metrics_of m (l\<lparr>ld_consecutive_failures := c\<rparr>) = metrics_of m l"
  "metrics_of m (l\<lparr>ld_last_fault := lf\<rparr>) = metrics_of m l"
  "metrics_of m (l\<lparr>ld_generation := g\<rparr>) = metrics_of m l"
  "metrics_of m (l\<lparr>ld_restart_count := rc\<rparr>) = metrics_of m l"
  by (simp_all add: metrics_of_def put_method_def lookup_simps)

lemma latency_counts:
  "record_latency x v = Inr y \<Longrightarrow> ml_request_count y = ml_request_count x \<and>
     ml_success_count y = ml_success_count x \<and> ml_error_count y = ml_error_count x \<and>
     ml_retry_count y = ml_retry_count x"
  by (auto simp: record_latency_def bindE_Inr_iff split: option.splits)

lemma record_request_effect:
  assumes "record_request m l = Inr l'"
  obtains r f t where "checked_increment (ml_request_count (metrics_of m l)) ''method requests'' = Inr r"
    "l' = (put_method m ((metrics_of m l)\<lparr>ml_request_count := r, ml_in_flight := f\<rparr>) l)\<lparr>ld_totals := t\<rparr>"
  using assms unfolding record_request_def metrics_of_def [symmetric]
  by (auto simp: ledger_step_simps)

definition counts_of :: "rpc_method \<Rightarrow> ledger \<Rightarrow> nat \<times> nat \<times> nat \<times> nat" where
  "counts_of m l = (let x = metrics_of m l in
     (unat (ml_request_count x), unat (ml_success_count x), unat (ml_error_count x), unat (ml_retry_count x)))"

definition plus4 :: "nat \<times> nat \<times> nat \<times> nat \<Rightarrow> nat \<times> nat \<times> nat \<times> nat \<Rightarrow> nat \<times> nat \<times> nat \<times> nat" where
  "plus4 x y = (case (x, y) of ((a, b, c, d), (a', b', c', d')) \<Rightarrow> (a + a', b + b', c + c', d + d'))"

lemmas count_simps = ledger_step_simps counts_of_def plus4_def

lemma ledger_step_counts:
  assumes "ledger_step l ev = Inr l'"
  shows "counts_of m l' = plus4 (counts_of m l) (about m ev)"
proof (cases ev)
  case (Requested m')
  then have r: "record_request m' l = Inr l'" using assms by simp
  show ?thesis
    by (rule record_request_effect [OF r])
      (use Requested in \<open>auto simp: count_simps dest!: increment_Inr\<close>)
next
  case (Succeeded m' v)
  with assms show ?thesis
    by (auto simp: record_success_def count_simps dest!: increment_Inr live_Inr latency_counts)
next
  case (HostErrored m' v d)
  with assms show ?thesis
    by (auto simp: record_error_def count_simps dest!: increment_Inr live_Inr latency_counts)
next
  case (ResponseErrored m' v d)
  with assms show ?thesis
    by (auto simp: record_response_error_def count_simps dest!: increment_Inr live_Inr latency_counts)
next
  case (RecoveryErrored m' d)
  with assms show ?thesis
    by (auto simp: record_recovery_error_def count_simps dest!: increment_Inr live_Inr)
next
  case (FaultSeen m' f)
  with assms show ?thesis
    by (cases m') (auto simp: record_recovery_fault_def count_simps dest!: increment_Inr live_Inr
        split: if_splits option.splits)
next
  case (Redispatched m')
  with assms show ?thesis
    by (auto simp: record_replay_def count_simps dest!: increment_Inr live_Inr)
next
  case (WorkerReplaced g)
  with assms show ?thesis by (auto simp: replace_worker_def count_simps split: if_splits)
qed

definition history_inv :: "ledger \<times> ledger_event list \<Rightarrow> bool" where
  "history_inv h \<longleftrightarrow> ledger_ok (fst h) \<and>
     (\<forall>m. unat (ml_request_count (metrics_of m (fst h))) = occurrences fst m (snd h) \<and>
        unat (ml_success_count (metrics_of m (fst h))) = occurrences (fst \<circ> snd) m (snd h) \<and>
        unat (ml_error_count (metrics_of m (fst h))) = occurrences (fst \<circ> snd \<circ> snd) m (snd h) \<and>
        unat (ml_retry_count (metrics_of m (fst h))) = occurrences (snd \<circ> snd \<circ> snd) m (snd h))"

lemma history_step_inv: "history_inv h \<Longrightarrow> history_inv (history_step h ev)"
proof -
  assume inv: "history_inv h"
  obtain l seen where h: "h = (l, seen)" by fastforce
  show ?thesis
  proof (cases "ledger_step l ev")
    case (Inl e)
    with inv h show ?thesis by (simp add: commit_def)
  next
    case (Inr l')
    have ok: "ledger_ok l'" using inv h ledger_step_ok [OF _ Inr] by (simp add: history_inv_def)
    have "unat (ml_request_count (metrics_of m l')) = occurrences fst m (seen @ [ev]) \<and>
        unat (ml_success_count (metrics_of m l')) = occurrences (fst \<circ> snd) m (seen @ [ev]) \<and>
        unat (ml_error_count (metrics_of m l')) = occurrences (fst \<circ> snd \<circ> snd) m (seen @ [ev]) \<and>
        unat (ml_retry_count (metrics_of m l')) = occurrences (snd \<circ> snd \<circ> snd) m (seen @ [ev])" for m
    proof -
      obtain a b c d where about: "about m ev = (a, b, c, d)" by (cases "about m ev") auto
      have "counts_of m l' = plus4 (counts_of m l) (a, b, c, d)"
        using ledger_step_counts [OF Inr, of m] about by simp
      then show ?thesis using inv h about
        by (simp add: history_inv_def occurrences_def counts_of_def plus4_def Let_def)
    qed
    with ok show ?thesis using h Inr by (simp add: commit_def history_inv_def)
  qed
qed

interpretation ledger_machine: invariant_machine history_step history_inv "\<lambda>_. True"
  by unfold_locales (rule history_step_inv)

lemma history_reach: "history_inv (ledger_history g evs)"
proof -
  have "history_inv (ledger_new g, [])"
    using ledger_new_ok [of g]
    by (simp add: history_inv_def occurrences_def metrics_of_def ledger_new_def method_ledger_default_def)
  from ledger_machine.inv_run [OF this, of evs] show ?thesis
    by (simp add: ledger_history_def list_all_iff)
qed

section \<open>Replacements of a history\<close>

definition replacements :: "ledger_event list \<Rightarrow> generation list" where
  "replacements evs = List.map_filter (\<lambda>ev. case ev of WorkerReplaced g \<Rightarrow> Some g | _ \<Rightarrow> None) evs"

lemma replacements_simps [simp]:
  "replacements [] = []"
  "replacements (evs @ [ev]) = replacements evs @ (case ev of WorkerReplaced g \<Rightarrow> [g] | _ \<Rightarrow> [])"
  by (simp_all add: replacements_def List.map_filter_def split: ledger_event.splits)

definition replaced_inv :: "generation \<Rightarrow> ledger \<times> ledger_event list \<Rightarrow> bool" where
  "replaced_inv g h \<longleftrightarrow> sorted_wrt (<) (g # replacements (snd h)) \<and>
     ld_generation (fst h) = List.last (g # replacements (snd h)) \<and>
     unat (ld_restart_count (fst h)) = length (replacements (snd h))"

definition worker_of :: "ledger \<Rightarrow> generation \<times> u64" where
  "worker_of l = (ld_generation l, ld_restart_count l)"

lemma ledger_step_worker:
  assumes "ledger_step l ev = Inr l'"
  shows "case ev of WorkerReplaced g \<Rightarrow> ld_generation l < g \<and> ld_generation l' = g \<and>
      unat (ld_restart_count l') = unat (ld_restart_count l) + 1
    | _ \<Rightarrow> worker_of l' = worker_of l"
proof (cases ev)
  case (WorkerReplaced g)
  with assms show ?thesis
    by (auto simp: replace_worker_def ledger_step_simps dest!: increment_Inr split: if_splits)
next
  case (FaultSeen m f)
  with assms show ?thesis
    by (cases m) (auto simp: record_recovery_fault_def ledger_step_simps put_method_def worker_of_def
        split: if_splits option.splits)
qed (use assms in \<open>auto simp: record_request_def record_success_def record_error_def
    record_response_error_def record_recovery_error_def record_replay_def ledger_step_simps
    put_method_def worker_of_def\<close>)

lemma sorted_wrt_last:
  fixes g :: "'a::order"
  assumes "sorted_wrt (<) (g # xs)" and "List.last (g # xs) < y"
  shows "sorted_wrt (<) (g # xs @ [y])"
proof -
  have "x < y" if "x \<in> set (g # xs)" for x
  proof -
    have "x \<le> List.last (g # xs)" using that assms(1)
      by (induction xs arbitrary: g rule: rev_induct) (auto simp: sorted_wrt_append less_imp_le)
    with assms(2) show ?thesis by (rule order.strict_trans1 [rotated -1]) 
  qed
  then show ?thesis using assms(1) by (simp add: sorted_wrt_append)
qed

lemma replaced_step: "replaced_inv g h \<Longrightarrow> replaced_inv g (history_step h ev)"
proof -
  assume inv: "replaced_inv g h"
  obtain l seen where h: "h = (l, seen)" by fastforce
  show ?thesis
  proof (cases "ledger_step l ev")
    case (Inl e)
    with inv h show ?thesis by (simp add: commit_def)
  next
    case (Inr l')
    note step = ledger_step_worker [OF Inr]
    show ?thesis
    proof (cases "\<exists>g'. ev = WorkerReplaced g'")
      case True
      then obtain g' where ev: "ev = WorkerReplaced g'" by blast
      with step inv h have "sorted_wrt (<) (g # replacements seen @ [g'])"
        by (intro sorted_wrt_last) (auto simp: replaced_inv_def)
      with ev step inv h Inr show ?thesis by (simp add: commit_def replaced_inv_def)
    next
      case False
      with step have "worker_of l' = worker_of l" by (cases ev) auto
      with False inv h Inr show ?thesis
        by (cases ev) (auto simp: commit_def replaced_inv_def worker_of_def)
    qed
  qed
qed

interpretation replaced_machine: invariant_machine history_step "replaced_inv g" "\<lambda>_. True" for g
  by unfold_locales (rule replaced_step)

lemma replaced_run: "replaced_inv g (ledger_history g evs)"
proof -
  have "replaced_inv g (ledger_new g, [])" by (simp add: replaced_inv_def ledger_new_def)
  from replaced_machine.inv_run [OF this, of evs] show ?thesis
    by (simp add: ledger_history_def list_all_iff)
qed

section \<open>Every counter is exact\<close>

definition tally :: "(ledger_event \<Rightarrow> bool) \<Rightarrow> ledger_event list \<Rightarrow> nat" where
  "tally P evs = length (filter P evs)"

lemma tally_simps [simp]: "tally P [] = 0" "tally P (evs @ [ev]) = tally P evs + (if P ev then 1 else 0)"
  by (simp_all add: tally_def)

fun is_fault :: "ledger_event \<Rightarrow> bool" where
  "is_fault (FaultSeen _ _) = True" | "is_fault _ = False"

fun is_success :: "ledger_event \<Rightarrow> bool" where
  "is_success (Succeeded _ _) = True" | "is_success _ = False"

fun latency_of :: "rpc_method \<Rightarrow> ledger_event \<Rightarrow> nat option" where
  "latency_of m (Succeeded m' v) = (if m' = m then Some (unat v) else None)"
| "latency_of m (HostErrored m' v _) = (if m' = m then Some (unat v) else None)"
| "latency_of m (ResponseErrored m' v _) = (if m' = m then Some (unat v) else None)"
| "latency_of m _ = None"

text \<open>The counters beside the four of \<open>counts_of\<close>, as numbers.\<close>

definition side_counts :: "rpc_method \<Rightarrow> ledger \<Rightarrow> nat \<times> nat \<times> nat" where
  "side_counts m l = (let x = metrics_of m l in
     (unat (ml_response_error_count x), unat (ml_recovery_error_count x), unat (ml_recovery_fault_count x)))"

definition latency_counts_of :: "rpc_method \<Rightarrow> ledger \<Rightarrow> nat \<times> nat" where
  "latency_counts_of m l = (let x = metrics_of m l in
     (unat (ml_latency_sample_count x), unat (ml_total_latency_ms x)))"

lemma latency_more:
  "record_latency x v = Inr y \<Longrightarrow> unat (ml_latency_sample_count y) = unat (ml_latency_sample_count x) + 1 \<and>
     unat (ml_total_latency_ms y) = unat (ml_total_latency_ms x) + unat v \<and>
     ml_response_error_count y = ml_response_error_count x \<and>
     ml_recovery_error_count y = ml_recovery_error_count x \<and>
     ml_recovery_fault_count y = ml_recovery_fault_count x"
  using checked_add_Some [of "ml_total_latency_ms x" v] increment_Inr [of "ml_latency_sample_count x" "''method latency samples''"]
  by (auto simp: record_latency_def bindE_Inr_iff split: option.splits)

lemma add_one_Some: "checked_add c 1 = Some (d :: 'w::len word) \<Longrightarrow> 1 < LENGTH('w) \<Longrightarrow> unat d = unat c + 1"
  using checked_add_Some [of c 1 d] by simp

lemma put_method_fields [simp]:
  "ld_consecutive_failures (put_method m x l) = ld_consecutive_failures l"
  "ld_restart_count (put_method m x l) = ld_restart_count l"
  "ld_totals (put_method m x l) = ld_totals l"
  by (simp_all add: put_method_def)

lemma ledger_step_side:
  assumes "ledger_step l ev = Inr l'"
  shows "side_counts m l' = (case side_counts m l of (a, b, c) \<Rightarrow>
    (a + (case ev of ResponseErrored m' _ _ \<Rightarrow> if m' = m then 1 else 0 | _ \<Rightarrow> 0),
     b + (case ev of RecoveryErrored m' _ \<Rightarrow> if m' = m then 1 else 0 | _ \<Rightarrow> 0),
     c + (case ev of FaultSeen (Some m') _ \<Rightarrow> if m' = m then 1 else 0 | _ \<Rightarrow> 0)))"
proof (cases ev)
  case (Requested m')
  then have r: "record_request m' l = Inr l'" using assms by simp
  show ?thesis
    by (rule record_request_effect [OF r]) (use Requested in \<open>auto simp: side_counts_def Let_def\<close>)
next
  case (FaultSeen m' f)
  with assms show ?thesis
    by (cases m') (auto simp: record_recovery_fault_def side_counts_def ledger_step_simps
        dest!: increment_Inr live_Inr split: if_splits option.splits)
qed (use assms in \<open>auto simp: record_success_def record_error_def record_response_error_def
    record_recovery_error_def record_replay_def replace_worker_def side_counts_def ledger_step_simps
    dest!: increment_Inr live_Inr latency_more split: if_splits\<close>)

lemma ledger_step_latency:
  assumes "ledger_step l ev = Inr l'"
  shows "latency_counts_of m l' = (case latency_counts_of m l of (n, t) \<Rightarrow>
    (case latency_of m ev of None \<Rightarrow> (n, t) | Some v \<Rightarrow> (n + 1, t + v)))"
proof (cases ev)
  case (Requested m')
  then have r: "record_request m' l = Inr l'" using assms by simp
  show ?thesis
    by (rule record_request_effect [OF r]) (use Requested in \<open>auto simp: latency_counts_of_def Let_def\<close>)
next
  case (FaultSeen m' f)
  with assms show ?thesis
    by (cases m') (auto simp: record_recovery_fault_def latency_counts_of_def ledger_step_simps
        dest!: live_Inr split: if_splits option.splits)
qed (use assms in \<open>auto simp: record_success_def record_error_def record_response_error_def
    record_recovery_error_def record_replay_def replace_worker_def latency_counts_of_def ledger_step_simps
    dest!: live_Inr latency_more split: if_splits\<close>)

definition fault_counts :: "ledger \<Rightarrow> nat \<times> nat" where
  "fault_counts l = (unat (ld_consecutive_failures l), unat (tt_recovery_fault_count (ld_totals l)))"

lemma ledger_step_failures:
  assumes "ledger_step l ev = Inr l'"
  shows "fault_counts l' = (case fault_counts l of (c, n) \<Rightarrow>
    if is_success ev then (0, n) else if is_fault ev then (c + 1, n + 1) else (c, n))"
proof (cases ev)
  case (Requested m')
  then have "record_request m' l = Inr l'" using assms by simp
  with Requested show ?thesis
    unfolding record_request_def metrics_of_def [symmetric]
    by (auto simp: fault_counts_def ledger_step_simps)
next
  case (FaultSeen m' f)
  then have r: "record_recovery_fault m' f l = Inr l'" using assms by simp
  obtain t c where "checked_increment (tt_recovery_fault_count (ld_totals l)) ''total recovery faults'' = Inr t"
    "checked_add (ld_consecutive_failures l) 1 = Some c" "tt_recovery_fault_count (ld_totals l') = t"
    "ld_consecutive_failures l' = c"
    using r by (cases m') (auto simp: record_recovery_fault_def ledger_step_simps
        split: if_splits option.splits)
  then show ?thesis using FaultSeen increment_Inr [of "tt_recovery_fault_count (ld_totals l)"]
      add_one_Some [of "ld_consecutive_failures l" c] by (simp add: fault_counts_def)
qed (use assms in \<open>auto simp: record_success_def record_error_def record_response_error_def
    record_recovery_error_def record_replay_def replace_worker_def fault_counts_def ledger_step_simps
    split: if_splits\<close>)

definition exact_inv :: "ledger \<times> ledger_event list \<Rightarrow> bool" where
  "exact_inv h \<longleftrightarrow> (\<forall>m. side_counts m (fst h) =
       (tally (\<lambda>ev. \<exists>v d. ev = ResponseErrored m v d) (snd h),
        tally (\<lambda>ev. \<exists>d. ev = RecoveryErrored m d) (snd h),
        tally (\<lambda>ev. \<exists>f. ev = FaultSeen (Some m) f) (snd h)) \<and>
      latency_counts_of m (fst h) =
       (length (List.map_filter (latency_of m) (snd h)), sum_list (List.map_filter (latency_of m) (snd h)))) \<and>
    fault_counts (fst h) =
      (length (filter is_fault (takeWhile (\<lambda>ev. \<not> is_success ev) (rev (snd h)))), tally is_fault (snd h))"

lemma exact_step: "exact_inv h \<Longrightarrow> exact_inv (history_step h ev)"
proof -
  assume inv: "exact_inv h"
  obtain l seen where h: "h = (l, seen)" by fastforce
  show ?thesis
  proof (cases "ledger_step l ev")
    case (Inl e)
    with inv h show ?thesis by (simp add: commit_def)
  next
    case (Inr l')
    have "side_counts m l' = (tally (\<lambda>ev. \<exists>v d. ev = ResponseErrored m v d) (seen @ [ev]),
        tally (\<lambda>ev. \<exists>d. ev = RecoveryErrored m d) (seen @ [ev]),
        tally (\<lambda>ev. \<exists>f. ev = FaultSeen (Some m) f) (seen @ [ev]))" for m
      using inv h ledger_step_side [OF Inr, of m]
      by (auto simp: exact_inv_def split: ledger_event.splits option.splits)
    moreover have "latency_counts_of m l' = (length (List.map_filter (latency_of m) (seen @ [ev])),
        sum_list (List.map_filter (latency_of m) (seen @ [ev])))" for m
      using inv h ledger_step_latency [OF Inr, of m]
      by (auto simp: exact_inv_def List.map_filter_def split: option.splits)
    moreover note ledger_step_failures [OF Inr]
    ultimately have "exact_inv (l', seen @ [ev])" using inv h by (cases ev) (simp_all add: exact_inv_def)
    with h Inr show ?thesis by (simp add: commit_def)
  qed
qed

interpretation exact_machine: invariant_machine history_step exact_inv "\<lambda>_. True"
  by unfold_locales (rule exact_step)

lemma exact_run: "exact_inv (ledger_history g evs)"
proof -
  have "exact_inv (ledger_new g, [])"
    by (simp add: exact_inv_def ledger_new_def side_counts_def latency_counts_of_def metrics_of_def
        method_ledger_default_def List.map_filter_def fault_counts_def)
  from exact_machine.inv_run [OF this, of evs] show ?thesis
    by (simp add: ledger_history_def list_all_iff)
qed

lemma occurrences_tally:
  "occurrences fst m seen = tally (\<lambda>ev. ev = Requested m) seen"
  "occurrences (fst \<circ> snd) m seen = tally (\<lambda>ev. \<exists>v. ev = Succeeded m v) seen"
  "occurrences (fst \<circ> snd \<circ> snd) m seen = tally (\<lambda>ev. (\<exists>v d. ev = HostErrored m v d) \<or>
     (\<exists>v d. ev = ResponseErrored m v d) \<or> (\<exists>d. ev = RecoveryErrored m d)) seen"
  "occurrences (snd \<circ> snd \<circ> snd) m seen = tally (\<lambda>ev. ev = Redispatched m) seen"
proof (induction seen)
  case (Cons ev seen)
  { case 1 then show ?case using Cons by (cases ev) (auto simp: occurrences_def tally_def) }
  { case 2 then show ?case using Cons by (cases ev) (auto simp: occurrences_def tally_def) }
  { case 3 then show ?case using Cons by (cases ev) (auto simp: occurrences_def tally_def) }
  { case 4 then show ?case using Cons by (cases ev) (auto simp: occurrences_def tally_def) }
qed (simp_all add: occurrences_def tally_def)

lemma replacements_tally: "length (replacements seen) = tally (\<lambda>ev. \<exists>w. ev = WorkerReplaced w) seen"
  by (induction seen rule: rev_induct) (auto split: ledger_event.split)

text \<open>
  C24. The books balance and no counter wraps. After any sequence of transitions, refused
  ones included, each method's admitted requests are its successes, its errors and what is
  in flight, and the session totals are the sums over the methods. Every counter is, as a
  number, the exact count of the events the ledger accepted: response errors, recovery
  errors, recovery faults and latency samples of each method and the sum of its latencies,
  all recovery faults, the faults since the last success, and the worker replacements.
\<close>

theorem ledger_balances:
  "case ledger_history g evs of (l, seen) \<Rightarrow>
     unat (tt_request_count (ld_totals l)) = unat (tt_success_count (ld_totals l)) +
       unat (tt_error_count (ld_totals l)) + bt_sum (\<lambda>x. unat (ml_in_flight x)) (ld_methods l) \<and>
     (\<forall>m. unat (ml_request_count (metrics_of m l)) = unat (ml_success_count (metrics_of m l)) +
       unat (ml_error_count (metrics_of m l)) + unat (ml_in_flight (metrics_of m l))) \<and>
     totals_ok (ld_totals l) (ld_methods l) \<and>
     (\<forall>m. unat (ml_request_count (metrics_of m l)) = tally (\<lambda>ev. ev = Requested m) seen \<and>
       unat (ml_success_count (metrics_of m l)) = tally (\<lambda>ev. \<exists>v. ev = Succeeded m v) seen \<and>
       unat (ml_error_count (metrics_of m l)) = tally (\<lambda>ev. (\<exists>v d. ev = HostErrored m v d) \<or>
         (\<exists>v d. ev = ResponseErrored m v d) \<or> (\<exists>d. ev = RecoveryErrored m d)) seen \<and>
       unat (ml_retry_count (metrics_of m l)) = tally (\<lambda>ev. ev = Redispatched m) seen \<and>
       unat (ml_response_error_count (metrics_of m l)) = tally (\<lambda>ev. \<exists>v d. ev = ResponseErrored m v d) seen \<and>
       unat (ml_recovery_error_count (metrics_of m l)) = tally (\<lambda>ev. \<exists>d. ev = RecoveryErrored m d) seen \<and>
       unat (ml_recovery_fault_count (metrics_of m l)) = tally (\<lambda>ev. \<exists>f. ev = FaultSeen (Some m) f) seen \<and>
       unat (ml_latency_sample_count (metrics_of m l)) = length (List.map_filter (latency_of m) seen) \<and>
       unat (ml_total_latency_ms (metrics_of m l)) = sum_list (List.map_filter (latency_of m) seen)) \<and>
     unat (tt_recovery_fault_count (ld_totals l)) = tally is_fault seen \<and>
     unat (ld_consecutive_failures l) =
       length (filter is_fault (takeWhile (\<lambda>ev. \<not> is_success ev) (rev seen))) \<and>
     unat (ld_restart_count l) = tally (\<lambda>ev. \<exists>w. ev = WorkerReplaced w) seen"
proof -
  obtain l seen where h: "ledger_history g evs = (l, seen)" by fastforce
  have hist: "history_inv (l, seen)" using history_reach [of g evs] h by simp
  have ok: "ledger_ok l" using hist by (simp add: history_inv_def)
  have each: "method_ok x" if "(m, x) \<in> set (ld_methods l)" for m x
    using ok that by (simp add: ledger_ok_def btree.entries_iff)
  have "bt_sum (\<lambda>x. unat (ml_request_count x)) ms = bt_sum (\<lambda>x. unat (ml_success_count x)) ms +
      bt_sum (\<lambda>x. unat (ml_error_count x)) ms + bt_sum (\<lambda>x. unat (ml_in_flight x)) ms"
    if "\<forall>(m, x)\<in>set ms. method_ok x" for ms :: "(rpc_method \<times> method_ledger) list"
    using that by (induction ms) (auto simp: bt_sum_def method_ok_def)
  from this [of "ld_methods l"] each have sums: "bt_sum (\<lambda>x. unat (ml_request_count x)) (ld_methods l) =
      bt_sum (\<lambda>x. unat (ml_success_count x)) (ld_methods l) + bt_sum (\<lambda>x. unat (ml_error_count x)) (ld_methods l) +
      bt_sum (\<lambda>x. unat (ml_in_flight x)) (ld_methods l)" by blast
  have "unat (ld_restart_count l) = tally (\<lambda>ev. \<exists>w. ev = WorkerReplaced w) seen"
    using replaced_run [of g evs] h replacements_tally [of seen] by (simp add: replaced_inv_def)
  moreover have "exact_inv (l, seen)" using exact_run [of g evs] h by simp
  ultimately show ?thesis
    using hist sums ok metrics_ok [OF ok] occurrences_tally [of _ seen] unfolding h exact_inv_def
    by (simp add: history_inv_def side_counts_def latency_counts_of_def fault_counts_def Let_def ledger_ok_def totals_ok_def
        method_ok_def)
qed

text \<open>
  The ledger reports what happened: each method's request, success, error and retry
  counts are the numbers of those events the ledger accepted, and a refused event leaves
  no trace.
\<close>

theorem ledger_counts_history:
  "case ledger_history g evs of (l, seen) \<Rightarrow>
     unat (ml_request_count (metrics_of m l)) = occurrences fst m seen \<and>
     unat (ml_success_count (metrics_of m l)) = occurrences (fst \<circ> snd) m seen \<and>
     unat (ml_error_count (metrics_of m l)) = occurrences (fst \<circ> snd \<circ> snd) m seen \<and>
     unat (ml_retry_count (metrics_of m l)) = occurrences (snd \<circ> snd \<circ> snd) m seen"
  using history_reach [of g evs] by (auto simp: history_inv_def split: prod.split)

text \<open>
  Telemetry is deterministic and consistent: the per-method aggregates come in strict
  method order, one per method seen, and each average lies between zero and the maximum.
\<close>

theorem telemetry_snapshot_sound:
  "let t = telemetry_snapshot (fst (ledger_history g evs)) uptime st handshake in
     sorted_wrt (\<lambda>x y. mt_method x < mt_method y) (ts_methods t) \<and>
     list_all (\<lambda>x. mt_avg_latency_ms x \<le> mt_max_latency_ms x) (ts_methods t)"
proof -
  let ?l = "fst (ledger_history g evs)"
  have ok: "ledger_ok ?l" using history_reach [of g evs] by (simp add: history_inv_def)
  have avg: "mt_avg_latency_ms (method_snapshot (m, x)) \<le> mt_max_latency_ms (method_snapshot (m, x))"
    if "(m, x) \<in> set (ld_methods ?l)" for m x
  proof -
    have "method_ok x" using ok that by (simp add: ledger_ok_def btree.entries_iff)
    then have "unat (ml_total_latency_ms x) \<le> unat (ml_latency_sample_count x) * unat (ml_max_latency_ms x)"
      by (simp add: method_ok_def)
    then have "unat (ml_total_latency_ms x) div unat (ml_latency_sample_count x) \<le> unat (ml_max_latency_ms x)"
      if "ml_latency_sample_count x \<noteq> 0"
      using that div_le_mono [of _ _ "unat (ml_latency_sample_count x)"] by (fastforce simp: unat_pos_iff)
    then show ?thesis by (simp add: method_snapshot_def word_le_nat_alt unat_div_distrib)
  qed
  have "sorted_wrt (\<lambda>x y. fst x < fst y) (ld_methods ?l)"
    using ok by (simp add: ledger_ok_def bt_ok_def sorted_wrt_map)
  then have "sorted_wrt (\<lambda>x y. mt_method x < mt_method y) (map method_snapshot (ld_methods ?l))"
    unfolding sorted_wrt_map by (rule sorted_wrt_mono_rel [rotated]) (auto simp: method_snapshot_def)
  with avg show ?thesis by (fastforce simp: telemetry_snapshot_def Let_def list_all_iff)
qed

text \<open>
  Worker replacements are counted and strictly ordered: the replacements a history
  accepted carry strictly increasing generations above the first, their number is the
  restart count, and the newest of them is the generation reported.
\<close>

theorem replacements_ordered:
  "case ledger_history g evs of (l, seen) \<Rightarrow>
     sorted_wrt (<) (g # replacements seen) \<and>
     ld_generation l = List.last (g # replacements seen) \<and>
     unat (ld_restart_count l) = length (replacements seen)"
  using replaced_run [of g evs] by (auto simp: replaced_inv_def split: prod.split)

end
