(* ===== verification/Release.thy ===== *)
theory Release
  imports Framing Types
begin

unbundle bit_operations_syntax

text \<open>
  Releases (first half of \<open>rollout.rs\<close>): the identity and manifest of one immutable
  executable, the mutable channel that selects it, and the checks made before it is run.

  A \<open>Path\<close> is the list of its components, which is how the standard library compares,
  prefixes and takes parents of paths. The operating system, SHA-256 and the derived
  JSON decoders of the two files are the record \<open>release_os\<close>: what they answer during
  one call. The decoders yield the text of each digest; the code's own \<open>Deserialize\<close>
  for \<open>ReleaseId\<close> is applied to it here. Error texts that quote a value keep their
  fixed part only. Permission masks are decimal: 18, 64 and 3072 are the octal 022, 100
  and 6000 of the source.
\<close>

section \<open>Paths\<close>

datatype component = RootDir | CurDir | ParentDir | Normal string

type_synonym path = "component list"

fun split_slash :: "string \<Rightarrow> string list" where
  "split_slash [] = [[]]"
| "split_slash (c # cs) =
     (if c = CHR ''/'' then [] # split_slash cs
      else case split_slash cs of [] \<Rightarrow> [[c]] | s # ss \<Rightarrow> (c # s) # ss)"

definition segment :: "string \<Rightarrow> component option" where
  "segment s = (if s = [] \<or> s = ''.'' then None
     else if s = ''..'' then Some ParentDir else Some (Normal s))"

definition path_of :: "string \<Rightarrow> path" where
  "path_of t =
     (let segs = split_slash t;
          tail = List.map_filter segment segs
      in if starts_with ''/'' t then RootDir # tail
         else if hd segs = ''.'' then CurDir # tail else tail)"

definition path_absolute :: "path \<Rightarrow> bool" where
  "path_absolute p \<longleftrightarrow> take 1 p = [RootDir]"

definition path_parent :: "path \<Rightarrow> path option" where
  "path_parent p = (if p = [] \<or> last p = RootDir then None else Some (butlast p))"

definition path_file_name :: "path \<Rightarrow> string option" where
  "path_file_name p = (if p = [] then None else case last p of Normal s \<Rightarrow> Some s | _ \<Rightarrow> None)"

section \<open>Identities\<close>

datatype release_id = ReleaseId string

primrec id_text :: "release_id \<Rightarrow> string" where
  "id_text (ReleaseId t) = t"

definition hex_digit :: "char \<Rightarrow> bool" where
  "hex_digit c \<longleftrightarrow> is_ascii_digit c \<or> (97 \<le> code c \<and> code c \<le> 102)"

definition release_id_try_new :: "string \<Rightarrow> io_error + release_id" where
  "release_id_try_new v =
     (if length v \<noteq> 64 \<or> \<not> list_all hex_digit v
      then Inl (InvalidData ''release id must be one lowercase hexadecimal SHA-256 digest'')
      else Inr (ReleaseId v))"

definition hex_char :: "byte \<Rightarrow> char" where
  "hex_char n = ''0123456789abcdef'' ! unat n"

fun hex_text :: "byte list \<Rightarrow> string" where
  "hex_text [] = []"
| "hex_text (b # bs) = hex_char (drop_bit 4 b) # hex_char (b AND 15) # hex_text bs"

definition release_id_from_digest :: "byte list \<Rightarrow> io_error + release_id" where
  "release_id_from_digest digest =
     (if length digest \<noteq> 32 then Inl (InvalidData ''SHA-256 digest has an invalid width'')
      else release_id_try_new (hex_text digest))"

section \<open>State compatibility\<close>

datatype compatibility = StatelessState | Versioned (readable: "u64 set") (writable: u64)

definition versioned :: "u64 list \<Rightarrow> u64 \<Rightarrow> io_error + compatibility" where
  "versioned rs w =
     (if w \<notin> set rs then Inl (InvalidData ''a release must accept the state epoch it writes'')
      else Inr (Versioned (set rs) w))"

definition accepts :: "compatibility \<Rightarrow> compatibility \<Rightarrow> bool" where
  "accepts self incumbent =
     (case (self, incumbent) of
        (StatelessState, StatelessState) \<Rightarrow> True
      | (Versioned rs _, Versioned _ w) \<Rightarrow> w \<in> rs
      | _ \<Rightarrow> False)"

section \<open>Provenance and manifest\<close>

record provenance =
  pv_repository :: path
  pv_commit :: string
  pv_lock :: release_id
  pv_rustc :: string
  pv_built_at :: string

definition is_ascii_hexdigit :: "char \<Rightarrow> bool" where
  "is_ascii_hexdigit c \<longleftrightarrow> is_ascii_digit c \<or> (97 \<le> code c \<and> code c \<le> 102) \<or> (65 \<le> code c \<and> code c \<le> 70)"

definition provenance_try_new ::
    "path \<Rightarrow> string \<Rightarrow> release_id \<Rightarrow> string \<Rightarrow> string \<Rightarrow> io_error + provenance" where
  "provenance_try_new repository commit lock rustc built_at =
     (if \<not> path_absolute repository
      then Inl (InvalidData ''release repository path must be absolute'')
      else if length commit \<notin> {40, 64} \<or> \<not> list_all is_ascii_hexdigit commit
      then Inl (InvalidData ''release commit must be a full Git object id'')
      else if rustc = [] \<or> built_at = []
      then Inl (InvalidData ''release toolchain and build timestamp must be non-empty'')
      else Inr \<lparr>pv_repository = repository, pv_commit = List.map to_ascii_lowercase commit,
                pv_lock = lock, pv_rustc = rustc, pv_built_at = built_at\<rparr>)"

record manifest =
  mf_schema :: u32
  mf_server :: string
  mf_generation :: release_id
  mf_binary :: release_id
  mf_executable :: path
  mf_arguments :: "string list"
  mf_state :: compatibility
  mf_provenance :: provenance

definition release_schema :: u32 where "release_schema = 1"
definition pointer_max_bytes :: nat where "pointer_max_bytes = 8 * 1024"
definition manifest_max_bytes :: nat where "manifest_max_bytes = 64 * 1024"

definition server_char :: "char \<Rightarrow> bool" where
  "server_char c \<longleftrightarrow> is_ascii_alphanumeric c \<or> c \<in> {CHR ''-'', CHR ''_'', CHR ''.''}"

definition validate_server_name :: "string \<Rightarrow> io_error + unit" where
  "validate_server_name s =
     (if s = [] \<or> length s > 64 \<or> \<not> list_all server_char s
      then Inl (InvalidData ''release server must be 1-64 portable filename characters'')
      else Inr ())"

definition manifest_validate :: "manifest \<Rightarrow> io_error + unit" where
  "manifest_validate m =
     (if mf_schema m \<noteq> release_schema then Inl (InvalidData ''unsupported release manifest schema'')
      else bindE (validate_server_name (mf_server m)) (\<lambda>_.
        if \<not> path_absolute (mf_executable m)
        then Inl (InvalidData ''release executable path must be absolute'')
        else if list_ex (\<lambda>a. CHR 0x00 \<in> set a) (mf_arguments m)
        then Inl (InvalidData ''release arguments cannot contain NUL bytes'')
        else Inr ()))"

definition manifest_try_new ::
    "string \<Rightarrow> release_id \<Rightarrow> release_id \<Rightarrow> path \<Rightarrow> string list \<Rightarrow> compatibility \<Rightarrow> provenance \<Rightarrow>
     io_error + manifest" where
  "manifest_try_new server gen binary executable arguments state provenance =
     (let m = \<lparr>mf_schema = release_schema, mf_server = server, mf_generation = gen,
               mf_binary = binary, mf_executable = executable, mf_arguments = arguments,
               mf_state = state, mf_provenance = provenance\<rparr>
      in bindE (manifest_validate m) (\<lambda>_. Inr m))"

record pointer =
  pt_schema :: u32
  pt_manifest :: path

definition pointer_try_new :: "path \<Rightarrow> io_error + pointer" where
  "pointer_try_new p =
     (if \<not> path_absolute p then Inl (InvalidData ''release manifest path must be absolute'')
      else Inr \<lparr>pt_schema = release_schema, pt_manifest = p\<rparr>)"

definition pointer_validate :: "pointer \<Rightarrow> io_error + unit" where
  "pointer_validate p =
     (if pt_schema p \<noteq> release_schema then Inl (InvalidData ''unsupported release pointer schema'')
      else if \<not> path_absolute (pt_manifest p)
      then Inl (InvalidData ''release manifest path must be absolute'')
      else Inr ())"

section \<open>The operating system\<close>

record os_meta =
  om_is_file :: bool
  om_uid :: u32
  om_mode :: u32
  om_len :: u64
  om_modified :: nat
  om_dev :: u64
  om_ino :: u64

record os_file =
  of_meta :: "io_error + os_meta"
  of_read :: "io_error + byte list"

record raw_provenance =
  rp_repository :: string
  rp_commit :: string
  rp_lock :: string
  rp_rustc :: string
  rp_built_at :: string

record raw_manifest =
  rm_schema :: u32
  rm_server :: string
  rm_generation :: string
  rm_binary :: string
  rm_executable :: string
  rm_arguments :: "string list"
  rm_state :: compatibility
  rm_provenance :: raw_provenance

record release_os =
  os_open :: "path \<Rightarrow> io_error + os_file"
  os_read_any :: "path \<Rightarrow> io_error + byte list"
  os_lstat :: "path \<Rightarrow> io_error + os_meta"
  os_stat :: "path \<Rightarrow> io_error + os_meta"
  os_canonicalize :: "path \<Rightarrow> io_error + path"
  os_uid :: u32
  os_sha256 :: "byte list \<Rightarrow> byte list"
  os_pointer :: "byte list \<Rightarrow> (u32 \<times> string) option"
  os_manifest :: "byte list \<Rightarrow> raw_manifest option"

definition deserialize_manifest :: "raw_manifest \<Rightarrow> io_error + manifest" where
  "deserialize_manifest r =
     bindE (release_id_try_new (rm_generation r)) (\<lambda>gen.
     bindE (release_id_try_new (rm_binary r)) (\<lambda>binary.
     bindE (release_id_try_new (rp_lock (rm_provenance r))) (\<lambda>lock.
       Inr \<lparr>mf_schema = rm_schema r, mf_server = rm_server r, mf_generation = gen,
            mf_binary = binary, mf_executable = path_of (rm_executable r),
            mf_arguments = rm_arguments r, mf_state = rm_state r,
            mf_provenance = \<lparr>pv_repository = path_of (rp_repository (rm_provenance r)),
              pv_commit = rp_commit (rm_provenance r), pv_lock = lock,
              pv_rustc = rp_rustc (rm_provenance r), pv_built_at = rp_built_at (rm_provenance r)\<rparr>\<rparr>)))"

definition decode_pointer :: "release_os \<Rightarrow> byte list \<Rightarrow> io_error + pointer" where
  "decode_pointer os bytes =
     (case os_pointer os bytes of
        None \<Rightarrow> Inl (InvalidData ''invalid release pointer'')
      | Some (schema, p) \<Rightarrow> Inr \<lparr>pt_schema = schema, pt_manifest = path_of p\<rparr>)"

definition decode_manifest :: "release_os \<Rightarrow> byte list \<Rightarrow> io_error + manifest" where
  "decode_manifest os bytes =
     (case Option.bind (os_manifest os bytes) (\<lambda>r. case deserialize_manifest r of
             Inl _ \<Rightarrow> None | Inr m \<Rightarrow> Some m) of
        None \<Rightarrow> Inl (InvalidData ''invalid release manifest'')
      | Some m \<Rightarrow> Inr m)"

definition open_owned_regular :: "release_os \<Rightarrow> path \<Rightarrow> io_error + os_file" where
  "open_owned_regular os p =
     bindE (os_open os p) (\<lambda>file.
     bindE (of_meta file) (\<lambda>meta.
       if \<not> om_is_file meta \<or> om_uid meta \<noteq> os_uid os \<or> om_mode meta AND 18 \<noteq> 0
       then Inl (PermissionDenied
         ''release file must be a user-owned regular file not writable by other principals'')
       else Inr file))"

definition read_private_regular :: "release_os \<Rightarrow> path \<Rightarrow> nat \<Rightarrow> io_error + byte list" where
  "read_private_regular os p max_bytes =
     bindE (open_owned_regular os p) (\<lambda>file.
     bindE (of_meta file) (\<lambda>meta.
       if unat (om_len meta) > max_bytes then Inl (InvalidData ''release metadata exceeds the bound'')
       else bindE (of_read file) (\<lambda>content.
         let bytes = take (usize_saturating_add max_bytes 1) content in
         if length bytes > max_bytes then Inl (InvalidData ''release metadata exceeds the bound'')
         else Inr bytes)))"

definition validate_executable :: "release_os \<Rightarrow> path \<Rightarrow> io_error + unit" where
  "validate_executable os p =
     bindE (os_lstat os p) (\<lambda>meta.
       if \<not> om_is_file meta
       then Inl (PermissionDenied ''release executable must be a regular file, not a symlink'')
       else if om_uid meta \<noteq> os_uid os \<or> om_mode meta AND 18 \<noteq> 0 \<or>
               om_mode meta AND 64 = 0 \<or> om_mode meta AND 3072 \<noteq> 0
       then Inl (PermissionDenied
         ''release executable must be owner-executable, user-owned, and not writable by other principals'')
       else Inr ())"

definition digest_bytes :: "release_os \<Rightarrow> byte list \<Rightarrow> io_error + release_id" where
  "digest_bytes os bytes = release_id_from_digest (os_sha256 os bytes)"

definition digest_file :: "release_os \<Rightarrow> path \<Rightarrow> io_error + release_id" where
  "digest_file os p = bindE (os_read_any os p) (\<lambda>bytes. release_id_from_digest (os_sha256 os bytes))"

section \<open>Selecting and verifying a release\<close>

definition load_release :: "release_os \<Rightarrow> path \<Rightarrow> string \<Rightarrow> io_error + manifest" where
  "load_release os channel expected =
     bindE (validate_server_name expected) (\<lambda>_.
       if \<not> path_absolute channel then Inl (InvalidData ''release channel path must be absolute'')
       else
         bindE (bindE (read_private_regular os channel pointer_max_bytes) (decode_pointer os)) (\<lambda>ptr.
         bindE (pointer_validate ptr) (\<lambda>_.
           case path_parent channel of
             None \<Rightarrow> Inl (InvalidData ''release channel has no parent'')
           | Some root \<Rightarrow>
               bindE (os_canonicalize os (root @ [Normal ''releases''])) (\<lambda>releases.
               bindE (os_canonicalize os (pt_manifest ptr)) (\<lambda>manifest_path.
                 if \<not> prefix releases manifest_path
                 then Inl (PermissionDenied ''release manifest escapes the channel release root'')
                 else
                   bindE (bindE (read_private_regular os manifest_path manifest_max_bytes)
                            (decode_manifest os)) (\<lambda>m.
                   bindE (manifest_validate m) (\<lambda>_.
                     if mf_server m \<noteq> expected
                     then Inl (InvalidData ''release server does not match expected'')
                     else case path_parent manifest_path of
                         None \<Rightarrow> Inl (InvalidData ''release manifest has no parent'')
                       | Some release_dir \<Rightarrow>
                           if path_file_name release_dir \<noteq> Some (id_text (mf_generation m))
                           then Inl (InvalidData ''release directory does not match its generation'')
                           else bindE (os_canonicalize os (mf_executable m)) (\<lambda>executable.
                             if path_parent executable \<noteq> Some release_dir
                             then Inl (PermissionDenied
                               ''release executable is not owned by its immutable release directory'')
                             else bindE (validate_executable os executable) (\<lambda>_. Inr m)))))))))"

definition verify_release :: "release_os \<Rightarrow> manifest \<Rightarrow> io_error + unit" where
  "verify_release os m =
     bindE (open_owned_regular os (mf_executable m)) (\<lambda>file.
     bindE (validate_executable os (mf_executable m)) (\<lambda>_.
     bindE (of_read file) (\<lambda>content.
     bindE (release_id_from_digest (os_sha256 os content)) (\<lambda>observed.
       if observed \<noteq> mf_binary m
       then Inl (InvalidData ''release executable digest does not match'')
       else Inr ()))))"

section \<open>Hexadecimal digests\<close>

definition nibble :: "char \<Rightarrow> byte" where
  "nibble c = (if is_ascii_digit c then of_nat (code c - 48) else of_nat (code c - 87))"

lemma hex_char_all: "list_all (\<lambda>n. hex_digit (hex_char (of_nat n)) \<and> nibble (hex_char (of_nat n)) = of_nat n)
    [0..<16]"
  by code_simp

lemma hex_char_ok:
  assumes "n < 16"
  shows "hex_digit (hex_char n)" and "nibble (hex_char n) = n"
proof -
  have "unat n < 16" using assms by (simp add: word_less_nat_alt)
  then have "unat n \<in> set [0..<16]" by simp
  from hex_char_all [unfolded list_all_iff, rule_format, OF this]
  show "hex_digit (hex_char n)" "nibble (hex_char n) = n" by simp_all
qed

lemma nibbles:
  fixes b :: byte
  shows "drop_bit 4 b < 16" and "b AND 15 < 16"
proof -
  have "unat (drop_bit 4 b) = unat b div 16" by (simp add: drop_bit_eq_div unat_div_distrib)
  moreover have "unat b < 256" using unsigned_less [of b] by simp
  ultimately show "drop_bit 4 b < 16" by (simp add: word_less_nat_alt)
  have "b AND 15 = b AND mask 4" by (simp add: mask_eq_exp_minus_1)
  also have "\<dots> = take_bit 4 b" by (simp add: take_bit_eq_mask)
  also have "unat (take_bit 4 b) < 16" by (simp add: take_bit_eq_mod unat_mod_distrib)
  finally show "b AND 15 < 16" by (simp add: word_less_nat_alt)
qed

lemma nibbles_join:
  fixes b :: byte
  shows "push_bit 4 (drop_bit 4 b) OR (b AND 15) = b"
proof -
  have "b AND 15 = take_bit 4 b" by (simp add: take_bit_eq_mask mask_eq_exp_minus_1)
  then show ?thesis by (auto intro!: bit_word_eqI simp: bit_simps)
qed

fun hex_bytes :: "string \<Rightarrow> byte list" where
  "hex_bytes (h # l # cs) = (push_bit 4 (nibble h) OR nibble l) # hex_bytes cs"
| "hex_bytes _ = []"

lemma hex_bytes_text: "hex_bytes (hex_text bs) = bs"
  by (induction bs) (simp_all add: hex_char_ok nibbles nibbles_join)

lemma hex_text_ok: "length (hex_text bs) = 2 * length bs" "list_all hex_digit (hex_text bs)"
  by (induction bs) (simp_all add: hex_char_ok nibbles)

lemma digest_id: "length d = 32 \<Longrightarrow> release_id_from_digest d = Inr (ReleaseId (hex_text d))"
  by (simp add: release_id_from_digest_def release_id_try_new_def hex_text_ok)

text \<open>
  A digest names its release exactly: every 32-byte digest gets an identity, the
  identity is one that \<open>try_new\<close> accepts, and equal identities mean equal digests.
\<close>

theorem digest_identity_exact:
  assumes "length d = 32" and "length d' = 32"
  shows "(\<exists>i. release_id_from_digest d = Inr i \<and> release_id_try_new (id_text i) = Inr i) \<and>
    (release_id_from_digest d = release_id_from_digest d' \<longleftrightarrow> d = d')"
proof
  show "\<exists>i. release_id_from_digest d = Inr i \<and> release_id_try_new (id_text i) = Inr i"
    using assms by (simp add: digest_id release_id_try_new_def hex_text_ok)
  show "release_id_from_digest d = release_id_from_digest d' \<longleftrightarrow> d = d'"
    using assms hex_bytes_text by (metis digest_id release_id.inject sum.inject(2))
qed

theorem digest_identity_exact_witness:
  "release_id_from_digest (replicate 32 1) \<noteq> release_id_from_digest (replicate 32 2)"
  using digest_identity_exact [of "replicate 32 1" "replicate 32 2"] by simp

section \<open>What the checks establish\<close>

definition owned_private :: "release_os \<Rightarrow> os_meta \<Rightarrow> bool" where
  "owned_private os meta \<longleftrightarrow>
     om_is_file meta \<and> om_uid meta = os_uid os \<and> om_mode meta AND 18 = 0"

definition runnable :: "release_os \<Rightarrow> path \<Rightarrow> bool" where
  "runnable os p \<longleftrightarrow> (\<exists>meta. os_lstat os p = Inr meta \<and> owned_private os meta \<and>
     om_mode meta AND 64 \<noteq> 0 \<and> om_mode meta AND 3072 = 0)"

lemma open_owned_Inr:
  "open_owned_regular os p = Inr file \<longleftrightarrow>
     os_open os p = Inr file \<and> (\<exists>meta. of_meta file = Inr meta \<and> owned_private os meta)"
  by (auto simp: open_owned_regular_def bindE_Inr_iff owned_private_def)

lemma validate_executable_Inr: "validate_executable os p = Inr u \<longleftrightarrow> runnable os p"
  by (auto simp: validate_executable_def bindE_Inr_iff runnable_def owned_private_def)

lemma path_parent_Some: "path_parent p = Some d \<Longrightarrow> \<exists>c. p = d @ [c]"
  by (auto simp: path_parent_def split: if_splits) (metis append_butlast_last_id)

lemma digest_id_Inr:
  "release_id_from_digest d = Inr i \<longleftrightarrow> length d = 32 \<and> i = ReleaseId (hex_text d)"
  by (auto simp: release_id_from_digest_def release_id_try_new_def hex_text_ok)

lemma load_release_steps:
  assumes "load_release os channel server = Inr m"
  obtains root releases manifest_path release_dir executable where
    "path_parent channel = Some root" "os_canonicalize os (root @ [Normal ''releases'']) = Inr releases"
    "prefix releases manifest_path" "path_parent manifest_path = Some release_dir"
    "path_file_name release_dir = Some (id_text (mf_generation m))"
    "os_canonicalize os (mf_executable m) = Inr executable"
    "path_parent executable = Some release_dir" "runnable os executable"
    "manifest_validate m = Inr ()" "mf_server m = server"
  using assms unfolding load_release_def
  by (auto simp: bindE_Inr_iff validate_executable_Inr split: if_splits option.splits)

section \<open>A sample depot\<close>

definition sample_digits :: string where "sample_digits = replicate 64 CHR ''0''"

definition sample_channel :: path where "sample_channel = [RootDir, Normal ''c'', Normal ''stable'']"

definition sample_dir :: path where
  "sample_dir = [RootDir, Normal ''c'', Normal ''releases'', Normal sample_digits]"

definition sample_text :: "string \<Rightarrow> string" where
  "sample_text f = ''/c/releases/'' @ sample_digits @ CHR ''/'' # f"

definition sample_depot :: "compatibility \<Rightarrow> release_os" where
  "sample_depot state =
     (let meta = \<lparr>om_is_file = True, om_uid = 0, om_mode = 448, om_len = 1, om_modified = 0,
                  om_dev = 0, om_ino = 0\<rparr>;
          file = (\<lambda>content. Inr \<lparr>of_meta = Inr meta, of_read = Inr content\<rparr>)
      in \<lparr>os_open = (\<lambda>p. if p = sample_channel then file [1]
                       else if p = sample_dir @ [Normal ''manifest''] then file [2]
                       else if p = sample_dir @ [Normal ''server''] then file [3] else Inl NotFound),
          os_read_any = (\<lambda>_. Inl NotFound), os_lstat = (\<lambda>_. Inr meta), os_stat = (\<lambda>_. Inr meta),
          os_canonicalize = Inr, os_uid = 0, os_sha256 = (\<lambda>_. replicate 32 0),
          os_pointer = (\<lambda>_. Some (1, sample_text ''manifest'')),
          os_manifest = (\<lambda>_. Some \<lparr>rm_schema = 1, rm_server = ''server'', rm_generation = sample_digits,
            rm_binary = sample_digits, rm_executable = sample_text ''server'',
            rm_arguments = [], rm_state = state, rm_provenance = \<lparr>rp_repository = ''/r'',
              rp_commit = replicate 40 CHR ''0'', rp_lock = sample_digits, rp_rustc = ''r'',
              rp_built_at = ''b''\<rparr>\<rparr>)\<rparr>)"

definition sample_release :: "compatibility \<Rightarrow> manifest" where
  "sample_release state =
     \<lparr>mf_schema = 1, mf_server = ''server'', mf_generation = ReleaseId sample_digits,
      mf_binary = ReleaseId sample_digits, mf_executable = sample_dir @ [Normal ''server''],
      mf_arguments = [], mf_state = state,
      mf_provenance = \<lparr>pv_repository = [RootDir, Normal ''r''], pv_commit = replicate 40 CHR ''0'',
        pv_lock = ReleaseId sample_digits, pv_rustc = ''r'', pv_built_at = ''b''\<rparr>\<rparr>"

lemma sample_paths:
  "path_of (sample_text ''manifest'') = sample_dir @ [Normal ''manifest'']"
  "path_of (sample_text ''server'') = sample_dir @ [Normal ''server'']"
  "path_of ''/r'' = [RootDir, Normal ''r'']"
  by code_simp+

lemma sample_ids:
  "release_id_try_new sample_digits = Inr (ReleaseId sample_digits)"
  "hex_text (replicate 32 0) = sample_digits"
  by code_simp+

lemma sample_server: "validate_server_name ''server'' = Inr ()"
  by code_simp

lemmas sample_simps = sample_depot_def sample_release_def Let_def sample_paths sample_ids sample_server
  bindE_simps usize_saturating_add_def usize_max_def

lemma sample_pointer:
  "bindE (read_private_regular (sample_depot state) sample_channel pointer_max_bytes)
     (decode_pointer (sample_depot state)) = Inr \<lparr>pt_schema = 1, pt_manifest = sample_dir @ [Normal ''manifest'']\<rparr>"
  by (simp add: sample_simps read_private_regular_def open_owned_regular_def decode_pointer_def
      pointer_max_bytes_def)

lemma sample_manifest:
  "bindE (read_private_regular (sample_depot state) (sample_dir @ [Normal ''manifest'']) manifest_max_bytes)
     (decode_manifest (sample_depot state)) = Inr (sample_release state)"
  by (simp add: sample_simps read_private_regular_def open_owned_regular_def decode_manifest_def
      manifest_max_bytes_def deserialize_manifest_def sample_channel_def sample_dir_def)

lemma sample_runnable: "validate_executable (sample_depot state) p = Inr ()"
  by (simp add: sample_simps validate_executable_def)

lemma sample_dir_simps:
  "path_parent (sample_dir @ [Normal f]) = Some sample_dir"
  "path_file_name sample_dir = Some sample_digits"
  "path_absolute (sample_dir @ p)"
  "prefix [RootDir, Normal ''c'', Normal ''releases''] sample_dir"
  "prefix [RootDir, Normal ''c'', Normal ''releases''] (sample_dir @ p)"
  "path_parent sample_channel = Some [RootDir, Normal ''c'']"
  "path_absolute sample_channel"
  by (simp_all add: sample_dir_def sample_channel_def path_parent_def path_file_name_def path_absolute_def)

lemma sample_load: "load_release (sample_depot state) sample_channel ''server'' = Inr (sample_release state)"
proof -
  have valid: "manifest_validate (sample_release state) = Inr ()"
    by (simp add: manifest_validate_def sample_simps release_schema_def sample_dir_simps)
  have canonical: "os_canonicalize (sample_depot state) = Inr" by (simp add: sample_depot_def Let_def)
  have fields: "mf_server (sample_release state) = ''server''"
    "mf_generation (sample_release state) = ReleaseId sample_digits"
    "mf_executable (sample_release state) = sample_dir @ [Normal ''server'']"
    by (simp_all add: sample_release_def)
  show ?thesis
    unfolding load_release_def sample_pointer sample_server
    by (simp add: sample_manifest valid canonical fields sample_runnable pointer_validate_def
        release_schema_def sample_dir_simps)
qed

lemma sample_verify: "verify_release (sample_depot state) (sample_release state) = Inr ()"
proof -
  have "mf_executable (sample_release state) = sample_dir @ [Normal ''server'']"
    "mf_binary (sample_release state) = ReleaseId sample_digits"
    by (simp_all add: sample_release_def)
  moreover have "open_owned_regular (sample_depot state) (sample_dir @ [Normal ''server'']) =
      Inr \<lparr>of_meta = os_lstat (sample_depot state) [], of_read = Inr [3]\<rparr>"
    by (simp add: open_owned_regular_def sample_simps sample_channel_def sample_dir_def)
  moreover have "os_sha256 (sample_depot state) bytes = replicate 32 0" for bytes
    by (simp add: sample_depot_def Let_def)
  ultimately show ?thesis
    by (simp add: verify_release_def sample_runnable release_id_from_digest_def sample_ids)
qed

text \<open>
  C25. A release that loads is confined: it names the expected server, its manifest lies
  under the channel's own release root in a directory named by its generation, and its
  executable, links resolved, lies directly in that directory, is owned by the user,
  runnable by the owner, writable by nobody else and not set-id.
\<close>

theorem loaded_release_confined:
  assumes "load_release os channel server = Inr m"
  shows "\<exists>root releases dir executable.
    path_parent channel = Some root \<and>
    os_canonicalize os (root @ [Normal ''releases'']) = Inr releases \<and>
    os_canonicalize os (mf_executable m) = Inr executable \<and>
    path_parent executable = Some dir \<and> runnable os executable \<and>
    path_file_name dir = Some (id_text (mf_generation m)) \<and>
    (\<exists>name. prefix releases (dir @ [name])) \<and>
    mf_server m = server \<and> manifest_validate m = Inr ()"
proof -
  from assms obtain root releases manifest_path dir executable where *:
    "path_parent channel = Some root" "os_canonicalize os (root @ [Normal ''releases'']) = Inr releases"
    "prefix releases manifest_path" "path_parent manifest_path = Some dir"
    "path_file_name dir = Some (id_text (mf_generation m))"
    "os_canonicalize os (mf_executable m) = Inr executable"
    "path_parent executable = Some dir" "runnable os executable"
    "manifest_validate m = Inr ()" "mf_server m = server"
    by (rule load_release_steps)
  from path_parent_Some [OF *(4)] *(3) have "\<exists>name. prefix releases (dir @ [name])" by auto
  with * show ?thesis by blast
qed

theorem loaded_release_confined_witness:
  "\<exists>dir executable. path_parent executable = Some dir \<and>
     path_file_name dir = Some sample_digits \<and> runnable (sample_depot StatelessState) executable"
  using loaded_release_confined [OF sample_load [of StatelessState]]
  by (auto simp: sample_release_def)

text \<open>
  Verification pins the content: a release verifies exactly when its executable can
  be opened without following a link, is a private regular file and runnable, and the
  SHA-256 of what is read from it is the digest the manifest records.
\<close>

theorem verify_release_exact:
  "verify_release os m = Inr () \<longleftrightarrow>
     (\<exists>file meta content. os_open os (mf_executable m) = Inr file \<and> of_meta file = Inr meta \<and>
        owned_private os meta \<and> runnable os (mf_executable m) \<and> of_read file = Inr content \<and>
        length (os_sha256 os content) = 32 \<and>
        hex_text (os_sha256 os content) = id_text (mf_binary m))"
proof -
  have "ReleaseId t = i \<longleftrightarrow> t = id_text i" for t i by (cases i) auto
  then show ?thesis
    by (auto simp: verify_release_def bindE_Inr_iff open_owned_Inr validate_executable_Inr digest_id_Inr)
qed

text \<open>
  A loaded contract can contradict its constructor: \<open>versioned\<close> refuses a release
  that cannot read the state it writes, but decoding a manifest does not check it, so a
  release that does not even accept itself loads and verifies.
\<close>

theorem loaded_state_unchecked:
  "(case versioned rs w of Inl _ \<Rightarrow> w \<notin> set rs | Inr c \<Rightarrow> accepts c c) \<and>
   (\<exists>os m. load_release os sample_channel ''server'' = Inr m \<and> verify_release os m = Inr () \<and>
      mf_state m = Versioned {1} 2 \<and> \<not> accepts (mf_state m) (mf_state m))"
proof
  show "case versioned rs w of Inl _ \<Rightarrow> w \<notin> set rs | Inr c \<Rightarrow> accepts c c"
    by (simp add: versioned_def accepts_def)
  show "\<exists>os m. load_release os sample_channel ''server'' = Inr m \<and> verify_release os m = Inr () \<and>
      mf_state m = Versioned {1} 2 \<and> \<not> accepts (mf_state m) (mf_state m)"
    by (intro exI [of _ "sample_depot (Versioned {1} 2)"] exI [of _ "sample_release (Versioned {1} 2)"]
        conjI sample_load sample_verify) (simp_all add: sample_release_def accepts_def)
qed

end
