(* ===== verification/Ops.thy ===== *)
theory Ops
  imports Prelude
begin

text \<open>
  Operations on a state with an error result, composed as the code composes them:
  \<open>bindO\<close> is \<open>?\<close> in a method on \<open>&mut self\<close> (an error stops, the state it leaves
  stays), \<open>catchO\<close> is \<open>if let Err(..) = ..\<close>. \<open>leaves I r\<close> says that the state a
  result comes with satisfies \<open>I\<close>, on the error branch too; its rules are the
  collection \<open>leaves_rules\<close>, which the components extend with one rule per operation.
\<close>

definition retO :: "'a \<Rightarrow> ('s, 'e, 'a) op" where
  "retO a s = (Inr a, s)"

definition failO :: "'e \<Rightarrow> ('s, 'e, 'a) op" where
  "failO e s = (Inl e, s)"

definition bindO :: "('s, 'e, 'a) op \<Rightarrow> ('a \<Rightarrow> ('s, 'e, 'b) op) \<Rightarrow> ('s, 'e, 'b) op" where
  "bindO m f s = (case m s of (Inl e, s') \<Rightarrow> (Inl e, s') | (Inr a, s') \<Rightarrow> f a s')"

definition catchO :: "('s, 'e, 'a) op \<Rightarrow> ('e \<Rightarrow> ('s, 'e, 'a) op) \<Rightarrow> ('s, 'e, 'a) op" where
  "catchO m h s = (case m s of (Inl e, s') \<Rightarrow> h e s' | (Inr a, s') \<Rightarrow> (Inr a, s'))"

definition modO :: "('s \<Rightarrow> 's) \<Rightarrow> ('s, 'e, unit) op" where
  "modO f s = (Inr (), f s)"

definition liftO :: "'e + 'a \<Rightarrow> ('s, 'e, 'a) op" where
  "liftO r s = (r, s)"

lemma op_simps [simp]:
  "retO a s = (Inr a, s)" "failO e s = (Inl e, s)" "modO f s = (Inr (), f s)" "liftO r s = (r, s)"
  by (simp_all add: retO_def failO_def modO_def liftO_def)

lemma bindO_simps [simp]:
  "m s = (Inl e, s') \<Longrightarrow> bindO m f s = (Inl e, s')"
  "m s = (Inr a, s') \<Longrightarrow> bindO m f s = f a s'"
  by (simp_all add: bindO_def)

lemma catchO_simps [simp]:
  "m s = (Inl e, s') \<Longrightarrow> catchO m h s = h e s'"
  "m s = (Inr a, s') \<Longrightarrow> catchO m h s = (Inr a, s')"
  by (simp_all add: catchO_def)

lemma bindO_pure [simp]:
  "bindO (retO a) f s = f a s" "bindO (failO e) f1 s = (Inl e, s)" "bindO (modO g) f2 s = f2 () (g s)"
  "bindO (liftO r) f3 s = (case r of Inl e \<Rightarrow> (Inl e, s) | Inr b \<Rightarrow> f3 b s)"
  by (simp_all add: bindO_def split: sum.split)

lemma bindO_assoc: "bindO (bindO m f) g = bindO m (\<lambda>a. bindO (f a) g)"
  by (auto simp: bindO_def fun_eq_iff split: prod.split sum.split)

section \<open>What an operation leaves\<close>

definition leaves :: "('s \<Rightarrow> bool) \<Rightarrow> ('e + 'a) \<times> 's \<Rightarrow> bool" where
  "leaves I r \<longleftrightarrow> I (snd r)"

named_theorems leaves_rules "one rule per operation: what it leaves, from what it finds"

lemma leaves_pair [simp]: "leaves I (r, s) = I s"
  by (simp add: leaves_def)

lemma leavesD: "leaves I r \<Longrightarrow> I (snd r)"
  by (simp add: leaves_def)

lemma leaves_result: "leaves I (m s) \<Longrightarrow> m s = (r, s') \<Longrightarrow> I s'"
  by (simp add: leaves_def)

lemma leaves_bind [leaves_rules]:
  assumes "leaves I (m s)" and "\<And>a s'. m s = (Inr a, s') \<Longrightarrow> I s' \<Longrightarrow> leaves I (f a s')"
  shows "leaves I (bindO m f s)"
proof (cases "m s")
  case (Pair r t)
  with assms show ?thesis by (cases r) auto
qed

lemma leaves_catch [leaves_rules]:
  assumes "leaves I (m s)" and "\<And>e s'. m s = (Inl e, s') \<Longrightarrow> I s' \<Longrightarrow> leaves I (h e s')"
  shows "leaves I (catchO m h s)"
proof (cases "m s")
  case (Pair r t)
  with assms show ?thesis by (cases r) auto
qed

lemma leaves_if [leaves_rules]:
  "(c \<Longrightarrow> leaves I x) \<Longrightarrow> (\<not> c \<Longrightarrow> leaves I y) \<Longrightarrow> leaves I (if c then x else y)"
  by simp

lemma leaves_option [leaves_rules]:
  "(v = None \<Longrightarrow> leaves I x) \<Longrightarrow> (\<And>a. v = Some a \<Longrightarrow> leaves I (f a)) \<Longrightarrow>
     leaves I (case v of None \<Rightarrow> x | Some a \<Rightarrow> f a)"
  by (cases v) auto

lemma leaves_sum [leaves_rules]:
  "(\<And>e. v = Inl e \<Longrightarrow> leaves I (f e)) \<Longrightarrow> (\<And>a. v = Inr a \<Longrightarrow> leaves I (g a)) \<Longrightarrow>
     leaves I (case v of Inl e \<Rightarrow> f e | Inr a \<Rightarrow> g a)"
  by (cases v) auto

lemma leaves_if_op [leaves_rules]:
  "(c \<Longrightarrow> leaves I (m s)) \<Longrightarrow> (\<not> c \<Longrightarrow> leaves I (n s)) \<Longrightarrow> leaves I ((if c then m else n) s)"
  by simp

lemma leaves_option_op [leaves_rules]:
  "(v = None \<Longrightarrow> leaves I (m s)) \<Longrightarrow> (\<And>a. v = Some a \<Longrightarrow> leaves I (f a s)) \<Longrightarrow>
     leaves I ((case v of None \<Rightarrow> m | Some a \<Rightarrow> f a) s)"
  by (cases v) auto

lemma leaves_sum_op [leaves_rules]:
  "(\<And>e. v = Inl e \<Longrightarrow> leaves I (f e s)) \<Longrightarrow> (\<And>a. v = Inr a \<Longrightarrow> leaves I (g a s)) \<Longrightarrow>
     leaves I ((case v of Inl e \<Rightarrow> f e | Inr a \<Rightarrow> g a) s)"
  by (cases v) auto

section \<open>What an operation raises\<close>

definition raises :: "('e \<Rightarrow> bool) \<Rightarrow> ('e + 'a) \<times> 's \<Rightarrow> bool" where
  "raises G r \<longleftrightarrow> (case fst r of Inl e \<Rightarrow> G e | Inr _ \<Rightarrow> True)"

named_theorems raises_rules "one rule per operation: the errors it can end in"

lemma raises_pair [simp]: "raises G (Inl e, s) = G e" "raises G (Inr a, s)"
  by (simp_all add: raises_def)

lemma raises_error: "raises G (m s) \<Longrightarrow> m s = (Inl e, s') \<Longrightarrow> G e"
  by (simp add: raises_def)

lemma raises_bind [raises_rules]:
  assumes "raises G (m s)" and "\<And>a s'. m s = (Inr a, s') \<Longrightarrow> raises G (f a s')"
  shows "raises G (bindO m f s)"
proof (cases "m s")
  case (Pair r t)
  with assms show ?thesis by (cases r) (auto simp: raises_def)
qed

lemma raises_catch [raises_rules]:
  assumes "\<And>e s'. raises G (h e s')"
  shows "raises G (catchO m h s)"
proof (cases "m s")
  case (Pair r t)
  with assms show ?thesis by (cases r) auto
qed

lemma raises_if [raises_rules]:
  "(c \<Longrightarrow> raises G x) \<Longrightarrow> (\<not> c \<Longrightarrow> raises G y) \<Longrightarrow> raises G (if c then x else y)"
  by simp

lemma raises_option [raises_rules]:
  "(v = None \<Longrightarrow> raises G x) \<Longrightarrow> (\<And>a. v = Some a \<Longrightarrow> raises G (f a)) \<Longrightarrow>
     raises G (case v of None \<Rightarrow> x | Some a \<Rightarrow> f a)"
  by (cases v) auto

lemma raises_option_op [raises_rules]:
  "(v = None \<Longrightarrow> raises G (m s)) \<Longrightarrow> (\<And>a. v = Some a \<Longrightarrow> raises G (f a s)) \<Longrightarrow>
     raises G ((case v of None \<Rightarrow> m | Some a \<Rightarrow> f a) s)"
  by (cases v) auto

text \<open>
  An operation with an invariant and what it returns from there: the interface a loop or
  a caller relies on when it knows an operation by its contract only.
\<close>

locale op_contract =
  fixes m :: "('s, 'e, 'a) op" and inv :: "'s \<Rightarrow> bool" and good :: "'e \<Rightarrow> bool"
  assumes leaves_inv: "inv s \<Longrightarrow> leaves inv (m s)"
    and raises_good: "inv s \<Longrightarrow> raises good (m s)"
begin

lemma bind_inv: "inv s \<Longrightarrow> (\<And>a s'. inv s' \<Longrightarrow> leaves inv (f a s')) \<Longrightarrow> leaves inv (bindO m f s)"
  by (rule leaves_bind [OF leaves_inv])

lemma bind_raises:
  assumes "inv s" and "\<And>a s'. inv s' \<Longrightarrow> raises good (f a s')"
  shows "raises good (bindO m f s)"
proof (rule raises_bind)
  show "raises good (m s)" by (rule raises_good) (rule assms(1))
next
  fix a s' assume "m s = (Inr a, s')"
  with leaves_inv [OF assms(1)] have "inv s'" by simp
  then show "raises good (f a s')" by (rule assms(2))
qed

lemma error_good: "inv s \<Longrightarrow> m s = (Inl e, s') \<Longrightarrow> good e"
  using raises_good [of s] by simp

end

end
