(* ===== verification/Supervisor.thy ===== *)
theory Supervisor
  imports Host Effect Release Ops
begin

text \<open>
  The supervisor (\<open>supervisor.rs\<close>), first half: its state, the session journal, and the
  operations the event handlers are made of.

  The host talks to the outside through a few calls: it writes a frame to the public
  output, sends a frame to a worker's command channel, verifies and spawns a release, and
  reads the clock. What each call answers is the environment's choice, \<open>env\<close>, indexed
  by the number of calls made so far (\<open>sv_calls\<close>); what the host did is appended to
  \<open>sv_log\<close>. So a theorem for all \<open>env\<close> covers every failure of every call. A full
  command channel makes the code wait; the model goes on when it has room. Diagnostics on
  the error stream are left out, and with them the texts they print.
\<close>

section \<open>The state\<close>

datatype sup_error = SupIo io_error | SupContract string | SupSession rejection | SupJson

datatype 'n effect = WroteValue "'n json" | WroteFrame "byte list" | Sent u64 "byte list"
  | Spawned u64 manifest | Killed u64

record env =
  e_os :: "nat \<Rightarrow> release_os"
  e_spawn :: "nat \<Rightarrow> sup_error option"
  e_send :: "nat \<Rightarrow> bool"
  e_write :: "nat \<Rightarrow> io_error option"
  e_now :: "nat \<Rightarrow> nat"
  e_error_text :: "frame_error \<Rightarrow> string"

record 'n worker_handle =
  wh_token :: u64
  wh_release :: manifest
  wh_catalog :: "'n tool_catalog option"

datatype candidate_purpose = Rollover | Recovery

datatype candidate_stage = CandidateInitializing | CandidateCatalog | CandidateReady
  | CandidateRestoring

record 'n candidate =
  cd_worker :: "'n worker_handle"
  cd_purpose :: candidate_purpose
  cd_stage :: candidate_stage
  cd_deadline :: "nat option"

datatype rollover_phase = PhaseNone | AwaitingCatalogRefresh | Draining | Recovering

datatype internal_action = ActiveCatalog | InitializeCandidate | CatalogOfCandidate
  | RestoreJournal nat

record internal_request =
  ir_worker :: u64
  ir_action :: internal_action

record 'n callback_route =
  cr_worker :: u64
  cr_original :: "'n request_id"

record 'n journal_entry =
  je_key :: string
  je_frame :: "'n frame"

record 'n session_journal =
  sj_entries :: "'n journal_entry list"
  sj_bytes :: nat
  sj_pinned :: bool
  sj_checkpointed :: bool

record config =
  cf_server :: string
  cf_channel :: path
  cf_initial :: manifest
  cf_overrides :: "string list"
  cf_frame_limit :: nat

record 'n supervisor =
  sv_config :: config
  sv_kernel :: "'n kernel"
  sv_active :: "'n worker_handle option"
  sv_candidate :: "'n candidate option"
  sv_published :: "'n tool_catalog option"
  sv_internal :: "('n request_id \<times> internal_request) list"
  sv_callbacks :: "('n request_id \<times> 'n callback_route) list"
  sv_journal :: "'n session_journal"
  sv_phase :: rollover_phase
  sv_next_worker :: u64
  sv_next_internal :: u64
  sv_next_callback :: u64
  sv_retry_at :: "nat option"
  sv_recovery_release :: manifest
  sv_rejected :: "release_id option"
  sv_refresh :: "'n frame option"
  sv_calls :: nat
  sv_log :: "'n effect list"

type_synonym ('n, 'a) sop = "('n supervisor, sup_error, 'a) op"

definition queue_capacity :: nat where "queue_capacity = 128"
definition pending_capacity :: nat where "pending_capacity = 128"
definition journal_max_entries :: nat where "journal_max_entries = 32"
definition journal_max_bytes :: nat where "journal_max_bytes = 1024 * 1024"
definition max_replay_attempts :: u8 where "max_replay_attempts = 1"
definition candidate_timeout :: nat where "candidate_timeout = 15000"
definition catalog_refresh_grace :: nat where "catalog_refresh_grace = 1000"
definition recovery_backoff :: nat where "recovery_backoff = 1000"

definition default_frame_limit :: nat where "default_frame_limit = 8 * 1024 * 1024"

definition config_try_new ::
    "release_os \<Rightarrow> string \<Rightarrow> path \<Rightarrow> manifest \<Rightarrow> string list \<Rightarrow> sup_error + config" where
  "config_try_new os server channel initial overrides =
     (if server = [] \<or> mf_server initial \<noteq> server
      then Inl (SupContract ''supervisor server and initial release disagree'')
      else if \<not> path_absolute channel
      then Inl (SupContract ''supervisor release channel must be absolute'')
      else case verify_release os initial of
          Inl e \<Rightarrow> Inl (SupIo e)
        | Inr _ \<Rightarrow> Inr \<lparr>cf_server = server, cf_channel = channel, cf_initial = initial,
                        cf_overrides = overrides, cf_frame_limit = default_frame_limit\<rparr>)"

definition with_frame_limit :: "nat \<Rightarrow> config \<Rightarrow> config" where
  "with_frame_limit n c = c\<lparr>cf_frame_limit := n\<rparr>"

definition new_supervisor :: "config \<Rightarrow> 'n supervisor" where
  "new_supervisor c =
     \<lparr>sv_config = c, sv_kernel = cold, sv_active = None, sv_candidate = None,
      sv_published = None, sv_internal = [], sv_callbacks = [],
      sv_journal = \<lparr>sj_entries = [], sj_bytes = 0, sj_pinned = False, sj_checkpointed = False\<rparr>,
      sv_phase = PhaseNone, sv_next_worker = 0, sv_next_internal = 0, sv_next_callback = 0,
      sv_retry_at = None, sv_recovery_release = cf_initial c, sv_rejected = None,
      sv_refresh = None, sv_calls = 0, sv_log = []\<rparr>"

section \<open>The session journal\<close>

definition entry_bytes :: "'n journal_entry \<Rightarrow> nat" where
  "entry_bytes e = length (fr_payload (je_frame e))"

fun journal_take :: "string \<Rightarrow> 'n journal_entry list \<Rightarrow> ('n journal_entry \<times> 'n journal_entry list) option" where
  "journal_take key [] = None"
| "journal_take key (e # es) =
     (if je_key e = key then Some (e, es)
      else map_option (\<lambda>(x, rest). (x, e # rest)) (journal_take key es))"

definition journal_drop :: "string \<Rightarrow> 'n session_journal \<Rightarrow> 'n session_journal" where
  "journal_drop key j =
     (case journal_take key (sj_entries j) of
        None \<Rightarrow> j
      | Some (e, rest) \<Rightarrow> j\<lparr>sj_entries := rest, sj_bytes := sj_bytes j - entry_bytes e\<rparr>)"

definition journal_record :: "string \<Rightarrow> 'n frame \<Rightarrow> ('n session_journal, sup_error, unit) op" where
  "journal_record key f j =
     (let j1 = journal_drop key j in
      case usize_checked_add (sj_bytes j1) (length (fr_payload f)) of
        None \<Rightarrow> (Inl (SupContract ''session journal size overflow''), j1)
      | Some next_bytes \<Rightarrow>
          if length (sj_entries j1) \<ge> journal_max_entries \<or> next_bytes > journal_max_bytes
          then (Inl (SupContract ''session journal capacity exhausted''), j1)
          else (Inr (), j1\<lparr>sj_bytes := next_bytes,
                           sj_entries := sj_entries j1 @ [\<lparr>je_key = key, je_frame = f\<rparr>]\<rparr>))"

section \<open>Calls to the outside\<close>

definition ask :: "(nat \<Rightarrow> 'a) \<Rightarrow> ('n, 'a) sop" where
  "ask q s = (Inr (q (sv_calls s)), s\<lparr>sv_calls := Suc (sv_calls s)\<rparr>)"

definition record_effect :: "'n effect \<Rightarrow> 'n supervisor \<Rightarrow> 'n supervisor" where
  "record_effect e s = s\<lparr>sv_log := sv_log s @ [e]\<rparr>"

definition emit :: "env \<Rightarrow> 'n effect \<Rightarrow> byte list \<Rightarrow> ('n, unit) sop" where
  "emit E eff payload s =
     (case validate_frame_payload payload (cf_frame_limit (sv_config s)) of
        Inl e \<Rightarrow> (Inl (SupIo e), s)
      | Inr _ \<Rightarrow> bindO (ask (e_write E)) (\<lambda>io. case io of
            Some e \<Rightarrow> failO (SupIo e)
          | None \<Rightarrow> modO (record_effect eff)) s)"

definition serialize :: "'n extern \<Rightarrow> 'n json \<Rightarrow> sup_error + byte list" where
  "serialize X v = (case x_to_vec X v of None \<Rightarrow> Inl SupJson | Some bytes \<Rightarrow> Inr bytes)"

definition write_value :: "'n extern \<Rightarrow> env \<Rightarrow> 'n json \<Rightarrow> ('n, unit) sop" where
  "write_value X E v s = bindO (liftO (serialize X v)) (emit E (WroteValue v)) s"

definition send_handle :: "env \<Rightarrow> 'n worker_handle \<Rightarrow> byte list \<Rightarrow> ('n, unit) sop" where
  "send_handle E w payload s =
     bindO (ask (e_send E)) (\<lambda>open. if open then modO (record_effect (Sent (wh_token w) payload))
       else failO (SupContract ''worker command channel closed'')) s"

definition kill :: "'n worker_handle \<Rightarrow> 'n supervisor \<Rightarrow> 'n supervisor" where
  "kill w s = record_effect (Killed (wh_token w)) s"

definition spawn_worker :: "env \<Rightarrow> manifest \<Rightarrow> ('n, 'n worker_handle) sop" where
  "spawn_worker E release s =
     bindO (ask (e_os E)) (\<lambda>os s.
       case verify_release os release of
         Inl e \<Rightarrow> (Inl (SupIo e), s)
       | Inr _ \<Rightarrow>
           (case checked_add (sv_next_worker s) 1 of
              None \<Rightarrow> (Inl (SupContract ''worker identity exhausted''), s)
            | Some token \<Rightarrow>
                bindO (ask (e_spawn E)) (\<lambda>r. case r of
                    Some e \<Rightarrow> failO e
                  | None \<Rightarrow>
                      bindO (modO (record_effect (Spawned token release)))
                        (\<lambda>_. retO \<lparr>wh_token = token, wh_release = release, wh_catalog = None\<rparr>))
                  (s\<lparr>sv_next_worker := token\<rparr>))) s"

section \<open>Routing\<close>

definition active_token :: "'n supervisor \<Rightarrow> u64 option" where
  "active_token s = map_option wh_token (sv_active s)"

definition candidate_token :: "'n supervisor \<Rightarrow> u64 option" where
  "candidate_token s = map_option (wh_token \<circ> cd_worker) (sv_candidate s)"

definition active_callbacks :: "'n supervisor \<Rightarrow> nat" where
  "active_callbacks s =
     length (filter (\<lambda>(_, route). Some (cr_worker route) = active_token s) (sv_callbacks s))"

definition gating_new_work :: "'n supervisor \<Rightarrow> bool" where
  "gating_new_work s \<longleftrightarrow> sv_phase s = Draining \<or> sv_phase s = Recovering"

definition send_active :: "env \<Rightarrow> byte list \<Rightarrow> ('n, unit) sop" where
  "send_active E payload s =
     (case sv_active s of
        None \<Rightarrow> (Inl (SupContract ''active worker is absent''), s)
      | Some w \<Rightarrow> send_handle E w payload s)"

definition send_worker :: "env \<Rightarrow> u64 \<Rightarrow> byte list \<Rightarrow> ('n, unit) sop" where
  "send_worker E token payload s =
     (case sv_active s of
        Some w \<Rightarrow> if wh_token w = token then send_handle E w payload s
                  else (case sv_candidate s of
                          Some c \<Rightarrow> if wh_token (cd_worker c) = token
                                    then send_handle E (cd_worker c) payload s
                                    else (Inl (SupContract ''worker is no longer owned''), s)
                        | None \<Rightarrow> (Inl (SupContract ''worker is no longer owned''), s))
      | None \<Rightarrow> (case sv_candidate s of
                    Some c \<Rightarrow> if wh_token (cd_worker c) = token
                              then send_handle E (cd_worker c) payload s
                              else (Inl (SupContract ''worker is no longer owned''), s)
                  | None \<Rightarrow> (Inl (SupContract ''worker is no longer owned''), s)))"

definition internal_text :: "u64 \<Rightarrow> string \<Rightarrow> u64 \<Rightarrow> string" where
  "internal_text token kind n =
     ''io.libmcp/'' @ show_nat (unat token) @ ''/'' @ kind @ ''/'' @ show_nat (unat n)"

definition internal_id :: "u64 \<Rightarrow> string \<Rightarrow> ('n, 'n request_id) sop" where
  "internal_id token kind s =
     (case checked_add (sv_next_internal s) 1 of
        None \<Rightarrow> (Inl (SupContract ''internal request ID exhausted''), s)
      | Some n \<Rightarrow> (Inr (IdText (internal_text token kind n)), s\<lparr>sv_next_internal := n\<rparr>))"

definition next_callback_id :: "('n, 'n request_id) sop" where
  "next_callback_id s =
     (case checked_add (sv_next_callback s) 1 of
        None \<Rightarrow> (Inl (SupContract ''callback request ID exhausted''), s)
      | Some n \<Rightarrow> (Inr (IdText (''io.libmcp/callback/'' @ show_nat (unat n))),
                   s\<lparr>sv_next_callback := n\<rparr>))"

definition insert_internal :: "'n request_id \<Rightarrow> u64 \<Rightarrow> internal_action \<Rightarrow> ('n, unit) sop" where
  "insert_internal i token action = modO (\<lambda>s. s\<lparr>sv_internal :=
     AList.update i \<lparr>ir_worker = token, ir_action = action\<rparr> (sv_internal s)\<rparr>)"

section \<open>Messages\<close>

definition rewrite_id :: "'n json \<Rightarrow> 'n request_id \<Rightarrow> sup_error + 'n json" where
  "rewrite_id v i =
     (case as_object v of
        None \<Rightarrow> Inl (SupContract ''JSON-RPC frame is not an object'')
      | Some ms \<Rightarrow> Inr (JObject (obj_insert ''id'' (request_id_to_json i) ms)))"

definition json_int :: "'n extern \<Rightarrow> int \<Rightarrow> 'n json" where
  "json_int X n = JNumber (x_from_i64 X (word_of_int n))"

definition rpc_error :: "'n extern \<Rightarrow> 'n request_id \<Rightarrow> int \<Rightarrow> string \<Rightarrow> 'n json" where
  "rpc_error X i error_code message = JObject
     [(''error'', JObject [(''code'', json_int X error_code), (''message'', JString message)]),
      (''id'', request_id_to_json i), (''jsonrpc'', JString ''2.0'')]"

definition parse_error_response :: "'n extern \<Rightarrow> string \<Rightarrow> 'n json" where
  "parse_error_response X message = JObject
     [(''error'', JObject [(''code'', json_int X (- 32700)), (''message'', JString message)]),
      (''id'', JNull), (''jsonrpc'', JString ''2.0'')]"

definition list_request :: "'n request_id \<Rightarrow> 'n json" where
  "list_request i = JObject
     [(''id'', request_id_to_json i), (''jsonrpc'', JString ''2.0''), (''method'', JString ''tools/list'')]"

definition list_changed :: "'n json" where
  "list_changed = JObject
     [(''jsonrpc'', JString ''2.0''), (''method'', JString ''notifications/tools/list_changed'')]"

definition catalog_reply :: "'n request_id \<Rightarrow> 'n tool_catalog \<Rightarrow> 'n json" where
  "catalog_reply i c = JObject
     [(''id'', request_id_to_json i), (''jsonrpc'', JString ''2.0''),
      (''result'', JObject [(''tools'', JArray (tc_public_tools c))])]"

definition patch_initialize_response :: "'n json \<Rightarrow> 'n json" where
  "patch_initialize_response response =
     (case response of
        JObject ms \<Rightarrow>
          (case Option.bind (map_of ms ''result'') as_object of
             None \<Rightarrow> response
           | Some result \<Rightarrow>
               (let object_or_empty = (\<lambda>v. case v of Some (JObject os) \<Rightarrow> os | _ \<Rightarrow> []);
                    capabilities = object_or_empty (map_of result ''capabilities'');
                    tools = object_or_empty (map_of capabilities ''tools'');
                    tools' = obj_insert ''listChanged'' (JBool True) tools;
                    capabilities' = obj_insert ''tools'' (JObject tools') capabilities
                in JObject (obj_insert ''result''
                     (JObject (obj_insert ''capabilities'' (JObject capabilities') result)) ms)))
      | _ \<Rightarrow> response)"

definition parse_catalog_response :: "'n extern \<Rightarrow> 'n frame \<Rightarrow> sup_error + 'n tool_catalog" where
  "parse_catalog_response X f =
     (case get_member (fr_value f) ''result'' of
        None \<Rightarrow> Inl (SupContract ''tools/list response has no result'')
      | Some result \<Rightarrow>
          (case catalog_parse X result of
             Inl _ \<Rightarrow> Inl (SupContract ''invalid tool catalog'')
           | Inr c \<Rightarrow> Inr c))"

section \<open>Contracts of requests\<close>

definition replay_safe_methods :: "string list" where
  "replay_safe_methods = [''ping'', ''tools/list'', ''resources/list'', ''resources/templates/list'',
     ''resources/read'', ''prompts/list'', ''prompts/get'', ''completion/complete'']"

definition tool_contract :: "'n supervisor \<Rightarrow> tool_call_meta \<Rightarrow> effect_contract option" where
  "tool_contract s meta =
     Option.bind (sv_published s) (\<lambda>c. catalog_contract c (tm_tool_name meta))"

definition is_key_scalar :: "'n json \<Rightarrow> bool" where
  "is_key_scalar v \<longleftrightarrow> (case v of JString _ \<Rightarrow> True | JNumber _ \<Rightarrow> True | _ \<Rightarrow> False)"

definition classify_request :: "'n extern \<Rightarrow> 'n supervisor \<Rightarrow> 'n frame \<Rightarrow> rpc_method \<Rightarrow> contract" where
  "classify_request X s f m =
     (if is_initialize m \<or> method_text m \<in> set replay_safe_methods then replay_contract ReplaySafe
      else if \<not> is_tools_call m then replay_contract AtMostOnce
      else case parse_tool_call_meta X f m of
          None \<Rightarrow> replay_contract AtMostOnce
        | Some meta \<Rightarrow>
            (case tool_contract s meta of
               None \<Rightarrow> replay_contract AtMostOnce
             | Some c \<Rightarrow>
                 if ec_recovery c = Deduplicated \<and>
                    \<not> (case Option.bind (ec_key_pointer c) (x_pointer X (fr_value f)) of
                         Some key \<Rightarrow> is_key_scalar key | None \<Rightarrow> False)
                 then replay_contract AtMostOnce
                 else (case ec_recovery c of
                         ProbeRequiredEffect \<Rightarrow> replay_contract AtMostOnce
                       | recovery \<Rightarrow> replay_contract recovery)))"

definition journal_key :: "'n extern \<Rightarrow> 'n frame \<Rightarrow> string \<Rightarrow> sup_error + string" where
  "journal_key X f key =
     (if starts_with ''/'' key then
        (case x_pointer X (fr_value f) key of
           None \<Rightarrow> Inl (SupContract ''session journal key pointer is absent'')
         | Some v \<Rightarrow>
             (case v of
                JString t \<Rightarrow> Inr t
              | JNumber _ \<Rightarrow> Inr (x_json_text X v)
              | JBool _ \<Rightarrow> Inr (x_json_text X v)
              | _ \<Rightarrow> Inl (SupContract ''session journal key pointer is not scalar'')))
      else Inr key)"

definition journal_op :: "('n session_journal, sup_error, 'a) op \<Rightarrow> ('n, 'a) sop" where
  "journal_op m s = (case m (sv_journal s) of (r, j) \<Rightarrow> (r, s\<lparr>sv_journal := j\<rparr>))"

definition record_session_transition :: "'n extern \<Rightarrow> 'n frame \<Rightarrow> ('n, unit) sop" where
  "record_session_transition X f s =
     (case parse_tool_call_meta X f tools_call of
        None \<Rightarrow> (Inr (), s)
      | Some meta \<Rightarrow>
          (case tool_contract s meta of
             None \<Rightarrow> (Inr (), s)
           | Some c \<Rightarrow>
               (case ec_state c of
                  Stateless \<Rightarrow> (Inr (), s)
                | Journaled key \<Rightarrow>
                    bindO (liftO (journal_key X f key)) (\<lambda>key.
                      journal_op (journal_record (tool_text (tm_tool_name meta) @ '':'' @ key) f)) s
                | Checkpointed _ \<Rightarrow>
                    (Inr (), s\<lparr>sv_journal := sv_journal s\<lparr>sj_checkpointed := True\<rparr>\<rparr>)
                | GenerationPinned \<Rightarrow>
                    (Inr (), s\<lparr>sv_journal := sv_journal s\<lparr>sj_pinned := True\<rparr>\<rparr>))))"

end
