(* ===== verification/Handlers.thy ===== *)
theory Handlers
  imports Supervisor
begin

text \<open>
  The supervisor (\<open>supervisor.rs\<close>), second half: one definition per handler, composed as
  the code composes them, and the event loop. The loop of \<open>flush_queue\<close> is a function
  whose termination is proved: each round takes a frame off the kernel's queue.
\<close>

section \<open>Replies and rejections\<close>

definition reject_client_id ::
    "'n extern \<Rightarrow> env \<Rightarrow> 'n request_id option \<Rightarrow> rejection \<Rightarrow> ('n, unit) sop" where
  "reject_client_id X E i rejection s =
     (case i of
        None \<Rightarrow> (Inr (), s)
      | Some i \<Rightarrow> write_value X E
          (rpc_error X i (rejection_code rejection) (rejection_message rejection)) s)"

definition request_id_of :: "'n frame \<Rightarrow> 'n request_id option" where
  "request_id_of f = (case fr_envelope f of Request i _ \<Rightarrow> Some i | _ \<Rightarrow> None)"

definition reject_client_frame :: "'n extern \<Rightarrow> env \<Rightarrow> 'n frame \<Rightarrow> rejection \<Rightarrow> ('n, unit) sop" where
  "reject_client_frame X E f = reject_client_id X E (request_id_of f)"

definition queue_or_reject :: "'n extern \<Rightarrow> env \<Rightarrow> 'n frame \<Rightarrow> ('n, unit) sop" where
  "queue_or_reject X E f s =
     (case queue_client_frame f queue_capacity (sv_kernel s) of
        (Inr _, k) \<Rightarrow> (Inr (), s\<lparr>sv_kernel := k\<rparr>)
      | (Inl rejection, k) \<Rightarrow> reject_client_id X E (request_id_of f) rejection (s\<lparr>sv_kernel := k\<rparr>))"

definition reply_catalog :: "'n extern \<Rightarrow> env \<Rightarrow> 'n frame \<Rightarrow> ('n, unit) sop" where
  "reply_catalog X E f s =
     (case fr_envelope f of
        Request i _ \<Rightarrow>
          (case sv_published s of
             None \<Rightarrow> (Inl (SupContract ''public catalog is absent''), s)
           | Some c \<Rightarrow> write_value X E (catalog_reply i c) s)
      | _ \<Rightarrow> (Inl (SupContract ''catalog reply target is not a request''), s))"

section \<open>The loss of the active worker\<close>

fun write_rejections :: "'n extern \<Rightarrow> env \<Rightarrow> 'n rejected_replay list \<Rightarrow> ('n, unit) sop" where
  "write_rejections X E [] s = (Inr (), s)"
| "write_rejections X E (r # rs) s =
     bindO (write_value X E (rpc_error X (rj_request_id r) (rejection_code (rj_reason r))
              (rejection_message (rj_reason r)))) (\<lambda>_. write_rejections X E rs) s"

definition drop_candidate :: "'n supervisor \<Rightarrow> 'n supervisor" where
  "drop_candidate s =
     (case sv_candidate s of
        None \<Rightarrow> s
      | Some c \<Rightarrow> kill (cd_worker c) (s\<lparr>sv_candidate := None\<rparr>))"

definition retain_internal :: "u64 \<Rightarrow> 'n supervisor \<Rightarrow> 'n supervisor" where
  "retain_internal token s =
     s\<lparr>sv_internal := filter (\<lambda>(_, r). ir_worker r \<noteq> token) (sv_internal s)\<rparr>"

definition retain_callbacks :: "u64 \<Rightarrow> 'n supervisor \<Rightarrow> 'n supervisor" where
  "retain_callbacks token s =
     s\<lparr>sv_callbacks := filter (\<lambda>(_, r). cr_worker r \<noteq> token) (sv_callbacks s)\<rparr>"

definition replay_limits :: replay_budget where
  "replay_limits = \<lparr>rb_max_attempts = max_replay_attempts, rb_queue_capacity = queue_capacity\<rparr>"

definition forget_active :: "'n supervisor \<Rightarrow> 'n supervisor" where
  "forget_active s =
     (case sv_active s of
        None \<Rightarrow> s
      | Some w \<Rightarrow> retain_callbacks (wh_token w) (s\<lparr>sv_active := None\<rparr>))"

definition handle_worker_loss_by_id :: "'n extern \<Rightarrow> env \<Rightarrow> u64 option \<Rightarrow> ('n, unit) sop" where
  "handle_worker_loss_by_id X E token s =
     (if token = None \<or> active_token s \<noteq> token then (Inr (), s)
      else
        let s1 = (drop_candidate (forget_active s))\<lparr>sv_internal := [], sv_phase := Recovering\<rparr>
        in case requeue_pending_for_replay replay_limits (sv_kernel s1) of
             (outcome, k) \<Rightarrow>
               bindO (write_rejections X E (ro_rejected outcome)) (\<lambda>_.
               bindO (ask (e_now E)) (\<lambda>now. modO (\<lambda>s. s\<lparr>sv_retry_at := Some now\<rparr>)))
                 (s1\<lparr>sv_kernel := k\<rparr>))"

definition send_active_or_recover :: "'n extern \<Rightarrow> env \<Rightarrow> byte list \<Rightarrow> ('n, bool) sop" where
  "send_active_or_recover X E payload s =
     catchO (bindO (send_active E payload) (\<lambda>_. retO True))
       (\<lambda>_. bindO (handle_worker_loss_by_id X E (active_token s)) (\<lambda>_. retO False)) s"

section \<open>The queue\<close>

definition dispatch_request ::
    "'n extern \<Rightarrow> env \<Rightarrow> 'n frame \<Rightarrow> rpc_method \<Rightarrow> ('n, rejection option) sop" where
  "dispatch_request X E f m s =
     bindO (ask (e_now E)) (\<lambda>now s.
       case begin_request_dispatch X now f (classify_request X s f m) pending_capacity (sv_kernel s) of
         (Inl rejection, k) \<Rightarrow> (Inr (Some rejection), s\<lparr>sv_kernel := k\<rparr>)
       | (Inr _, k) \<Rightarrow> (Inr None, s\<lparr>sv_kernel := k\<rparr>)) s"

definition flush_client_frame :: "'n extern \<Rightarrow> env \<Rightarrow> 'n frame \<Rightarrow> ('n, bool) sop" where
  "flush_client_frame X E f s =
     (case fr_envelope f of
        Request _ m \<Rightarrow>
          if method_text m = ''tools/list'' then bindO (reply_catalog X E f) (\<lambda>_. retO True) s
          else bindO (dispatch_request X E f m) (\<lambda>r. case r of
                   Some rejection \<Rightarrow> bindO (reject_client_frame X E f rejection) (\<lambda>_. retO True)
                 | None \<Rightarrow> send_active_or_recover X E (fr_payload f)) s
      | Notification _ \<Rightarrow> send_active_or_recover X E (fr_payload f) s
      | Response _ _ \<Rightarrow> (Inl (SupContract ''callback response entered the worker queue''), s))"

definition flush_step :: "'n extern \<Rightarrow> env \<Rightarrow> ('n, bool) sop" where
  "flush_step X E s =
     (case pop_next_dispatch (sv_kernel s) of
        (Inl rejection, k) \<Rightarrow> (Inl (SupSession rejection), s\<lparr>sv_kernel := k\<rparr>)
      | (Inr outcome, k) \<Rightarrow>
          (case outcome of
             ReplayFrame f \<Rightarrow> send_active_or_recover X E (fr_payload f) (s\<lparr>sv_kernel := k\<rparr>)
           | ClientFrame f \<Rightarrow> flush_client_frame X E f (s\<lparr>sv_kernel := k\<rparr>)
           | HeldForProbe _ \<Rightarrow> (Inr False, s\<lparr>sv_kernel := k\<rparr>)
           | QueueEmpty \<Rightarrow> (Inr False, s\<lparr>sv_kernel := k\<rparr>)))"

definition can_flush :: "'n supervisor \<Rightarrow> bool" where
  "can_flush s \<longleftrightarrow> sv_phase s = PhaseNone \<and> sv_active s \<noteq> None"

text \<open>
  The calls to the outside touch the call counter and the log only: \<open>quiet s0\<close> are the
  states that differ from \<open>s0\<close> in nothing else.
\<close>

definition quiet :: "'n supervisor \<Rightarrow> 'n supervisor \<Rightarrow> bool" where
  "quiet s0 s \<longleftrightarrow> s\<lparr>sv_calls := 0, sv_log := []\<rparr> = s0\<lparr>sv_calls := 0, sv_log := []\<rparr>"

lemma quiet_simps [simp]:
  "quiet s0 (s\<lparr>sv_calls := n\<rparr>) = quiet s0 s"
  "quiet s0 (s\<lparr>sv_log := l\<rparr>) = quiet s0 s"
  "quiet s0 (record_effect e s) = quiet s0 s"
  "quiet s s"
  by (simp_all add: quiet_def record_effect_def)

lemma quiet_fields:
  assumes "quiet s0 s"
  shows "sv_config s = sv_config s0" "sv_kernel s = sv_kernel s0" "sv_active s = sv_active s0"
    "sv_candidate s = sv_candidate s0" "sv_published s = sv_published s0"
    "sv_internal s = sv_internal s0" "sv_callbacks s = sv_callbacks s0"
    "sv_journal s = sv_journal s0" "sv_phase s = sv_phase s0"
    "sv_next_worker s = sv_next_worker s0" "sv_next_internal s = sv_next_internal s0"
    "sv_next_callback s = sv_next_callback s0" "sv_retry_at s = sv_retry_at s0"
    "sv_recovery_release s = sv_recovery_release s0" "sv_rejected s = sv_rejected s0"
    "sv_refresh s = sv_refresh s0"
  using assms by (cases s; cases s0; simp add: quiet_def)+

lemma quiet_trans: "quiet s0 s \<Longrightarrow> quiet s s' \<Longrightarrow> quiet s0 s'"
  by (simp add: quiet_def)

lemma bindO_ask [simp]: "bindO (ask q) f s = f (q (sv_calls s)) (s\<lparr>sv_calls := Suc (sv_calls s)\<rparr>)"
  by (simp add: ask_def)

lemma emit_quiet [leaves_rules]: "quiet s0 s \<Longrightarrow> leaves (quiet s0) (emit E e p s)"
  by (auto simp: emit_def split: sum.split option.split)

lemma write_value_quiet [leaves_rules]: "quiet s0 s \<Longrightarrow> leaves (quiet s0) (write_value X E v s)"
  unfolding write_value_def by (rule leaves_rules | simp)+

lemma send_handle_quiet [leaves_rules]: "quiet s0 s \<Longrightarrow> leaves (quiet s0) (send_handle E w p s)"
  by (auto simp: send_handle_def)

lemma send_active_quiet [leaves_rules]: "quiet s0 s \<Longrightarrow> leaves (quiet s0) (send_active E p s)"
  unfolding send_active_def by (rule leaves_rules | simp)+

lemma send_worker_quiet [leaves_rules]: "quiet s0 s \<Longrightarrow> leaves (quiet s0) (send_worker E t p s)"
  unfolding send_worker_def by (rule leaves_rules | simp)+

lemma reply_catalog_quiet [leaves_rules]: "quiet s0 s \<Longrightarrow> leaves (quiet s0) (reply_catalog X E f s)"
  unfolding reply_catalog_def by (cases "fr_envelope f") (simp | rule leaves_rules)+

lemma reject_client_quiet [leaves_rules]:
  "quiet s0 s \<Longrightarrow> leaves (quiet s0) (reject_client_id X E i r s)"
  "quiet s0 s \<Longrightarrow> leaves (quiet s0) (reject_client_frame X E f r s)"
  unfolding reject_client_frame_def reject_client_id_def by (rule leaves_rules | simp)+

lemma write_rejections_quiet [leaves_rules]:
  "quiet s0 s \<Longrightarrow> leaves (quiet s0) (write_rejections X E rs s)"
proof (induction rs arbitrary: s)
  case (Cons r rs)
  then show ?case unfolding write_rejections.simps by (intro leaves_rules) auto
qed simp

lemmas quiet_kernel = leavesD [THEN quiet_fields(2)]

lemma send_active_or_recover_kernel:
  assumes "send_active_or_recover X E p s = (Inr True, s')"
  shows "quiet s s'"
proof (cases "send_active E p s")
  case (Pair r t)
  have "leaves (quiet s) (send_active E p s)" by (rule leaves_rules) simp
  with Pair assms show ?thesis
    by (cases r) (auto simp: send_active_or_recover_def catchO_def bindO_def split: prod.splits sum.splits)
qed

lemma begin_queue: "k_queue (snd (begin_request_dispatch X now f c cap k)) = k_queue k"
  by (auto simp: begin_request_dispatch_def Let_def split: envelope.split option.split)

lemma pop_queue:
  assumes "pop_next_dispatch k = (Inr outcome, k')" and "outcome = ReplayFrame f \<or> outcome = ClientFrame f"
  shows "length (k_queue k') < length (k_queue k)"
  using assms
  by (auto simp: pop_next_dispatch_def update_pending_def Let_def
      split: list.splits envelope.splits option.splits disposition.splits sum.splits)

lemma dispatch_request_queue:
  "k_queue (sv_kernel (snd (dispatch_request X E f m s))) = k_queue (sv_kernel s)"
proof -
  let ?b = "\<lambda>s. begin_request_dispatch X (e_now E (sv_calls s)) f
    (classify_request X (s\<lparr>sv_calls := Suc (sv_calls s)\<rparr>) f m) pending_capacity (sv_kernel s)"
  have "k_queue (snd (?b s)) = k_queue (sv_kernel s)" by (rule begin_queue)
  then show ?thesis
    by (cases "?b s"; cases "fst (?b s)") (simp_all add: dispatch_request_def bindO_def ask_def)
qed

lemma flush_client_frame_queue:
  assumes "flush_client_frame X E f s = (Inr True, s')"
  shows "k_queue (sv_kernel s') = k_queue (sv_kernel s)"
proof (cases "fr_envelope f")
  case (Request i m)
  show ?thesis
  proof (cases "method_text m = ''tools/list''")
    case True
    have "leaves (quiet s) (reply_catalog X E f s)" by (rule leaves_rules) simp
    with True Request assms show ?thesis
      by (auto simp: flush_client_frame_def bindO_def leaves_def dest: quiet_fields(2)
          split: prod.splits sum.splits)
  next
    case False
    obtain r t where d: "dispatch_request X E f m s = (r, t)" by fastforce
    then have q: "k_queue (sv_kernel t) = k_queue (sv_kernel s)"
      using dispatch_request_queue [of X E f m s] by simp
    show ?thesis
    proof (cases r)
      case (Inl e)
      with d False Request assms show ?thesis by (simp add: flush_client_frame_def bindO_def)
    next
      case (Inr rej)
      show ?thesis
      proof (cases rej)
        case None
        with d Inr False Request assms have "send_active_or_recover X E (fr_payload f) t = (Inr True, s')"
          by (simp add: flush_client_frame_def bindO_def)
        from quiet_fields(2) [OF send_active_or_recover_kernel [OF this]] q show ?thesis by simp
      next
        case (Some rejection)
        have "leaves (quiet t) (reject_client_frame X E f rejection t)"
          by (rule leaves_rules) simp
        with Some d Inr False Request assms q show ?thesis
          by (auto simp: flush_client_frame_def bindO_def leaves_def dest: quiet_fields(2)
              split: prod.splits sum.splits)
      qed
    qed
  qed
next
  case (Notification m)
  with assms have "send_active_or_recover X E (fr_payload f) s = (Inr True, s')"
    by (simp add: flush_client_frame_def)
  from quiet_fields(2) [OF send_active_or_recover_kernel [OF this]] show ?thesis by simp
qed (use assms in \<open>simp add: flush_client_frame_def\<close>)

lemma flush_step_decreases:
  assumes "flush_step X E s = (Inr True, s')"
  shows "length (k_queue (sv_kernel s')) < length (k_queue (sv_kernel s))"
proof -
  obtain r k where pop: "pop_next_dispatch (sv_kernel s) = (r, k)" by fastforce
  with assms obtain outcome where r: "r = Inr outcome"
    by (cases r) (auto simp: flush_step_def)
  show ?thesis
  proof (cases outcome)
    case (ReplayFrame f)
    with assms pop r have "send_active_or_recover X E (fr_payload f) (s\<lparr>sv_kernel := k\<rparr>) = (Inr True, s')"
      by (simp add: flush_step_def)
    from quiet_fields(2) [OF send_active_or_recover_kernel [OF this]] pop_queue [OF pop [unfolded r]] ReplayFrame
    show ?thesis by simp
  next
    case (ClientFrame f)
    with assms pop r have "flush_client_frame X E f (s\<lparr>sv_kernel := k\<rparr>) = (Inr True, s')"
      by (simp add: flush_step_def)
    from flush_client_frame_queue [OF this] pop_queue [OF pop [unfolded r]] ClientFrame
    show ?thesis by simp
  qed (use assms pop r in \<open>simp_all add: flush_step_def\<close>)
qed

function flush_queue :: "'n extern \<Rightarrow> env \<Rightarrow> ('n, unit) sop" where
  "flush_queue X E s =
     (if can_flush s
      then (case flush_step X E s of
              (Inl e, s') \<Rightarrow> (Inl e, s')
            | (Inr goes_on, s') \<Rightarrow> if goes_on then flush_queue X E s' else (Inr (), s'))
      else (Inr (), s))"
  by pat_completeness auto
termination
  by (relation "measure (\<lambda>(X, E, s). length (k_queue (sv_kernel s)))")
    (auto dest: flush_step_decreases [OF sym])

declare flush_queue.simps [simp del]

section \<open>Candidates\<close>

definition reject_candidate :: "'n extern \<Rightarrow> env \<Rightarrow> ('n, unit) sop" where
  "reject_candidate X E s =
     (let s1 = (case sv_candidate s of
                  None \<Rightarrow> s
                | Some c \<Rightarrow>
                    let s0 = s\<lparr>sv_candidate := None\<rparr>;
                        s0' = (if cd_purpose c = Rollover
                               then s0\<lparr>sv_rejected := Some (mf_generation (wh_release (cd_worker c)))\<rparr>
                               else s0)
                    in retain_internal (wh_token (cd_worker c)) (kill (cd_worker c) s0'))
      in if sv_active s1 \<noteq> None
         then flush_queue X E (s1\<lparr>sv_phase := PhaseNone, sv_refresh := None\<rparr>)
         else (Inr (), s1))"

definition install_candidate :: "'n candidate \<Rightarrow> 'n supervisor \<Rightarrow> 'n supervisor" where
  "install_candidate c s =
     (let w = cd_worker c;
          s1 = s\<lparr>sv_candidate := None, sv_published := wh_catalog w,
                 sv_recovery_release := wh_release w, sv_active := Some w\<rparr>;
          s2 = (case sv_active s of
                  None \<Rightarrow> s1
                | Some incumbent \<Rightarrow> kill incumbent (retain_callbacks (wh_token incumbent) s1))
      in s2\<lparr>sv_phase := PhaseNone, sv_retry_at := None\<rparr>)"

definition activate_candidate :: "'n extern \<Rightarrow> env \<Rightarrow> ('n, unit) sop" where
  "activate_candidate X E s =
     (case sv_candidate s of
        None \<Rightarrow> (Inr (), s)
      | Some c \<Rightarrow>
          (let s1 = install_candidate c s in
           case sv_refresh s1 of
             None \<Rightarrow> flush_queue X E s1
           | Some f \<Rightarrow> bindO (reply_catalog X E f) (\<lambda>_. flush_queue X E) (s1\<lparr>sv_refresh := None\<rparr>)))"

definition set_candidate_deadline :: "nat option \<Rightarrow> 'n supervisor \<Rightarrow> 'n supervisor" where
  "set_candidate_deadline d s =
     s\<lparr>sv_candidate := map_option (\<lambda>c. c\<lparr>cd_deadline := d\<rparr>) (sv_candidate s)\<rparr>"

definition continue_restore :: "'n extern \<Rightarrow> env \<Rightarrow> nat \<Rightarrow> ('n, unit) sop" where
  "continue_restore X E index s =
     (if index \<ge> length (sj_entries (sv_journal s)) then activate_candidate X E s
      else case sv_candidate s of
          None \<Rightarrow> (Inr (), s)
        | Some c \<Rightarrow>
            bindO (ask (e_now E)) (\<lambda>now.
            bindO (modO (\<lambda>s. s\<lparr>sv_candidate :=
                Some (c\<lparr>cd_stage := CandidateRestoring, cd_deadline := Some (now + candidate_timeout)\<rparr>)\<rparr>)) (\<lambda>_.
            bindO (internal_id (wh_token (cd_worker c)) ''journal'') (\<lambda>i.
            bindO (liftO (rewrite_id (fr_value (je_frame (sj_entries (sv_journal s) ! index))) i)) (\<lambda>frame.
            bindO (insert_internal i (wh_token (cd_worker c)) (RestoreJournal index)) (\<lambda>_.
            bindO (liftO (serialize X frame)) (\<lambda>bytes.
              send_worker E (wh_token (cd_worker c)) bytes)))))) s)"

definition try_begin_restore :: "'n extern \<Rightarrow> env \<Rightarrow> ('n, unit) sop" where
  "try_begin_restore X E s =
     (if sv_phase s \<noteq> Draining \<or> has_in_flight (sv_kernel s) \<or> active_callbacks s \<noteq> 0
      then (Inr (), s)
      else if sj_pinned (sv_journal s) \<or> sj_checkpointed (sv_journal s) then reject_candidate X E s
      else continue_restore X E 0 s)"

definition same_catalog ::
    "'n extern \<Rightarrow> 'n tool_catalog option \<Rightarrow> 'n tool_catalog \<Rightarrow> sup_error + bool" where
  "same_catalog X published c =
     (case published of
        None \<Rightarrow> Inr False
      | Some active \<Rightarrow>
          (case (canonical_bytes X active, canonical_bytes X c) of
             (Some a, Some b) \<Rightarrow> Inr (a = b)
           | _ \<Rightarrow> Inl SupJson))"

definition on_candidate_ready :: "'n extern \<Rightarrow> env \<Rightarrow> 'n tool_catalog \<Rightarrow> ('n, unit) sop" where
  "on_candidate_ready X E c s =
     bindO (liftO (same_catalog X (sv_published s) c)) (\<lambda>same.
       if same
       then (\<lambda>s. try_begin_restore X E (set_candidate_deadline None (s\<lparr>sv_phase := Draining\<rparr>)))
       else bindO (write_value X E list_changed)
              (\<lambda>_. modO (\<lambda>s. s\<lparr>sv_phase := AwaitingCatalogRefresh\<rparr>))) s"

definition seed_frame :: "'n extern \<Rightarrow> env \<Rightarrow> 'n seed \<Rightarrow> sup_error + 'n frame" where
  "seed_frame X E sd =
     (case frame_parse X (si_payload (sd_request sd)) of
        Inl e \<Rightarrow> Inl (SupContract (e_error_text E e))
      | Inr f \<Rightarrow> Inr f)"

definition kernel_seed :: "('n, 'n seed) sop" where
  "kernel_seed s =
     (case replay_seed (sv_kernel s) of
        Inl r \<Rightarrow> (Inl (SupSession r), s)
      | Inr None \<Rightarrow> (Inl (SupContract ''candidate has no initialization seed''), s)
      | Inr (Some sd) \<Rightarrow> (Inr sd, s))"

definition seed_candidate_initialize :: "'n extern \<Rightarrow> env \<Rightarrow> u64 \<Rightarrow> ('n, unit) sop" where
  "seed_candidate_initialize X E token =
     bindO kernel_seed (\<lambda>sd.
     bindO (internal_id token ''initialize'') (\<lambda>i.
     bindO (liftO (seed_frame X E sd)) (\<lambda>f.
     bindO (liftO (rewrite_id (fr_value f) i)) (\<lambda>rewritten.
     bindO (insert_internal i token InitializeCandidate) (\<lambda>_.
     bindO (liftO (serialize X rewritten)) (\<lambda>bytes. send_worker E token bytes))))))"

definition seed_candidate_catalog :: "'n extern \<Rightarrow> env \<Rightarrow> ('n, unit) sop" where
  "seed_candidate_catalog X E s =
     (case sv_candidate s of
        None \<Rightarrow> (Inr (), s)
      | Some c \<Rightarrow>
          bindO kernel_seed (\<lambda>sd.
            case sd_notification sd of
              None \<Rightarrow> failO (SupContract ''candidate has no initialized notification'')
            | Some initialized \<Rightarrow>
                bindO (send_handle E (cd_worker c) initialized) (\<lambda>_.
                bindO (modO (\<lambda>s. s\<lparr>sv_candidate := Some (c\<lparr>cd_stage := CandidateCatalog\<rparr>)\<rparr>)) (\<lambda>_.
                bindO (internal_id (wh_token (cd_worker c)) ''tools'') (\<lambda>i.
                bindO (insert_internal i (wh_token (cd_worker c)) CatalogOfCandidate) (\<lambda>_.
                bindO (liftO (serialize X (list_request i))) (\<lambda>bytes.
                  send_worker E (wh_token (cd_worker c)) bytes)))))) s)"

definition request_active_catalog :: "'n extern \<Rightarrow> env \<Rightarrow> ('n, unit) sop" where
  "request_active_catalog X E s =
     (case active_token s of
        None \<Rightarrow> (Inl (SupContract ''active worker is absent''), s)
      | Some token \<Rightarrow>
          bindO (internal_id token ''tools'') (\<lambda>i.
          bindO (insert_internal i token ActiveCatalog) (\<lambda>_.
          bindO (liftO (serialize X (list_request i))) (\<lambda>bytes. send_active E bytes))) s)"

section \<open>Recovery\<close>

definition await_retry :: "env \<Rightarrow> ('n, unit) sop" where
  "await_retry E =
     bindO (ask (e_now E)) (\<lambda>now. modO (\<lambda>s. s\<lparr>sv_retry_at := Some (now + recovery_backoff)\<rparr>))"

definition handle_worker_loss :: "'n extern \<Rightarrow> env \<Rightarrow> u64 \<Rightarrow> ('n, unit) sop" where
  "handle_worker_loss X E token s =
     (case sv_candidate s of
        Some c \<Rightarrow>
          if wh_token (cd_worker c) = token then
            (if cd_purpose c = Rollover then reject_candidate X E s
             else await_retry E ((retain_internal token (s\<lparr>sv_candidate := None\<rparr>))\<lparr>sv_phase := Recovering\<rparr>))
          else handle_worker_loss_by_id X E (Some token) s
      | None \<Rightarrow> handle_worker_loss_by_id X E (Some token) s)"

definition lift_io :: "io_error + 'a \<Rightarrow> sup_error + 'a" where
  "lift_io r = (case r of Inl e \<Rightarrow> Inl (SupIo e) | Inr a \<Rightarrow> Inr a)"

definition abandon_candidate :: "u64 \<Rightarrow> sup_error \<Rightarrow> ('n, unit) sop" where
  "abandon_candidate token e s = (Inl e, retain_internal token (drop_candidate s))"

definition place_recovery_worker :: "'n extern \<Rightarrow> env \<Rightarrow> 'n worker_handle \<Rightarrow> ('n, unit) sop" where
  "place_recovery_worker X E w s =
     (if k_phase (sv_kernel s) = Cold \<or> k_phase (sv_kernel s) = Initializing
      then flush_queue X E (s\<lparr>sv_active := Some w, sv_phase := PhaseNone, sv_retry_at := None\<rparr>)
      else
        bindO (ask (e_now E)) (\<lambda>now.
        bindO (modO (\<lambda>s. s\<lparr>sv_candidate := Some
            \<lparr>cd_worker = w, cd_purpose = Recovery, cd_stage = CandidateInitializing,
             cd_deadline = Some (now + candidate_timeout)\<rparr>\<rparr>)) (\<lambda>_.
        catchO (seed_candidate_initialize X E (wh_token w)) (abandon_candidate (wh_token w)))) s)"

definition start_recovery :: "'n extern \<Rightarrow> env \<Rightarrow> ('n, unit) sop" where
  "start_recovery X E s =
     bindO (ask (e_os E)) (\<lambda>os.
     bindO (liftO (lift_io (verify_release os (sv_recovery_release s)))) (\<lambda>_.
     bindO (spawn_worker E (sv_recovery_release s)) (place_recovery_worker X E))) s"

section \<open>The tick\<close>

definition candidate_expired :: "env \<Rightarrow> ('n, 'n candidate option) sop" where
  "candidate_expired E s =
     (case sv_candidate s of
        None \<Rightarrow> (Inr None, s)
      | Some c \<Rightarrow>
          (case cd_deadline c of
             None \<Rightarrow> (Inr None, s)
           | Some deadline \<Rightarrow>
               bindO (ask (e_now E)) (\<lambda>now. retO (if now \<ge> deadline then Some c else None)) s))"

definition retry_due :: "env \<Rightarrow> ('n, bool) sop" where
  "retry_due E s =
     (case sv_retry_at s of
        None \<Rightarrow> (Inr True, s)
      | Some deadline \<Rightarrow> bindO (ask (e_now E)) (\<lambda>now. retO (now \<ge> deadline)) s)"

definition reject_generation :: "release_id \<Rightarrow> ('n, unit) sop" where
  "reject_generation g = modO (\<lambda>s. s\<lparr>sv_rejected := Some g\<rparr>)"

definition launch_candidate :: "'n extern \<Rightarrow> env \<Rightarrow> 'n worker_handle \<Rightarrow> ('n, unit) sop" where
  "launch_candidate X E w =
     bindO (ask (e_now E)) (\<lambda>now.
     bindO (modO (\<lambda>s. s\<lparr>sv_candidate := Some
         \<lparr>cd_worker = w, cd_purpose = Rollover, cd_stage = CandidateInitializing,
          cd_deadline = Some (now + candidate_timeout)\<rparr>\<rparr>)) (\<lambda>_.
     catchO (seed_candidate_initialize X E (wh_token w)) (\<lambda>_. reject_candidate X E)))"

definition prepare_rollover :: "'n extern \<Rightarrow> env \<Rightarrow> manifest \<Rightarrow> ('n, unit) sop" where
  "prepare_rollover X E release =
     bindO (ask (e_os E)) (\<lambda>os.
       case verify_release os release of
         Inl _ \<Rightarrow> reject_generation (mf_generation release)
       | Inr _ \<Rightarrow>
           bindO (catchO (bindO (spawn_worker E release) (\<lambda>w. retO (Some w)))
                    (\<lambda>_. bindO (reject_generation (mf_generation release)) (\<lambda>_. retO None)))
             (\<lambda>w. case w of None \<Rightarrow> retO () | Some w \<Rightarrow> launch_candidate X E w))"

definition observe_channel :: "'n extern \<Rightarrow> env \<Rightarrow> ('n, unit) sop" where
  "observe_channel X E =
     bindO (ask (e_os E)) (\<lambda>os s.
       case load_release os (cf_channel (sv_config s)) (cf_server (sv_config s)) of
         Inl _ \<Rightarrow> (Inr (), s)
       | Inr release \<Rightarrow>
           (case sv_active s of
              None \<Rightarrow> (Inr (), s)
            | Some active \<Rightarrow>
                if mf_generation release = mf_generation (wh_release active) then (Inr (), s)
                else if sv_rejected s = Some (mf_generation release) then (Inr (), s)
                else if \<not> accepts (mf_state release) (mf_state (wh_release active))
                then reject_generation (mf_generation release) s
                else prepare_rollover X E release s))"

definition tick_rest :: "'n extern \<Rightarrow> env \<Rightarrow> ('n, unit) sop" where
  "tick_rest X E s =
     bindO (\<lambda>s. if sv_phase s = Recovering \<and> sv_candidate s = None then retry_due E s else (Inr False, s))
       (\<lambda>due s.
         if due then
           catchO (start_recovery X E) (\<lambda>_. await_retry E) (s\<lparr>sv_retry_at := None\<rparr>)
         else if sv_phase s \<noteq> PhaseNone \<or> sv_candidate s \<noteq> None \<or> k_phase (sv_kernel s) \<noteq> Live \<or>
                 sv_published s = None
         then (Inr (), s)
         else observe_channel X E s) s"

definition on_tick :: "'n extern \<Rightarrow> env \<Rightarrow> ('n, unit) sop" where
  "on_tick X E =
     bindO (candidate_expired E) (\<lambda>expired.
       case expired of
         None \<Rightarrow> tick_rest X E
       | Some c \<Rightarrow> (\<lambda>s.
           if cd_purpose c = Rollover \<and> cd_stage c = CandidateReady \<and>
              sv_phase s = AwaitingCatalogRefresh
           then try_begin_restore X E (set_candidate_deadline None (s\<lparr>sv_phase := Draining\<rparr>))
           else bindO (reject_candidate X E) (\<lambda>_.
                  if cd_purpose c = Recovery
                  then bindO (modO (\<lambda>s. s\<lparr>sv_phase := Recovering\<rparr>)) (\<lambda>_.
                       bindO (await_retry E) (\<lambda>_. tick_rest X E))
                  else tick_rest X E) s))"

section \<open>Frames from workers\<close>

definition publish_active_catalog :: "'n tool_catalog \<Rightarrow> 'n supervisor \<Rightarrow> 'n supervisor" where
  "publish_active_catalog c s =
     s\<lparr>sv_active := map_option (\<lambda>w. w\<lparr>wh_catalog := Some c\<rparr>) (sv_active s),
       sv_published := Some c\<rparr>"

definition handle_internal_response ::
    "'n extern \<Rightarrow> env \<Rightarrow> internal_request \<Rightarrow> 'n frame \<Rightarrow> bool \<Rightarrow> ('n, unit) sop" where
  "handle_internal_response X E internal f has_error =
     (case ir_action internal of
        ActiveCatalog \<Rightarrow>
          if has_error then handle_worker_loss_by_id X E (Some (ir_worker internal))
          else (case parse_catalog_response X f of
                  Inl _ \<Rightarrow> handle_worker_loss_by_id X E (Some (ir_worker internal))
                | Inr c \<Rightarrow> bindO (modO (publish_active_catalog c)) (\<lambda>_. flush_queue X E))
      | InitializeCandidate \<Rightarrow>
          if has_error then reject_candidate X E
          else (\<lambda>s. if k_phase (sv_kernel s) = AwaitingInitialized then activate_candidate X E s
                    else catchO (seed_candidate_catalog X E) (\<lambda>_. reject_candidate X E) s)
      | CatalogOfCandidate \<Rightarrow>
          if has_error then reject_candidate X E
          else (case parse_catalog_response X f of
                  Inl _ \<Rightarrow> reject_candidate X E
                | Inr c \<Rightarrow> (\<lambda>s. case sv_candidate s of
                      None \<Rightarrow> (Inr (), s)
                    | Some cand \<Rightarrow>
                        bindO (ask (e_now E)) (\<lambda>now.
                        bindO (modO (\<lambda>s. s\<lparr>sv_candidate := Some (cand\<lparr>
                            cd_worker := (cd_worker cand)\<lparr>wh_catalog := Some c\<rparr>,
                            cd_stage := CandidateReady,
                            cd_deadline := Some (now + catalog_refresh_grace)\<rparr>)\<rparr>)) (\<lambda>_.
                          on_candidate_ready X E c)) s))
      | RestoreJournal index \<Rightarrow>
          if has_error then reject_candidate X E
          else catchO (continue_restore X E (index + 1)) (\<lambda>_. reject_candidate X E))"

definition forward_response ::
    "'n extern \<Rightarrow> env \<Rightarrow> u64 \<Rightarrow> 'n frame \<Rightarrow> bool \<Rightarrow> ('n, unit) sop" where
  "forward_response X E token f has_error s =
     (case complete_response f (sv_kernel s) of
        (Inl _, k) \<Rightarrow> handle_worker_loss_by_id X E (Some token) (s\<lparr>sv_kernel := k\<rparr>)
      | (Inr completed, k) \<Rightarrow>
          bindO (if has_error then retO ()
                 else catchO (record_session_transition X (pr_frame completed))
                        (\<lambda>_. modO (\<lambda>s. s\<lparr>sv_journal := sv_journal s\<lparr>sj_pinned := True\<rparr>\<rparr>))) (\<lambda>_.
          bindO (write_value X E (if is_initialize (pr_method completed)
                                  then patch_initialize_response (fr_value f) else fr_value f)) (\<lambda>_.
            try_begin_restore X E)) (s\<lparr>sv_kernel := k\<rparr>))"

definition forward_callback ::
    "'n extern \<Rightarrow> env \<Rightarrow> u64 \<Rightarrow> 'n request_id \<Rightarrow> 'n frame \<Rightarrow> ('n, unit) sop" where
  "forward_callback X E token original f =
     bindO next_callback_id (\<lambda>public_id.
     bindO (liftO (rewrite_id (fr_value f) public_id)) (\<lambda>rewritten.
     bindO (modO (\<lambda>s. s\<lparr>sv_callbacks := AList.update public_id
         \<lparr>cr_worker = token, cr_original = original\<rparr> (sv_callbacks s)\<rparr>)) (\<lambda>_.
       write_value X E rewritten)))"

definition handle_worker_payload :: "'n extern \<Rightarrow> env \<Rightarrow> u64 \<Rightarrow> byte list \<Rightarrow> ('n, unit) sop" where
  "handle_worker_payload X E token payload s =
     (case frame_parse X payload of
        Inl _ \<Rightarrow>
          if candidate_token s = Some token then reject_candidate X E s
          else handle_worker_loss_by_id X E (Some token) s
      | Inr f \<Rightarrow>
          (case fr_envelope f of
             Response i has_error \<Rightarrow>
               (case map_of (sv_internal s) i of
                  Some internal \<Rightarrow>
                    (let s1 = s\<lparr>sv_internal := AList.delete i (sv_internal s)\<rparr> in
                     if ir_worker internal \<noteq> token
                     then (Inl (SupContract ''internal response crossed worker generations''), s1)
                     else handle_internal_response X E internal f has_error s1)
                | None \<Rightarrow>
                    if active_token s \<noteq> Some token then (Inr (), s)
                    else forward_response X E token f has_error s)
           | Request i _ \<Rightarrow>
               if active_token s \<noteq> Some token then
                 (if candidate_token s = Some token then reject_candidate X E s else (Inr (), s))
               else forward_callback X E token i f s
           | Notification _ \<Rightarrow>
               if active_token s = Some token then emit E (WroteFrame (fr_payload f)) (fr_payload f) s
               else (Inr (), s)))"

section \<open>Frames from the client\<close>

definition route_callback_response :: "'n extern \<Rightarrow> env \<Rightarrow> 'n request_id \<Rightarrow> 'n frame \<Rightarrow> ('n, unit) sop" where
  "route_callback_response X E i f s =
     (case map_of (sv_callbacks s) i of
        None \<Rightarrow> (Inr (), s)
      | Some route \<Rightarrow>
          bindO (liftO (rewrite_id (fr_value f) (cr_original route))) (\<lambda>rewritten.
          bindO (liftO (serialize X rewritten)) (\<lambda>bytes.
            catchO (send_worker E (cr_worker route) bytes)
              (\<lambda>_. handle_worker_loss_by_id X E (Some (cr_worker route)))))
            (s\<lparr>sv_callbacks := AList.delete i (sv_callbacks s)\<rparr>))"

definition cancellation_target :: "'n frame \<Rightarrow> 'n request_id option" where
  "cancellation_target f =
     Option.bind (get_member (fr_value f) ''params'') (\<lambda>params.
     Option.bind (get_member params ''requestId'') request_id_from_json)"

definition route_cancellation :: "'n extern \<Rightarrow> env \<Rightarrow> 'n frame \<Rightarrow> ('n, unit) sop" where
  "route_cancellation X E f s =
     (case Option.bind (cancellation_target f) (get_pending (sv_kernel s)) of
        None \<Rightarrow> (Inr (), s)
      | Some _ \<Rightarrow>
          (case active_token s of
             None \<Rightarrow> (Inr (), s)
           | Some token \<Rightarrow>
               catchO (send_worker E token (fr_payload f))
                 (\<lambda>_. handle_worker_loss_by_id X E (Some token)) s))"

definition send_or_lose :: "'n extern \<Rightarrow> env \<Rightarrow> byte list \<Rightarrow> ('n, unit) sop" where
  "send_or_lose X E payload s =
     catchO (send_active E payload) (\<lambda>_. handle_worker_loss_by_id X E (active_token s)) s"

definition forward_initialized :: "'n extern \<Rightarrow> env \<Rightarrow> 'n frame \<Rightarrow> ('n, unit) sop" where
  "forward_initialized X E f s =
     (let token = active_token s in
      bindO (catchO (bindO (send_active E (fr_payload f)) (\<lambda>_. retO True))
               (\<lambda>_. bindO (handle_worker_loss_by_id X E token) (\<lambda>_. retO False)))
        (\<lambda>sent. if sent
           then catchO (request_active_catalog X E) (\<lambda>_. handle_worker_loss_by_id X E token)
           else retO ()) s)"

definition forward_request :: "'n extern \<Rightarrow> env \<Rightarrow> 'n frame \<Rightarrow> rpc_method \<Rightarrow> ('n, unit) sop" where
  "forward_request X E f m =
     bindO (dispatch_request X E f m) (\<lambda>r. case r of
         Some rejection \<Rightarrow> reject_client_frame X E f rejection
       | None \<Rightarrow> send_or_lose X E (fr_payload f))"

definition list_tools :: "'n extern \<Rightarrow> env \<Rightarrow> 'n frame \<Rightarrow> ('n, unit) sop" where
  "list_tools X E f s =
     (if sv_phase s = AwaitingCatalogRefresh
      then try_begin_restore X E
             (set_candidate_deadline None (s\<lparr>sv_refresh := Some f, sv_phase := Draining\<rparr>))
      else if gating_new_work s then queue_or_reject X E f s
      else reply_catalog X E f s)"

definition dispatch_client_frame :: "'n extern \<Rightarrow> env \<Rightarrow> 'n frame \<Rightarrow> ('n, unit) sop" where
  "dispatch_client_frame X E f s =
     (case fr_envelope f of
        Response i _ \<Rightarrow> route_callback_response X E i f s
      | Notification m \<Rightarrow>
          if is_initialized_notification m then forward_initialized X E f s
          else if method_text m = ''notifications/cancelled'' then route_cancellation X E f s
          else if gating_new_work s \<or> sv_active s = None then queue_or_reject X E f s
          else send_or_lose X E (fr_payload f) s
      | Request _ m \<Rightarrow>
          if method_text m = ''tools/list'' \<and> sv_published s \<noteq> None then list_tools X E f s
          else if \<not> is_initialize m \<and> sv_published s = None then queue_or_reject X E f s
          else if gating_new_work s \<or> sv_active s = None then queue_or_reject X E f s
          else forward_request X E f m s)"

definition handle_client_payload :: "'n extern \<Rightarrow> env \<Rightarrow> byte list \<Rightarrow> ('n, unit) sop" where
  "handle_client_payload X E payload s =
     (case frame_parse X payload of
        Inl e \<Rightarrow> write_value X E (parse_error_response X (e_error_text E e)) s
      | Inr f \<Rightarrow>
          (case observe_client_frame f (sv_kernel s) of
             (Inl rejection, k) \<Rightarrow> reject_client_frame X E f rejection (s\<lparr>sv_kernel := k\<rparr>)
           | (Inr _, k) \<Rightarrow> dispatch_client_frame X E f (s\<lparr>sv_kernel := k\<rparr>)))"

section \<open>The event loop\<close>

datatype sup_event = ClientPayload "byte list" | ClientEnd | ClientFault io_error
  | WorkerFrame u64 "byte list" | WorkerGone u64 | Tick

definition shutdown :: "'n supervisor \<Rightarrow> 'n supervisor" where
  "shutdown s =
     drop_candidate (case sv_active s of
        None \<Rightarrow> s | Some w \<Rightarrow> kill w (s\<lparr>sv_active := None\<rparr>))"

text \<open>\<open>True\<close> goes on with the loop; \<open>False\<close> is the orderly end of the session.\<close>

definition handle_event :: "'n extern \<Rightarrow> env \<Rightarrow> sup_event \<Rightarrow> ('n, bool) sop" where
  "handle_event X E ev s =
     (case ev of
        ClientPayload p \<Rightarrow> bindO (handle_client_payload X E p) (\<lambda>_. retO True) s
      | ClientEnd \<Rightarrow> (Inr False, shutdown s)
      | ClientFault e \<Rightarrow> (Inl (SupIo e), shutdown s)
      | WorkerFrame token p \<Rightarrow> bindO (handle_worker_payload X E token p) (\<lambda>_. retO True) s
      | WorkerGone token \<Rightarrow> bindO (handle_worker_loss X E token) (\<lambda>_. retO True) s
      | Tick \<Rightarrow> bindO (on_tick X E) (\<lambda>_. retO True) s)"

fun event_loop :: "'n extern \<Rightarrow> env \<Rightarrow> sup_event list \<Rightarrow> ('n, bool) sop" where
  "event_loop X E [] s = (Inr True, s)"
| "event_loop X E (ev # evs) s =
     bindO (handle_event X E ev) (\<lambda>goes_on. if goes_on then event_loop X E evs else retO False) s"

definition start :: "'n extern \<Rightarrow> env \<Rightarrow> config \<Rightarrow> sup_event list \<Rightarrow> ('n, bool) sop" where
  "start X E c evs =
     bindO (spawn_worker E (cf_initial c)) (\<lambda>w.
     bindO (modO (\<lambda>s. s\<lparr>sv_active := Some w\<rparr>)) (\<lambda>_. event_loop X E evs))"

end
