(* ===== verification/SupInv.thy ===== *)
theory SupInv
  imports Handlers Session "HOL-Library.Multiset"
begin

text \<open>
  The supervisor's invariant: its kernel is one the session kernel reaches by its own
  operations, its workers, callbacks and phase agree, its journal is within bounds and its
  private identifiers are fresh. Every handler keeps it, whatever the environment answers
  and also when the handler fails.
\<close>

section \<open>The kernel under the supervisor\<close>

text \<open>
  The events the supervisor puts the kernel through: parsed frames, its own capacities and
  replay limit, never a probe. The supervisor classifies no request as probe-required.
\<close>

fun host_event :: "'n extern \<Rightarrow> 'n kevent \<Rightarrow> bool" where
  "host_event X (Observe f) \<longleftrightarrow> frame_ok X f"
| "host_event X (Enqueue f n) \<longleftrightarrow> frame_ok X f \<and> n = queue_capacity"
| "host_event X Pop \<longleftrightarrow> True"
| "host_event X (Begin now f c n) \<longleftrightarrow> frame_ok X f \<and> c \<noteq> ProbeRequired \<and> n = pending_capacity"
| "host_event X (Complete f) \<longleftrightarrow> True"
| "host_event X (Requeue b) \<longleftrightarrow> b = replay_limits"
| "host_event X (Resolve i r m) \<longleftrightarrow> False"

definition host_kernel :: "'n extern \<Rightarrow> 'n kernel \<Rightarrow> bool" where
  "host_kernel X k \<longleftrightarrow> (\<exists>evs. list_all (host_event X) evs \<and> k = run_kernel (session_run X evs))"

lemma host_event_ok: "host_event X ev \<Longrightarrow> session_event_ok X max_replay_attempts ev"
  by (cases ev) (auto simp: session_event_ok_def replay_limits_def max_replay_attempts_def
      queue_capacity_def usize_max_def)

lemma run_kernel_step: "run_kernel (session_run X (evs @ [ev])) = kstep X (run_kernel (session_run X evs)) ev"
  by (cases "session_run X evs") (simp add: session_run_def run_kernel_def)

lemma host_kernel_cold: "host_kernel X cold"
  unfolding host_kernel_def by (rule exI [of _ "[]"]) (simp add: session_run_def run_kernel_def)

lemma host_kernel_step: "host_kernel X k \<Longrightarrow> host_event X ev \<Longrightarrow> host_kernel X (kstep X k ev)"
  unfolding host_kernel_def by (metis run_kernel_step list_all_append list.pred_inject)

lemma host_kernel_inv:
  assumes "host_kernel X k"
  shows "kernel_inv k" "session_ok k" "wire_ok X k" "replay_bounded max_replay_attempts k"
proof -
  from assms obtain evs where "list_all (session_event_ok X max_replay_attempts) evs"
    "k = run_kernel (session_run X evs)"
    by (auto simp: host_kernel_def list_all_iff intro: host_event_ok)
  then show "kernel_inv k" "session_ok k" "wire_ok X k" "replay_bounded max_replay_attempts k"
    by (auto elim: session_parts)
qed

lemma host_observe: "host_kernel X k \<Longrightarrow> frame_ok X f \<Longrightarrow> host_kernel X (snd (observe_client_frame f k))"
  using host_kernel_step [of X k "Observe f"] by (simp add: kstep_def)

lemma host_enqueue:
  "host_kernel X k \<Longrightarrow> frame_ok X f \<Longrightarrow> host_kernel X (snd (queue_client_frame f queue_capacity k))"
  using host_kernel_step [of X k "Enqueue f queue_capacity"] by (simp add: kstep_def)

lemma host_pop: "host_kernel X k \<Longrightarrow> host_kernel X (snd (pop_next_dispatch k))"
  using host_kernel_step [of X k Pop] by (simp add: kstep_def)

lemma host_begin:
  "host_kernel X k \<Longrightarrow> frame_ok X f \<Longrightarrow> c \<noteq> ProbeRequired \<Longrightarrow>
     host_kernel X (snd (begin_request_dispatch X now f c pending_capacity k))"
  using host_kernel_step [of X k "Begin now f c pending_capacity"] by (simp add: kstep_def)

lemma host_complete: "host_kernel X k \<Longrightarrow> host_kernel X (snd (complete_response f k))"
  using host_kernel_step [of X k "Complete f"] by (simp add: kstep_def)

lemma host_requeue: "host_kernel X k \<Longrightarrow> host_kernel X (snd (requeue_pending_for_replay replay_limits k))"
  using host_kernel_step [of X k "Requeue replay_limits"] by (simp add: kstep_def)

lemmas host_kernel_rules = host_observe host_enqueue host_pop host_begin host_complete host_requeue

lemma classify_request_cases: "classify_request X s f m \<in> {Convergent, NeverReplay}"
  by (auto simp: classify_request_def replay_contract_def
      split: option.splits effect_recovery.splits)

lemma classify_not_probe: "classify_request X s f m \<noteq> ProbeRequired"
  using classify_request_cases [of X s f m] by auto

lemma pop_frame_ok:
  assumes "host_kernel X k" and "pop_next_dispatch k = (Inr outcome, k')"
    and "outcome = ReplayFrame f \<or> outcome = ClientFrame f"
  shows "frame_ok X f"
proof -
  have "f \<in> set (k_queue k)" using assms(2,3)
    by (auto simp: pop_next_dispatch_def Let_def
        split: list.splits envelope.splits option.splits disposition.splits sum.splits)
  with host_kernel_inv(3) [OF assms(1)] show ?thesis by (simp add: wire_ok_def)
qed

section \<open>Private identifiers\<close>

lemma show_nat_no_slash: "CHR ''/'' \<notin> set (show_nat n)"
proof -
  have "\<not> is_ascii_digit CHR ''/''" by code_simp
  with show_nat_digits [of n] show ?thesis by (auto simp: list_all_iff)
qed

lemma tail_after_slash:
  assumes "CHR ''/'' \<notin> set s" and "CHR ''/'' \<notin> set t" and "a @ CHR ''/'' # s = b @ CHR ''/'' # t"
  shows "s = t"
proof -
  have "takeWhile (\<lambda>c. c \<noteq> CHR ''/'') (rev (a @ CHR ''/'' # s)) = rev s"
    using assms(1) by (simp add: takeWhile_append)
  moreover have "takeWhile (\<lambda>c. c \<noteq> CHR ''/'') (rev (b @ CHR ''/'' # t)) = rev t"
    using assms(2) by (simp add: takeWhile_append)
  ultimately show ?thesis using assms(3) by simp
qed

definition callback_text :: "u64 \<Rightarrow> string" where
  "callback_text n = ''io.libmcp/callback/'' @ show_nat (unat n)"

lemma show_unat_inj: "show_nat (unat m) = show_nat (unat n) \<longleftrightarrow> m = n"
  using show_nat_inj [of "unat m" "unat n"] by (auto simp: word_unat_eq_iff)

lemma callback_text_inj: "callback_text m = callback_text n \<longleftrightarrow> m = n"
  by (simp add: callback_text_def show_unat_inj)

lemma internal_text_inj:
  assumes "internal_text t k m = internal_text t' k' n"
  shows "m = n"
proof -
  have "internal_text t k m = (''io.libmcp/'' @ show_nat (unat t) @ ''/'' @ k) @ CHR ''/'' # show_nat (unat m)"
    for t k m by (simp add: internal_text_def)
  with assms tail_after_slash [OF show_nat_no_slash show_nat_no_slash]
  have "show_nat (unat m) = show_nat (unat n)" by metis
  then show ?thesis by (simp add: show_unat_inj)
qed

text \<open>
  Identifiers handed out so far carry counters up to the current one, so the next is new.
\<close>

definition issued_callback :: "u64 \<Rightarrow> 'n request_id \<Rightarrow> bool" where
  "issued_callback n i \<longleftrightarrow> (\<exists>m\<le>n. i = IdText (callback_text m))"

definition issued_internal :: "u64 \<Rightarrow> 'n request_id \<Rightarrow> bool" where
  "issued_internal n i \<longleftrightarrow> (\<exists>m\<le>n. \<exists>t k. i = IdText (internal_text t k m))"

lemma issued_mono:
  "issued_callback m i \<Longrightarrow> m \<le> n \<Longrightarrow> issued_callback n i"
  "issued_internal m i \<Longrightarrow> m \<le> n \<Longrightarrow> issued_internal n i"
  by (auto simp: issued_callback_def issued_internal_def intro: order.trans)

lemma issued_new:
  assumes "checked_add n 1 = Some m"
  shows "issued_callback m (IdText (callback_text m))" "\<not> issued_callback n (IdText (callback_text m))"
    "issued_internal m (IdText (internal_text t k m))" "\<not> issued_internal n (IdText (internal_text t k m))"
  using checked_add_less [OF assms]
  by (auto simp: issued_callback_def issued_internal_def callback_text_inj dest: internal_text_inj)

definition ids_ok :: "('n request_id \<Rightarrow> bool) \<Rightarrow> ('n request_id \<times> 'a) list \<Rightarrow> bool" where
  "ids_ok issued al \<longleftrightarrow> alist_ok al \<and> (\<forall>i. map_of al i \<noteq> None \<longrightarrow> issued i)"

section \<open>Workers, callbacks and the phase\<close>

definition workers_ok :: "u64 \<Rightarrow> 'n worker_handle option \<Rightarrow> 'n candidate option \<Rightarrow>
    ('n request_id \<times> 'n callback_route) list \<Rightarrow> rollover_phase \<Rightarrow> bool" where
  "workers_ok n a c cbs ph \<longleftrightarrow>
     (\<forall>w. a = Some w \<longrightarrow> wh_token w \<le> n) \<and>
     (\<forall>x. c = Some x \<longrightarrow> wh_token (cd_worker x) \<le> n \<and> (cd_purpose x = Rollover \<longleftrightarrow> a \<noteq> None)) \<and>
     (\<forall>w x. a = Some w \<and> c = Some x \<longrightarrow> wh_token w \<noteq> wh_token (cd_worker x)) \<and>
     (\<forall>e\<in>set cbs. map_option wh_token a = Some (cr_worker (snd e))) \<and>
     (ph = PhaseNone \<longrightarrow> a \<noteq> None) \<and> (ph = Recovering \<longrightarrow> a = None)"

section \<open>The journal\<close>

definition journal_ok :: "'n session_journal \<Rightarrow> bool" where
  "journal_ok j \<longleftrightarrow> length (sj_entries j) \<le> journal_max_entries \<and>
     sj_bytes j = sum_list (map entry_bytes (sj_entries j)) \<and> sj_bytes j \<le> journal_max_bytes \<and>
     distinct (map je_key (sj_entries j))"

lemma journal_take_Some:
  assumes "journal_take key es = Some (e, rest)"
  shows "je_key e = key \<and> mset es = add_mset e (mset rest)"
  using assms by (induction es arbitrary: rest) (auto split: if_splits)

lemma journal_take_None: "journal_take key es = None \<longleftrightarrow> key \<notin> je_key ` set es"
  by (induction es) auto

lemma journal_drop_ok:
  assumes "journal_ok j"
  shows "journal_ok (journal_drop key j)" "key \<notin> je_key ` set (sj_entries (journal_drop key j))"
proof -
  have "journal_ok (journal_drop key j) \<and> key \<notin> je_key ` set (sj_entries (journal_drop key j))"
  proof (cases "journal_take key (sj_entries j)")
    case None
    then have "key \<notin> je_key ` set (sj_entries j)" using journal_take_None by metis
    with None assms show ?thesis by (simp add: journal_drop_def)
  next
    case (Some er)
    obtain e rest where er: "er = (e, rest)" by fastforce
    with journal_take_Some [of key "sj_entries j" e rest] Some
    have *: "je_key e = key" "mset (sj_entries j) = add_mset e (mset rest)" by auto
    from * have "length (sj_entries j) = Suc (length rest)" by (metis size_add_mset size_mset)
    moreover have "sum_list (map entry_bytes (sj_entries j)) = entry_bytes e + sum_list (map entry_bytes rest)"
      using * by (metis mset_map sum_mset_sum_list image_mset_add_mset sum_mset.add_mset)
    moreover have "mset (map je_key (sj_entries j)) = mset (key # map je_key rest)" using * by simp
    then have "distinct (key # map je_key rest)"
      using assms by (metis journal_ok_def mset_eq_imp_distinct_iff)
    ultimately show ?thesis using assms Some er by (auto simp: journal_drop_def journal_ok_def)
  qed
  then show "journal_ok (journal_drop key j)" "key \<notin> je_key ` set (sj_entries (journal_drop key j))"
    by simp_all
qed

lemma journal_record_ok:
  assumes "journal_ok j"
  shows "journal_ok (snd (journal_record key f j))"
proof -
  let ?j = "journal_drop key j"
  have ok: "journal_ok ?j" "key \<notin> je_key ` set (sj_entries ?j)"
    using journal_drop_ok [OF assms] by auto
  then show ?thesis
    by (auto simp: journal_record_def Let_def journal_ok_def entry_bytes_def usize_checked_add_def
        split: option.splits)
qed

section \<open>The invariant\<close>

definition sup_inv :: "'n extern \<Rightarrow> 'n supervisor \<Rightarrow> bool" where
  "sup_inv X s \<longleftrightarrow> host_kernel X (sv_kernel s) \<and>
     workers_ok (sv_next_worker s) (sv_active s) (sv_candidate s) (sv_callbacks s) (sv_phase s) \<and>
     journal_ok (sv_journal s) \<and>
     ids_ok (issued_callback (sv_next_callback s)) (sv_callbacks s) \<and>
     ids_ok (issued_internal (sv_next_internal s)) (sv_internal s)"

lemma map_of_filter_ne: "map_of (filter P al) i \<noteq> None \<Longrightarrow> map_of al i \<noteq> None"
  by (induction al) (auto split: if_splits)

lemma ids_ok_simps [simp]:
  "ids_ok I []"
  "ids_ok I al \<Longrightarrow> ids_ok I (AList.delete i al)"
  "ids_ok I al \<Longrightarrow> ids_ok I (filter P al)"
proof -
  show "ids_ok I []" by (simp add: ids_ok_def)
  show "ids_ok I (AList.delete i al)" if "ids_ok I al" using that by (simp add: ids_ok_def lookup_simps)
  show "ids_ok I (filter P al)" if "ids_ok I al"
    using that map_of_filter_ne [of P al] unfolding ids_ok_def alist_ok_def
    by (simp add: distinct_map_filter)
qed

lemma ids_ok_update:
  assumes "ids_ok (issued m) al" and "\<And>i. issued m i \<Longrightarrow> issued n i" and "issued n i"
  shows "ids_ok (issued n) (AList.update i v al)"
  using assms by (auto simp: ids_ok_def lookup_simps)

lemma quiet_sup_inv: "quiet s s' \<Longrightarrow> sup_inv X s' = sup_inv X s"
  by (simp add: sup_inv_def quiet_fields)

lemma leaves_quiet_inv: "leaves (quiet s) r \<Longrightarrow> sup_inv X s \<Longrightarrow> leaves (sup_inv X) r"
  by (simp add: leaves_def quiet_sup_inv)

lemma quiet_ops_inv [leaves_rules]:
  assumes "sup_inv X s"
  shows "leaves (sup_inv X) (emit E e p s)" "leaves (sup_inv X) (write_value X' E v s)"
    "leaves (sup_inv X) (send_handle E w p s)" "leaves (sup_inv X) (send_active E p s)"
    "leaves (sup_inv X) (send_worker E t p s)" "leaves (sup_inv X) (reply_catalog X' E f s)"
    "leaves (sup_inv X) (reject_client_id X' E i r s)" "leaves (sup_inv X) (reject_client_frame X' E f r s)"
    "leaves (sup_inv X) (write_rejections X' E rs s)"
  by (rule leaves_quiet_inv [OF _ assms], rule leaves_rules, simp)+

lemma sup_inv_updates [simp]:
  "sup_inv X (s\<lparr>sv_calls := n\<rparr>) = sup_inv X s" "sup_inv X (s\<lparr>sv_log := l\<rparr>) = sup_inv X s"
  "sup_inv X (s\<lparr>sv_retry_at := r\<rparr>) = sup_inv X s" "sup_inv X (s\<lparr>sv_rejected := g\<rparr>) = sup_inv X s"
  "sup_inv X (s\<lparr>sv_refresh := rf\<rparr>) = sup_inv X s" "sup_inv X (record_effect e s) = sup_inv X s"
  "sup_inv X (s\<lparr>sv_published := pc\<rparr>) = sup_inv X s"
  by (simp_all add: sup_inv_def record_effect_def)

lemma ask_inv [leaves_rules]: "sup_inv X s \<Longrightarrow> leaves (sup_inv X) (ask q s)"
  by (simp add: ask_def)

lemma workers_ok_lost:
  assumes "workers_ok n (Some w) c cbs ph"
  shows "workers_ok n None None (filter (\<lambda>(_, r). cr_worker r \<noteq> wh_token w) cbs) Recovering"
  using assms by (auto simp: workers_ok_def)

lemma worker_loss_inv [leaves_rules]:
  assumes inv: "sup_inv X s"
  shows "leaves (sup_inv X) (handle_worker_loss_by_id X' E token s)"
proof (cases "token = None \<or> active_token s \<noteq> token")
  case True
  with inv show ?thesis by (simp add: handle_worker_loss_by_id_def)
next
  case False
  then obtain w where w: "sv_active s = Some w" by (auto simp: active_token_def)
  let ?s1 = "(drop_candidate (forget_active s))\<lparr>sv_internal := [], sv_phase := Recovering\<rparr>"
  obtain outcome k where rq: "requeue_pending_for_replay replay_limits (sv_kernel ?s1) = (outcome, k)"
    by fastforce
  have k: "sv_kernel ?s1 = sv_kernel s"
    by (simp add: w drop_candidate_def forget_active_def retain_callbacks_def kill_def record_effect_def
        split: option.split)
  have "host_kernel X k" using host_requeue [of X "sv_kernel s"] inv rq k by (simp add: sup_inv_def)
  then have "sup_inv X (?s1\<lparr>sv_kernel := k\<rparr>)"
    using inv workers_ok_lost [of "sv_next_worker s" w]
    by (auto simp: sup_inv_def w drop_candidate_def forget_active_def retain_callbacks_def kill_def
        record_effect_def split: option.split)
  with False rq show ?thesis unfolding handle_worker_loss_by_id_def Let_def
    by (simp only: if_False split) (rule leaves_rules | simp)+
qed

lemma send_active_or_recover_inv [leaves_rules]:
  "sup_inv X s \<Longrightarrow> leaves (sup_inv X) (send_active_or_recover X' E p s)"
  unfolding send_active_or_recover_def by (rule leaves_rules | simp)+

lemma dispatch_request_inv [leaves_rules]:
  assumes "sup_inv X s" and "frame_ok X f"
  shows "leaves (sup_inv X) (dispatch_request X E f m s)"
proof -
  let ?s = "s\<lparr>sv_calls := Suc (sv_calls s)\<rparr>"
  have "host_kernel X (snd (begin_request_dispatch X (e_now E (sv_calls s)) f
      (classify_request X ?s f m) pending_capacity (sv_kernel s)))"
    by (rule host_begin) (use assms classify_not_probe in \<open>auto simp: sup_inv_def\<close>)
  with assms show ?thesis
    by (auto simp: dispatch_request_def sup_inv_def split: prod.split sum.split)
qed

lemma flush_client_frame_inv [leaves_rules]:
  "sup_inv X s \<Longrightarrow> frame_ok X f \<Longrightarrow> leaves (sup_inv X) (flush_client_frame X E f s)"
  unfolding flush_client_frame_def by (auto intro!: leaves_rules split: envelope.split)

lemma flush_step_inv [leaves_rules]:
  assumes inv: "sup_inv X s"
  shows "leaves (sup_inv X) (flush_step X E s)"
proof -
  obtain r k where pop: "pop_next_dispatch (sv_kernel s) = (r, k)" by fastforce
  have hk: "host_kernel X (sv_kernel s)" using inv by (simp add: sup_inv_def)
  have "sup_inv X (s\<lparr>sv_kernel := k\<rparr>)" using inv host_pop [OF hk] pop by (simp add: sup_inv_def)
  moreover have "frame_ok X f" if "r = Inr (ReplayFrame f) \<or> r = Inr (ClientFrame f)" for f
    using pop_frame_ok [OF hk] pop that by auto
  ultimately show ?thesis using pop
    by (auto simp: flush_step_def intro!: leaves_rules split: sum.split queue_outcome.split)
qed

lemma flush_queue_inv [leaves_rules]: "sup_inv X s \<Longrightarrow> leaves (sup_inv X) (flush_queue X E s)"
proof (induction X E s rule: flush_queue.induct)
  case (1 X E s)
  note step = flush_step_inv [OF 1(2), of E]
  show ?case
  proof (cases "flush_step X E s")
    case (Pair r s')
    with step have "sup_inv X s'" by simp
    with 1 Pair show ?thesis
      by (subst flush_queue.simps) (auto split: sum.split)
  qed
qed

end
