(* ===== verification/SupSteps.thy ===== *)
theory SupSteps
  imports SupInv
begin

text \<open>
  Every handler of the supervisor keeps the invariant of \<open>SupInv\<close>; so does every run of
  its event loop.
\<close>

section \<open>Candidates\<close>

lemma workers_ok_no_candidate: "workers_ok n a c cbs ph \<Longrightarrow> workers_ok n a None cbs ph"
  by (simp add: workers_ok_def)

lemma workers_ok_phase_none:
  "workers_ok n (Some w) c cbs ph \<Longrightarrow> workers_ok n (Some w) c cbs PhaseNone"
  by (simp add: workers_ok_def)

lemma workers_ok_phase:
  "workers_ok n a c cbs ph \<Longrightarrow> ph' = Draining \<or> ph' = AwaitingCatalogRefresh \<Longrightarrow> workers_ok n a c cbs ph'"
  by (auto simp: workers_ok_def)

lemma set_phase_inv:
  assumes "sup_inv X s" and "ph = Draining \<or> ph = AwaitingCatalogRefresh"
  shows "sup_inv X (s\<lparr>sv_phase := ph\<rparr>)"
  using assms workers_ok_phase [of "sv_next_worker s" "sv_active s" "sv_candidate s"
    "sv_callbacks s" "sv_phase s" ph] by (simp add: sup_inv_def)

lemma candidate_change:
  assumes "sup_inv X s" and "sv_candidate s = Some c"
    and "wh_token (cd_worker c') = wh_token (cd_worker c)" and "cd_purpose c' = cd_purpose c"
  shows "sup_inv X (s\<lparr>sv_candidate := Some c'\<rparr>)"
  using assms by (auto simp: sup_inv_def workers_ok_def)

lemma deadline_inv: "sup_inv X s \<Longrightarrow> sup_inv X (set_candidate_deadline d s)"
  using candidate_change [of X s]
  by (cases "sv_candidate s") (auto simp: set_candidate_deadline_def sup_inv_def)

definition rejected_state :: "'n supervisor \<Rightarrow> 'n supervisor" where
  "rejected_state s = (case sv_candidate s of
     None \<Rightarrow> s
   | Some c \<Rightarrow>
       let s0 = s\<lparr>sv_candidate := None\<rparr>;
           s0' = (if cd_purpose c = Rollover
                  then s0\<lparr>sv_rejected := Some (mf_generation (wh_release (cd_worker c)))\<rparr>
                  else s0)
       in retain_internal (wh_token (cd_worker c)) (kill (cd_worker c) s0'))"

lemma reject_candidate_eq:
  "reject_candidate X E s =
     (if sv_active s \<noteq> None
      then flush_queue X E ((rejected_state s)\<lparr>sv_phase := PhaseNone, sv_refresh := None\<rparr>)
      else (Inr (), rejected_state s))"
  by (auto simp: reject_candidate_def rejected_state_def Let_def retain_internal_def kill_def
      record_effect_def split: option.split)

lemma rejected_state_fields [simp]:
  "sv_active (rejected_state s) = sv_active s" "sv_candidate (rejected_state s) = None"
  "sv_kernel (rejected_state s) = sv_kernel s" "sv_phase (rejected_state s) = sv_phase s"
  "sv_journal (rejected_state s) = sv_journal s" "sv_published (rejected_state s) = sv_published s"
  by (auto simp: rejected_state_def Let_def retain_internal_def kill_def record_effect_def
      split: option.split)

lemma rejected_state_inv: "sup_inv X s \<Longrightarrow> sup_inv X (rejected_state s)"
  by (auto simp: rejected_state_def sup_inv_def Let_def retain_internal_def kill_def record_effect_def
      intro: workers_ok_no_candidate split: option.split)

lemma reject_candidate_inv [leaves_rules]:
  assumes "sup_inv X s"
  shows "leaves (sup_inv X) (reject_candidate X E s)"
proof (cases "sv_active s")
  case None
  then show ?thesis using rejected_state_inv [OF assms] by (simp add: reject_candidate_eq)
next
  case (Some w)
  have "sup_inv X ((rejected_state s)\<lparr>sv_phase := PhaseNone, sv_refresh := None\<rparr>)"
    using rejected_state_inv [OF assms] Some workers_ok_phase_none by (auto simp: sup_inv_def)
  from flush_queue_inv [OF this] Some show ?thesis by (simp add: reject_candidate_eq)
qed

lemma install_candidate_inv:
  assumes inv: "sup_inv X s" and c: "sv_candidate s = Some c"
  shows "sup_inv X (install_candidate c s)"
proof -
  have w: "workers_ok (sv_next_worker s) (sv_active s) (Some c) (sv_callbacks s) (sv_phase s)"
    using inv c by (simp add: sup_inv_def)
  show ?thesis
  proof (cases "sv_active s")
    case None
    with w have "sv_callbacks s = []" by (cases "sv_callbacks s") (auto simp: workers_ok_def)
    with inv None w show ?thesis by (auto simp: install_candidate_def sup_inv_def Let_def workers_ok_def)
  next
    case (Some incumbent)
    with w have "filter (\<lambda>(_, r). cr_worker r \<noteq> wh_token incumbent) (sv_callbacks s) = []"
      by (auto simp: workers_ok_def filter_empty_conv)
    with inv Some w show ?thesis
      by (auto simp: install_candidate_def sup_inv_def Let_def workers_ok_def kill_def record_effect_def
          retain_callbacks_def)
  qed
qed

lemma activate_candidate_inv [leaves_rules]:
  assumes "sup_inv X s"
  shows "leaves (sup_inv X) (activate_candidate X E s)"
proof (cases "sv_candidate s")
  case None
  with assms show ?thesis by (simp add: activate_candidate_def)
next
  case (Some c)
  note install_candidate_inv [OF assms Some]
  then show ?thesis
    by (auto simp: activate_candidate_def Some Let_def intro!: leaves_rules split: option.split)
qed

lemma internal_id_inv [leaves_rules]:
  assumes "sup_inv X s"
  shows "leaves (sup_inv X) (internal_id t k s)"
proof (cases "checked_add (sv_next_internal s) 1")
  case None
  with assms show ?thesis by (simp add: internal_id_def)
next
  case (Some n)
  have "ids_ok (issued_internal n) (sv_internal s)"
    using assms issued_mono(2) checked_add_less [OF Some]
    by (fastforce simp: sup_inv_def ids_ok_def less_imp_le)
  with Some assms show ?thesis by (simp add: internal_id_def sup_inv_def)
qed

lemma internal_id_result:
  assumes "internal_id t k s = (Inr i, s')"
  shows "issued_internal (sv_next_internal s') i" "sv_candidate s' = sv_candidate s"
  using assms issued_new(3) by (auto simp: internal_id_def split: option.splits)

lemma insert_internal_inv [leaves_rules]:
  assumes "sup_inv X s" and "issued_internal (sv_next_internal s) i"
  shows "leaves (sup_inv X) (insert_internal i t a s)"
  using assms ids_ok_update [of "issued_internal" "sv_next_internal s" "sv_internal s" "sv_next_internal s"]
  by (simp add: insert_internal_def sup_inv_def)

lemma continue_restore_inv [leaves_rules]:
  assumes "sup_inv X s"
  shows "leaves (sup_inv X) (continue_restore X E index s)"
proof (cases "index \<ge> length (sj_entries (sv_journal s)) \<or> sv_candidate s = None")
  case True
  with assms show ?thesis
    by (auto simp: continue_restore_def intro!: leaves_rules split: option.split)
next
  case False
  then obtain c where c: "sv_candidate s = Some c" by auto
  have "sup_inv X (s\<lparr>sv_calls := Suc (sv_calls s), sv_candidate := Some (c\<lparr>cd_stage := CandidateRestoring,
      cd_deadline := Some (e_now E (sv_calls s) + candidate_timeout)\<rparr>)\<rparr>)"
    by (rule candidate_change [where c = c]) (use assms c in auto)
  with False c show ?thesis unfolding continue_restore_def
    by (auto intro!: leaves_rules dest: internal_id_result split: sum.split)
qed

lemma try_begin_restore_inv [leaves_rules]:
  "sup_inv X s \<Longrightarrow> leaves (sup_inv X) (try_begin_restore X E s)"
  unfolding try_begin_restore_def by (auto intro!: leaves_rules)

lemma on_candidate_ready_inv [leaves_rules]:
  assumes "sup_inv X s"
  shows "leaves (sup_inv X) (on_candidate_ready X E c s)"
  using assms
  by (auto simp: on_candidate_ready_def intro!: leaves_rules deadline_inv set_phase_inv split: sum.split)

lemma kernel_seed_result: "kernel_seed s = (r, s') \<Longrightarrow> s' = s"
  by (auto simp: kernel_seed_def split: sum.splits option.splits)

lemma kernel_seed_inv [leaves_rules]: "sup_inv X s \<Longrightarrow> leaves (sup_inv X) (kernel_seed s)"
  by (auto simp: kernel_seed_def split: sum.split option.split)

lemma seed_candidate_initialize_inv [leaves_rules]:
  "sup_inv X s \<Longrightarrow> leaves (sup_inv X) (seed_candidate_initialize X' E t s)"
  unfolding seed_candidate_initialize_def
  by (auto intro!: leaves_rules dest: internal_id_result split: sum.split)

lemma send_handle_result: "send_handle E w p s = (r, s') \<Longrightarrow> quiet s s'"
  using send_handle_quiet [of s s E w p] by simp

lemma seed_candidate_catalog_inv [leaves_rules]:
  assumes "sup_inv X s"
  shows "leaves (sup_inv X) (seed_candidate_catalog X' E s)"
proof (cases "sv_candidate s")
  case None
  with assms show ?thesis by (simp add: seed_candidate_catalog_def)
next
  case (Some c)
  have stage: "sup_inv X (s'\<lparr>sv_candidate := Some (c\<lparr>cd_stage := CandidateCatalog\<rparr>)\<rparr>)"
    if "send_handle E (cd_worker c) p s = (r, s')" "sup_inv X s'" for p r s'
    by (rule candidate_change [where c = c])
      (use that Some send_handle_result [OF that(1)] in \<open>auto simp: quiet_fields\<close>)
  show ?thesis unfolding seed_candidate_catalog_def
    using assms Some stage
    by (auto intro!: leaves_rules dest!: kernel_seed_result dest: internal_id_result
        split: sum.split option.split)
qed

lemma request_active_catalog_inv [leaves_rules]:
  "sup_inv X s \<Longrightarrow> leaves (sup_inv X) (request_active_catalog X' E s)"
  unfolding request_active_catalog_def
  by (auto intro!: leaves_rules dest: internal_id_result split: sum.split option.split)

section \<open>Recovery and the tick\<close>

lemma await_retry_inv [leaves_rules]: "sup_inv X s \<Longrightarrow> leaves (sup_inv X) (await_retry E s)"
  by (simp add: await_retry_def)

lemma handle_worker_loss_inv [leaves_rules]:
  assumes inv: "sup_inv X s"
  shows "leaves (sup_inv X) (handle_worker_loss X E token s)"
proof (cases "sv_candidate s")
  case None
  then show ?thesis by (auto simp: handle_worker_loss_def intro!: leaves_rules inv)
next
  case (Some c)
  have "sup_inv X ((retain_internal token (s\<lparr>sv_candidate := None\<rparr>))\<lparr>sv_phase := Recovering\<rparr>)"
    if "cd_purpose c \<noteq> Rollover"
    using inv that Some by (auto simp: sup_inv_def workers_ok_def retain_internal_def)
  then show ?thesis using Some inv
    by (auto simp: handle_worker_loss_def intro!: leaves_rules)
qed

lemma spawn_worker_result:
  assumes "spawn_worker E release s = (r, s')"
  shows "quiet (s\<lparr>sv_next_worker := sv_next_worker s'\<rparr>) s'" "sv_next_worker s \<le> sv_next_worker s'"
    "r = Inr w \<Longrightarrow> wh_token w = sv_next_worker s' \<and> sv_next_worker s < sv_next_worker s'"
  using assms checked_add_less [of "sv_next_worker s"]
  by (auto simp: spawn_worker_def quiet_def record_effect_def less_imp_le
      split: sum.splits option.splits)

lemma workers_ok_mono: "workers_ok m a c cbs ph \<Longrightarrow> m \<le> n \<Longrightarrow> workers_ok n a c cbs ph"
  by (auto simp: workers_ok_def intro: order.trans)

lemma spawn_worker_inv [leaves_rules]:
  assumes "sup_inv X s"
  shows "leaves (sup_inv X) (spawn_worker E release s)"
proof (cases "spawn_worker E release s")
  case (Pair r s')
  note res = spawn_worker_result [OF Pair]
  have "sup_inv X (s\<lparr>sv_next_worker := sv_next_worker s'\<rparr>)"
    using assms res(2) workers_ok_mono by (auto simp: sup_inv_def)
  then show ?thesis using Pair quiet_sup_inv [OF res(1)] by simp
qed

lemma new_candidate_inv:
  assumes "sup_inv X s" and "spawn_worker E release s = (Inr w, s')"
    and "cd_worker c = w" and "cd_purpose c = Rollover \<longleftrightarrow> sv_active s \<noteq> None"
  shows "sup_inv X (s'\<lparr>sv_candidate := Some c\<rparr>)"
proof -
  note res = spawn_worker_result [OF assms(2)]
  have old: "wh_token v \<le> sv_next_worker s" if "sv_active s = Some v" for v
    using assms(1) that by (simp add: sup_inv_def workers_ok_def)
  have "sup_inv X s'" using spawn_worker_inv [OF assms(1)] assms(2) leaves_result by metis
  then show ?thesis
    using assms(3,4) res(3) [OF refl] quiet_fields [OF res(1)] old
    by (fastforce simp: sup_inv_def workers_ok_def)
qed

lemma drop_candidate_inv: "sup_inv X s \<Longrightarrow> sup_inv X (drop_candidate s)"
  by (auto simp: drop_candidate_def sup_inv_def kill_def record_effect_def
      intro: workers_ok_no_candidate split: option.split)

lemma retain_internal_inv: "sup_inv X s \<Longrightarrow> sup_inv X (retain_internal t s)"
  by (simp add: retain_internal_def sup_inv_def)

lemma place_recovery_worker_inv:
  assumes inv: "sup_inv X s" and ph: "sv_phase s = Recovering" and none: "sv_candidate s = None"
    and spawn: "spawn_worker E r s = (Inr w, s')"
  shows "leaves (sup_inv X) (place_recovery_worker X E w s')"
proof -
  have act: "sv_active s = None" using inv ph by (simp add: sup_inv_def workers_ok_def)
  have cb: "sv_callbacks s = []"
    using inv act by (cases "sv_callbacks s") (auto simp: sup_inv_def workers_ok_def)
  note res = spawn_worker_result [OF spawn]
  have inv': "sup_inv X s'" using spawn_worker_inv [OF inv, of E r] spawn leaves_result by fastforce
  have active: "sup_inv X (s'\<lparr>sv_active := Some w, sv_phase := PhaseNone, sv_retry_at := None\<rparr>)"
    using inv' res(3) [OF refl] quiet_fields [OF res(1)] none cb
    by (auto simp: sup_inv_def workers_ok_def)
  have candidate: "sup_inv X (s'\<lparr>sv_calls := n, sv_candidate := Some \<lparr>cd_worker = w, cd_purpose = Recovery,
      cd_stage = CandidateInitializing, cd_deadline = d\<rparr>\<rparr>)" for n d
    using new_candidate_inv [OF inv spawn, of "\<lparr>cd_worker = w, cd_purpose = Recovery,
      cd_stage = CandidateInitializing, cd_deadline = d\<rparr>"] act
    by (simp add: sup_inv_def)
  have abandon: "leaves (sup_inv X) (abandon_candidate t e u)" if "sup_inv X u" for t e and u :: "'a supervisor"
    using retain_internal_inv [OF drop_candidate_inv [OF that]] by (simp add: abandon_candidate_def)
  show ?thesis unfolding place_recovery_worker_def
    using active candidate by (auto intro!: leaves_rules abandon)
qed

lemma start_recovery_inv [leaves_rules]:
  assumes inv: "sup_inv X s" and ph: "sv_phase s = Recovering" and none: "sv_candidate s = None"
  shows "leaves (sup_inv X) (start_recovery X E s)"
  unfolding start_recovery_def
  by (auto intro!: leaves_bind spawn_worker_inv inv place_recovery_worker_inv [where s = "s\<lparr>sv_calls := n\<rparr>" for n]
      simp: ph none split: sum.split)

lemma reject_generation_inv [leaves_rules]: "sup_inv X s \<Longrightarrow> leaves (sup_inv X) (reject_generation g s)"
  by (simp add: reject_generation_def)

lemma launch_candidate_inv:
  assumes inv: "sup_inv X s" and act: "sv_active s \<noteq> None" and spawn: "spawn_worker E r s = (Inr w, s')"
  shows "leaves (sup_inv X) (launch_candidate X E w s')"
proof -
  have "sup_inv X (s'\<lparr>sv_calls := n, sv_candidate := Some \<lparr>cd_worker = w, cd_purpose = Rollover,
      cd_stage = CandidateInitializing, cd_deadline = d\<rparr>\<rparr>)" for n d
    using new_candidate_inv [OF inv spawn, of "\<lparr>cd_worker = w, cd_purpose = Rollover,
      cd_stage = CandidateInitializing, cd_deadline = d\<rparr>"] act
    by (simp add: sup_inv_def)
  then show ?thesis unfolding launch_candidate_def by (auto intro!: leaves_rules)
qed

lemma prepare_rollover_inv [leaves_rules]:
  assumes inv: "sup_inv X s" and act: "sv_active s \<noteq> None"
  shows "leaves (sup_inv X) (prepare_rollover X E release s)"
proof -
  let ?s = "s\<lparr>sv_calls := Suc (sv_calls s)\<rparr>"
  from act obtain v where active: "sv_active s = Some v" by blast
  have inv': "sup_inv X ?s" using inv by simp
  have launch: "leaves (sup_inv X) (launch_candidate X E w t)"
    if "catchO (bindO (spawn_worker E release) (\<lambda>w. retO (Some w)))
          (\<lambda>_. bindO (reject_generation g) (\<lambda>_. retO None)) ?s = (Inr (Some w), t)" for g w t
  proof (cases "spawn_worker E release ?s")
    case (Pair r u)
    with that show ?thesis
      by (cases r) (auto simp: catchO_def bindO_def reject_generation_def
          intro!: launch_candidate_inv [OF inv'] simp: active)
  qed
  show ?thesis unfolding prepare_rollover_def
    by (auto intro!: leaves_rules inv split: sum.split option.split dest: launch)
qed

lemma observe_channel_inv [leaves_rules]:
  "sup_inv X s \<Longrightarrow> leaves (sup_inv X) (observe_channel X E s)"
  unfolding observe_channel_def by (auto intro!: leaves_rules split: sum.split option.split)

lemma retry_gate:
  assumes "(if sv_phase s = Recovering \<and> sv_candidate s = None then retry_due E s else (Inr False, s)) = (Inr True, t)"
  shows "sv_phase t = Recovering" "sv_candidate t = None" "sup_inv X t = sup_inv X s"
  using assms by (auto simp: retry_due_def split: if_splits option.splits)

lemma retry_gate_inv [leaves_rules]: "sup_inv X s \<Longrightarrow> leaves (sup_inv X) (retry_due E s)"
  by (auto simp: retry_due_def split: option.split)

lemma tick_rest_inv [leaves_rules]:
  assumes inv: "sup_inv X s"
  shows "leaves (sup_inv X) (tick_rest X E s)"
proof -
  have start: "leaves (sup_inv X) (start_recovery X E (t\<lparr>sv_retry_at := None\<rparr>))"
    if "(if sv_phase s = Recovering \<and> sv_candidate s = None then retry_due E s else (Inr False, s)) = (Inr True, t)"
    for t
    using retry_gate(1,2) [OF that] retry_gate(3) [OF that, of X] inv by (auto intro!: start_recovery_inv)
  show ?thesis unfolding tick_rest_def
    by (rule leaves_bind) (auto intro!: leaves_rules inv start)
qed

text \<open>
  A recovery candidate exists only while there is no active worker, so rejecting it
  writes nothing but the state; the host then waits for the next attempt.
\<close>

lemma reject_recovery:
  assumes "sup_inv X s" and "sv_candidate s = Some c" and "cd_purpose c = Recovery"
  shows "reject_candidate X E s = (Inr (), rejected_state s)" "sv_active s = None"
    "sup_inv X ((rejected_state s)\<lparr>sv_phase := Recovering\<rparr>)"
proof -
  show act: "sv_active s = None" using assms by (auto simp: sup_inv_def workers_ok_def)
  then show "reject_candidate X E s = (Inr (), rejected_state s)" by (simp add: reject_candidate_eq)
  show "sup_inv X ((rejected_state s)\<lparr>sv_phase := Recovering\<rparr>)"
    using rejected_state_inv [OF assms(1)] act by (auto simp: sup_inv_def workers_ok_def)
qed

lemma on_tick_inv [leaves_rules]:
  assumes inv: "sup_inv X s"
  shows "leaves (sup_inv X) (on_tick X E s)"
proof (cases "candidate_expired E s")
  case (Pair r t)
  have q: "t = s \<or> t = s\<lparr>sv_calls := Suc (sv_calls s)\<rparr>"
    and c: "r = Inr (Some c) \<Longrightarrow> sv_candidate s = Some c" for c
    using Pair by (auto simp: candidate_expired_def split: option.splits if_splits)
  then have t: "sup_inv X t" using inv by auto
  show ?thesis
  proof (cases "\<exists>c. r = Inr (Some c) \<and> cd_purpose c = Recovery")
    case True
    then obtain c where c': "r = Inr (Some c)" "cd_purpose c = Recovery" by blast
    with c q have "sv_candidate t = Some c" by auto
    note rec = reject_recovery [OF t this c'(2)]
    show ?thesis using Pair c' rec(1,3)
      by (auto simp: on_tick_def intro!: leaves_rules)
  next
    case False
    then show ?thesis using Pair t unfolding on_tick_def
      by (cases r) (auto intro!: leaves_rules deadline_inv set_phase_inv split: option.split)
  qed
qed

section \<open>Frames from workers\<close>

lemma publish_inv: "sup_inv X s \<Longrightarrow> sup_inv X (publish_active_catalog c s)"
  by (cases "sv_active s") (auto simp: publish_active_catalog_def sup_inv_def workers_ok_def)

lemma candidate_ready_inv:
  assumes "sup_inv X s" and "sv_candidate s = Some c"
  shows "sup_inv X (s\<lparr>sv_calls := n, sv_candidate := Some (c\<lparr>cd_worker := (cd_worker c)\<lparr>wh_catalog := k\<rparr>,
           cd_stage := st, cd_deadline := d\<rparr>)\<rparr>)"
  using candidate_change [of X s c "c\<lparr>cd_worker := (cd_worker c)\<lparr>wh_catalog := k\<rparr>,
    cd_stage := st, cd_deadline := d\<rparr>"] assms by (simp add: sup_inv_def)

lemma handle_internal_response_inv [leaves_rules]:
  "sup_inv X s \<Longrightarrow> leaves (sup_inv X) (handle_internal_response X E r f e s)"
  unfolding handle_internal_response_def
  by (auto intro!: leaves_rules publish_inv candidate_ready_inv split: internal_action.split
      sum.split option.split)

lemma journal_op_inv:
  assumes "sup_inv X s" and "\<And>j. journal_ok j \<Longrightarrow> journal_ok (snd (m j))"
  shows "leaves (sup_inv X) (journal_op m s)"
proof (cases "m (sv_journal s)")
  case (Pair r j)
  with assms(2) [of "sv_journal s"] assms(1) show ?thesis by (simp add: journal_op_def sup_inv_def)
qed

lemma journal_flags_ok [simp]:
  "journal_ok (j\<lparr>sj_pinned := b\<rparr>) = journal_ok j" "journal_ok (j\<lparr>sj_checkpointed := b\<rparr>) = journal_ok j"
  by (simp_all add: journal_ok_def)

lemma journal_update_inv: "sup_inv X s \<Longrightarrow> journal_ok j \<Longrightarrow> sup_inv X (s\<lparr>sv_journal := j\<rparr>)"
  by (simp add: sup_inv_def)

lemma sup_inv_journal: "sup_inv X s \<Longrightarrow> journal_ok (sv_journal s)"
  by (simp add: sup_inv_def)

lemma record_session_transition_inv [leaves_rules]:
  "sup_inv X s \<Longrightarrow> leaves (sup_inv X) (record_session_transition X' f s)"
  unfolding record_session_transition_def
  by (auto intro!: leaves_rules journal_op_inv journal_record_ok journal_update_inv
      simp: sup_inv_journal split: option.split state_contract.split sum.split)

lemma set_kernel_inv: "sup_inv X s \<Longrightarrow> host_kernel X k \<Longrightarrow> sup_inv X (s\<lparr>sv_kernel := k\<rparr>)"
  by (simp add: sup_inv_def)

lemma sup_inv_kernel: "sup_inv X s \<Longrightarrow> host_kernel X (sv_kernel s)"
  by (simp add: sup_inv_def)

lemma forward_response_inv [leaves_rules]:
  assumes inv: "sup_inv X s"
  shows "leaves (sup_inv X) (forward_response X E token f has_error s)"
proof (cases "complete_response f (sv_kernel s)")
  case (Pair r k)
  with host_complete [OF sup_inv_kernel [OF inv], of f] have "sup_inv X (s\<lparr>sv_kernel := k\<rparr>)"
    by (simp add: set_kernel_inv inv)
  with Pair show ?thesis unfolding forward_response_def
    by (auto intro!: leaves_rules journal_update_inv simp: sup_inv_journal split: sum.split)
qed

lemma set_update: "e \<in> set (AList.update k v al) \<Longrightarrow> e = (k, v) \<or> e \<in> set al"
  by (induction al) (auto split: if_splits)

lemma set_delete: "e \<in> set (AList.delete k al) \<Longrightarrow> e \<in> set al"
  by (simp add: AList.delete_eq)

lemma forward_callback_inv [leaves_rules]:
  assumes inv: "sup_inv X s" and act: "active_token s = Some token"
  shows "leaves (sup_inv X) (forward_callback X E token i f s)"
proof (cases "checked_add (sv_next_callback s) 1")
  case None
  then show ?thesis using inv by (simp add: forward_callback_def next_callback_id_def bindO_def)
next
  case (Some n)
  let ?i = "IdText (callback_text n)"
  let ?s = "s\<lparr>sv_next_callback := n, sv_callbacks := AList.update ?i
    \<lparr>cr_worker = token, cr_original = i\<rparr> (sv_callbacks s)\<rparr>"
  have mono: "issued_callback n j" if "issued_callback (sv_next_callback s) j" for j
    using issued_mono(1) [OF that] checked_add_less [OF Some] by (simp add: less_imp_le)
  have ids: "ids_ok (issued_callback n) (sv_callbacks s)"
    using inv mono by (auto simp: sup_inv_def ids_ok_def)
  have "ids_ok (issued_callback n) (sv_callbacks ?s)"
    using ids_ok_update [of issued_callback n _ n ?i, OF ids] issued_new(1) [OF Some] by simp
  moreover have "workers_ok (sv_next_worker s) (sv_active s) (sv_candidate s) (sv_callbacks ?s) (sv_phase s)"
    using inv act by (auto simp: sup_inv_def workers_ok_def active_token_def dest!: set_update)
  ultimately have "sup_inv X ?s" using inv by (simp add: sup_inv_def)
  moreover have "sup_inv X (s\<lparr>sv_next_callback := n\<rparr>)" using inv ids by (simp add: sup_inv_def)
  moreover have "next_callback_id s = (Inr ?i, s\<lparr>sv_next_callback := n\<rparr>)"
    using Some by (simp add: next_callback_id_def callback_text_def)
  ultimately show ?thesis
    by (auto simp: forward_callback_def intro!: leaves_rules split: sum.split)
qed

lemma handle_worker_payload_inv [leaves_rules]:
  assumes inv: "sup_inv X s"
  shows "leaves (sup_inv X) (handle_worker_payload X E token p s)"
proof -
  have "sup_inv X (s\<lparr>sv_internal := AList.delete i (sv_internal s)\<rparr>)" for i
    using inv by (simp add: sup_inv_def)
  then show ?thesis using inv unfolding handle_worker_payload_def Let_def
    by (auto intro!: leaves_rules split: sum.split envelope.split option.split)
qed

section \<open>Frames from the client\<close>

lemma queue_or_reject_inv [leaves_rules]:
  assumes inv: "sup_inv X s" and f: "frame_ok X f"
  shows "leaves (sup_inv X) (queue_or_reject X' E f s)"
proof (cases "queue_client_frame f queue_capacity (sv_kernel s)")
  case (Pair r k)
  with host_enqueue [OF sup_inv_kernel [OF inv] f] have "sup_inv X (s\<lparr>sv_kernel := k\<rparr>)"
    by (simp add: set_kernel_inv inv)
  with Pair show ?thesis unfolding queue_or_reject_def
    by (auto intro!: leaves_rules split: sum.split)
qed

lemma callbacks_delete_inv: "sup_inv X s \<Longrightarrow> sup_inv X (s\<lparr>sv_callbacks := AList.delete i (sv_callbacks s)\<rparr>)"
  by (auto simp: sup_inv_def workers_ok_def dest!: set_delete)

lemma route_callback_response_inv [leaves_rules]:
  "sup_inv X s \<Longrightarrow> leaves (sup_inv X) (route_callback_response X' E i f s)"
  unfolding route_callback_response_def
  by (auto intro!: leaves_rules callbacks_delete_inv split: sum.split option.split)

lemma route_cancellation_inv [leaves_rules]:
  "sup_inv X s \<Longrightarrow> leaves (sup_inv X) (route_cancellation X' E f s)"
  unfolding route_cancellation_def by (auto intro!: leaves_rules split: option.split)

lemma send_or_lose_inv [leaves_rules]: "sup_inv X s \<Longrightarrow> leaves (sup_inv X) (send_or_lose X' E p s)"
  unfolding send_or_lose_def by (auto intro!: leaves_rules)

lemma forward_initialized_inv [leaves_rules]:
  "sup_inv X s \<Longrightarrow> leaves (sup_inv X) (forward_initialized X' E f s)"
  unfolding forward_initialized_def Let_def by (auto intro!: leaves_rules)

lemma forward_request_inv [leaves_rules]:
  "sup_inv X s \<Longrightarrow> frame_ok X f \<Longrightarrow> leaves (sup_inv X) (forward_request X E f m s)"
  unfolding forward_request_def by (auto intro!: leaves_rules split: option.split)

lemma list_tools_inv [leaves_rules]:
  "sup_inv X s \<Longrightarrow> frame_ok X f \<Longrightarrow> leaves (sup_inv X) (list_tools X E f s)"
  unfolding list_tools_def by (auto intro!: leaves_rules deadline_inv set_phase_inv)

lemma dispatch_client_frame_inv [leaves_rules]:
  "sup_inv X s \<Longrightarrow> frame_ok X f \<Longrightarrow> leaves (sup_inv X) (dispatch_client_frame X E f s)"
  unfolding dispatch_client_frame_def by (auto intro!: leaves_rules split: envelope.split)

lemma handle_client_payload_inv [leaves_rules]:
  assumes inv: "sup_inv X s"
  shows "leaves (sup_inv X) (handle_client_payload X E p s)"
proof (cases "frame_parse X p")
  case (Inl e)
  with inv show ?thesis by (auto simp: handle_client_payload_def intro!: leaves_rules)
next
  case (Inr f)
  then have f: "frame_ok X f" by (simp add: frame_parse_ok)
  obtain r k where o: "observe_client_frame f (sv_kernel s) = (r, k)" by fastforce
  with host_observe [OF sup_inv_kernel [OF inv] f] have "sup_inv X (s\<lparr>sv_kernel := k\<rparr>)"
    by (simp add: set_kernel_inv inv)
  with Inr o f show ?thesis by (auto simp: handle_client_payload_def intro!: leaves_rules split: sum.split)
qed

section \<open>The event loop\<close>

text \<open>
  After the client's stream has ended the workers are gone and no further event is taken:
  what the loop leaves then is the invariant without the clauses on the phase.
\<close>

lemma handle_event_inv:
  assumes "sup_inv X s" and "handle_event X E ev s = (Inr True, s') \<or> ev \<noteq> ClientEnd \<and> (\<forall>e. ev \<noteq> ClientFault e)"
  shows "leaves (sup_inv X) (handle_event X E ev s)"
  using assms by (cases ev) (auto simp: handle_event_def intro!: leaves_rules)

lemma event_loop_inv:
  assumes "sup_inv X s" and "event_loop X E evs s = (Inr True, s')"
  shows "sup_inv X s'"
  using assms
proof (induction evs arbitrary: s)
  case (Cons ev evs)
  obtain r t where step: "handle_event X E ev s = (r, t)" by fastforce
  with Cons.prems(2) have r: "r = Inr True" by (cases r) (auto simp: bindO_def split: if_splits)
  with handle_event_inv [OF Cons.prems(1)] step have "sup_inv X t" by fastforce
  with Cons r step show ?case by (simp add: bindO_def)
qed simp

lemma start_worker_inv:
  assumes "spawn_worker E release (new_supervisor c) = (Inr w, s)"
  shows "sup_inv X (s\<lparr>sv_active := Some w\<rparr>)"
proof -
  note res = spawn_worker_result [OF assms]
  show ?thesis using res(3) [OF refl] quiet_fields [OF res(1)] host_kernel_cold
    by (simp add: sup_inv_def workers_ok_def new_supervisor_def journal_ok_def)
qed

lemma start_inv:
  fixes s :: "'n supervisor"
  assumes "start X E c evs (new_supervisor c) = (Inr True, s)"
  shows "sup_inv X s"
proof (cases "spawn_worker E (cf_initial c) (new_supervisor c :: 'n supervisor)")
  case (Pair r t)
  with assms obtain w where r: "r = Inr w" by (cases r) (auto simp: start_def)
  with Pair assms have "event_loop X E evs (t\<lparr>sv_active := Some w\<rparr>) = (Inr True, s)"
    by (simp add: start_def)
  with event_loop_inv start_worker_inv Pair r show ?thesis by metis
qed

end
