(* ===== verification/HostRuns.thy ===== *)
theory HostRuns
  imports SupSteps
begin

text \<open>
  What the host's invariant gives: bounds on everything it buffers, a queue that is drained
  whenever it can be, a lost worker that leaves no client without an answer or a replay,
  and the exact grounds on which a request may be replayed.
\<close>

section \<open>Bounds of the kernel\<close>

definition kernel_bounded :: "'n kernel \<Rightarrow> bool" where
  "kernel_bounded k \<longleftrightarrow> length (k_queue k) \<le> queue_capacity \<and> length (k_pending k) \<le> pending_capacity"

lemma length_update: "length (AList.update i v al) \<le> Suc (length al)"
  by (induction al) auto

lemma length_update_old: "map_of al i \<noteq> None \<Longrightarrow> length (AList.update i v al) = length al"
  by (induction al) auto

lemma length_delete: "length (AList.delete i al) \<le> length al"
  by (simp add: AList.delete_eq)

lemma length_delete_all: "length (delete_all ids al) \<le> length al"
  unfolding delete_all_def using length_delete le_trans
  by (induction ids arbitrary: al) (simp, fastforce)

lemma requeue_one_length: "length (rq_pending (requeue_one b n st e)) \<le> length (rq_pending st)"
  by (auto simp: requeue_one_def requeue_drop_def Let_def length_update_old
      split: prod.split option.split)

lemma requeue_fold_length: "length (rq_pending (foldl (requeue_one b n) st es)) \<le> length (rq_pending st)"
  by (induction es arbitrary: st) (auto intro: le_trans requeue_one_length)

lemma requeue_kernel_bounded:
  assumes "kernel_bounded k"
  shows "length (k_pending (snd (requeue_pending_for_replay b k))) \<le> pending_capacity"
proof -
  have "length (k_pending k) \<le> pending_capacity" using assms by (simp add: kernel_bounded_def)
  moreover have "length (k_pending (snd (requeue_pending_for_replay b k))) \<le> length (k_pending k)"
    unfolding requeue_pending_for_replay_def Let_def
    by (simp, rule le_trans [OF length_delete_all], rule le_trans [OF requeue_fold_length])
      (simp add: map_values_def)
  ultimately show ?thesis by (rule le_trans [rotated])
qed

lemma host_kernel_induct [consumes 1, case_names cold step]:
  assumes "host_kernel X k" and "P cold"
    and "\<And>k ev. host_kernel X k \<Longrightarrow> host_event X ev \<Longrightarrow> P k \<Longrightarrow> P (kstep X k ev)"
  shows "P k"
proof -
  have "P (run_kernel (session_run X evs))" if "list_all (host_event X) evs" for evs
    using that
  proof (induction evs rule: rev_induct)
    case Nil
    with assms(2) show ?case by (simp add: session_run_def run_kernel_def)
  next
    case (snoc ev evs)
    then show ?case using assms(3) [of "run_kernel (session_run X evs)" ev]
      by (auto simp: run_kernel_step host_kernel_def)
  qed
  with assms(1) show ?thesis by (auto simp: host_kernel_def)
qed

lemma host_alist: "host_kernel X k \<Longrightarrow> alist_ok (k_pending k)"
  using host_kernel_inv(1) by (auto simp: kernel_inv_def pending_ok_def)

lemma limits_ok: "rb_queue_capacity replay_limits = queue_capacity" "queue_capacity \<le> usize_max"
  by (simp_all add: replay_limits_def queue_capacity_def usize_max_def)

lemma host_kernel_bounded: "host_kernel X k \<Longrightarrow> kernel_bounded k"
proof (induction rule: host_kernel_induct)
  case cold
  show ?case by (simp add: kernel_bounded_def cold_def)
next
  case (step k ev)
  show ?case
  proof (cases ev)
    case (Requeue b)
    with step(2) have b: "b = replay_limits" by simp
    note closed = requeue_closed(3) [OF host_alist [OF step(1)] limits_ok(2) [folded limits_ok(1)] surjective_pairing]
    have "length (retained k) \<le> queue_capacity"
      using step(3) by (auto simp: retained_def kernel_bounded_def intro: le_trans [OF length_filter_le])
    with closed requeue_kernel_bounded [OF step(3), of b] Requeue show ?thesis
      by (auto simp: b limits_ok kstep_def kernel_bounded_def kept_def)
  qed (use step in \<open>auto simp: kstep_def kernel_bounded_def observe_same
        length_update_old queue_client_frame_def pop_next_dispatch_def update_pending_def Let_def
        begin_request_dispatch_def complete_response_def remove_queued_request_def
        intro: le_trans [OF length_update] le_trans [OF length_delete] le_trans [OF length_filter_le]
        split: envelope.splits option.splits list.splits disposition.splits sum.splits\<close>)
qed

section \<open>No probes\<close>

definition no_probe :: "'n kernel \<Rightarrow> bool" where
  "no_probe k \<longleftrightarrow> (\<forall>i r. map_of (k_pending k) i = Some r \<longrightarrow> pr_contract r \<noteq> ProbeRequired)"

lemma host_no_probe: "host_kernel X k \<Longrightarrow> no_probe k"
proof (induction rule: host_kernel_induct)
  case cold
  show ?case by (simp add: no_probe_def cold_def)
next
  case (step k ev)
  show ?case
  proof (cases ev)
    case (Requeue b)
    with step(2) have b: "b = replay_limits" by simp
    note closed = requeue_closed(5) [OF host_alist [OF step(1)] limits_ok(2) [folded limits_ok(1)] surjective_pairing]
    have "pr_contract r \<noteq> ProbeRequired"
      if "map_of (k_pending (snd (requeue_pending_for_replay b k))) i = Some r" for i r
    proof -
      let ?kept = "kept replay_limits (length (retained k)) (recovery_order k)"
      from that closed have "(i, r) \<in> set (map (\<lambda>(i, r). (i, schedule replay_limits r)) ?kept)"
        by (auto simp: b dest: map_of_SomeD)
      then obtain r0 where r0: "(i, r0) \<in> set ?kept" "pr_contract r = pr_contract r0" by auto
      then have "(i, r0) \<in> set (recovery_order k)" using kept_subset by blast
      then obtain r1 where "map_of (k_pending k) i = Some r1" "r0 = lose_worker r1"
        using recovery_order_mem [OF host_alist [OF step(1)]] by (auto simp: lookup_simps)
      with r0 step(3) show ?thesis by (auto simp: no_probe_def)
    qed
    with Requeue show ?thesis by (simp add: kstep_def no_probe_def)
  qed (use step in \<open>auto simp: kstep_def no_probe_def observe_same lookup_simps
        queue_client_frame_def pop_next_dispatch_def update_pending_def Let_def
        begin_request_dispatch_def complete_response_def remove_queued_request_def
        split: envelope.splits option.splits list.splits disposition.splits sum.splits if_splits\<close>)
qed

section \<open>Draining the queue\<close>

lemma pop_total:
  assumes hk: "host_kernel X k"
  shows "case fst (pop_next_dispatch k) of
      Inl _ \<Rightarrow> False | Inr (HeldForProbe i) \<Rightarrow> False | Inr QueueEmpty \<Rightarrow> k_queue k = [] | _ \<Rightarrow> True"
proof (cases "k_queue k")
  case Nil
  then show ?thesis by (simp add: pop_next_dispatch_def)
next
  case (Cons f rest)
  show ?thesis
  proof (cases rule: queue_head [OF host_kernel_inv(1) [OF hk] Cons])
    case 2
    then show ?thesis using pop_client [OF Cons 2(1)] by simp
  next
    case (1 i r ids bl)
    have e: "entry_ok (k_next k) i r" using 1 by (simp add: pending_ok_def)
    have "pr_contract r \<noteq> ProbeRequired" using host_no_probe [OF hk] 1(2) by (simp add: no_probe_def)
    with 1(4) e have rep: "pr_scheduled r = Some ReplayDisp" and ku: "pr_knowledge r = OutcomeUnknown"
      by (auto simp: entry_ok_def sched_ok_def)
    have "pr_attempts r < max_replay_attempts"
      using host_kernel_inv(4) [OF hk] 1(2) rep by (auto simp: replay_bounded_def)
    from pop_scheduled(2) [OF Cons 1(1,2) rep ku attempts_left [OF this]] show ?thesis by simp
  qed
qed

text \<open>The errors of the calls to the outside: never the session's.\<close>

abbreviation (input) not_session :: "sup_error \<Rightarrow> bool" where
  "not_session e \<equiv> \<forall>r. e \<noteq> SupSession r"

lemma quiet_ops_raise [raises_rules]:
  "raises not_session (emit E e p s)" "raises not_session (send_handle E w p s)"
  "raises not_session (send_active E p s)" "raises not_session (ask q s)"
  by (auto simp: ask_def emit_def send_handle_def send_active_def split: sum.split option.split)

lemma write_value_raises [raises_rules]: "raises not_session (write_value X E v s)"
  by (auto simp: write_value_def serialize_def intro!: raises_rules split: option.split)

lemma replies_raise [raises_rules]:
  "raises not_session (reply_catalog X E f s)" "raises not_session (reject_client_id X E i r s)"
  "raises not_session (reject_client_frame X E f r s)"
  by (auto simp: reply_catalog_def reject_client_frame_def reject_client_id_def intro!: raises_rules
      split: envelope.split option.split)

lemma write_rejections_raises [raises_rules]: "raises not_session (write_rejections X E rs s)"
  by (induction rs arbitrary: s) (auto intro!: raises_rules)

lemma worker_loss_raises [raises_rules]: "raises not_session (handle_worker_loss_by_id X E t s)"
  by (auto simp: handle_worker_loss_by_id_def Let_def intro!: raises_rules split: prod.split)

lemma send_active_or_recover_raises [raises_rules]: "raises not_session (send_active_or_recover X E p s)"
  by (auto simp: send_active_or_recover_def intro!: raises_rules)

lemma dispatch_request_raises [raises_rules]: "raises not_session (dispatch_request X E f m s)"
  by (auto simp: dispatch_request_def split: prod.split sum.split)

lemma flush_client_frame_raises [raises_rules]: "raises not_session (flush_client_frame X E f s)"
  by (auto simp: flush_client_frame_def intro!: raises_rules split: envelope.split)

lemma flush_step_raises:
  assumes "sup_inv X s"
  shows "raises not_session (flush_step X E s)"
  using pop_total [OF sup_inv_kernel [OF assms]]
  by (auto simp: flush_step_def intro!: raises_rules split: prod.split sum.splits queue_outcome.split)

lemma flush_queue_raises: "sup_inv X s \<Longrightarrow> raises not_session (flush_queue X E s)"
proof (induction X E s rule: flush_queue.induct)
  case (1 X E s)
  obtain r s' where step: "flush_step X E s = (r, s')" by fastforce
  have "sup_inv X s'" using flush_step_inv [OF 1(2)] step leaves_result by metis
  with 1 step flush_step_raises [OF 1(2), of E] show ?case
    by (subst flush_queue.simps) (auto split: sum.split)
qed

interpretation flush: op_contract "flush_queue X E" "sup_inv X" not_session for X E
  by unfold_locales (simp_all add: flush_queue_inv flush_queue_raises)

section \<open>The loss of the active worker\<close>

lemma write_value_log:
  "write_value X E v s = (Inr u, s') \<Longrightarrow> sv_log s' = sv_log s @ [WroteValue v]"
  by (auto simp: write_value_def emit_def record_effect_def split: sum.splits option.splits)

lemma write_rejections_log:
  "write_rejections X E rs s = (Inr u, s') \<Longrightarrow> sv_log s' = sv_log s @ map (\<lambda>r. WroteValue
     (rpc_error X (rj_request_id r) (rejection_code (rj_reason r)) (rejection_message (rj_reason r)))) rs"
proof (induction rs arbitrary: s)
  case (Cons r rs)
  from Cons.prems obtain t where
    "write_value X E (rpc_error X (rj_request_id r) (rejection_code (rj_reason r))
       (rejection_message (rj_reason r))) s = (Inr (), t)" "write_rejections X E rs t = (Inr u, s')"
    by (auto simp: bindO_def split: prod.splits sum.splits)
  with Cons.IH [OF this(2)] write_value_log [OF this(1)] show ?case by simp
qed simp

lemma worker_loss_result:
  assumes "active_token s = Some t" and "handle_worker_loss_by_id X E (Some t) s = (r, s')"
  shows "sv_active s' = None" "sv_candidate s' = None" "sv_internal s' = []" "sv_phase s' = Recovering"
    "sv_kernel s' = snd (requeue_pending_for_replay replay_limits (sv_kernel s))"
    "r = Inr () \<Longrightarrow> sv_retry_at s' \<noteq> None \<and> (\<exists>l. sv_log s' = l @ map (\<lambda>r. WroteValue
       (rpc_error X (rj_request_id r) (rejection_code (rj_reason r)) (rejection_message (rj_reason r))))
       (ro_rejected (fst (requeue_pending_for_replay replay_limits (sv_kernel s)))))"
proof -
  let ?s1 = "(drop_candidate (forget_active s))\<lparr>sv_internal := [], sv_phase := Recovering\<rparr>"
  from assms(1) obtain w where w: "sv_active s = Some w" by (auto simp: active_token_def)
  have s1: "sv_kernel ?s1 = sv_kernel s" "sv_active ?s1 = None" "sv_candidate ?s1 = None"
    by (auto simp: w drop_candidate_def forget_active_def retain_callbacks_def kill_def record_effect_def
        split: option.split)
  obtain out k where rq: "requeue_pending_for_replay replay_limits (sv_kernel s) = (out, k)" by fastforce
  obtain r1 s2 where wr: "write_rejections X E (ro_rejected out) (?s1\<lparr>sv_kernel := k\<rparr>) = (r1, s2)"
    by fastforce
  have "leaves (quiet (?s1\<lparr>sv_kernel := k\<rparr>)) (write_rejections X E (ro_rejected out) (?s1\<lparr>sv_kernel := k\<rparr>))"
    by (rule leaves_rules) simp
  with wr have q: "quiet (?s1\<lparr>sv_kernel := k\<rparr>) s2" by simp
  have eq: "handle_worker_loss_by_id X E (Some t) s = (case r1 of Inl e \<Rightarrow> (Inl e, s2) | Inr _ \<Rightarrow>
      (Inr (), s2\<lparr>sv_calls := Suc (sv_calls s2), sv_retry_at := Some (e_now E (sv_calls s2))\<rparr>))"
    using assms(1) rq s1(1) wr
    by (cases r1) (simp_all add: handle_worker_loss_by_id_def Let_def)
  with assms(2) quiet_fields [OF q] s1 rq
  show "sv_active s' = None" "sv_candidate s' = None" "sv_internal s' = []" "sv_phase s' = Recovering"
    "sv_kernel s' = snd (requeue_pending_for_replay replay_limits (sv_kernel s))"
    by (auto split: sum.splits)
  show "sv_retry_at s' \<noteq> None \<and> (\<exists>l. sv_log s' = l @ map (\<lambda>r. WroteValue
       (rpc_error X (rj_request_id r) (rejection_code (rj_reason r)) (rejection_message (rj_reason r))))
       (ro_rejected (fst (requeue_pending_for_replay replay_limits (sv_kernel s)))))" if "r = Inr ()"
    using that assms(2) eq rq write_rejections_log [of X E "ro_rejected out" "?s1\<lparr>sv_kernel := k\<rparr>"] wr
    by (cases r1) auto
qed

end
