(* ===== verification/Wedge.thy ===== *)
theory Wedge
  imports HostRuns
begin

text \<open>
  A state of the supervisor it never leaves: no worker, no candidate, and a phase that is
  not \<open>Recovering\<close>. No tick, no frame and no loss starts a worker from there; the host
  goes on taking frames from the client and sends none of them anywhere.
\<close>

definition wedged :: "'n supervisor \<Rightarrow> bool" where
  "wedged s \<longleftrightarrow> sv_active s = None \<and> sv_candidate s = None \<and>
     (sv_phase s = Draining \<or> sv_phase s = AwaitingCatalogRefresh)"

fun to_client :: "'n effect \<Rightarrow> bool" where
  "to_client (WroteValue v) = True" | "to_client (WroteFrame p) = True" | "to_client _ = False"

definition inert :: "'n supervisor \<Rightarrow> 'n supervisor \<Rightarrow> bool" where
  "inert s0 s \<longleftrightarrow> wedged s \<and> (\<exists>l. sv_log s = sv_log s0 @ l \<and> list_all to_client l)"

lemma inert_updates [simp]:
  "inert s0 s \<Longrightarrow> inert s0 (s\<lparr>sv_calls := n\<rparr>)" "inert s0 s \<Longrightarrow> inert s0 (s\<lparr>sv_kernel := k\<rparr>)"
  "inert s0 s \<Longrightarrow> inert s0 (s\<lparr>sv_published := p\<rparr>)" "inert s0 s \<Longrightarrow> inert s0 (s\<lparr>sv_internal := i\<rparr>)"
  "inert s0 s \<Longrightarrow> inert s0 (s\<lparr>sv_callbacks := c\<rparr>)" "inert s0 s \<Longrightarrow> inert s0 (s\<lparr>sv_journal := j\<rparr>)"
  "inert s0 s \<Longrightarrow> inert s0 (s\<lparr>sv_refresh := r\<rparr>)" "inert s0 s \<Longrightarrow> inert s0 (s\<lparr>sv_phase := Draining\<rparr>)"
  "inert s0 s \<Longrightarrow> inert s0 (s\<lparr>sv_next_callback := n'\<rparr>)" "inert s0 s \<Longrightarrow> inert s0 (s\<lparr>sv_next_internal := n'\<rparr>)"
  by (auto simp: inert_def wedged_def)

lemma inert_fields:
  assumes "inert s0 s"
  shows "sv_active s = None" "sv_candidate s = None" "active_token s = None" "candidate_token s = None"
    "sv_phase s \<noteq> PhaseNone" "sv_phase s \<noteq> Recovering" "\<not> can_flush s"
  using assms by (auto simp: inert_def wedged_def active_token_def candidate_token_def can_flush_def)

lemma inert_record: "inert s0 s \<Longrightarrow> to_client e \<Longrightarrow> inert s0 (record_effect e s)"
  by (auto simp: inert_def wedged_def record_effect_def)

text \<open>What the operations are on such a state.\<close>

lemma inert_ops:
  assumes "inert s0 s"
  shows "handle_worker_loss_by_id X E t s = (Inr (), s)" "flush_queue X E s = (Inr (), s)"
    "reject_candidate X E s = (Inr (), s)" "activate_candidate X E s = (Inr (), s)"
    "continue_restore X E n s = (Inr (), s)" "try_begin_restore X E s = (Inr (), s)"
    "seed_candidate_catalog X E s = (Inr (), s)" "handle_worker_loss X E w s = (Inr (), s)"
    "on_tick X E s = (Inr (), s)" "set_candidate_deadline d s = s" "drop_candidate s = s"
proof -
  note f = inert_fields [OF assms]
  show loss: "handle_worker_loss_by_id X E t s = (Inr (), s)" for t
    using f by (auto simp: handle_worker_loss_by_id_def)
  show "flush_queue X E s = (Inr (), s)" using f by (subst flush_queue.simps) simp
  show rej: "reject_candidate X E s = (Inr (), s)"
    using f by (simp add: reject_candidate_eq rejected_state_def)
  show "activate_candidate X E s = (Inr (), s)" using f by (simp add: activate_candidate_def)
  then show cont: "continue_restore X E n s = (Inr (), s)" for n using f by (simp add: continue_restore_def)
  show "try_begin_restore X E s = (Inr (), s)" using rej cont by (simp add: try_begin_restore_def)
  show "seed_candidate_catalog X E s = (Inr (), s)" using f by (simp add: seed_candidate_catalog_def)
  show "handle_worker_loss X E w s = (Inr (), s)" using f loss by (simp add: handle_worker_loss_def)
  show "on_tick X E s = (Inr (), s)"
    using f by (simp add: on_tick_def candidate_expired_def tick_rest_def bindO_def)
  show "set_candidate_deadline d s = s" using f by (simp add: set_candidate_deadline_def)
  show "drop_candidate s = s" using f by (simp add: drop_candidate_def)
qed

lemma ops_inert [leaves_rules]:
  assumes "inert s0 s"
  shows "leaves (inert s0) (handle_worker_loss_by_id X E t s)" "leaves (inert s0) (flush_queue X E s)"
    "leaves (inert s0) (reject_candidate X E s)" "leaves (inert s0) (activate_candidate X E s)"
    "leaves (inert s0) (continue_restore X E n s)" "leaves (inert s0) (try_begin_restore X E s)"
    "leaves (inert s0) (seed_candidate_catalog X E s)" "leaves (inert s0) (handle_worker_loss X E w s)"
    "leaves (inert s0) (on_tick X E s)" "leaves (inert s0) (send_active E p s)"
    "leaves (inert s0) (send_worker E w p s)" "leaves (inert s0) (request_active_catalog X E s)"
  using inert_fields [OF assms] assms
  by (simp_all add: inert_ops send_active_def send_worker_def request_active_catalog_def)

lemma emit_inert [leaves_rules]: "inert s0 s \<Longrightarrow> to_client e \<Longrightarrow> leaves (inert s0) (emit E e p s)"
  by (auto simp: emit_def intro!: inert_record split: sum.split option.split)

lemma write_value_inert [leaves_rules]: "inert s0 s \<Longrightarrow> leaves (inert s0) (write_value X E v s)"
  by (auto simp: write_value_def intro!: leaves_rules split: sum.split)

lemma replies_inert [leaves_rules]:
  "inert s0 s \<Longrightarrow> leaves (inert s0) (reply_catalog X E f s)"
  "inert s0 s \<Longrightarrow> leaves (inert s0) (reject_client_id X E i r s)"
  "inert s0 s \<Longrightarrow> leaves (inert s0) (reject_client_frame X E f r s)"
  by (auto simp: reply_catalog_def reject_client_frame_def reject_client_id_def intro!: leaves_rules
      split: envelope.split option.split)

lemma queue_or_reject_inert [leaves_rules]: "inert s0 s \<Longrightarrow> leaves (inert s0) (queue_or_reject X E f s)"
  by (auto simp: queue_or_reject_def intro!: leaves_rules split: prod.split sum.split)

lemma publish_inert: "inert s0 s \<Longrightarrow> inert s0 (publish_active_catalog c s)"
  using inert_fields(1) [of s0 s] by (simp add: publish_active_catalog_def inert_def wedged_def)

lemma internal_response_inert [leaves_rules]:
  assumes "inert s0 s"
  shows "leaves (inert s0) (handle_internal_response X E r f e s)"
  using assms inert_fields(2) [OF assms] unfolding handle_internal_response_def
  by (auto intro!: leaves_rules publish_inert split: internal_action.split sum.split)

lemma worker_payload_inert [leaves_rules]:
  assumes "inert s0 s"
  shows "leaves (inert s0) (handle_worker_payload X E token p s)"
  using assms inert_fields(3,4) [OF assms]
  by (auto simp: handle_worker_payload_def Let_def inert_ops intro!: leaves_rules
      split: sum.split envelope.split option.split)

lemma client_parts_inert [leaves_rules]:
  assumes "inert s0 s"
  shows "leaves (inert s0) (send_or_lose X E p s)" "leaves (inert s0) (forward_initialized X E f s)"
    "leaves (inert s0) (route_callback_response X E i f s)" "leaves (inert s0) (route_cancellation X E f s)"
    "leaves (inert s0) (list_tools X E f s)"
proof -
  show "leaves (inert s0) (send_or_lose X E p s)" "leaves (inert s0) (forward_initialized X E f s)"
    using assms by (auto simp: send_or_lose_def forward_initialized_def Let_def intro!: leaves_rules)
  show "leaves (inert s0) (route_callback_response X E i f s)" "leaves (inert s0) (route_cancellation X E f s)"
    using assms by (auto simp: route_callback_response_def route_cancellation_def intro!: leaves_rules
      split: option.split sum.split)
  have "inert s0 (s\<lparr>sv_refresh := Some f, sv_phase := Draining\<rparr>)"
    using assms by (simp add: inert_def wedged_def)
  then have "inert s0 (set_candidate_deadline None (s\<lparr>sv_refresh := Some f, sv_phase := Draining\<rparr>))"
    by (subst inert_ops(10)) simp_all
  then show "leaves (inert s0) (list_tools X E f s)"
    using assms by (auto simp: list_tools_def intro!: leaves_rules)
qed

lemma dispatch_client_frame_inert [leaves_rules]:
  assumes "inert s0 s"
  shows "leaves (inert s0) (dispatch_client_frame X E f s)"
  using assms inert_fields(1) [OF assms]
  by (auto simp: dispatch_client_frame_def intro!: leaves_rules split: envelope.split)

lemma client_payload_inert [leaves_rules]:
  assumes "inert s0 s"
  shows "leaves (inert s0) (handle_client_payload X E p s)"
  using assms by (auto simp: handle_client_payload_def intro!: leaves_rules split: sum.split prod.split)

lemma handle_event_inert [leaves_rules]:
  assumes "inert s0 s"
  shows "leaves (inert s0) (handle_event X E ev s)"
  using assms inert_fields(1) [OF assms]
  by (cases ev) (auto simp: handle_event_def shutdown_def inert_ops intro!: leaves_rules)

lemma event_loop_inert: "inert s0 s \<Longrightarrow> leaves (inert s0) (event_loop X E evs s)"
proof (induction evs arbitrary: s)
  case (Cons ev evs)
  from Cons.prems show ?case by (auto intro!: leaves_rules Cons.IH)
qed simp

text \<open>
  Rejecting a recovery candidate in any phase but \<open>Recovering\<close> leads there.
\<close>

lemma reject_recovery_wedges:
  assumes "sup_inv X s" and "sv_candidate s = Some c" and "cd_purpose c = Recovery"
    and "sv_phase s = Draining \<or> sv_phase s = AwaitingCatalogRefresh"
  shows "\<exists>s'. reject_candidate X E s = (Inr (), s') \<and> wedged s'"
  using reject_recovery [OF assms(1-3)] assms(4) by (auto simp: wedged_def)

end
