(* ===== verification/HostSamples.thy ===== *)
theory HostSamples
  imports Wedge
begin

text \<open>
  A concrete session for the witnesses: a client that initializes and calls one tool whose
  effects pin the session to its generation, the worker that answers, its loss, and the
  recovery candidate that follows. The payloads are one byte each, as in \<open>Samples\<close>.
\<close>

definition pinned_call :: event where
  "pinned_call = VisitMap [(''jsonrpc'', VisitStr ''2.0''), (''method'', VisitStr ''tools/call''),
     (''id'', VisitU64 2), (''params'', VisitMap [(''name'', VisitStr ''edit'')])]"

definition text_reply :: "string \<Rightarrow> event \<Rightarrow> event" where
  "text_reply i result = VisitMap [(''jsonrpc'', VisitStr ''2.0''), (''id'', VisitStr i), (''result'', result)]"

definition pinned_catalog :: event where
  "pinned_catalog = VisitMap [(''tools'', VisitSeq [VisitMap [(''name'', VisitStr ''edit''),
     (''_meta'', VisitMap [(meta_key, VisitMap
       [(''recovery'', VisitMap [(''kind'', VisitStr ''at_most_once'')]),
        (''state'', VisitMap [(''kind'', VisitStr ''generation_pinned'')])])])]])]"

definition host_events :: "byte list \<Rightarrow> event option" where
  "host_events p =
     (if p = [10] then Some (text_reply ''io.libmcp/1/tools/1'' pinned_catalog)
      else if p = [11] then Some (text_reply ''io.libmcp/2/initialize/2'' VisitNone)
      else if p = [12] then Some (text_reply ''io.libmcp/2/tools/3'' pinned_catalog)
      else if p = [13] then Some pinned_call
      else if p = [14] then Some (sample_reply 2)
      else sample_events p)"

definition host_extern :: "u64 extern" where
  "host_extern = sample_extern\<lparr>x_events := host_events, x_to_vec := \<lambda>_. Some [1]\<rparr>"

definition calm_env :: env where
  "calm_env = \<lparr>e_os = \<lambda>_. sample_depot StatelessState, e_spawn = \<lambda>_. None, e_send = \<lambda>_. True,
     e_write = \<lambda>_. None, e_now = \<lambda>_. 0, e_error_text = \<lambda>_. []\<rparr>"

definition sample_config :: config where
  "sample_config = \<lparr>cf_server = ''server'', cf_channel = sample_channel,
     cf_initial = sample_release StatelessState, cf_overrides = [], cf_frame_limit = 8\<rparr>"

definition pinned_session :: "sup_event list" where
  "pinned_session = [ClientPayload [0], WorkerFrame 1 [4], ClientPayload [1], WorkerFrame 1 [10],
     ClientPayload [13], WorkerFrame 1 [14], WorkerGone 1, Tick, WorkerFrame 2 [11], WorkerFrame 2 [12]]"

definition host_frame :: "byte list \<Rightarrow> u64 frame" where
  "host_frame p =
     (case frame_parse host_extern p of Inr f \<Rightarrow> f
      | Inl _ \<Rightarrow> \<lparr>fr_payload = [], fr_value = JNull, fr_envelope = Notification (RpcMethod [])\<rparr>)"

lemma host_parse:
  "frame_parse host_extern [0] = Inr (host_frame [0])" "frame_parse host_extern [1] = Inr (host_frame [1])"
  "frame_parse host_extern [4] = Inr (host_frame [4])" "frame_parse host_extern [10] = Inr (host_frame [10])"
  "frame_parse host_extern [11] = Inr (host_frame [11])" "frame_parse host_extern [12] = Inr (host_frame [12])"
  "frame_parse host_extern [13] = Inr (host_frame [13])" "frame_parse host_extern [14] = Inr (host_frame [14])"
  by code_simp+

lemma host_envelope:
  "fr_envelope (host_frame [0]) = Request (IdNumber 0) (RpcMethod ''initialize'')"
  "fr_envelope (host_frame [1]) = Notification (RpcMethod ''notifications/initialized'')"
  "fr_envelope (host_frame [4]) = Response (IdNumber 0) False"
  "fr_envelope (host_frame [10]) = Response (IdText ''io.libmcp/1/tools/1'') False"
  "fr_envelope (host_frame [11]) = Response (IdText ''io.libmcp/2/initialize/2'') False"
  "fr_envelope (host_frame [12]) = Response (IdText ''io.libmcp/2/tools/3'') False"
  "fr_envelope (host_frame [13]) = Request (IdNumber 2) (RpcMethod ''tools/call'')"
  "fr_envelope (host_frame [14]) = Response (IdNumber 2) False"
  by code_simp+

lemma host_payload:
  "fr_payload (host_frame [0]) = [0]" "fr_payload (host_frame [1]) = [1]" "fr_payload (host_frame [13]) = [13]"
  by code_simp+

definition sample_catalog :: "u64 tool_catalog" where
  "sample_catalog = \<lparr>tc_public_tools = [JObject [(''name'', JString ''edit'')]],
     tc_contracts = [(ToolName ''edit'', \<lparr>ec_recovery = AtMostOnce, ec_state = GenerationPinned,
       ec_key_pointer = None\<rparr>)]\<rparr>"

lemma host_catalogs:
  "parse_catalog_response host_extern (host_frame [10]) = Inr sample_catalog"
  "parse_catalog_response host_extern (host_frame [12]) = Inr sample_catalog"
  by code_simp+

lemma host_call:
  "parse_tool_call_meta host_extern (host_frame [13]) (RpcMethod ''tools/call'') =
     Some \<lparr>tm_tool_name = ToolName ''edit'', tm_lsp_method = None, tm_path_hint = None\<rparr>"
  "parse_tool_call_meta host_extern (host_frame [13]) tools_call =
     Some \<lparr>tm_tool_name = ToolName ''edit'', tm_lsp_method = None, tm_path_hint = None\<rparr>"
  "parse_tool_call_meta host_extern (host_frame [0]) (RpcMethod ''initialize'') = None"
  "parse_tool_call_meta host_extern (host_frame [0]) tools_call = None"
  by code_simp+

lemma host_to_vec: "x_to_vec host_extern v = Some [1]"
  by (simp add: host_extern_def)

lemma host_bytes_ok: "validate_frame_payload [1] 8 = Inr ()"
  by code_simp

lemma host_texts:
  "internal_text 1 ''tools'' 1 = ''io.libmcp/1/tools/1''"
  "internal_text 2 ''initialize'' 2 = ''io.libmcp/2/initialize/2''"
  "internal_text 2 ''tools'' 3 = ''io.libmcp/2/tools/3''"
  by code_simp+

lemma host_rewrite:
  "rewrite_id (fr_value (host_frame [0])) i =
     Inr (JObject (obj_insert ''id'' (request_id_to_json i) (the (as_object (fr_value (host_frame [0]))))))"
proof -
  have "as_object (fr_value (host_frame [0])) \<noteq> None" by code_simp
  then show ?thesis by (auto simp: rewrite_id_def)
qed

text \<open>What the evaluation of a run unfolds.\<close>

lemmas run_defs = is_initialized_notification_def is_tools_call_def host_to_vec host_bytes_ok start_def spawn_worker_def new_supervisor_def sample_config_def calm_env_def
  sample_verify record_effect_def checked_add_def handle_event_def handle_client_payload_def
  host_parse host_envelope host_payload host_call host_texts host_catalogs cold_def
  observe_client_frame_def dispatch_client_frame_def gating_new_work_def forward_request_def
  dispatch_request_def begin_request_dispatch_def is_initialize_def classify_request_def
  send_or_lose_def send_active_def send_handle_def replay_contract_def queued_request_id_def
  pending_capacity_def new_seed_def seed_matches_def

lemmas reply_defs = handle_worker_payload_def forward_response_def complete_response_def
  after_terminal_outcome_def record_session_transition_def write_value_def serialize_def
  emit_def try_begin_restore_def remove_queued_request_def
  active_token_def forward_initialized_def request_active_catalog_def internal_id_def
  insert_internal_def handle_internal_response_def publish_active_catalog_def
  flush_queue.simps can_flush_def flush_step_def pop_next_dispatch_def tool_contract_def
  catalog_contract_def sample_catalog_def

lemmas recovery_defs = handle_worker_loss_def handle_worker_loss_by_id_def drop_candidate_def
  forget_active_def retain_callbacks_def requeue_pending_for_replay_def on_tick_def
  candidate_expired_def tick_rest_def retry_due_def start_recovery_def lift_io_def
  place_recovery_worker_def seed_candidate_initialize_def kernel_seed_def replay_seed_def
  prepare_replay_seed_def seed_frame_def host_rewrite send_worker_def
  seed_candidate_catalog_def on_candidate_ready_def same_catalog_def canonical_bytes_def
  set_candidate_deadline_def has_in_flight_def active_callbacks_def reject_candidate_def
  retain_internal_def kill_def map_values_def delete_all_def

text \<open>
  The run ends in the wedged state: the session was pinned by the call, so the recovery
  candidate is refused after its catalog has been accepted, and the phase stays \<open>Draining\<close>.
\<close>

lemma pinned_run_wedges:
  "start host_extern calm_env sample_config pinned_session (new_supervisor sample_config) = (r, s) \<Longrightarrow>
     r = Inr True \<and> wedged s \<and> sj_pinned (sv_journal s)"
  by (auto simp: pinned_session_def run_defs reply_defs recovery_defs wedged_def)

lemma opening_run:
  "start host_extern calm_env sample_config (take 5 pinned_session) (new_supervisor sample_config) = (r, s) \<Longrightarrow>
     r = Inr True \<and> active_token s = Some 1 \<and> can_flush s \<and>
     map_of (k_pending (sv_kernel s)) (IdNumber 2) \<noteq> None"
  by (auto simp: pinned_session_def run_defs reply_defs)

lemma candidate_run:
  "start host_extern calm_env sample_config (take 9 pinned_session) (new_supervisor sample_config) = (r, s) \<Longrightarrow>
     r = Inr True \<and> (\<exists>c. sv_candidate s = Some c \<and> cd_purpose c = Recovery) \<and> sj_pinned (sv_journal s) \<and>
     same_catalog host_extern (sv_published s) sample_catalog = Inr True \<and> \<not> has_in_flight (sv_kernel s)"
  by (auto simp: pinned_session_def run_defs reply_defs recovery_defs)

end
