(* ===== verification/HostTheorems.thy ===== *)
theory HostTheorems
  imports HostSamples
begin

text \<open>
  The properties of the host as a whole, each over every environment: what the calls to
  the outside answer, and in which order, is arbitrary.
\<close>

text \<open>
  C8. The supervisor uses its session kernel correctly: whatever events arrive and whatever
  the outside answers, the kernel it keeps satisfies the kernel, session and wire invariants,
  and neither its queue nor its pending requests outgrow 128 entries.
\<close>

theorem host_kernel_sound:
  assumes "start X E c evs (new_supervisor c) = (Inr True, s)"
  shows "kernel_inv (sv_kernel s) \<and> session_ok (sv_kernel s) \<and> wire_ok X (sv_kernel s) \<and>
    replay_bounded 1 (sv_kernel s) \<and> length (k_queue (sv_kernel s)) \<le> 128 \<and>
    length (k_pending (sv_kernel s)) \<le> 128"
proof -
  note hk = sup_inv_kernel [OF start_inv [OF assms]]
  show ?thesis using host_kernel_inv [OF hk] host_kernel_bounded [OF hk]
    by (simp add: kernel_bounded_def queue_capacity_def pending_capacity_def max_replay_attempts_def)
qed

theorem host_kernel_sound_witness:
  "\<exists>s. start host_extern calm_env sample_config pinned_session (new_supervisor sample_config) = (Inr True, s) \<and>
     kernel_inv (sv_kernel s)"
proof -
  obtain r s where run: "start host_extern calm_env sample_config pinned_session (new_supervisor sample_config) = (r, s)"
    by fastforce
  with pinned_run_wedges have "r = Inr True" by blast
  with run host_kernel_sound [of host_extern calm_env sample_config pinned_session s] show ?thesis by simp
qed

text \<open>
  C10. The host's state is consistent between events: the incumbent and the candidate are
  different workers, a recovery candidate exists only without an incumbent and a rollover
  candidate only beside one, the phase \<open>None\<close> has an incumbent and \<open>Recovering\<close> none, every
  outstanding callback belongs to the incumbent under an identifier of its own, and the
  session journal holds at most 32 transitions of distinct keys and at most a mebibyte.
\<close>

theorem host_state_consistent:
  assumes "start X E c evs (new_supervisor c) = (Inr True, s)"
  shows "(sv_phase s = PhaseNone \<longrightarrow> sv_active s \<noteq> None) \<and> (sv_phase s = Recovering \<longrightarrow> sv_active s = None) \<and>
    (\<forall>x. sv_candidate s = Some x \<longrightarrow> (cd_purpose x = Rollover \<longleftrightarrow> sv_active s \<noteq> None) \<and>
       active_token s \<noteq> Some (wh_token (cd_worker x))) \<and>
    (\<forall>(i, route)\<in>set (sv_callbacks s). active_token s = Some (cr_worker route)) \<and>
    distinct (map fst (sv_callbacks s)) \<and> distinct (map fst (sv_internal s)) \<and>
    distinct (map je_key (sj_entries (sv_journal s))) \<and> length (sj_entries (sv_journal s)) \<le> 32 \<and>
    sj_bytes (sv_journal s) = sum_list (map entry_bytes (sj_entries (sv_journal s))) \<and>
    sj_bytes (sv_journal s) \<le> 1024 * 1024"
  using start_inv [OF assms]
  by (auto simp: sup_inv_def workers_ok_def journal_ok_def ids_ok_def alist_ok_def active_token_def
      journal_max_entries_def journal_max_bytes_def)

theorem host_state_consistent_witness:
  "\<exists>s. start host_extern calm_env sample_config pinned_session (new_supervisor sample_config) = (Inr True, s) \<and>
     distinct (map fst (sv_callbacks s))"
proof -
  obtain r s where run: "start host_extern calm_env sample_config pinned_session (new_supervisor sample_config) = (r, s)"
    by fastforce
  with pinned_run_wedges have "r = Inr True" by blast
  with run host_state_consistent [of host_extern calm_env sample_config pinned_session s] show ?thesis by simp
qed

section \<open>The queue\<close>

text \<open>
  A worker that was lost in a handler leaves the host in recovery without an incumbent;
  otherwise a call to the incumbent has logged one effect and changed nothing else.
\<close>

lemma send_active_log:
  assumes "send_active E p s = (Inr u, s')" and "active_token s = Some t"
  shows "sv_log s' = sv_log s @ [Sent t p]"
  using assms
  by (auto simp: send_active_def send_handle_def active_token_def record_effect_def
      split: option.splits if_splits)

lemma send_active_or_recover_stops:
  assumes "send_active_or_recover X E p s = (Inr False, s')" and "sv_active s \<noteq> None"
  shows "sv_active s' = None \<and> sv_phase s' = Recovering"
proof -
  obtain r t where send: "send_active E p s = (r, t)" by fastforce
  with assms obtain e where r: "r = Inl e"
    by (cases r) (auto simp: send_active_or_recover_def catchO_def bindO_def)
  have "leaves (quiet s) (send_active E p s)" by (rule leaves_rules) simp
  with send have q: "quiet s t" by simp
  have loss: "handle_worker_loss_by_id X E (active_token s) t = (Inr (), s')"
    using assms send r
    by (auto simp: send_active_or_recover_def catchO_def bindO_def split: prod.splits sum.splits)
  have tok: "active_token t = active_token s" using quiet_fields(3) [OF q] by (simp add: active_token_def)
  obtain a where "active_token s = Some a" using assms(2) by (auto simp: active_token_def)
  with loss tok worker_loss_result(1,4) show ?thesis by metis
qed

lemma send_active_or_recover_goes_on:
  assumes "send_active_or_recover X E p s = (Inr True, s')" and "active_token s = Some t"
  shows "sv_log s' = sv_log s @ [Sent t p]" and "quiet s s'"
proof -
  show "quiet s s'" by (rule send_active_or_recover_kernel [OF assms(1)])
  obtain r u where send: "send_active E p s = (r, u)" by fastforce
  with assms(1) have "r = Inr ()" "s' = u"
    by (cases r; auto simp: send_active_or_recover_def catchO_def bindO_def split: prod.splits sum.splits)+
  with send send_active_log [OF _ assms(2)] show "sv_log s' = sv_log s @ [Sent t p]" by blast
qed

lemma dispatch_request_keeps:
  assumes "dispatch_request X E f m s = (r, s')"
  shows "sv_log s' = sv_log s" "sv_active s' = sv_active s" "sv_phase s' = sv_phase s"
  using assms by (auto simp: dispatch_request_def split: prod.splits sum.splits)

lemma write_value_keeps:
  assumes "write_value X E v s = (Inr u, s')"
  shows "sv_log s' = sv_log s @ [WroteValue v]" "quiet s s'"
proof -
  have "leaves (quiet s) (write_value X E v s)" by (rule leaves_rules) simp
  with assms show "quiet s s'" by simp
qed (rule write_value_log [OF assms])

lemma flush_client_frame_goes_on:
  assumes "flush_client_frame X E f s = (Inr True, s')" and "active_token s = Some t"
  shows "sv_active s' = sv_active s \<and> sv_phase s' = sv_phase s \<and>
    (\<exists>eff. sv_log s' = sv_log s @ [eff] \<and>
       (eff = Sent t (fr_payload f) \<or> (\<exists>i m v. fr_envelope f = Request i m \<and> eff = WroteValue v)))"
proof (cases "fr_envelope f")
  case (Request i m)
  show ?thesis
  proof (cases "method_text m = ''tools/list''")
    case True
    with assms(1) Request obtain v where "write_value X E v s = (Inr (), s')"
      by (auto simp: flush_client_frame_def reply_catalog_def bindO_def
          split: option.splits prod.splits sum.splits)
    from write_value_keeps [OF this] Request show ?thesis by (simp add: quiet_fields(3,9))
  next
    case False
    obtain r u where d: "dispatch_request X E f m s = (r, u)" by fastforce
    note keeps = dispatch_request_keeps [OF d]
    have tok: "active_token u = Some t" using keeps(2) assms(2) by (simp add: active_token_def)
    from assms(1) d False Request obtain rej where r: "r = Inr rej"
      by (cases r) (auto simp: flush_client_frame_def bindO_def)
    show ?thesis
    proof (cases rej)
      case None
      with d r False Request assms(1) have "send_active_or_recover X E (fr_payload f) u = (Inr True, s')"
        by (simp add: flush_client_frame_def bindO_def)
      from send_active_or_recover_goes_on [OF this tok] keeps show ?thesis by (simp add: quiet_fields(3,9))
    next
      case (Some rejection)
      with d r False Request assms(1) obtain v where "write_value X E v u = (Inr (), s')"
        by (auto simp: flush_client_frame_def reject_client_frame_def reject_client_id_def
            request_id_of_def bindO_def split: prod.splits sum.splits)
      from write_value_keeps [OF this] Request keeps show ?thesis by (simp add: quiet_fields(3,9))
    qed
  qed
next
  case (Notification m)
  with assms(1) have "send_active_or_recover X E (fr_payload f) s = (Inr True, s')"
    by (simp add: flush_client_frame_def)
  from send_active_or_recover_goes_on [OF this assms(2)] show ?thesis by (simp add: quiet_fields(3,9))
qed (use assms(1) in \<open>simp add: flush_client_frame_def\<close>)

lemma flush_client_frame_stops:
  assumes "flush_client_frame X E f s = (Inr False, s')" and "sv_active s \<noteq> None"
  shows "sv_active s' = None \<and> sv_phase s' = Recovering"
proof -
  have "sv_active u \<noteq> None" if "dispatch_request X E f m s = (r, u)" for m r u
    using dispatch_request_keeps(2) [OF that] assms(2) by simp
  with assms send_active_or_recover_stops show ?thesis
    by (fastforce simp: flush_client_frame_def bindO_def
        split: envelope.splits if_splits prod.splits sum.splits option.splits)
qed

lemma flush_step_cases:
  assumes inv: "sup_inv X s" and act: "active_token s = Some t" and step: "flush_step X E s = (Inr b, s')"
  obtains (loss) "\<not> b" "sv_active s' = None" "sv_phase s' = Recovering"
  | (empty) "\<not> b" "k_queue (sv_kernel s) = []" "s' = s"
  | (served) f rest eff where "b" "k_queue (sv_kernel s) = f # rest" "k_queue (sv_kernel s') = rest"
      "sv_active s' = sv_active s" "sv_phase s' = sv_phase s" "sv_log s' = sv_log s @ [eff]"
      "eff = Sent t (fr_payload f) \<or> (\<exists>i m v. fr_envelope f = Request i m \<and> eff = WroteValue v)"
proof -
  obtain r k where pop: "pop_next_dispatch (sv_kernel s) = (r, k)" by fastforce
  note total = pop_total [OF sup_inv_kernel [OF inv]]
  from pop total obtain outcome where r: "r = Inr outcome" by (cases r) auto
  let ?s = "s\<lparr>sv_kernel := k\<rparr>"
  have act': "active_token ?s = Some t" "sv_active ?s \<noteq> None"
    using act by (auto simp: active_token_def)
  have head: "\<exists>rest. k_queue (sv_kernel s) = f # rest \<and> k_queue k = rest"
    if "outcome = ReplayFrame f \<or> outcome = ClientFrame f" for f
    using pop r that
    by (auto simp: pop_next_dispatch_def update_pending_def Let_def
        split: list.splits envelope.splits option.splits disposition.splits sum.splits)
  show thesis
  proof (cases outcome)
    case (ReplayFrame f)
    with step pop r have sent: "send_active_or_recover X E (fr_payload f) ?s = (Inr b, s')"
      by (simp add: flush_step_def)
    show thesis
    proof (cases b)
      case True
      with sent have "send_active_or_recover X E (fr_payload f) ?s = (Inr True, s')" by simp
      note on = send_active_or_recover_goes_on [OF this act'(1)]
      show thesis using served [of f] True head [of f] ReplayFrame on(1) quiet_fields(2,3,9) [OF on(2)] by auto
    next
      case False
      with send_active_or_recover_stops [OF _ act'(2)] sent loss show thesis by auto
    qed
  next
    case (ClientFrame f)
    with step pop r have sent: "flush_client_frame X E f ?s = (Inr b, s')"
      by (simp add: flush_step_def)
    show thesis
    proof (cases b)
      case True
      with sent have "flush_client_frame X E f ?s = (Inr True, s')" by simp
      note on = flush_client_frame_goes_on [OF this act'(1)] flush_client_frame_queue [OF this]
      show thesis using served [of f] True head [of f] ClientFrame on by auto
    next
      case False
      with flush_client_frame_stops [OF _ act'(2)] sent loss show thesis by auto
    qed
  next
    case (HeldForProbe i)
    with total pop r show thesis by simp
  next
    case QueueEmpty
    with total pop r have "k_queue (sv_kernel s) = []" by simp
    with QueueEmpty step pop r show thesis
      by (intro empty) (auto simp: flush_step_def pop_next_dispatch_def)
  qed
qed

lemma flush_queue_result:
  assumes "sup_inv X s" and "can_flush s" and "active_token s = Some t" and "flush_queue X E s = (Inr u, s')"
  shows "sv_active s' = None \<and> sv_phase s' = Recovering \<or>
    sv_active s' = sv_active s \<and> sv_phase s' = PhaseNone \<and> k_queue (sv_kernel s') = [] \<and>
    (\<exists>l. sv_log s' = sv_log s @ l \<and> list_all2 (\<lambda>f eff. eff = Sent t (fr_payload f) \<or>
       (\<exists>i m v. fr_envelope f = Request i m \<and> eff = WroteValue v)) (k_queue (sv_kernel s)) l)"
  using assms
proof (induction X E s rule: flush_queue.induct)
  case (1 X E s)
  obtain r v where step: "flush_step X E s = (r, v)" by fastforce
  with 1(3,5) obtain b where r: "r = Inr b" by (subst (asm) flush_queue.simps) (cases r, auto)
  have v: "sup_inv X v" using flush_step_inv [OF 1(2)] step leaves_result by metis
  have ph: "sv_phase s = PhaseNone" using 1(3) by (simp add: can_flush_def)
  have rest: "if b then flush_queue X E v = (Inr u, s') else s' = v"
    using 1(3,5) step r by (subst (asm) flush_queue.simps) (auto split: if_splits)
  from 1(2,4) step [unfolded r] show ?case
  proof (cases rule: flush_step_cases)
    case loss
    with rest show ?thesis by simp
  next
    case empty
    with rest ph show ?thesis by auto
  next
    case (served f rest' eff)
    then have "can_flush v" "active_token v = Some t"
      using 1(3,4) by (auto simp: can_flush_def active_token_def)
    moreover have "flush_queue X E v = (Inr u, s')" using rest served(1) by simp
    ultimately obtain l where "sv_active s' = None \<and> sv_phase s' = Recovering \<or>
        sv_active s' = sv_active v \<and> sv_phase s' = PhaseNone \<and> k_queue (sv_kernel s') = [] \<and>
        sv_log s' = sv_log v @ l \<and> list_all2 (\<lambda>f eff. eff = Sent t (fr_payload f) \<or>
           (\<exists>i m v. fr_envelope f = Request i m \<and> eff = WroteValue v)) (k_queue (sv_kernel v)) l"
      using 1(1) [OF 1(3) step [symmetric] r served(1) v] by blast
    then show ?thesis
    proof
      assume "sv_active s' = sv_active v \<and> sv_phase s' = PhaseNone \<and> k_queue (sv_kernel s') = [] \<and>
        sv_log s' = sv_log v @ l \<and> list_all2 (\<lambda>f eff. eff = Sent t (fr_payload f) \<or>
           (\<exists>i m v. fr_envelope f = Request i m \<and> eff = WroteValue v)) (k_queue (sv_kernel v)) l"
      with served show ?thesis by (intro disjI2 conjI exI [of _ "eff # l"]) auto
    qed simp
  qed
qed

lemma flush_queue_empties:
  assumes "sup_inv X s" and "flush_queue X E s = (Inr u, s')"
  shows "k_queue (sv_kernel s') = [] \<or> \<not> can_flush s'"
proof (cases "can_flush s")
  case True
  then obtain t where "active_token s = Some t" by (auto simp: can_flush_def active_token_def)
  from flush_queue_result [OF assms(1) True this assms(2)] show ?thesis by (auto simp: can_flush_def)
next
  case False
  with assms(2) show ?thesis by (subst (asm) flush_queue.simps) simp
qed

text \<open>
  C12. The queue is flushed to the end. A flush begun with a live incumbent and no rollover
  under way never fails on the session kernel, and when it returns either the incumbent was
  lost on the way, and the host is in recovery without a worker; or the same incumbent is
  live, no rollover is under way, nothing is queued, no invocation waits to be replayed, and
  every frame that was queued has in its turn been sent to the incumbent or, when it is a
  request, answered to the client.
\<close>

theorem flush_drains:
  assumes "sup_inv X s" and "can_flush s" and "active_token s = Some t" and "flush_queue X E s = (r, s')"
  shows "(\<forall>e. r \<noteq> Inl (SupSession e)) \<and>
    (case r of Inl _ \<Rightarrow> True | Inr _ \<Rightarrow>
       sv_active s' = None \<and> sv_phase s' = Recovering \<or>
       sv_active s' = sv_active s \<and> sv_phase s' = PhaseNone \<and>
       k_queue (sv_kernel s') = [] \<and> scheduled_ids (k_pending (sv_kernel s')) = {} \<and>
       (\<exists>l. sv_log s' = sv_log s @ l \<and> list_all2 (\<lambda>f eff. eff = Sent t (fr_payload f) \<or>
          (\<exists>i m v. fr_envelope f = Request i m \<and> eff = WroteValue v)) (k_queue (sv_kernel s)) l))"
proof -
  have "sup_inv X s'" using flush.leaves_inv [OF assms(1)] assms(4) leaves_result by metis
  then have inv: "kernel_inv (sv_kernel s')" by (rule host_kernel_inv(1) [OF sup_inv_kernel])
  have "scheduled_ids (k_pending (sv_kernel s')) = {}" if "k_queue (sv_kernel s') = []"
    by (rule kernel_invE [OF inv]) (use that in \<open>auto simp: recovery_ok_def\<close>)
  moreover have "r \<noteq> Inl (SupSession e)" for e
    using flush.error_good [OF assms(1)] assms(4) by blast
  moreover note flush_queue_result [OF assms(1-3), of E _ s'] assms(4)
  ultimately show ?thesis by (cases r) auto
qed

definition lone_host :: "u64 supervisor" where
  "lone_host = (new_supervisor sample_config)\<lparr>sv_next_worker := 1,
     sv_active := Some \<lparr>wh_token = 1, wh_release = sample_release StatelessState, wh_catalog = None\<rparr>\<rparr>"

lemma lone_host_inv: "sup_inv host_extern lone_host"
  using host_kernel_cold
  by (simp add: lone_host_def new_supervisor_def sup_inv_def workers_ok_def journal_ok_def)

definition busy_host :: "u64 supervisor" where
  "busy_host = lone_host\<lparr>sv_kernel := kstep host_extern cold (Enqueue (host_frame [13]) queue_capacity)\<rparr>"

lemma busy_host_inv: "sup_inv host_extern busy_host"
proof -
  have "host_event host_extern (Enqueue (host_frame [13]) queue_capacity)"
    using host_parse(7) by (simp add: frame_ok_def host_payload)
  from host_kernel_step [OF host_kernel_cold this] have "host_kernel host_extern (sv_kernel busy_host)"
    by (simp add: busy_host_def)
  with lone_host_inv show ?thesis by (simp add: busy_host_def sup_inv_def workers_ok_def)
qed

theorem flush_drains_witness:
  "\<exists>s'. flush_queue host_extern calm_env busy_host = (Inr (), s') \<and> sv_log s' = [Sent 1 [13]] \<and>
     sv_active s' = sv_active busy_host"
proof -
  have q: "k_queue (sv_kernel busy_host) = [host_frame [13]]"
    by (simp add: busy_host_def lone_host_def new_supervisor_def kstep_def queue_client_frame_def cold_def
        queue_capacity_def host_envelope queued_request_id_def)
  obtain r s' where run: "flush_queue host_extern calm_env busy_host = (r, s')" by fastforce
  moreover have "can_flush busy_host" "active_token busy_host = Some 1"
    by (simp_all add: busy_host_def lone_host_def new_supervisor_def can_flush_def active_token_def)
  moreover have "r = Inr () \<and> sv_active s' \<noteq> None \<and> sv_log s' = [Sent 1 [13]]" using run
    by (auto simp: busy_host_def lone_host_def run_defs reply_defs kstep_def queue_client_frame_def
        queue_capacity_def flush_client_frame_def send_active_or_recover_def bindO_def catchO_def ask_def
        simp del: bindO_simps catchO_simps bindO_pure)
  ultimately show ?thesis using flush_drains [OF busy_host_inv, of 1 calm_env r s'] by auto
qed

section \<open>The loss of the incumbent\<close>

lemma map_of_map_pair: "map_of (map (\<lambda>(i, r). (i, f r)) al) i = map_option f (map_of al i)"
  by (induction al) auto

text \<open>
  C9. A lost incumbent costs no client its answer: when the loss has been handled, every
  invocation that was pending either waits in the queue, scheduled for replay under its own
  frame, or its client has been sent an error response; the host is in recovery with no
  worker, no candidate and no outstanding callback.
\<close>

theorem worker_loss_accounts:
  assumes inv: "sup_inv X s" and act: "active_token s = Some t"
    and loss: "handle_worker_loss_by_id X E (Some t) s = (Inr (), s')"
    and r: "map_of (k_pending (sv_kernel s)) i = Some r"
  shows "((\<exists>r'. map_of (k_pending (sv_kernel s')) i = Some r' \<and> pr_scheduled r' = Some ReplayDisp \<and>
        pr_frame r' = pr_frame r \<and> pr_frame r \<in> set (k_queue (sv_kernel s'))) \<or>
      (\<exists>reason. WroteValue (rpc_error X i (rejection_code reason) (rejection_message reason)) \<in> set (sv_log s'))) \<and>
    sv_phase s' = Recovering \<and> sv_active s' = None \<and> sv_candidate s' = None \<and> sv_callbacks s' = []"
proof -
  let ?k = "sv_kernel s" and ?b = replay_limits
  let ?out = "fst (requeue_pending_for_replay ?b ?k)" and ?k' = "snd (requeue_pending_for_replay ?b ?k)"
  let ?ks = "kept ?b (length (retained ?k)) (recovery_order ?k)"
  note hk = sup_inv_kernel [OF inv]
  note res = worker_loss_result [OF act loss]
  note closed = requeue_closed [OF host_alist [OF hk] limits_ok(2) [folded limits_ok(1)] surjective_pairing]
  have inv': "sup_inv X s'" using worker_loss_inv [OF inv] loss leaves_result by metis
  then have "sv_callbacks s' = []"
    using res(1) by (cases "sv_callbacks s'") (auto simp: sup_inv_def workers_ok_def)
  moreover have "(\<exists>r'. map_of (k_pending ?k') i = Some r' \<and> pr_scheduled r' = Some ReplayDisp \<and>
        pr_frame r' = pr_frame r \<and> pr_frame r \<in> set (k_queue ?k')) \<or>
      (\<exists>reason. WroteValue (rpc_error X i (rejection_code reason) (rejection_message reason)) \<in> set (sv_log s'))"
  proof (cases "(i, lose_worker r) \<in> set ?ks")
    case True
    from kept_entry [OF host_kernel_inv(1) [OF hk] True] have sv: "survives ?b (i, lose_worker r)"
      "pr_knowledge (lose_worker r) = OutcomeUnknown" by blast+
    have "pr_contract r \<noteq> ProbeRequired" using host_no_probe [OF hk] r by (simp add: no_probe_def)
    with survives_cases [OF sv(2,1)] have "recovery_disposition ?b (lose_worker r) = ReplayDisp" by auto
    moreover have "map_of ?ks i = Some (lose_worker r)"
      using True kept_distinct [OF host_alist [OF hk]] by (simp add: map_of_eq_Some_iff)
    then have "map_of (k_pending ?k') i = Some (schedule ?b (lose_worker r))"
      unfolding closed(5) by (simp add: map_of_map_pair)
    ultimately show ?thesis using closed(3) True by (force simp: schedule_def)
  next
    case False
    have "(i, lose_worker r) \<in> set (recovery_order ?k)"
      using r recovery_order_mem [OF host_alist [OF hk]] by (simp add: lookup_simps)
    with False closed(1) have "reject_entry ?b (i, lose_worker r) \<in> set (ro_rejected ?out)" by simp
    moreover from res(6) obtain l where "sv_log s' = l @ map (\<lambda>r. WroteValue (rpc_error X (rj_request_id r)
        (rejection_code (rj_reason r)) (rejection_message (rj_reason r)))) (ro_rejected ?out)" by blast
    ultimately have "WroteValue (rpc_error X i
        (rejection_code (rj_reason (reject_entry ?b (i, lose_worker r))))
        (rejection_message (rj_reason (reject_entry ?b (i, lose_worker r))))) \<in> set (sv_log s')"
      by (force simp: reject_entry_def)
    then show ?thesis by blast
  qed
  ultimately show ?thesis using res(1,2,4,5) by simp
qed

theorem worker_loss_accounts_witness:
  "\<exists>s. active_token s = Some 1 \<and> (\<forall>s'. handle_worker_loss_by_id host_extern calm_env (Some 1) s = (Inr (), s') \<longrightarrow>
     sv_phase s' = Recovering)"
proof -
  obtain r s where run: "start host_extern calm_env sample_config (take 5 pinned_session)
      (new_supervisor sample_config) = (r, s)" by fastforce
  note o = opening_run [OF run]
  then have "sup_inv host_extern s" using start_inv run by blast
  with worker_loss_accounts [of host_extern s 1 calm_env _ "IdNumber 2"] o show ?thesis by blast
qed

section \<open>Replay contracts of requests\<close>

lemma classify_granted:
  "classify_request X s f m = Convergent \<longleftrightarrow>
     method_text m \<in> {''initialize'', ''ping'', ''tools/list'', ''resources/list'', ''resources/templates/list'',
       ''resources/read'', ''prompts/list'', ''prompts/get'', ''completion/complete''} \<or>
     method_text m = ''tools/call'' \<and> (\<exists>meta cat c. parse_tool_call_meta X f m = Some meta \<and>
        sv_published s = Some cat \<and> map_of (tc_contracts cat) (tm_tool_name meta) = Some c \<and>
        (ec_recovery c = ReplaySafe \<or> ec_recovery c = Deduplicated \<and>
          (\<exists>p key. ec_key_pointer c = Some p \<and> x_pointer X (fr_value f) p = Some key \<and>
             ((\<exists>t. key = JString t) \<or> (\<exists>n. key = JNumber n)))))"
  by (cases "parse_tool_call_meta X f m")
    (auto simp: classify_request_def replay_contract_def is_initialize_def is_tools_call_def
      replay_safe_methods_def tool_contract_def catalog_contract_def is_key_scalar_def bind_eq_Some_conv
      split: option.splits effect_recovery.splits json.splits)

lemma dispatch_request_entry:
  assumes "dispatch_request X E f m s = (Inr None, s1)" and "fr_envelope f = Request i m"
  shows "\<exists>r. map_of (k_pending (sv_kernel s1)) i = Some r \<and> pr_frame r = f \<and>
    pr_contract r = classify_request X s f m"
proof -
  let ?s = "s\<lparr>sv_calls := Suc (sv_calls s)\<rparr>"
  let ?b = "begin_request_dispatch X (e_now E (sv_calls s)) f (classify_request X ?s f m) pending_capacity (sv_kernel s)"
  have p: "sv_published ?s = sv_published s" by simp
  have c: "classify_request X ?s f m = classify_request X s f m"
    unfolding classify_request_def tool_contract_def p ..
  obtain b k where b: "?b = (b, k)" by fastforce
  with assms(1) obtain j where j: "b = Inr j" "s1 = ?s\<lparr>sv_kernel := k\<rparr>"
    by (cases b) (auto simp: dispatch_request_def bindO_def ask_def)
  obtain m' r where "fr_envelope f = Request j m'" "pr_frame r = f"
      "pr_contract r = classify_request X ?s f m" "k_pending k = AList.update j r (k_pending (sv_kernel s))"
    by (rule begin_Inr [OF b [unfolded j(1)]]) blast
  with j(2) c assms(2) show ?thesis by (simp add: lookup_simps)
qed

lemma lost_never_replay:
  assumes inv: "sup_inv X s" and act: "active_token s = Some t"
    and loss: "handle_worker_loss_by_id X E (Some t) s = (Inr (), s')"
    and r: "map_of (k_pending (sv_kernel s)) i = Some r" "pr_contract r = NeverReplay"
  shows "map_of (k_pending (sv_kernel s')) i = None \<and>
    WroteValue (rpc_error X i (rejection_code AmbiguousOutcome) (rejection_message AmbiguousOutcome))
      \<in> set (sv_log s')"
proof -
  let ?b = replay_limits and ?k = "sv_kernel s"
  let ?ks = "kept ?b (length (retained ?k)) (recovery_order ?k)"
  note hk = sup_inv_kernel [OF inv]
  note ki = host_kernel_inv(1) [OF hk]
  note res = worker_loss_result [OF act loss]
  note closed = requeue_closed [OF host_alist [OF hk] limits_ok(2) [folded limits_ok(1)] surjective_pairing]
  have "entry_ok (k_next ?k) i r" using ki r(1) pending_ok_entry unfolding kernel_inv_def by blast
  then have ku: "pr_knowledge (lose_worker r) = OutcomeUnknown" by (simp add: entry_ok_def sched_ok_lost)
  then have rd: "recovery_disposition ?b (lose_worker r) = RejectAmbiguousOutcome"
    using r(2) by (simp add: recovery_disposition_def requeue_disposition_cases)
  have order: "(i, q) \<in> set (recovery_order ?k) \<longleftrightarrow> q = lose_worker r" for q
    using r(1) recovery_order_mem [OF host_alist [OF hk]] by (auto simp: lookup_simps)
  have out: "(i, q) \<notin> set ?ks" for q
  proof
    assume "(i, q) \<in> set ?ks"
    with order [of q] kept_subset kept_survives have "q = lose_worker r" "survives ?b (i, q)" by blast+
    with rd show False by (simp add: survives_def drop_reason_def)
  qed
  then have "map_of ?ks i = None" by (force simp: map_of_eq_None_iff)
  then have "map_of (k_pending (sv_kernel s')) i = None"
    unfolding res(5) closed(5) by (simp add: map_of_map_pair)
  moreover have "reject_entry ?b (i, lose_worker r) \<in>
      set (ro_rejected (fst (requeue_pending_for_replay ?b ?k)))"
    unfolding closed(1) using order out by simp
  moreover have "rj_request_id (reject_entry ?b (i, lose_worker r)) = i"
    "rj_reason (reject_entry ?b (i, lose_worker r)) = AmbiguousOutcome"
    using rd by (simp_all add: reject_entry_def drop_reason_def)
  ultimately show ?thesis using res(6) by force
qed

text \<open>
  C13. A side effect is repeated only on a grant. An admitted request is recorded as
  replayable exactly when its method is \<open>initialize\<close> or one of eight read-only ones, or it is
  a call of a tool whose published contract is replay-safe, or deduplicated by a key the call
  carries as a string or a number. Every other request is recorded as never to be replayed:
  when the worker is lost while it is pending, it leaves the kernel and its client is told
  that the outcome is unknown.
\<close>

theorem classify_request_exact:
  assumes inv: "sup_inv X s" and f: "frame_ok X f" "fr_envelope f = Request i m"
    and disp: "dispatch_request X E f m s = (Inr None, s1)"
  shows "let granted = (method_text m \<in> {''initialize'', ''ping'', ''tools/list'', ''resources/list'',
        ''resources/templates/list'', ''resources/read'', ''prompts/list'', ''prompts/get'',
        ''completion/complete''} \<or>
      method_text m = ''tools/call'' \<and> (\<exists>meta cat c. parse_tool_call_meta X f m = Some meta \<and>
        sv_published s = Some cat \<and> map_of (tc_contracts cat) (tm_tool_name meta) = Some c \<and>
        (ec_recovery c = ReplaySafe \<or> ec_recovery c = Deduplicated \<and>
          (\<exists>p key. ec_key_pointer c = Some p \<and> x_pointer X (fr_value f) p = Some key \<and>
             ((\<exists>t. key = JString t) \<or> (\<exists>n. key = JNumber n))))))
    in (\<exists>r. map_of (k_pending (sv_kernel s1)) i = Some r \<and> pr_frame r = f \<and>
         pr_contract r = (if granted then Convergent else NeverReplay)) \<and>
       (\<forall>t E' s2. \<not> granted \<and> active_token s1 = Some t \<and>
         handle_worker_loss_by_id X E' (Some t) s1 = (Inr (), s2) \<longrightarrow>
         map_of (k_pending (sv_kernel s2)) i = None \<and>
         WroteValue (rpc_error X i (rejection_code AmbiguousOutcome) (rejection_message AmbiguousOutcome))
           \<in> set (sv_log s2))"
proof -
  from dispatch_request_entry [OF disp f(2)] obtain r where r: "map_of (k_pending (sv_kernel s1)) i = Some r"
    "pr_frame r = f" "pr_contract r = classify_request X s f m" by blast
  have inv1: "sup_inv X s1" using dispatch_request_inv [OF inv f(1)] disp leaves_result by metis
  have "pr_contract r = NeverReplay" if "pr_contract r \<noteq> Convergent"
    using that r(3) classify_request_cases [of X s f m] by auto
  moreover from this have "map_of (k_pending (sv_kernel s2)) i = None \<and>
      WroteValue (rpc_error X i (rejection_code AmbiguousOutcome) (rejection_message AmbiguousOutcome))
        \<in> set (sv_log s2)"
    if "pr_contract r \<noteq> Convergent" "active_token s1 = Some t"
      "handle_worker_loss_by_id X E' (Some t) s1 = (Inr (), s2)" for t E' s2
    using lost_never_replay [OF inv1 that(2,3) r(1)] that(1) by blast
  ultimately show ?thesis
    unfolding Let_def classify_granted [of X s f m, symmetric] r(3) [symmetric] using r(1,2) by auto
qed

theorem classify_request_exact_witness:
  "\<exists>s r. dispatch_request host_extern calm_env (host_frame [13]) (RpcMethod ''tools/call'') lone_host = (Inr None, s) \<and>
     map_of (k_pending (sv_kernel s)) (IdNumber 2) = Some r \<and> pr_contract r = NeverReplay"
proof -
  obtain r s where run: "dispatch_request host_extern calm_env (host_frame [13]) (RpcMethod ''tools/call'') lone_host = (r, s)"
    by fastforce
  then have "r = Inr None" by (auto simp: lone_host_def run_defs split: prod.splits sum.splits)
  moreover have "frame_ok host_extern (host_frame [13])" using host_parse(7) by (simp add: frame_ok_def host_payload)
  ultimately show ?thesis
    using run classify_request_exact [OF lone_host_inv, of "host_frame [13]" "IdNumber 2" "RpcMethod ''tools/call''"
        calm_env s]
    by (auto simp: host_envelope Let_def lone_host_def new_supervisor_def)
qed

section \<open>Callbacks\<close>

lemma rewrite_id_members:
  assumes "rewrite_id v i = Inr w"
  shows "\<exists>ms ws. v = JObject ms \<and> w = JObject ws \<and> map_of ws = (map_of ms)(''id'' \<mapsto> request_id_to_json i)"
  using assms by (auto simp: rewrite_id_def as_object_def map_of_obj_insert split: json.splits)

text \<open>
  C14. A callback comes home: a request the incumbent sends to the client goes out with a
  fresh private identifier as its member \<open>id\<close> and every other member as the worker wrote
  it; the client's response to it is sent to that worker with the worker's own identifier as
  its member \<open>id\<close> and every other member as the client wrote it, and the route is then
  forgotten. (The serialisation of a JSON value is taken not to fail.)
\<close>

theorem callback_roundtrip:
  assumes inv: "sup_inv X s" and act: "active_token s = Some t"
    and fwd: "forward_callback X E t i f s = (Inr (), s1)"
    and g: "fr_value g = JObject gs" and vec: "\<And>v. x_to_vec X v \<noteq> None"
    and send: "e_send E (sv_calls s1)"
  shows "\<exists>p fs out. map_of (sv_callbacks s) p = None \<and>
    fr_value f = JObject fs \<and> sv_log s1 = sv_log s @ [WroteValue (JObject out)] \<and>
    map_of out ''id'' = Some (request_id_to_json p) \<and> (\<forall>k. k \<noteq> ''id'' \<longrightarrow> map_of out k = map_of fs k) \<and>
    map_of (sv_callbacks s1) p = Some \<lparr>cr_worker = t, cr_original = i\<rparr> \<and>
    (\<exists>s2 reply bytes. route_callback_response X E p g s1 = (Inr (), s2) \<and>
       map_of reply ''id'' = Some (request_id_to_json i) \<and> (\<forall>k. k \<noteq> ''id'' \<longrightarrow> map_of reply k = map_of gs k) \<and>
       x_to_vec X (JObject reply) = Some bytes \<and>
       sv_log s2 = sv_log s1 @ [Sent t bytes] \<and> map_of (sv_callbacks s2) p = None)"
proof -
  obtain w where w: "sv_active s = Some w" "wh_token w = t" using act by (auto simp: active_token_def)
  from fwd obtain n where n: "checked_add (sv_next_callback s) 1 = Some n"
    by (auto simp: forward_callback_def next_callback_id_def bindO_def split: option.splits)
  let ?p = "IdText (callback_text n)"
  let ?s = "s\<lparr>sv_next_callback := n, sv_callbacks := AList.update ?p
    \<lparr>cr_worker = t, cr_original = i\<rparr> (sv_callbacks s)\<rparr>"
  have id: "next_callback_id s = (Inr ?p, s\<lparr>sv_next_callback := n\<rparr>)"
    using n by (simp add: next_callback_id_def callback_text_def)
  with fwd obtain rewritten where rw: "rewrite_id (fr_value f) ?p = Inr rewritten"
    "write_value X E rewritten ?s = (Inr (), s1)"
    by (auto simp: forward_callback_def split: sum.splits)
  from rewrite_id_members [OF rw(1)] obtain fs out where out: "fr_value f = JObject fs"
    "rewritten = JObject out" "map_of out = (map_of fs)(''id'' \<mapsto> request_id_to_json ?p)" by blast
  note log = write_value_keeps [OF rw(2)]
  have fresh: "map_of (sv_callbacks s) ?p = None"
    using inv issued_new(2) [OF n] by (auto simp: sup_inv_def ids_ok_def)
  have route: "map_of (sv_callbacks s1) ?p = Some \<lparr>cr_worker = t, cr_original = i\<rparr>"
    using quiet_fields(7) [OF log(2)] by (simp add: lookup_simps)
  have ok: "alist_ok (sv_callbacks s1)"
    using inv quiet_fields(7) [OF log(2)] by (simp add: sup_inv_def ids_ok_def)
  let ?reply = "obj_insert ''id'' (request_id_to_json i) gs"
  from vec obtain bytes where bytes: "x_to_vec X (JObject ?reply) = Some bytes" by blast
  have "sv_active s1 = Some w" using quiet_fields(3) [OF log(2)] w by simp
  then have "\<exists>s2. route_callback_response X E ?p g s1 = (Inr (), s2) \<and>
      sv_log s2 = sv_log s1 @ [Sent t bytes] \<and> map_of (sv_callbacks s2) ?p = None"
    using route w(2) bytes send ok
    by (simp add: route_callback_response_def rewrite_id_def as_object_def g serialize_def send_worker_def
        send_handle_def catchO_def record_effect_def lookup_simps)
  then have "\<exists>s2 reply bytes. route_callback_response X E ?p g s1 = (Inr (), s2) \<and>
       map_of reply ''id'' = Some (request_id_to_json i) \<and> (\<forall>k. k \<noteq> ''id'' \<longrightarrow> map_of reply k = map_of gs k) \<and>
       x_to_vec X (JObject reply) = Some bytes \<and>
       sv_log s2 = sv_log s1 @ [Sent t bytes] \<and> map_of (sv_callbacks s2) ?p = None"
    using bytes by (auto simp: map_of_obj_insert intro!: exI [of _ ?reply])
  with fresh out route log(1) show ?thesis by (intro exI [of _ ?p] exI [of _ fs] exI [of _ out]) simp
qed

theorem callback_roundtrip_witness:
  "\<exists>p out s1. forward_callback host_extern calm_env 1 (IdNumber 2) (host_frame [13]) lone_host = (Inr (), s1) \<and>
     sv_log s1 = [WroteValue (JObject out)] \<and> map_of out ''id'' = Some (request_id_to_json p) \<and>
     map_of (sv_callbacks s1) p = Some \<lparr>cr_worker = 1, cr_original = IdNumber 2\<rparr>"
proof -
  obtain ms where ms: "fr_value (host_frame [13]) = JObject ms"
  proof -
    have "as_object (fr_value (host_frame [13])) \<noteq> None" by code_simp
    with that show thesis by (auto simp: as_object_def split: json.splits)
  qed
  obtain s1 where "forward_callback host_extern calm_env 1 (IdNumber 2) (host_frame [13]) lone_host = (Inr (), s1)"
    by (simp add: forward_callback_def next_callback_id_def lone_host_def new_supervisor_def ms as_object_def
        rewrite_id_def write_value_def serialize_def emit_def sample_config_def calm_env_def
        checked_add_def host_to_vec host_bytes_ok)
  moreover have "active_token lone_host = Some 1" by (simp add: lone_host_def active_token_def)
  moreover have "e_send calm_env (sv_calls s1)" by (simp add: calm_env_def)
  moreover have "sv_log lone_host = []" by (simp add: lone_host_def new_supervisor_def)
  ultimately show ?thesis
    using callback_roundtrip [OF lone_host_inv, of 1 calm_env "IdNumber 2" "host_frame [13]" s1 "host_frame [13]" ms]
    by (auto simp: ms host_to_vec)
qed

section \<open>A session that cannot recover\<close>

text \<open>
  C15. A pinned or checkpointed session does not recover onto an unchanged catalog: when, with
  no invocation in flight, the recovery candidate has answered with a catalog whose bytes
  equal the published one's, the candidate is rejected, and the host is left without a worker
  for ever. Whatever happens afterwards, under any environment, no worker is started and
  nothing is sent to one; the host only takes frames from the client. (A candidate with a
  changed catalog is outside this property: the host then waits for the client to refresh,
  and the deadline of that wait starts another recovery.)
\<close>

theorem pinned_session_never_recovers:
  assumes inv: "sup_inv X s" and c: "sv_candidate s = Some c" "cd_purpose c = Recovery"
    and pinned: "sj_pinned (sv_journal s) \<or> sj_checkpointed (sv_journal s)"
    and same: "same_catalog X (sv_published s) cat = Inr True" and quiet: "\<not> has_in_flight (sv_kernel s)"
  shows "\<exists>s1. on_candidate_ready X E cat s = (Inr (), s1) \<and> wedged s1 \<and>
    (\<forall>E' evs. wedged (snd (event_loop X E' evs s1)) \<and>
      (\<exists>l. sv_log (snd (event_loop X E' evs s1)) = sv_log s1 @ l \<and> list_all to_client l))"
proof -
  let ?s = "set_candidate_deadline None (s\<lparr>sv_phase := Draining\<rparr>)"
  have inv': "sup_inv X ?s" by (rule deadline_inv [OF set_phase_inv [OF inv]]) simp
  have c': "sv_candidate ?s = Some (c\<lparr>cd_deadline := None\<rparr>)" using c by (simp add: set_candidate_deadline_def)
  have rec: "cd_purpose (c\<lparr>cd_deadline := None\<rparr>) = Recovery" using c by simp
  have ph: "sv_phase ?s = Draining" by (simp add: set_candidate_deadline_def)
  from reject_recovery_wedges [OF inv' c' rec, of E] ph
  obtain s1 where s1: "reject_candidate X E ?s = (Inr (), s1)" "wedged s1" by blast
  have none: "active_callbacks ?s = 0"
    using reject_recovery(2) [OF inv' c' rec] by (simp add: active_callbacks_def active_token_def)
  have "on_candidate_ready X E cat s = (Inr (), s1)"
    using same pinned quiet s1(1) none
    by (simp add: on_candidate_ready_def try_begin_restore_def set_candidate_deadline_def)
  moreover have "inert s1 s1" using s1(2) by (simp add: inert_def)
  then have "inert s1 (snd (event_loop X E' evs s1))" for E' evs
    using event_loop_inert leavesD by metis
  ultimately show ?thesis using s1(2) unfolding inert_def by blast
qed

theorem pinned_session_never_recovers_witness:
  "\<exists>s s1. sup_inv host_extern s \<and> on_candidate_ready host_extern calm_env sample_catalog s = (Inr (), s1) \<and>
     (\<forall>E evs. wedged (snd (event_loop host_extern E evs s1)))"
proof -
  obtain r s where run: "start host_extern calm_env sample_config (take 9 pinned_session)
      (new_supervisor sample_config) = (r, s)" by fastforce
  note o = candidate_run [OF run]
  then have "sup_inv host_extern s" using start_inv run by blast
  with pinned_session_never_recovers [of host_extern s _ sample_catalog calm_env] o show ?thesis by blast
qed

end
