(* ===== verification/Render.thy ===== *)
theory Render
  imports Json Normalize Release
begin

text \<open>
  Model-facing rendering (\<open>render.rs\<close>): configuration and its defaults, whitespace and
  truncation, paths, the schema controls, and the porcelain encoding of a JSON value.

  Text is UTF-8; \<open>chars\<close> reads it as code points. The property Alphabetic of a code point
  is a table of the Unicode standard, the argument \<open>alpha\<close>; \<open>is_control\<close> is written out.
  The compact JSON text of a value is the library's \<open>x_json_text\<close>.
\<close>

section \<open>Characters\<close>

definition continuation :: "char \<Rightarrow> bool" where
  "continuation c \<longleftrightarrow> 128 \<le> code c \<and> code c < 192"

fun char_chunks :: "string \<Rightarrow> string list" where
  "char_chunks [] = []"
| "char_chunks (c # cs) =
     (case char_chunks cs of
        [] \<Rightarrow> [[c]]
      | w # ws \<Rightarrow>
          if 128 \<le> code c \<and> continuation (hd w) then (c # w) # ws else [c] # w # ws)"

definition code_point :: "string \<Rightarrow> nat" where
  "code_point w = (case map code w of
      [a] \<Rightarrow> a
    | [a, b] \<Rightarrow> (a - 192) * 64 + (b - 128)
    | [a, b, c] \<Rightarrow> (a - 224) * 4096 + (b - 128) * 64 + (c - 128)
    | [a, b, c, d] \<Rightarrow> (a - 240) * 262144 + (b - 128) * 4096 + (c - 128) * 64 + (d - 128)
    | _ \<Rightarrow> 65533)"

definition chars :: "string \<Rightarrow> nat list" where
  "chars s = map code_point (char_chunks s)"

definition is_control :: "nat \<Rightarrow> bool" where
  "is_control c \<longleftrightarrow> c < 32 \<or> 127 \<le> c \<and> c \<le> 159"

definition line_separator :: "nat \<Rightarrow> bool" where
  "line_separator c \<longleftrightarrow> c = 8232 \<or> c = 8233"

section \<open>Configuration\<close>

text \<open>The deserialisers accept the spelling in snake case and the declared aliases.\<close>

datatype render_mode = Porcelain | JsonMode
datatype detail_level = Concise | Full
datatype path_style = Absolute | Relative

definition render_mode_of :: "string \<Rightarrow> render_mode option" where
  "render_mode_of t =
     (if t \<in> {''porcelain'', ''text'', ''plain'', ''plain_text''} then Some Porcelain
      else if t \<in> {''json'', ''structured''} then Some JsonMode else None)"

definition detail_level_of :: "string \<Rightarrow> detail_level option" where
  "detail_level_of t =
     (if t \<in> {''concise'', ''summary'', ''compact''} then Some Concise
      else if t \<in> {''full'', ''verbose'', ''detailed''} then Some Full else None)"

definition path_style_of :: "string \<Rightarrow> path_style option" where
  "path_style_of t =
     (if t = ''absolute'' then Some Absolute
      else if t \<in> {''relative'', ''rel''} then Some Relative else None)"

record render_config =
  rc_render :: render_mode
  rc_detail :: detail_level
  rc_path_style :: path_style

definition unwrap_or :: "'a option \<Rightarrow> 'a \<Rightarrow> 'a" where
  "unwrap_or v d = (case v of Some a \<Rightarrow> a | None \<Rightarrow> d)"

definition from_user_input ::
    "render_mode option \<Rightarrow> path_style option \<Rightarrow> detail_level option \<Rightarrow> render_config" where
  "from_user_input mode style detail =
     (let render = unwrap_or mode Porcelain;
          default_path_style = (case render of Porcelain \<Rightarrow> Relative | JsonMode \<Rightarrow> Absolute)
      in \<lparr>rc_render = render, rc_detail = unwrap_or detail Concise,
          rc_path_style = unwrap_or style default_path_style\<rparr>)"

section \<open>Whitespace and truncation\<close>

function words_from :: "string \<Rightarrow> string \<Rightarrow> string list" where
  "words_from word s =
     (if s = [] then (if word = [] then [] else [rev word])
      else if ws_prefix s = 0 then words_from (hd s # word) (tl s)
      else (if word = [] then [] else [rev word]) @ words_from [] (drop (ws_prefix s) s))"
  by pat_completeness auto
termination
  by (relation "measure (\<lambda>(word, s). length s)") auto

declare words_from.simps [simp del]

fun join :: "string \<Rightarrow> string list \<Rightarrow> string" where
  "join sep [] = []"
| "join sep [w] = w"
| "join sep (w # v # ws) = w @ sep @ join sep (v # ws)"

definition collapse_inline_whitespace :: "string \<Rightarrow> string" where
  "collapse_inline_whitespace raw = join '' '' (words_from [] raw)"

record truncated_text =
  tt_text :: string
  tt_truncated :: bool

definition truncate_chars :: "string \<Rightarrow> nat option \<Rightarrow> truncated_text" where
  "truncate_chars raw limit =
     (case limit of
        None \<Rightarrow> \<lparr>tt_text = raw, tt_truncated = False\<rparr>
      | Some n \<Rightarrow>
          (let characters = char_chunks raw in
           if n < length characters
           then \<lparr>tt_text = concat (take n characters), tt_truncated = True\<rparr>
           else \<lparr>tt_text = raw, tt_truncated = False\<rparr>))"

section \<open>Paths\<close>

text \<open>
  \<open>Path::strip_prefix\<close> of the standard library on a Unix target: \<open>next_component\<close> is
  \<open>Components::next\<close> on the bytes not yet read (\<open>body\<close> is false before the first
  component), \<open>rest_as_path\<close> is \<open>Components::as_path\<close>, which keeps the bytes of what
  is left but for empty and \<open>.\<close> segments at its ends.
\<close>

definition split_front :: "string \<Rightarrow> string \<times> string" where
  "split_front s = (takeWhile (\<lambda>c. c \<noteq> CHR ''/'') s, tl (dropWhile (\<lambda>c. c \<noteq> CHR ''/'') s))"

definition skipped :: "string \<Rightarrow> bool" where
  "skipped seg \<longleftrightarrow> seg = [] \<or> seg = ''.''"

function trim_left :: "string \<Rightarrow> string" where
  "trim_left s = (if s \<noteq> [] \<and> skipped (fst (split_front s)) then trim_left (snd (split_front s)) else s)"
  by pat_completeness auto
termination
proof (relation "measure length")
  fix s :: string
  assume s: "s \<noteq> [] \<and> skipped (fst (split_front s))"
  have "length (dropWhile (\<lambda>c. c \<noteq> CHR ''/'') s) \<le> length s" by (rule length_dropWhile_le)
  with s show "(snd (split_front s), s) \<in> measure length"
    by (cases s) (auto simp: split_front_def intro: le_less_trans [OF diff_le_self])
qed simp

declare trim_left.simps [simp del]

definition trim_right :: "string \<Rightarrow> string" where
  "trim_right s = rev (trim_left (rev s))"

definition has_root :: "string \<Rightarrow> bool" where
  "has_root s \<longleftrightarrow> take 1 s = ''/''"

definition include_cur_dir :: "string \<Rightarrow> bool" where
  "include_cur_dir s \<longleftrightarrow> s = ''.'' \<or> take 2 s = ''./''"

definition next_component :: "bool \<Rightarrow> string \<Rightarrow> (component \<times> string) option" where
  "next_component body s =
     (if \<not> body \<and> has_root s then Some (RootDir, drop 1 s)
      else if \<not> body \<and> include_cur_dir s then Some (CurDir, drop 1 s)
      else let t = trim_left s in
        if t = [] then None
        else let (seg, rest) = split_front t in
          Some (if seg = ''..'' then ParentDir else Normal seg, rest))"

definition rest_as_path :: "bool \<Rightarrow> string \<Rightarrow> string" where
  "rest_as_path body s =
     (if body then trim_right (trim_left s)
      else if has_root s then ''/'' @ trim_right (drop 1 s)
      else if include_cur_dir s then ''.'' @ trim_right (drop 1 s)
      else trim_right s)"

fun strip_components :: "bool \<Rightarrow> string \<Rightarrow> component list \<Rightarrow> string option" where
  "strip_components body s [] = Some (rest_as_path body s)"
| "strip_components body s (c # cs) =
     (case next_component body s of
        None \<Rightarrow> None
      | Some (d, rest) \<Rightarrow> if d = c then strip_components True rest cs else None)"

definition strip_prefix :: "string \<Rightarrow> string \<Rightarrow> string option" where
  "strip_prefix base p = strip_components False p (path_of base)"

definition render_path :: "string \<Rightarrow> path_style \<Rightarrow> string option \<Rightarrow> string" where
  "render_path p style workspace_root =
     (case style of
        Absolute \<Rightarrow> p
      | Relative \<Rightarrow>
          (case Option.bind workspace_root (\<lambda>root. strip_prefix root p) of
             Some relative \<Rightarrow> relative
           | None \<Rightarrow> p))"

section \<open>Schema controls\<close>

definition with_control :: "'n json \<Rightarrow> string \<Rightarrow> 'n json \<Rightarrow> 'n json" where
  "with_control schema name control =
     (case schema of
        JObject object \<Rightarrow>
          (let o1 = obj_entry_or ''properties'' (JObject []) object;
               o2 = (case map_of o1 ''properties'' of
                       Some (JObject ps) \<Rightarrow> obj_insert ''properties'' (JObject (obj_entry_or name control ps)) o1
                     | _ \<Rightarrow> o1)
           in JObject (obj_entry_or ''additionalProperties'' (JBool False) o2))
      | _ \<Rightarrow> schema)"

definition render_property_schema :: "'n json" where
  "render_property_schema = JObject
     [(''default'', JString ''porcelain''), (''description'', JString ''Encoding only; defaults to porcelain.''),
      (''enum'', JArray [JString ''porcelain'', JString ''json'']), (''type'', JString ''string'')]"

definition detail_property_schema :: "'n json" where
  "detail_property_schema = JObject
     [(''default'', JString ''concise''),
      (''description'', JString ''Selected content: concise (default) or full. Independent of render.''),
      (''enum'', JArray [JString ''concise'', JString ''full'']), (''type'', JString ''string'')]"

definition with_render_property :: "'n json \<Rightarrow> 'n json" where
  "with_render_property schema = with_control schema ''render'' render_property_schema"

definition with_presentation_properties :: "'n json \<Rightarrow> 'n json" where
  "with_presentation_properties schema =
     with_control (with_render_property schema) ''detail'' detail_property_schema"

section \<open>Scalars\<close>

definition reserved_words :: "string list" where
  "reserved_words = [''null'', ''true'', ''false'', ''yes'', ''no'', ''on'', ''off'', ''y'', ''n'']"

definition special_char :: "nat \<Rightarrow> bool" where
  "special_char c \<longleftrightarrow> c \<in> {58, 91, 93, 123, 125, 124, 34, 39, 92, 35} \<or> line_separator c"

fun replace_all :: "string \<Rightarrow> string \<Rightarrow> string \<Rightarrow> string" where
  "replace_all pat rep [] = []"
| "replace_all pat rep (c # cs) =
     (if pat \<noteq> [] \<and> take (length pat) (c # cs) = pat
      then rep @ replace_all pat rep (drop (length pat - 1) cs)
      else c # replace_all pat rep cs)"

definition bytes_text :: "nat list \<Rightarrow> string" where
  "bytes_text bs = map char_of bs"

definition escape_separators :: "string \<Rightarrow> string" where
  "escape_separators t =
     replace_all (bytes_text [226, 128, 169]) (CHR 0x5C # ''u2029'')
       (replace_all (bytes_text [226, 128, 168]) (CHR 0x5C # ''u2028'')
         (replace_all (bytes_text [194, 133]) (CHR 0x5C # ''u0085'') t))"

definition plain_text :: "(nat \<Rightarrow> bool) \<Rightarrow> string \<Rightarrow> bool" where
  "plain_text alpha text \<longleftrightarrow>
     (case chars text of [] \<Rightarrow> False | c # _ \<Rightarrow> alpha c \<or> c = 95) \<and>
     trim text = text \<and>
     \<not> list_ex (\<lambda>c. is_control c \<or> special_char c) (chars text) \<and>
     map to_ascii_lowercase text \<notin> set reserved_words"

definition render_string :: "'n extern \<Rightarrow> (nat \<Rightarrow> bool) \<Rightarrow> string \<Rightarrow> string" where
  "render_string X alpha text =
     (if plain_text alpha text then text else escape_separators (x_json_text X (JString text)))"

definition render_scalar :: "'n extern \<Rightarrow> (nat \<Rightarrow> bool) \<Rightarrow> 'n json \<Rightarrow> string" where
  "render_scalar X alpha v = (case v of JString t \<Rightarrow> render_string X alpha t | _ \<Rightarrow> x_json_text X v)"

section \<open>Values\<close>

abbreviation newline_char :: char where
  "newline_char \<equiv> CHR 0x0A"

fun split_terminator :: "string \<Rightarrow> string list" where
  "split_terminator [] = []"
| "split_terminator (c # cs) =
     (if c = newline_char then [] # split_terminator cs
      else case split_terminator cs of [] \<Rightarrow> [[c]] | l # ls \<Rightarrow> (c # l) # ls)"

definition block_text :: "string \<Rightarrow> bool" where
  "block_text text \<longleftrightarrow> newline_char \<in> set text \<and>
     \<not> list_ex (\<lambda>c. is_control c \<and> c \<noteq> 10 \<and> c \<noteq> 9 \<or> line_separator c) (chars text)"

definition ends_with :: "string \<Rightarrow> string \<Rightarrow> bool" where
  "ends_with e s \<longleftrightarrow> length e \<le> length s \<and> drop (length s - length e) s = e"

definition chomping :: "string \<Rightarrow> string" where
  "chomping text =
     (if ends_with [newline_char, newline_char] text \<or> text = [newline_char] then ''+''
      else if ends_with [newline_char] text then [] else ''-'')"

definition scalar_cell :: "'n extern \<Rightarrow> (nat \<Rightarrow> bool) \<Rightarrow> 'n json \<Rightarrow> bool" where
  "scalar_cell X alpha v \<longleftrightarrow> as_array v = None \<and> as_object v = None \<and>
     length (chars (render_scalar X alpha v)) \<le> 96"

definition table_row :: "'n extern \<Rightarrow> (nat \<Rightarrow> bool) \<Rightarrow> string list \<Rightarrow> 'n json \<Rightarrow> bool" where
  "table_row X alpha keys item = (case as_object item of
     None \<Rightarrow> False
   | Some row \<Rightarrow> map fst row = keys \<and> list_all (scalar_cell X alpha \<circ> snd) row)"

definition table_keys :: "'n extern \<Rightarrow> (nat \<Rightarrow> bool) \<Rightarrow> 'n json list \<Rightarrow> string list option" where
  "table_keys X alpha items =
     (case items of
        [] \<Rightarrow> None
      | item # _ \<Rightarrow>
          (case as_object item of
             None \<Rightarrow> None
           | Some first \<Rightarrow>
               if length items < 2 \<or> first = [] \<or> length first > 12 then None
               else if list_all (table_row X alpha (map fst first)) items then Some (map fst first)
               else None))"

definition indent_of :: "nat \<Rightarrow> string" where
  "indent_of depth = concat (replicate depth ''  '')"

definition table_line :: "'n extern \<Rightarrow> (nat \<Rightarrow> bool) \<Rightarrow> string \<Rightarrow> string list \<Rightarrow> 'n json \<Rightarrow> string" where
  "table_line X alpha indent keys item =
     indent @ ''  '' @ join '' | '' (map (\<lambda>key. render_scalar X alpha
       (case get_member item key of Some v \<Rightarrow> v | None \<Rightarrow> JNull)) keys)"

definition table_lines :: "'n extern \<Rightarrow> (nat \<Rightarrow> bool) \<Rightarrow> nat \<Rightarrow> string \<Rightarrow> string list \<Rightarrow> 'n json list \<Rightarrow> string list" where
  "table_lines X alpha depth lead keys items =
     (lead @ ''table['' @ show_nat (length items) @ '']: '' @ join '' | '' (map (render_string X alpha) keys)) #
     map (table_line X alpha (indent_of depth) keys) items"

definition block_lines :: "nat \<Rightarrow> string \<Rightarrow> string \<Rightarrow> string list" where
  "block_lines depth lead text =
     (lead @ ''|2'' @ chomping text) # map (\<lambda>l. indent_of depth @ ''  '' @ l) (split_terminator text)"

definition header_line :: "string \<Rightarrow> string \<Rightarrow> string list" where
  "header_line label lead = (if label = [] then [] else [trim_end lead])"

definition inner_depth :: "string \<Rightarrow> nat \<Rightarrow> nat" where
  "inner_depth label depth = (if label = [] then depth else depth + 1)"

fun render_value :: "'n extern \<Rightarrow> (nat \<Rightarrow> bool) \<Rightarrow> 'n json \<Rightarrow> nat \<Rightarrow> string \<Rightarrow> string list"
  and render_fields :: "'n extern \<Rightarrow> (nat \<Rightarrow> bool) \<Rightarrow> 'n obj \<Rightarrow> nat \<Rightarrow> string list"
  and render_items :: "'n extern \<Rightarrow> (nat \<Rightarrow> bool) \<Rightarrow> 'n json list \<Rightarrow> nat \<Rightarrow> string list"
where
  "render_value X alpha (JObject members) depth label =
     (if members = [] then [indent_of depth @ label @ render_scalar X alpha (JObject members)]
      else header_line label (indent_of depth @ label) @ render_fields X alpha members (inner_depth label depth))"
| "render_value X alpha (JArray items) depth label =
     (if items = [] then [indent_of depth @ label @ render_scalar X alpha (JArray items)]
      else case table_keys X alpha items of
          Some keys \<Rightarrow> table_lines X alpha depth (indent_of depth @ label) keys items
        | None \<Rightarrow> header_line label (indent_of depth @ label) @ render_items X alpha items (inner_depth label depth))"
| "render_value X alpha (JString text) depth label =
     (if block_text text then block_lines depth (indent_of depth @ label) text
      else [indent_of depth @ label @ render_scalar X alpha (JString text)])"
| "render_value X alpha v depth label = [indent_of depth @ label @ render_scalar X alpha v]"
| "render_fields X alpha [] depth = []"
| "render_fields X alpha ((key, v) # members) depth =
     render_value X alpha v depth (render_string X alpha key @ '': '') @ render_fields X alpha members depth"
| "render_items X alpha [] depth = []"
| "render_items X alpha (v # items) depth =
     render_value X alpha v depth ''- '' @ render_items X alpha items depth"

definition render_json_porcelain :: "'n extern \<Rightarrow> (nat \<Rightarrow> bool) \<Rightarrow> 'n json \<Rightarrow> string" where
  "render_json_porcelain X alpha v = join [newline_char] (render_value X alpha v 0 [] @ [[]])"

section \<open>What the operations do\<close>

definition comps :: "string \<Rightarrow> component list" where
  "comps s = List.map_filter segment (split_slash s)"

lemma split_slash_front:
  "split_slash s = fst (split_front s) # (if CHR ''/'' \<in> set s then split_slash (snd (split_front s)) else [])"
  by (induction s) (auto simp: split_front_def split: list.splits)

lemma comps_front:
  "comps s = (case segment (fst (split_front s)) of None \<Rightarrow> [] | Some c \<Rightarrow> [c]) @ comps (snd (split_front s))"
proof (cases "CHR ''/'' \<in> set s")
  case True
  then show ?thesis
    unfolding comps_def by (subst split_slash_front) (simp add: List.map_filter_simps split: option.split)
next
  case False
  then have "dropWhile (\<lambda>c. c \<noteq> CHR ''/'') s = []" by (auto simp: dropWhile_eq_Nil_conv)
  then have "snd (split_front s) = []" unfolding split_front_def by (metis list.sel(2) snd_conv)
  with False show ?thesis
    unfolding comps_def
    by (subst split_slash_front) (simp add: List.map_filter_simps segment_def split: option.split)
qed

lemma comps_Nil [simp]: "comps [] = []"
  by (simp add: comps_def List.map_filter_simps segment_def)

lemma split_front_at: "CHR ''/'' \<notin> set u \<Longrightarrow> split_front (u @ CHR ''/'' # w) = (u, w)"
  by (induction u) (auto simp: split_front_def)

lemma split_front_none: "CHR ''/'' \<notin> set u \<Longrightarrow> split_front u = (u, [])"
  by (induction u) (auto simp: split_front_def)

lemma comps_slash: "comps (a @ CHR ''/'' # b) = comps a @ comps b"
proof (induction a rule: length_induct)
  case (1 a)
  show ?case
  proof (cases "CHR ''/'' \<in> set a")
    case True
    then obtain u v where a: "a = u @ CHR ''/'' # v" and u: "CHR ''/'' \<notin> set u"
      by (meson split_list_first)
    have "comps (v @ CHR ''/'' # b) = comps v @ comps b" using 1 a by simp
    then show ?thesis
      using comps_front [of "u @ CHR ''/'' # v"] comps_front [of "u @ CHR ''/'' # v @ CHR ''/'' # b"]
      by (simp add: a split_front_at [OF u])
  next
    case False
    show ?thesis
      using comps_front [of "a @ CHR ''/'' # b"] comps_front [of a]
      by (simp add: split_front_at [OF False] split_front_none [OF False])
  qed
qed

lemma split_front_cat:
  "s = fst (split_front s) \<and> snd (split_front s) = [] \<or> s = fst (split_front s) @ CHR ''/'' # snd (split_front s)"
  by (induction s) (auto simp: split_front_def)

lemma comps_skipped: "skipped seg \<Longrightarrow> comps seg = [] \<and> comps (rev seg) = []"
  by (auto simp: skipped_def comps_def List.map_filter_simps segment_def)

lemma trim_left_comps: "comps (trim_left s) = comps s \<and> comps (rev (trim_left s)) = comps (rev s)"
proof (induction s rule: trim_left.induct)
  case (1 s)
  show ?case
  proof (cases "s \<noteq> [] \<and> skipped (fst (split_front s))")
    case True
    note sk = comps_skipped [of "fst (split_front s)"]
    from split_front_cat [of s] show ?thesis
    proof
      assume s: "s = fst (split_front s) \<and> snd (split_front s) = []"
      then have "comps s = []" "comps (rev s) = []" using sk True by metis+
      with 1 [OF True] s True show ?thesis by (simp add: trim_left.simps [of s])
    next
      assume s: "s = fst (split_front s) @ CHR ''/'' # snd (split_front s)"
      then have r: "rev s = rev (snd (split_front s)) @ CHR ''/'' # rev (fst (split_front s))"
        by (metis append.assoc append_Cons append_Nil rev.simps(2) rev_append)
      have "comps s = comps (snd (split_front s))" "comps (rev s) = comps (rev (snd (split_front s)))"
        using comps_slash [of "fst (split_front s)" "snd (split_front s)"] s r sk True
          comps_slash [of "rev (snd (split_front s))" "rev (fst (split_front s))"] by simp_all
      with 1 [OF True] True show ?thesis by (simp add: trim_left.simps [of s])
    qed
  next
    case False
    then show ?thesis by (subst (1 2) trim_left.simps) auto
  qed
qed

lemma trim_right_comps: "comps (trim_right s) = comps s"
  using trim_left_comps [of "rev s"] by (simp add: trim_right_def)

lemma trim_left_segment: "trim_left s \<noteq> [] \<Longrightarrow> \<not> skipped (fst (split_front (trim_left s)))"
proof (induction s rule: trim_left.induct)
  case (1 s)
  then show ?case
    by (cases "s \<noteq> [] \<and> skipped (fst (split_front s))") (simp_all add: trim_left.simps [of s])
qed

lemma trim_left_cut: "trim_left s = s \<or> trim_left s = [] \<or> (\<exists>a. s = a @ CHR ''/'' # trim_left s)"
proof (induction s rule: trim_left.induct)
  case (1 s)
  show ?case
  proof (cases "s \<noteq> [] \<and> skipped (fst (split_front s))")
    case True
    then have t: "trim_left s = trim_left (snd (split_front s))" by (simp add: trim_left.simps [of s])
    have "s = fst (split_front s) \<and> snd (split_front s) = [] \<or>
        s = fst (split_front s) @ CHR ''/'' # snd (split_front s)" by (rule split_front_cat)
    with 1 [OF True] t show ?thesis
      by (metis append.assoc append_Cons trim_left.simps [of "[]"])
  next
    case False
    then show ?thesis by (subst (1) trim_left.simps) auto
  qed
qed

lemma trim_right_cut: "trim_right s = s \<or> trim_right s = [] \<or> (\<exists>a. s = trim_right s @ CHR ''/'' # a)"
proof -
  consider "trim_left (rev s) = rev s" | "trim_left (rev s) = []"
    | a where "rev s = a @ CHR ''/'' # trim_left (rev s)"
    using trim_left_cut [of "rev s"] by blast
  then show ?thesis
  proof cases
    case (3 a)
    then have "s = rev (trim_left (rev s)) @ CHR ''/'' # rev a"
      by (metis append.assoc append_Cons append_Nil rev.simps(2) rev_append rev_rev_ident)
    then show ?thesis by (auto simp: trim_right_def)
  qed (auto simp: trim_right_def)
qed

lemma path_of_comps:
  "path_of s = (if has_root s then [RootDir] else if include_cur_dir s then [CurDir] else []) @ comps s"
proof -
  have "hd (split_slash s) = fst (split_front s)" by (subst split_slash_front) simp
  moreover have "fst (split_front s) = ''.'' \<longleftrightarrow> include_cur_dir s"
    by (cases s; cases "tl s") (auto simp: split_front_def include_cur_dir_def)
  ultimately show ?thesis
    by (simp add: path_of_def comps_def Let_def has_root_def starts_with_def)
qed

text \<open>The bytes not yet read, as the components they hold.\<close>

definition remaining :: "bool \<Rightarrow> string \<Rightarrow> component list" where
  "remaining body s = (if body then comps s else path_of s)"

lemma segment_unskipped: "\<not> skipped seg \<Longrightarrow> segment seg = Some (if seg = ''..'' then ParentDir else Normal seg)"
  by (auto simp: skipped_def segment_def)

lemma comps_drop_lead: "has_root s \<or> include_cur_dir s \<Longrightarrow> comps (drop (Suc 0) s) = comps s"
proof -
  assume "has_root s \<or> include_cur_dir s"
  then consider t where "s = CHR ''/'' # t" | "s = ''.''" | t where "s = CHR ''.'' # CHR ''/'' # t"
    by (cases s; cases "tl s") (auto simp: has_root_def include_cur_dir_def)
  then show ?thesis
  proof cases
    case (1 t)
    then show ?thesis using comps_slash [of "[]" t] by simp
  next
    case (3 t)
    then show ?thesis
      using comps_slash [of "''.''" t] comps_slash [of "[]" t] comps_skipped [of "''.''"]
      by (simp add: skipped_def)
  qed (simp add: comps_skipped skipped_def)
qed

lemma next_component_comps:
  "(case next_component body s of None \<Rightarrow> remaining body s = []
    | Some (c, rest) \<Rightarrow> remaining body s = c # remaining True rest)"
proof -
  have body: "(case next_component True s of None \<Rightarrow> comps s = [] | Some (c, rest) \<Rightarrow> comps s = c # comps rest)" for s
  proof (cases "trim_left s = []")
    case True
    then have "comps s = []" using trim_left_comps [of s] by simp
    with True show ?thesis by (simp add: next_component_def)
  next
    case False
    then have "comps (trim_left s) = (if fst (split_front (trim_left s)) = ''..'' then ParentDir
        else Normal (fst (split_front (trim_left s)))) # comps (snd (split_front (trim_left s)))"
      by (subst comps_front) (simp add: segment_unskipped trim_left_segment)
    with False trim_left_comps [of s] show ?thesis
      by (simp add: next_component_def Let_def case_prod_beta)
  qed
  show ?thesis
  proof (cases "\<not> body \<and> (has_root s \<or> include_cur_dir s)")
    case True
    then show ?thesis
      by (auto simp: next_component_def remaining_def path_of_comps comps_drop_lead)
  next
    case False
    then have "next_component body s = next_component True s" "remaining body s = comps s"
      by (auto simp: next_component_def remaining_def path_of_comps)
    moreover have "remaining True r = comps r" for r by (simp add: remaining_def)
    ultimately show ?thesis using body [of s] by (auto split: option.splits)
  qed
qed

lemma path_of_body: "path_of (trim_right (trim_left s)) = comps s"
proof -
  let ?u = "trim_left s" and ?v = "trim_right (trim_left s)"
  have "?v = [] \<or> fst (split_front ?v) = fst (split_front ?u) \<and> ?u \<noteq> []"
    using trim_right_cut [of ?u]
  proof (elim disjE exE)
    fix a assume u: "?u = ?v @ CHR ''/'' # a"
    show ?thesis
    proof (cases "CHR ''/'' \<in> set ?v")
      case True
      then obtain x y where v: "?v = x @ CHR ''/'' # y" and x: "CHR ''/'' \<notin> set x"
        by (meson split_list_first)
      have "split_front ?u = (x, y @ CHR ''/'' # a)" "split_front ?v = (x, y)"
        using u v split_front_at [OF x] by (metis append.assoc append_Cons)+
      with u show ?thesis by (cases ?u) auto
    next
      case False
      have "split_front ?u = (?v, a)" using u split_front_at [OF False] by metis
      moreover have "split_front ?v = (?v, [])" by (rule split_front_none [OF False])
      ultimately show ?thesis using u by (cases ?u) auto
    qed
  qed auto
  then have "?v = [] \<or> \<not> skipped (fst (split_front ?v))"
    using trim_left_segment [of s] by metis
  then have "\<not> has_root ?v" "\<not> include_cur_dir ?v"
    by (cases ?v; cases "tl ?v";
        auto simp: skipped_def split_front_def has_root_def include_cur_dir_def)+
  then show ?thesis using trim_right_comps [of ?u] trim_left_comps [of s]
    by (simp add: path_of_comps)
qed

lemma has_root_trim: "path_of (CHR ''/'' # trim_right s) = RootDir # comps s"
  using comps_slash [of "[]" "trim_right s"] by (simp add: path_of_comps has_root_def trim_right_comps)

lemma rest_as_path_path: "path_of (rest_as_path body s) = remaining body s"
proof -
  have lead: "has_root (trim_right s) = has_root s \<and> include_cur_dir (trim_right s) = include_cur_dir s"
    if "\<not> has_root s" "\<not> include_cur_dir s"
  proof -
    have "\<not> has_root (trim_right s) \<and> \<not> include_cur_dir (trim_right s)"
      using trim_right_cut [of s]
    proof (elim disjE exE)
      fix a assume s: "s = trim_right s @ CHR ''/'' # a"
      show ?thesis
      proof (rule ccontr)
        assume "\<not> ?thesis"
        then have "has_root (trim_right s @ CHR ''/'' # a) \<or> include_cur_dir (trim_right s @ CHR ''/'' # a)"
          by (cases "trim_right s"; cases "tl (trim_right s)") (auto simp: has_root_def include_cur_dir_def)
        with s that show False by simp
      qed
    qed (use that in \<open>auto simp: has_root_def include_cur_dir_def\<close>)
    with that show ?thesis by simp
  qed
  have dot: "path_of (CHR ''.'' # trim_right (drop 1 s)) = CurDir # comps s" if "include_cur_dir s"
  proof -
    have c: "comps (trim_right (drop 1 s)) = comps s"
      using that by (simp add: trim_right_comps comps_drop_lead)
    have "s = ''.'' \<or> (\<exists>t. s = CHR ''.'' # CHR ''/'' # t)"
      using that by (cases s; cases "tl s") (auto simp: include_cur_dir_def)
    then consider "s = ''.''" | t where "s = CHR ''.'' # CHR ''/'' # t" by blast
    then show ?thesis
    proof cases
      case (2 t)
      have "trim_right (drop 1 s) = [] \<or> hd (trim_right (drop 1 s)) = CHR ''/''"
        using trim_right_cut [of "drop 1 s"] 2 by (cases "trim_right (drop 1 s)") auto
      then consider "trim_right (drop 1 s) = []" | u where "trim_right (drop 1 s) = CHR ''/'' # u"
        by (cases "trim_right (drop 1 s)") auto
      then show ?thesis
      proof cases
        case 1
        with c have "comps s = []" by simp
        with 1 show ?thesis
          by (simp add: path_of_comps has_root_def include_cur_dir_def comps_skipped skipped_def)
      next
        case u: (2 u)
        have "comps (CHR ''.'' # CHR ''/'' # u) = comps (CHR ''/'' # u)"
          using comps_drop_lead [of "CHR ''.'' # CHR ''/'' # u"] by (simp add: include_cur_dir_def)
        with c u show ?thesis by (simp add: path_of_comps has_root_def include_cur_dir_def)
      qed
    qed (simp add: path_of_comps has_root_def include_cur_dir_def comps_skipped skipped_def
        trim_right_def trim_left.simps)
  qed
  show ?thesis
  proof (cases body)
    case True
    then show ?thesis by (simp add: rest_as_path_def remaining_def path_of_body)
  next
    case False
    consider "has_root s" | "\<not> has_root s" "include_cur_dir s" | "\<not> has_root s" "\<not> include_cur_dir s" by blast
    then show ?thesis
    proof cases
      case 1
      with False show ?thesis
        using has_root_trim [of "drop 1 s"] comps_drop_lead [of s]
        by (simp add: rest_as_path_def remaining_def path_of_comps [of s])
    next
      case 2
      with False dot show ?thesis by (simp add: rest_as_path_def remaining_def path_of_comps [of s])
    next
      case 3
      with False lead show ?thesis
        by (simp add: rest_as_path_def remaining_def path_of_comps trim_right_comps)
    qed
  qed
qed

lemma strip_components_exact:
  "(case strip_components body s cs of
      Some r \<Rightarrow> remaining body s = cs @ path_of r
    | None \<Rightarrow> \<not> prefix cs (remaining body s))"
proof (induction body s cs rule: strip_components.induct)
  case (1 body s)
  show ?case by (simp add: rest_as_path_path)
next
  case (2 body s c cs)
  show ?case
  proof (cases "next_component body s")
    case None
    then show ?thesis using next_component_comps [of body s] by simp
  next
    case (Some p)
    then obtain d rest where p: "next_component body s = Some (d, rest)" by (cases p) auto
    then have r: "remaining body s = d # remaining True rest"
      using next_component_comps [of body s] by simp
    show ?thesis
    proof (cases "d = c")
      case True
      with 2 [OF p [THEN trans] refl] p r show ?thesis
        by (simp split: option.splits)
    qed (use p r in auto)
  qed
qed

text \<open>
  A relative path loses nothing: when the path lies under the workspace root, its
  components are those of the root followed by those of the text that is shown, whatever
  redundant separators or dots either is written with; otherwise, and in the absolute
  style, the path is shown as it is.
\<close>

theorem render_path_exact:
  "(case render_path p Relative (Some root) of t \<Rightarrow>
      if prefix (path_of root) (path_of p) then path_of p = path_of root @ path_of t else t = p) \<and>
   render_path p Absolute workspace = p \<and> render_path p Relative None = p"
  using strip_components_exact [where body = False and s = p and cs = "path_of root"]
  by (auto simp: render_path_def strip_prefix_def remaining_def split: option.splits)

end
