(* ===== verification/RenderRead.thy ===== *)
theory RenderRead
  imports Render Samples
begin

text \<open>
  A reader of the porcelain text and the proof that rendering loses nothing.

  The reader is the specification, not part of the crate: it reads the lines that
  \<open>Render.render_json_porcelain\<close> writes, given a reader \<open>rd\<close> of one JSON scalar at the
  front of a text. \<open>text_laws\<close> says what is used of the JSON library: its compact text of a
  scalar can be read back from the front of a line, starts like a JSON scalar and holds no
  line break, and a reader of JSON takes, inside a string, an escape for its character. That
  the escapes the crate itself puts into the text are the right ones is proved.
\<close>

section \<open>The reader\<close>

type_synonym 'n scalar_reader = "string \<Rightarrow> ('n json \<times> string) option"

definition json_lead :: "char \<Rightarrow> bool" where
  "json_lead c \<longleftrightarrow> is_ascii_digit c \<or> c \<in> {CHR 0x22, CHR ''['', CHR ''{'', CHR ''-''}"

definition word_json :: "string \<Rightarrow> 'n json" where
  "word_json w = (if w = ''null'' then JNull else if w = ''true'' then JBool True
     else if w = ''false'' then JBool False else JString w)"

definition read_scalar :: "'n scalar_reader \<Rightarrow> 'n scalar_reader" where
  "read_scalar rd s =
     (if s = [] then None
      else if json_lead (hd s) then rd s
      else let w = trim_end (takeWhile (\<lambda>c. c \<noteq> CHR '':'' \<and> c \<noteq> CHR ''|'') s)
        in Some (word_json w, drop (length w) s))"

fun read_cells :: "'n scalar_reader \<Rightarrow> nat \<Rightarrow> string \<Rightarrow> 'n json list option" where
  "read_cells rd 0 s = None"
| "read_cells rd (Suc k) s =
     (case read_scalar rd s of
        None \<Rightarrow> None
      | Some (v, rest) \<Rightarrow>
          if rest = [] then Some [v]
          else if starts_with '' | '' rest then map_option (Cons v) (read_cells rd k (drop 3 rest))
          else None)"

definition read_line :: "'n scalar_reader \<Rightarrow> string \<Rightarrow> 'n json list option" where
  "read_line rd s = read_cells rd (Suc (length s)) s"

definition unblock :: "string \<Rightarrow> string list \<Rightarrow> string" where
  "unblock chomp ls =
     (if chomp = ''-'' then join [newline_char] ls
      else if chomp = ''+'' then concat (map (\<lambda>l. l @ [newline_char]) ls)
      else join [newline_char] ls @ [newline_char])"

definition read_table :: "'n scalar_reader \<Rightarrow> nat \<Rightarrow> string \<Rightarrow> string list \<Rightarrow> ('n json \<times> string list) option" where
  "read_table rd depth line ls =
     (let ds = takeWhile is_ascii_digit (drop 6 line);
          n = digits_value ds;
          head = drop (length ds + 9) line
      in case Option.bind (read_line rd head) (\<lambda>ks. those (map as_str ks)) of
           None \<Rightarrow> None
         | Some keys \<Rightarrow>
             (case those (map (\<lambda>l. read_line rd (drop (2 * Suc depth) l)) (take n ls)) of
                None \<Rightarrow> None
              | Some rows \<Rightarrow> Some (JArray (map (\<lambda>row. JObject (zip keys row)) rows), drop n ls)))"

definition is_item :: "string \<Rightarrow> bool" where
  "is_item l \<longleftrightarrow> l = ''-'' \<or> starts_with ''- '' l"

text \<open>
  Members and items are read with the reader \<open>rv\<close> of one value at their depth (inline text
  after the label, lines that follow); \<open>read_value\<close> passes itself with less fuel.
\<close>

primrec read_fields :: "'n scalar_reader \<Rightarrow> (string \<Rightarrow> string list \<Rightarrow> ('n json \<times> string list) option) \<Rightarrow>
    nat \<Rightarrow> nat \<Rightarrow> string list \<Rightarrow> ('n obj \<times> string list) option" where
  "read_fields rd rv depth 0 ls = None"
| "read_fields rd rv depth (Suc k) ls =
     (if ls = [] \<or> \<not> starts_with (indent_of depth) (hd ls) then Some ([], ls)
      else case read_scalar rd (drop (2 * depth) (hd ls)) of
          Some (JString key, rest) \<Rightarrow>
            (case rv (drop 2 rest) (tl ls) of
               None \<Rightarrow> None
             | Some (v, ls') \<Rightarrow>
                 map_option (\<lambda>(ms, r). ((key, v) # ms, r)) (read_fields rd rv depth k ls'))
        | _ \<Rightarrow> None)"

primrec read_items :: "(string \<Rightarrow> string list \<Rightarrow> ('n json \<times> string list) option) \<Rightarrow>
    nat \<Rightarrow> nat \<Rightarrow> string list \<Rightarrow> ('n json list \<times> string list) option" where
  "read_items rv depth 0 ls = None"
| "read_items rv depth (Suc k) ls =
     (if ls = [] \<or> \<not> starts_with (indent_of depth) (hd ls) then Some ([], ls)
      else case rv (drop (2 * depth + 2) (hd ls)) (tl ls) of
          None \<Rightarrow> None
        | Some (v, ls') \<Rightarrow> map_option (\<lambda>(vs, r). (v # vs, r)) (read_items rv depth k ls'))"

definition read_children :: "'n scalar_reader \<Rightarrow> (string \<Rightarrow> string list \<Rightarrow> ('n json \<times> string list) option) \<Rightarrow>
    nat \<Rightarrow> string list \<Rightarrow> ('n json \<times> string list) option" where
  "read_children rd rv depth ls =
     (if ls \<noteq> [] \<and> is_item (drop (2 * depth) (hd ls))
      then map_option (\<lambda>(vs, r). (JArray vs, r)) (read_items rv depth (Suc (length ls)) ls)
      else map_option (\<lambda>(ms, r). (JObject ms, r)) (read_fields rd rv depth (Suc (length ls)) ls))"

definition read_inline :: "'n scalar_reader \<Rightarrow> nat \<Rightarrow> string \<Rightarrow> string list \<Rightarrow> ('n json \<times> string list) option" where
  "read_inline rd depth line ls =
     (if starts_with ''|2'' line then
        Some (JString (unblock (drop 2 line)
            (map (drop (2 * Suc depth)) (takeWhile (starts_with (indent_of (Suc depth))) ls))),
          dropWhile (starts_with (indent_of (Suc depth))) ls)
      else if starts_with ''table['' line then read_table rd depth line ls
      else (case read_scalar rd line of
          None \<Rightarrow> None | Some (v, rest) \<Rightarrow> if rest = [] then Some (v, ls) else None))"

primrec read_value :: "'n scalar_reader \<Rightarrow> nat \<Rightarrow> nat \<Rightarrow> string \<Rightarrow> string list \<Rightarrow> ('n json \<times> string list) option"
where
  "read_value rd 0 depth line ls = None"
| "read_value rd (Suc f) depth line ls =
     (if line = [] then read_children rd (read_value rd f (Suc depth)) (Suc depth) ls
      else read_inline rd depth line ls)"

definition read_porcelain :: "'n scalar_reader \<Rightarrow> string \<Rightarrow> 'n json option" where
  "read_porcelain rd s =
     (case split_terminator s of
        [] \<Rightarrow> None
      | l # ls \<Rightarrow>
          if \<not> is_item l \<and> read_inline rd 0 l ls \<noteq> None then map_option fst (read_inline rd 0 l ls)
          else map_option fst (read_children rd (read_value rd (Suc (length ls)) 0) 0 (l # ls)))"

section \<open>The JSON text of a scalar\<close>

definition delimited :: "string \<Rightarrow> bool" where
  "delimited u \<longleftrightarrow> u = [] \<or> hd u = CHR '':'' \<or> starts_with '' | '' u"

definition json_scalar :: "'n json \<Rightarrow> bool" where
  "json_scalar v \<longleftrightarrow> as_array v \<in> {None, Some []} \<and> as_object v \<in> {None, Some []}"

definition quoted :: "'n extern \<Rightarrow> 'n json \<Rightarrow> string" where
  "quoted X v = (if as_str v = None then x_json_text X v else escape_separators (x_json_text X v))"

text \<open>A character above ASCII in UTF-8, and as the escape a JSON string may have in its place.\<close>

definition utf8_bytes :: "nat \<Rightarrow> nat list" where
  "utf8_bytes n =
     (if n < 2048 then [192 + n div 64, 128 + n mod 64]
      else [224 + n div 4096, 128 + n div 64 mod 64, 128 + n mod 64])"

definition hex_digit :: "nat \<Rightarrow> char" where
  "hex_digit d = char_of (if d < 10 then 48 + d else 87 + d)"

definition unicode_escape :: "nat \<Rightarrow> string" where
  "unicode_escape n =
     [CHR 0x5C, CHR ''u'', hex_digit (n div 4096), hex_digit (n div 256 mod 16),
      hex_digit (n div 16 mod 16), hex_digit (n mod 16)]"

definition text_laws :: "'n extern \<Rightarrow> (nat \<Rightarrow> bool) \<Rightarrow> 'n scalar_reader \<Rightarrow> bool" where
  "text_laws X alpha rd \<longleftrightarrow>
     (\<forall>c < 128. alpha c \<longrightarrow> 65 \<le> c \<and> c \<le> 90 \<or> 97 \<le> c \<and> c \<le> 122) \<and>
     x_json_text X JNull = ''null'' \<and>
     (\<forall>b. x_json_text X (JBool b) = (if b then ''true'' else ''false'')) \<and>
     (\<forall>v. json_scalar v \<and> v \<noteq> JNull \<and> as_bool v = None \<longrightarrow>
        x_json_text X v \<noteq> [] \<and> json_lead (hd (x_json_text X v)) \<and> newline_char \<notin> set (x_json_text X v) \<and>
        \<not> is_item (x_json_text X v) \<and>
        (\<forall>u. delimited u \<longrightarrow> rd (x_json_text X v @ u) = Some (v, u))) \<and>
     (\<forall>t. hd (x_json_text X (JString t)) = CHR 0x22) \<and>
     (\<forall>n p q t u. 128 \<le> n \<and> n < 55296 \<and> p \<noteq> [] \<and> hd p = CHR 0x22 \<and>
        rd (p @ bytes_text (utf8_bytes n) @ q @ u) = Some (JString t, u) \<longrightarrow>
        rd (p @ unicode_escape n @ q @ u) = Some (JString t, u))"

section \<open>Characters and scalars\<close>

lemma char_chunks_hd: "s \<noteq> [] \<Longrightarrow> code (hd s) < 128 \<Longrightarrow> hd (char_chunks s) = [hd s]"
  by (cases s) (auto split: list.splits)

lemma char_chunks_Nil [simp]: "char_chunks s = [] \<longleftrightarrow> s = []"
  by (cases s) (auto split: list.splits)

lemma char_chunks_ascii: "c \<in> set s \<Longrightarrow> code c < 128 \<Longrightarrow> [c] \<in> set (char_chunks s)"
proof (induction s)
  case (Cons x s)
  then show ?case by (auto simp: continuation_def split: list.splits)
qed simp

lemma code_point_ascii [simp]: "code_point [c] = code c"
  by (simp add: code_point_def)

lemma chars_ascii: "c \<in> set s \<Longrightarrow> code c < 128 \<Longrightarrow> code c \<in> set (chars s)"
  unfolding chars_def using char_chunks_ascii [of c s] by (metis code_point_ascii image_eqI set_map)

lemma chars_hd: "s \<noteq> [] \<Longrightarrow> code (hd s) < 128 \<Longrightarrow> \<exists>cs. chars s = code (hd s) # cs"
  unfolding chars_def using char_chunks_hd [of s] by (cases "char_chunks s") auto

lemma trim_end_length: "length (trim_end s) \<le> length s"
  using strip_with_length [of ws_suffix "rev s"] by (simp add: trim_end_def)

lemma trim_end_of_trim: "trim s = s \<Longrightarrow> trim_end s = s"
proof -
  assume t: "trim s = s"
  have "length s \<le> length (trim_start s)" using trim_end_length [of "trim_start s"] t by (simp add: trim_def)
  moreover obtain p where "s = p @ trim_start s"
    using strip_with_suffix [of s ws_prefix] by (auto simp: trim_start_def)
  ultimately have "p = []" by (metis add_le_same_cancel2 length_append le_zero_eq length_0_conv)
  with \<open>s = p @ trim_start s\<close> have "trim_start s = s" by simp
  with t show ?thesis by (simp add: trim_def)
qed

lemma trim_end_blank: "trim_end (s @ '' '') = trim_end s"
  unfolding trim_end_def
  by (subst strip_with.simps) (simp add: ws_suffix_def ws_ascii_def)

lemma trim_end_graphic: "s \<noteq> [] \<Longrightarrow> 33 \<le> code (last s) \<Longrightarrow> code (last s) < 128 \<Longrightarrow> trim_end s = s"
  unfolding trim_end_def
  by (cases s rule: rev_cases; subst strip_with.simps) (auto simp: ws_suffix_ascii)

definition alpha_law :: "(nat \<Rightarrow> bool) \<Rightarrow> bool" where
  "alpha_law alpha \<longleftrightarrow> (\<forall>c < 128. alpha c \<longrightarrow> 65 \<le> c \<and> c \<le> 90 \<or> 97 \<le> c \<and> c \<le> 122)"

lemma plain_facts:
  assumes "plain_text alpha t" and "alpha_law alpha"
  shows "t \<noteq> []" "\<not> json_lead (hd t)" "hd t \<noteq> CHR '' ''" "CHR '':'' \<notin> set t" "CHR ''|'' \<notin> set t"
    "CHR ''['' \<notin> set t" "newline_char \<notin> set t" "trim_end t = t" "word_json t = JString t"
proof -
  have ne: "t \<noteq> []" using assms(1) by (auto simp: plain_text_def chars_def)
  have ban: "c \<notin> set t" if "code c < 128" "is_control (code c) \<or> special_char (code c)" for c
    using assms(1) chars_ascii [of c t] that by (auto simp: plain_text_def list_ex_iff)
  have lead: "65 \<le> code (hd t) \<and> code (hd t) \<le> 122 \<and> code (hd t) \<noteq> 91 \<and> code (hd t) \<noteq> 92"
    if "code (hd t) < 128"
    using chars_hd [OF ne that] assms that unfolding plain_text_def alpha_law_def by fastforce
  show "t \<noteq> []" by (rule ne)
  show "\<not> json_lead (hd t)" "hd t \<noteq> CHR '' ''"
    using lead by (auto simp: json_lead_def is_ascii_digit_def)
  show "CHR '':'' \<notin> set t" "CHR ''|'' \<notin> set t" "CHR ''['' \<notin> set t" "newline_char \<notin> set t"
    by (rule ban; simp add: special_char_def is_control_def)+
  show "trim_end t = t" using assms(1) trim_end_of_trim by (simp add: plain_text_def)
  have low: "map to_ascii_lowercase w = w" if "w \<in> {''null'', ''true'', ''false''}" for w
    using that by (auto simp: to_ascii_lowercase_def is_ascii_uppercase_def)
  have "map to_ascii_lowercase t \<notin> set reserved_words" using assms(1) by (simp add: plain_text_def)
  then show "word_json t = JString t"
    using low [of t] by (auto simp: word_json_def reserved_words_def)
qed

lemma takeWhile_word:
  assumes "CHR '':'' \<notin> set t" "CHR ''|'' \<notin> set t" "trim_end t = t" "delimited u"
  shows "trim_end (takeWhile (\<lambda>c. c \<noteq> CHR '':'' \<and> c \<noteq> CHR ''|'') (t @ u)) = t"
proof -
  have t: "takeWhile (\<lambda>c. c \<noteq> CHR '':'' \<and> c \<noteq> CHR ''|'') (t @ w) =
      t @ takeWhile (\<lambda>c. c \<noteq> CHR '':'' \<and> c \<noteq> CHR ''|'') w" for w
    using assms(1,2) by (induction t) auto
  have t0: "takeWhile (\<lambda>c. c \<noteq> CHR '':'' \<and> c \<noteq> CHR ''|'') t = t"
    using t [of "[]"] unfolding takeWhile.simps append_Nil2 .
  consider "u = []" | w where "u = CHR '':'' # w" | w where "u = '' | '' @ w"
    using assms(4) unfolding delimited_def starts_with_def
    by (metis append_take_drop_id list.collapse)
  then show ?thesis
    by cases (use assms(3) trim_end_blank [of t] in \<open>simp_all add: t t0\<close>)
qed

lemma read_word:
  assumes "t \<noteq> []" "\<not> json_lead (hd t)" "CHR '':'' \<notin> set t" "CHR ''|'' \<notin> set t" "trim_end t = t"
    "delimited u"
  shows "read_scalar rd (t @ u) = Some (word_json t, u)"
  using assms takeWhile_word [OF assms(3-6)] by (simp add: read_scalar_def Let_def)

lemma trim_words: "trim_end ''null'' = ''null''" "trim_end ''true'' = ''true''" "trim_end ''false'' = ''false''"
  by (simp_all add: trim_end_graphic)

lemma code_hex_digit: "d < 16 \<Longrightarrow> code (hex_digit d) = (if d < 10 then 48 + d else 87 + d)"
  by (simp add: hex_digit_def)

lemma char_eqI: "code a = code b \<Longrightarrow> a = b"
  by simp

lemma unicode_escape_codes: "n < 65536 \<Longrightarrow> c \<in> set (unicode_escape n) \<Longrightarrow> 48 \<le> code c"
  by (auto simp: unicode_escape_def code_hex_digit less_mult_imp_div_less)

lemma utf8_codes:
  assumes "128 \<le> n" "n < 55296"
  shows "\<forall>c\<in>set (bytes_text (utf8_bytes n)). 128 \<le> code c" "bytes_text (utf8_bytes n) \<noteq> []"
proof -
  have "224 + n div 4096 < 256" "n < 2048 \<Longrightarrow> 192 + n div 64 < 256"
    using assms by (simp_all add: less_mult_imp_div_less)
  then show "\<forall>c\<in>set (bytes_text (utf8_bytes n)). 128 \<le> code c" "bytes_text (utf8_bytes n) \<noteq> []"
    by (auto simp: bytes_text_def utf8_bytes_def)
qed

text \<open>The crate's replacements put the escape of each separator in its place.\<close>

lemma separator_escapes:
  "escape_separators t =
     replace_all (bytes_text (utf8_bytes 0x2029)) (unicode_escape 0x2029)
       (replace_all (bytes_text (utf8_bytes 0x2028)) (unicode_escape 0x2028)
         (replace_all (bytes_text (utf8_bytes 0x85)) (unicode_escape 0x85) t))"
proof -
  have "CHR 0x5C # ''u0085'' = unicode_escape 0x85" "CHR 0x5C # ''u2028'' = unicode_escape 0x2028"
    "CHR 0x5C # ''u2029'' = unicode_escape 0x2029"
    by (auto intro!: char_eqI simp: unicode_escape_def code_hex_digit)
  moreover have "[194, 133] = utf8_bytes 0x85" "[226, 128, 168] = utf8_bytes 0x2028" "[226, 128, 169] = utf8_bytes 0x2029"
    by (simp_all add: utf8_bytes_def)
  ultimately show ?thesis by (simp only: escape_separators_def)
qed

lemma replace_all_set: "set (replace_all pat rep s) \<subseteq> set rep \<union> set s"
  by (induction pat rep s rule: replace_all.induct) (auto dest!: subsetD in_set_dropD)

lemma replace_all_read:
  assumes law: "\<And>p q. p \<noteq> [] \<Longrightarrow> hd p = CHR 0x22 \<Longrightarrow> rd (p @ pat @ q @ u) = Some (v, u) \<Longrightarrow>
      rd (p @ rep @ q @ u) = Some (v, u)"
  shows "p \<noteq> [] \<Longrightarrow> hd p = CHR 0x22 \<Longrightarrow> rd (p @ s @ u) = Some (v, u) \<Longrightarrow>
     rd (p @ replace_all pat rep s @ u) = Some (v, u)"
  using law
proof (induction pat rep s arbitrary: p rule: replace_all.induct)
  case (2 pat rep c cs)
  show ?case
  proof (cases "pat \<noteq> [] \<and> take (length pat) (c # cs) = pat")
    case True
    let ?r = "drop (length pat - 1) cs"
    have d: "drop (length pat) (c # cs) = ?r" using True by (cases pat) simp_all
    have cut: "c # cs = pat @ ?r"
      using append_take_drop_id [of "length pat" "c # cs"] unfolding d conjunct2 [OF True] by simp
    have "rd (p @ pat @ ?r @ u) = Some (v, u)" using "2.prems"(3) unfolding cut by simp
    from "2.prems"(4) [OF "2.prems"(1,2) this] have on: "rd ((p @ rep) @ ?r @ u) = Some (v, u)" by simp
    have "rd ((p @ rep) @ replace_all pat rep ?r @ u) = Some (v, u)"
      by (rule "2.IH"(1) [OF True _ _ on "2.prems"(4)]) (use "2.prems"(1,2) in simp_all)
    moreover have "replace_all pat rep (c # cs) = rep @ replace_all pat rep ?r" using True by simp
    ultimately show ?thesis by (simp only: append.assoc)
  next
    case False
    have on: "rd ((p @ [c]) @ cs @ u) = Some (v, u)" using "2.prems"(3) by simp
    have "rd ((p @ [c]) @ replace_all pat rep cs @ u) = Some (v, u)"
      by (rule "2.IH"(2) [OF False _ _ on "2.prems"(4)]) (use "2.prems"(1,2) in simp_all)
    moreover have "replace_all pat rep (c # cs) = c # replace_all pat rep cs"
      using False by (simp only: replace_all.simps if_False)
    ultimately show ?thesis by simp
  qed
qed simp

lemma replace_all_hd: "s \<noteq> [] \<Longrightarrow> pat \<noteq> [] \<Longrightarrow> hd pat \<noteq> hd s \<Longrightarrow>
    replace_all pat rep s = hd s # replace_all pat rep (tl s)"
  by (cases s; cases pat) auto

text \<open>One replacement keeps the text of a string one that reads as that string.\<close>

definition string_text :: "'n scalar_reader \<Rightarrow> string \<Rightarrow> string \<Rightarrow> bool" where
  "string_text rd t s \<longleftrightarrow> s \<noteq> [] \<and> hd s = CHR 0x22 \<and> newline_char \<notin> set s \<and>
     (\<forall>u. delimited u \<longrightarrow> rd (s @ u) = Some (JString t, u))"

lemma escaped_text:
  assumes "text_laws X alpha rd" and "string_text rd t s" and n: "128 \<le> n" "n < 55296"
  shows "string_text rd t (replace_all (bytes_text (utf8_bytes n)) (unicode_escape n) s)"
proof -
  let ?pat = "bytes_text (utf8_bytes n)"
  have law: "rd (p @ unicode_escape n @ q @ u) = Some (JString t, u)"
    if "p \<noteq> []" "hd p = CHR 0x22" "rd (p @ ?pat @ q @ u) = Some (JString t, u)" for p q u
    using assms(1) n that unfolding text_laws_def by blast
  have s: "s = CHR 0x22 # tl s" "newline_char \<notin> set s" using assms(2) by (cases s; simp add: string_text_def)+
  have pat: "?pat \<noteq> []" "hd ?pat \<noteq> CHR 0x22"
    using utf8_codes [OF n] by (fastforce dest: hd_in_set)+
  have r: "replace_all ?pat (unicode_escape n) s = CHR 0x22 # replace_all ?pat (unicode_escape n) (tl s)"
    using replace_all_hd [of s ?pat] s(1) pat by (metis list.distinct(1) list.sel(1))
  have "newline_char \<notin> set (unicode_escape n)"
    using n unicode_escape_codes [of n newline_char] by auto
  then have nl: "newline_char \<notin> set (replace_all ?pat (unicode_escape n) s)"
    using replace_all_set [of ?pat "unicode_escape n" s] s(2) by auto
  have "rd (replace_all ?pat (unicode_escape n) s @ u) = Some (JString t, u)" if "delimited u" for u
  proof -
    have "rd ([CHR 0x22] @ tl s @ u) = Some (JString t, u)"
      using assms(2) that s(1) by (metis append_Cons append_Nil string_text_def)
    then have "rd ([CHR 0x22] @ replace_all ?pat (unicode_escape n) (tl s) @ u) = Some (JString t, u)"
      by (intro replace_all_read [where rd = rd and pat = ?pat] law) simp_all
    then show ?thesis by (simp add: r)
  qed
  with r nl show ?thesis by (simp add: string_text_def)
qed

lemma escape_separators_read:
  assumes L: "text_laws X alpha rd" and "string_text rd t s"
  shows "string_text rd t (escape_separators s)"
  unfolding separator_escapes using assms(2) by (intro escaped_text [OF L]) simp_all

lemma text_lawsD:
  assumes "text_laws X alpha rd"
  shows "alpha_law alpha" "x_json_text X JNull = ''null''"
    "x_json_text X (JBool b) = (if b then ''true'' else ''false'')"
    "json_scalar v \<Longrightarrow> v \<noteq> JNull \<Longrightarrow> as_bool v = None \<Longrightarrow> quoted X v \<noteq> [] \<and> json_lead (hd (quoted X v)) \<and>
       newline_char \<notin> set (quoted X v) \<and> \<not> is_item (quoted X v) \<and>
       (delimited u \<longrightarrow> rd (quoted X v @ u) = Some (v, u))"
proof -
  show "alpha_law alpha" "x_json_text X JNull = ''null''"
    "x_json_text X (JBool b) = (if b then ''true'' else ''false'')"
    using assms by (auto simp: text_laws_def alpha_law_def)
  assume v: "json_scalar v" "v \<noteq> JNull" "as_bool v = None"
  have plain: "x_json_text X v \<noteq> [] \<and> json_lead (hd (x_json_text X v)) \<and> newline_char \<notin> set (x_json_text X v) \<and>
      \<not> is_item (x_json_text X v) \<and> (\<forall>u. delimited u \<longrightarrow> rd (x_json_text X v @ u) = Some (v, u))"
    using assms v unfolding text_laws_def by blast
  show "quoted X v \<noteq> [] \<and> json_lead (hd (quoted X v)) \<and> newline_char \<notin> set (quoted X v) \<and>
      \<not> is_item (quoted X v) \<and> (delimited u \<longrightarrow> rd (quoted X v @ u) = Some (v, u))"
  proof (cases "as_str v")
    case (Some t)
    then have js: "v = JString t" by (cases v) (auto simp: as_str_def)
    have "hd (x_json_text X v) = CHR 0x22" using assms js by (simp add: text_laws_def)
    then have "string_text rd t (x_json_text X v)" using plain js by (simp add: string_text_def)
    from escape_separators_read [OF assms this] have q: "string_text rd t (quoted X v)" by (simp add: quoted_def Some)
    then have "hd (quoted X v) = CHR 0x22" by (simp add: string_text_def)
    then have "json_lead (hd (quoted X v))" "\<not> is_item (quoted X v)"
      by (cases "quoted X v"; auto simp: json_lead_def is_item_def starts_with_def)+
    with q js show ?thesis by (simp add: string_text_def)
  qed (use plain in \<open>simp add: quoted_def\<close>)
qed

text \<open>The text of a scalar: read back from the front of a line, and what its line looks like.\<close>

lemma render_scalar_read:
  assumes L: "text_laws X alpha rd" and v: "json_scalar v"
  shows "delimited u \<Longrightarrow> read_scalar rd (render_scalar X alpha v @ u) = Some (v, u)"
    and "render_scalar X alpha v \<noteq> []" "newline_char \<notin> set (render_scalar X alpha v)"
    "hd (render_scalar X alpha v) \<noteq> CHR '' ''" "CHR ''|'' \<noteq> hd (render_scalar X alpha v)"
    "\<not> is_item (render_scalar X alpha v)" "\<not> starts_with ''table['' (render_scalar X alpha v)"
proof -
  let ?r = "render_scalar X alpha v"
  have all: "(delimited u \<longrightarrow> read_scalar rd (?r @ u) = Some (v, u)) \<and> ?r \<noteq> [] \<and> newline_char \<notin> set ?r \<and>
    hd ?r \<noteq> CHR '' '' \<and> CHR ''|'' \<noteq> hd ?r \<and> \<not> is_item ?r \<and> \<not> starts_with ''table['' ?r"
  proof -
    have jl: ?thesis if "?r = quoted X v" "v \<noteq> JNull" "as_bool v = None"
    proof -
      from text_lawsD(4) [OF L v that(2,3)] have q: "quoted X v \<noteq> []" "json_lead (hd (quoted X v))"
        "newline_char \<notin> set (quoted X v)" "\<not> is_item (quoted X v)"
        "delimited u \<longrightarrow> rd (quoted X v @ u) = Some (v, u)" by auto
      have "hd (quoted X v) \<noteq> CHR '' ''" "hd (quoted X v) \<noteq> CHR ''|''" "hd (quoted X v) \<noteq> CHR ''t''"
        using q(2) by (auto simp: json_lead_def is_ascii_digit_def)
      with q show ?thesis
        by (cases "quoted X v") (auto simp: that read_scalar_def starts_with_def)
    qed
    have word: ?thesis if w: "?r = w" "word_json w = v" "w \<noteq> []" "\<not> json_lead (hd w)" "CHR '':'' \<notin> set w"
      "CHR ''|'' \<notin> set w" "trim_end w = w" "newline_char \<notin> set w" "hd w \<noteq> CHR '' ''" "CHR ''['' \<notin> set w" for w
    proof -
      have "delimited u \<longrightarrow> read_scalar rd (w @ u) = Some (v, u)"
        by (simp add: read_word [OF w(3-7)] w(2))
      moreover have "CHR ''|'' \<noteq> hd w" using w(3,6) by (cases w) auto
      moreover have "\<not> is_item w" using w(3,4) by (cases w) (auto simp: is_item_def json_lead_def starts_with_def)
      moreover have "\<not> starts_with ''table['' w"
        using w(10) unfolding starts_with_def by (metis in_set_takeD list.set_intros(1) list.set_intros(2))
      ultimately show ?thesis using w by simp
    qed
    show ?thesis
    proof (cases v)
      case JNull
      show ?thesis by (rule word [of "''null''"])
        (auto simp: JNull render_scalar_def text_lawsD(2) [OF L] word_json_def json_lead_def
          is_ascii_digit_def trim_words)
    next
      case (JBool b)
      show ?thesis by (rule word [of "if b then ''true'' else ''false''"])
        (auto simp: JBool render_scalar_def text_lawsD(3) [OF L] word_json_def json_lead_def
          is_ascii_digit_def trim_words)
    next
      case (JString t)
      show ?thesis
      proof (cases "plain_text alpha t")
        case True
        note p = plain_facts [OF True text_lawsD(1) [OF L]]
        have "?r = t" by (simp add: JString render_scalar_def render_string_def True)
        with p show ?thesis by (intro word [of t]) (auto simp: JString)
      next
        case False
        show ?thesis
          by (rule jl) (auto simp: JString render_scalar_def render_string_def False quoted_def as_bool_def)
      qed
    qed (rule jl; simp add: render_scalar_def quoted_def as_bool_def as_str_def)+
  qed
  show "delimited u \<Longrightarrow> read_scalar rd (?r @ u) = Some (v, u)" "?r \<noteq> []" "newline_char \<notin> set ?r"
    "hd ?r \<noteq> CHR '' ''" "CHR ''|'' \<noteq> hd ?r" "\<not> is_item ?r" "\<not> starts_with ''table['' ?r"
    using all by auto
qed

section \<open>Cells, tables and blocks\<close>

lemma read_cells_join:
  assumes L: "text_laws X alpha rd"
  shows "vs \<noteq> [] \<Longrightarrow> list_all json_scalar vs \<Longrightarrow> length vs \<le> k \<Longrightarrow>
    read_cells rd k (join '' | '' (map (render_scalar X alpha) vs)) = Some vs"
proof (induction vs arbitrary: k)
  case (Cons v vs)
  then obtain k' where k: "k = Suc k'" by (cases k) auto
  have v: "json_scalar v" using Cons.prems by simp
  show ?case
  proof (cases vs)
    case Nil
    then show ?thesis
      using render_scalar_read(1) [OF L v, of "[]"] by (simp add: k delimited_def)
  next
    case (Cons w ws)
    let ?u = "'' | '' @ join '' | '' (map (render_scalar X alpha) vs)"
    have "delimited ?u" by (simp add: delimited_def starts_with_def)
    then have "read_scalar rd (render_scalar X alpha v @ ?u) = Some (v, ?u)"
      by (rule render_scalar_read(1) [OF L v])
    moreover have "read_cells rd k' (join '' | '' (map (render_scalar X alpha) vs)) = Some vs"
      using Cons.IH Cons.prems Cons k by simp
    ultimately show ?thesis using Cons by (simp add: k starts_with_def)
  qed
qed simp

lemma join_length: "\<forall>w\<in>set ws. w \<noteq> [] \<Longrightarrow> length ws \<le> length (join sep ws)"
proof (induction sep ws rule: join.induct)
  case (3 sep w v ws)
  then show ?case by (cases w) auto
qed (auto simp: Suc_le_eq)

lemma read_line_cells:
  assumes L: "text_laws X alpha rd" and "vs \<noteq> []" "list_all json_scalar vs"
  shows "read_line rd (join '' | '' (map (render_scalar X alpha) vs)) = Some vs"
proof -
  have "\<forall>w\<in>set (map (render_scalar X alpha) vs). w \<noteq> []"
    using assms(3) render_scalar_read(2) [OF L] by (auto simp: list_all_iff)
  from join_length [OF this, of "'' | ''"] show ?thesis
    unfolding read_line_def by (intro read_cells_join [OF L assms(2,3)]) simp
qed

lemma join_set: "set (join sep ws) \<subseteq> set sep \<union> \<Union> (set ` set ws)"
  by (induction sep ws rule: join.induct) auto

lemma table_keys_Some:
  assumes "table_keys X alpha items = Some keys"
  shows "keys \<noteq> []" "items \<noteq> []" "item \<in> set items \<Longrightarrow> \<exists>row. item = JObject row \<and> map fst row = keys \<and> list_all json_scalar (map snd row)"
proof -
  obtain first items' where i: "items = JObject first # items'" "first \<noteq> []" "keys = map fst first"
    "list_all (table_row X alpha keys) items"
    using assms by (cases items) (auto simp: table_keys_def as_Some_iff split: option.splits if_splits)
  show "keys \<noteq> []" "items \<noteq> []" using i by auto
  assume "item \<in> set items"
  with i(4) have "table_row X alpha keys item" by (auto simp: list_all_iff)
  then show "\<exists>row. item = JObject row \<and> map fst row = keys \<and> list_all json_scalar (map snd row)"
    by (auto simp: table_row_def as_Some_iff scalar_cell_def json_scalar_def list_all_iff split: option.splits)
qed

lemma indent_of_eq: "indent_of d = replicate (2 * d) CHR '' ''"
  by (induction d) (simp_all add: indent_of_def)

lemma indent_of_Suc: "indent_of (Suc d) = indent_of d @ ''  ''"
proof -
  have "replicate n c @ [c, c] = c # c # replicate n c" for n and c :: char by (induction n) auto
  then show ?thesis by (simp add: indent_of_eq)
qed

lemma length_indent [simp]: "length (indent_of d) = 2 * d"
  by (simp add: indent_of_eq)

lemma drop_indent [simp]: "drop (2 * d) (indent_of d @ s) = s"
  by simp

lemma starts_indent [simp]: "starts_with (indent_of d) (indent_of d @ s)"
  by (simp add: starts_with_def)

lemma starts_deeper: "c \<noteq> CHR '' '' \<Longrightarrow> \<not> starts_with (indent_of (Suc d)) (indent_of d @ c # s)"
  by (simp add: starts_with_def indent_of_Suc)

lemma table_cells:
  assumes "map fst row = keys" and "distinct keys"
  shows "map (\<lambda>key. render_scalar X alpha (case get_member (JObject row) key of Some v \<Rightarrow> v | None \<Rightarrow> JNull)) keys
    = map (render_scalar X alpha) (map snd row)"
proof -
  have "map_of row k = Some v" if "(k, v) \<in> set row" for k v
    using assms that by (simp add: map_of_is_SomeI)
  then show ?thesis
    unfolding assms(1) [symmetric] by (auto simp: get_member_def)
qed

definition table_head :: "'n extern \<Rightarrow> (nat \<Rightarrow> bool) \<Rightarrow> string list \<Rightarrow> 'n json list \<Rightarrow> string" where
  "table_head X alpha keys items =
     ''table['' @ show_nat (length items) @ '']: '' @ join '' | '' (map (render_string X alpha) keys)"

lemma digits_stop: "list_all is_ascii_digit ds \<Longrightarrow> takeWhile is_ascii_digit (ds @ CHR '']'' # s) = ds"
  by (induction ds) (auto simp: is_ascii_digit_def)

lemma those_map_Some: "(\<And>x. x \<in> set xs \<Longrightarrow> f x = Some (g x)) \<Longrightarrow> those (map f xs) = Some (map g xs)"
  by (induction xs) auto

definition row_values :: "'n json \<Rightarrow> 'n json list" where
  "row_values item = (case as_object item of Some row \<Rightarrow> map snd row | None \<Rightarrow> [])"

lemma read_table_lines:
  assumes L: "text_laws X alpha rd" and t: "table_keys X alpha items = Some keys"
    and ok: "json_ok (JArray items)"
  shows "read_table rd d (table_head X alpha keys items)
      (map (table_line X alpha (indent_of d) keys) items @ rest) = Some (JArray items, rest)"
proof -
  let ?rs = "render_scalar X alpha"
  have dig: "list_all is_ascii_digit (show_nat n)" for n using show_nat_digits by blast
  have ks: "map (render_string X alpha) keys = map ?rs (map JString keys)"
    by (simp add: render_scalar_def)
  have kcells: "read_line rd (join '' | '' (map ?rs (map JString keys))) = Some (map JString keys)"
    by (rule read_line_cells [OF L]) (use table_keys_Some(1) [OF t] in
        \<open>auto simp: list_all_iff json_scalar_def as_array_def as_object_def\<close>)
  have row: "item = JObject (zip keys (row_values item)) \<and>
      read_line rd (drop (2 * Suc d) (table_line X alpha (indent_of d) keys item)) = Some (row_values item)"
    if i: "item \<in> set items" for item
  proof -
    obtain row where r: "item = JObject row" "map fst row = keys" "list_all json_scalar (map snd row)"
      using table_keys_Some(3) [OF t i] by blast
    have "json_ok item" using ok i by (auto simp: list_all_iff)
    then have "distinct keys" using r obj_ok_distinct [of row] by simp
    then have "table_line X alpha (indent_of d) keys item =
        indent_of (Suc d) @ join '' | '' (map ?rs (map snd row))"
      unfolding table_line_def r(1) by (subst table_cells [OF r(2)]) (simp_all add: indent_of_Suc)
    moreover have "map snd row \<noteq> []" using table_keys_Some(1) [OF t] r(2) by auto
    moreover have "zip keys (map snd row) = row" unfolding r(2) [symmetric] by (rule zip_map_fst_snd)
    ultimately show ?thesis using read_line_cells [OF L _ r(3)]
      by (simp add: row_values_def r(1) del: length_map)
  qed
  have "map (\<lambda>item. JObject (zip keys (row_values item))) items = items"
    using row by (intro map_idI) metis
  moreover have "those (map (\<lambda>l. read_line rd (drop (2 * Suc d) l))
      (map (table_line X alpha (indent_of d) keys) items)) = Some (map row_values items)"
    unfolding map_map by (rule those_map_Some) (use row in simp)
  moreover have "those (map as_str (map JString keys)) = Some keys"
    unfolding map_map by (subst those_map_Some [where g = "\<lambda>k. k"]) simp_all
  moreover have "drop (length ds + 9) (''table['' @ ds @ '']: '' @ x) = x" for ds x :: string
    by (simp add: numeral_eq_Suc)
  ultimately show ?thesis
    using kcells
    by (simp only: read_table_def table_head_def ks Let_def)
      (simp add: digits_stop [OF dig] digits_value_show_nat comp_def)
qed

lemma join_snoc: "ls \<noteq> [] \<Longrightarrow> join sep (ls @ [w]) = join sep ls @ sep @ w"
  by (induction sep ls rule: join.induct) (auto simp: neq_Nil_conv)

lemma join_terminated: "ls \<noteq> [] \<Longrightarrow> join [newline_char] ls @ [newline_char] = concat (map (\<lambda>l. l @ [newline_char]) ls)"
  by (induction "[newline_char]" ls rule: join.induct) auto

lemma split_terminator_concat:
  "list_all (\<lambda>l. newline_char \<notin> set l) ls \<Longrightarrow>
     split_terminator (concat (map (\<lambda>l. l @ [newline_char]) ls)) = ls"
proof (induction ls)
  case (Cons l ls)
  have "newline_char \<notin> set l \<Longrightarrow> split_terminator (l @ newline_char # s) = l # split_terminator s" for s
    by (induction l) auto
  with Cons show ?case by simp
qed simp

lemma split_terminator_free: "l \<in> set (split_terminator s) \<Longrightarrow> newline_char \<notin> set l"
  by (induction s arbitrary: l) (auto split: if_splits list.splits)

lemma split_terminator_text:
  "(if s = [] \<or> last s = newline_char then concat (map (\<lambda>l. l @ [newline_char]) (split_terminator s)) = s
    else join [newline_char] (split_terminator s) = s \<and> split_terminator s \<noteq> [])"
proof (induction s)
  case (Cons c s)
  show ?case
  proof (cases "split_terminator s")
    case Nil
    then have "s = []" by (cases s) (auto split: if_splits list.splits)
    then show ?thesis by simp
  next
    case (Cons l ls)
    with Cons.IH show ?thesis by (cases ls) (auto split: if_splits)
  qed
qed simp

lemma unblock_chomping: "unblock (chomping t) (split_terminator t) = t"
proof (cases "t = [] \<or> last t \<noteq> newline_char")
  case True
  then have "chomping t = ''-''"
    by (cases t rule: rev_cases) (auto simp: chomping_def ends_with_def)
  with True split_terminator_text [of t] show ?thesis by (auto simp: unblock_def split: if_splits)
next
  case False
  then have c: "concat (map (\<lambda>l. l @ [newline_char]) (split_terminator t)) = t"
    using split_terminator_text [of t] by auto
  have "chomping t = ''+'' \<or> chomping t = []"
    using False by (cases t rule: rev_cases) (auto simp: chomping_def ends_with_def)
  moreover have "split_terminator t \<noteq> []" using False c by auto
  ultimately show ?thesis using c join_terminated [of "split_terminator t"] by (auto simp: unblock_def)
qed

section \<open>Values\<close>

text \<open>What a value writes on the line of its label, with the lines below it; \<open>None\<close> for a
  collection whose children are written one level deeper.\<close>

definition inline :: "'n extern \<Rightarrow> (nat \<Rightarrow> bool) \<Rightarrow> nat \<Rightarrow> 'n json \<Rightarrow> (string \<times> string list) option" where
  "inline X alpha d v =
     (if json_scalar v then
        (case v of
           JString t \<Rightarrow>
             if block_text t
             then Some (''|2'' @ chomping t, map (\<lambda>l. indent_of (Suc d) @ l) (split_terminator t))
             else Some (render_scalar X alpha v, [])
         | _ \<Rightarrow> Some (render_scalar X alpha v, []))
      else case v of
          JArray items \<Rightarrow> map_option (\<lambda>keys. (table_head X alpha keys items,
            map (table_line X alpha (indent_of d) keys) items)) (table_keys X alpha items)
        | _ \<Rightarrow> None)"

definition children :: "'n extern \<Rightarrow> (nat \<Rightarrow> bool) \<Rightarrow> 'n json \<Rightarrow> nat \<Rightarrow> string list" where
  "children X alpha v d = (case v of JObject ms \<Rightarrow> render_fields X alpha ms d
     | JArray vs \<Rightarrow> render_items X alpha vs d | _ \<Rightarrow> [])"

lemma render_value_inline:
  "inline X alpha d v = Some (first, below) \<Longrightarrow> render_value X alpha v d label = (indent_of d @ label @ first) # below"
  by (cases v)
    (auto simp: inline_def json_scalar_def as_array_def as_object_def block_lines_def table_lines_def
      table_head_def indent_of_Suc split: if_splits option.splits)

lemma render_value_children:
  "inline X alpha d v = None \<Longrightarrow> render_value X alpha v d label =
     header_line label (indent_of d @ label) @ children X alpha v (inner_depth label d)"
  by (cases v)
    (auto simp: inline_def json_scalar_def as_array_def as_object_def children_def
      split: if_splits option.splits)

lemma inline_None: "inline X alpha d v = None \<Longrightarrow> (\<exists>m ms. v = JObject (m # ms)) \<or> (\<exists>w ws. v = JArray (w # ws))"
  by (cases v)
    (auto simp: inline_def json_scalar_def as_array_def as_object_def neq_Nil_conv split: if_splits)

definition dedented :: "nat \<Rightarrow> string list \<Rightarrow> bool" where
  "dedented d ls \<longleftrightarrow> ls = [] \<or> \<not> starts_with (indent_of d) (hd ls)"

lemma dedented_Suc: "dedented d ls \<Longrightarrow> dedented (Suc d) ls"
  by (auto simp: dedented_def starts_with_def indent_of_Suc) (metis append_take_drop_id drop_indent
      append_eq_append_conv_if length_indent take_add append.assoc length_append take_all_iff append_eq_conv_conj)

lemma inline_read:
  assumes L: "text_laws X alpha rd" and ok: "json_ok v"
    and i: "inline X alpha d v = Some (first, below)" and rest: "dedented (Suc d) rest"
  shows "read_inline rd d first (below @ rest) = Some (v, rest)" "first \<noteq> []" "\<not> is_item first"
    "newline_char \<notin> set first"
proof -
  let ?P = "read_inline rd d first (below @ rest) = Some (v, rest) \<and> first \<noteq> [] \<and> \<not> is_item first \<and>
    newline_char \<notin> set first"
  have scalar: ?P if v: "json_scalar v" and f: "first = render_scalar X alpha v" "below = []"
  proof -
    note r = render_scalar_read [OF L v]
    have "\<not> starts_with ''|2'' first" using r(2,5) by (cases first) (auto simp: f starts_with_def)
    moreover have "read_scalar rd first = Some (v, [])" using r(1) [of "[]"] by (simp add: f delimited_def)
    ultimately show ?thesis using r f by (simp add: read_inline_def)
  qed
  have block: ?P if v: "v = JString t" and f: "first = ''|2'' @ chomping t"
    "below = map (\<lambda>l. indent_of (Suc d) @ l) (split_terminator t)" for t
  proof -
    have all: "\<forall>l\<in>set below. starts_with (indent_of (Suc d)) l" using f(2) by auto
    have "takeWhile (starts_with (indent_of (Suc d))) (below @ rest) = below"
      "dropWhile (starts_with (indent_of (Suc d))) (below @ rest) = rest"
      using all rest by (cases rest; auto simp: dedented_def)+
    moreover have "map (drop (2 * Suc d)) below = split_terminator t"
      unfolding f(2) map_map comp_def by (simp only: drop_indent list.map_ident)
    ultimately have "read_inline rd d first (below @ rest) = Some (v, rest)"
      using unblock_chomping [of t]
      by (simp add: read_inline_def f(1) v starts_with_def del: mult_Suc_right)
    moreover have "newline_char \<notin> set first" "\<not> is_item first"
      by (auto simp: f(1) chomping_def is_item_def starts_with_def)
    ultimately show ?thesis by (simp add: f(1))
  qed
  have table: ?P if v: "v = JArray items" and t: "table_keys X alpha items = Some keys"
    and f: "first = table_head X alpha keys items" "below = map (table_line X alpha (indent_of d) keys) items"
    for items keys
  proof -
    have "read_table rd d first (below @ rest) = Some (v, rest)"
      unfolding f v by (rule read_table_lines [OF L t]) (use ok v in simp)
    moreover have "newline_char \<notin> set first"
    proof -
      have "newline_char \<notin> set (show_nat n)" for n
        using show_nat_digits [of n] by (auto simp: list_all_iff is_ascii_digit_def)
      moreover have "newline_char \<notin> set (render_string X alpha k)" for k
        using render_scalar_read(3) [OF L, of "JString k"]
        by (simp add: render_scalar_def json_scalar_def as_array_def as_object_def)
      ultimately show ?thesis
        using join_set [of "'' | ''" "map (render_string X alpha) keys"]
        unfolding f table_head_def by (auto dest!: subsetD)
    qed
    ultimately show ?thesis by (simp add: read_inline_def f(1) table_head_def starts_with_def is_item_def)
  qed
  have ?P
    using i scalar block table
    by (auto simp: inline_def split: if_splits json.splits)
  then show "read_inline rd d first (below @ rest) = Some (v, rest)" "first \<noteq> []" "\<not> is_item first"
    "newline_char \<notin> set first" by auto
qed

text \<open>The mark of a field or item, written before its value or alone on its line.\<close>

definition mark :: "string \<Rightarrow> bool" where
  "mark m \<longleftrightarrow> m \<noteq> [] \<and> hd m \<noteq> CHR '' '' \<and> (last m = CHR '':'' \<or> last m = CHR ''-'')"

definition marked :: "string \<Rightarrow> string \<Rightarrow> string" where
  "marked m line = m @ (if line = [] then [] else '' '' @ line)"

definition reads :: "'n extern \<Rightarrow> (nat \<Rightarrow> bool) \<Rightarrow> (string \<Rightarrow> string list \<Rightarrow> ('n json \<times> string list) option) \<Rightarrow>
    nat \<Rightarrow> 'n json \<Rightarrow> bool" where
  "reads X alpha rv d v \<longleftrightarrow> (\<forall>m. mark m \<longrightarrow> (\<exists>line below.
     render_value X alpha v d (m @ '' '') = (indent_of d @ marked m line) # below \<and>
     (\<forall>rest. dedented (Suc d) rest \<longrightarrow> rv line (below @ rest) = Some (v, rest))))"

lemma trim_end_mark: "mark m \<Longrightarrow> trim_end (s @ m @ '' '') = s @ m"
proof -
  assume m: "mark m"
  have "trim_end ((s @ m) @ '' '') = trim_end (s @ m)" by (rule trim_end_blank)
  also have "trim_end (s @ m) = s @ m"
    by (rule trim_end_graphic) (use m in \<open>auto simp: mark_def\<close>)
  finally show ?thesis by simp
qed

lemma reads_children:
  assumes none: "inline X alpha d v = None"
    and rc: "\<And>rest. dedented (Suc d) rest \<Longrightarrow>
      rv [] (children X alpha v (Suc d) @ rest) = Some (v, rest)"
  shows "reads X alpha rv d v"
  unfolding reads_def
proof (intro allI impI)
  fix m assume m: "mark m"
  have r: "render_value X alpha v d (m @ '' '') = (indent_of d @ marked m []) # children X alpha v (Suc d)"
    using render_value_children [OF none] trim_end_mark [OF m, of "indent_of d"]
    by (simp add: header_line_def inner_depth_def marked_def)
  then show "\<exists>line below. render_value X alpha v d (m @ '' '') = (indent_of d @ marked m line) # below \<and>
      (\<forall>rest. dedented (Suc d) rest \<longrightarrow> rv line (below @ rest) = Some (v, rest))"
    using rc by blast
qed

lemma reads_inline:
  assumes some: "inline X alpha d v = Some (line, below)" and "line \<noteq> []"
    and "\<And>rest. dedented (Suc d) rest \<Longrightarrow> rv line (below @ rest) = Some (v, rest)"
  shows "reads X alpha rv d v"
  unfolding reads_def using assms render_value_inline [OF some] by (auto simp: marked_def)

lemma key_mark:
  assumes L: "text_laws X alpha rd"
  shows "mark (render_string X alpha key @ '':'')"
    and "read_scalar rd (marked (render_string X alpha key @ '':'') line) = Some (JString key, marked '':'' line)"
    and "\<not> is_item (marked (render_string X alpha key @ '':'') line)"
proof -
  let ?q = "render_string X alpha key"
  have js: "json_scalar (JString key)" by (simp add: json_scalar_def as_array_def as_object_def)
  have q: "?q = render_scalar X alpha (JString key)" by (simp add: render_scalar_def)
  note r = render_scalar_read [OF L js, folded q]
  show "mark (?q @ '':'')" using r(2,4) by (cases ?q) (auto simp: mark_def)
  have "delimited (marked '':'' line)" by (simp add: delimited_def marked_def)
  from r(1) [OF this] show "read_scalar rd (marked (?q @ '':'') line) = Some (JString key, marked '':'' line)"
    by (simp add: marked_def)
  show "\<not> is_item (marked (?q @ '':'') line)"
    using r(2,6) by (cases ?q; cases "tl ?q") (auto simp: is_item_def starts_with_def marked_def)
qed

lemma drop_marked: "drop 2 (marked '':'' line) = line" "drop 2 (marked ''-'' line) = line"
  by (simp_all add: marked_def)

lemma item_mark: "mark ''-''" "is_item (marked ''-'' line)"
  by (auto simp: mark_def is_item_def marked_def starts_with_def)

lemma dedented_line: "mark m \<Longrightarrow> dedented (Suc d) ((indent_of d @ marked m line) # ls)"
  using starts_deeper [of "hd m" d] by (cases m) (auto simp: dedented_def mark_def marked_def)

lemma fields_first:
  assumes L: "text_laws X alpha rd" and "reads X alpha rv d v"
  shows "\<exists>line below. render_fields X alpha ((key, v) # ms) d =
      (indent_of d @ marked (render_string X alpha key @ '':'') line) # below @ render_fields X alpha ms d \<and>
      (\<forall>rest. dedented (Suc d) rest \<longrightarrow> rv line (below @ rest) = Some (v, rest))"
  using assms(2) key_mark(1) [OF L, of key] unfolding reads_def by fastforce

lemma items_first:
  assumes "reads X alpha rv d v"
  shows "\<exists>line below. render_items X alpha (v # vs) d =
      (indent_of d @ marked ''-'' line) # below @ render_items X alpha vs d \<and>
      (\<forall>rest. dedented (Suc d) rest \<longrightarrow> rv line (below @ rest) = Some (v, rest))"
  using assms item_mark(1) unfolding reads_def by fastforce

lemma read_fields_render:
  assumes L: "text_laws X alpha rd"
  shows "list_all (\<lambda>m. reads X alpha rv d (snd m)) ms \<Longrightarrow> dedented d rest \<Longrightarrow> length ms < k \<Longrightarrow>
    read_fields rd rv d k (render_fields X alpha ms d @ rest) = Some (ms, rest)"
proof (induction ms arbitrary: k)
  case Nil
  then show ?case by (cases k) (auto simp: dedented_def)
next
  case (Cons p ms)
  obtain key v where p: "p = (key, v)" by (cases p)
  obtain k' where k: "k = Suc k'" using Cons.prems by (cases k) auto
  obtain line below where f: "render_fields X alpha ((key, v) # ms) d =
      (indent_of d @ marked (render_string X alpha key @ '':'') line) # below @ render_fields X alpha ms d"
    and rv: "\<And>rest. dedented (Suc d) rest \<Longrightarrow> rv line (below @ rest) = Some (v, rest)"
    using fields_first [OF L, of rv d v key ms] Cons.prems p by auto
  have "dedented (Suc d) (render_fields X alpha ms d @ rest)"
  proof (cases ms)
    case Nil
    then show ?thesis using Cons.prems by (simp add: dedented_Suc)
  next
    case (Cons p' ms')
    then obtain key' v' where p': "p' = (key', v')" by (cases p')
    have "reads X alpha rv d v'" using Cons.prems Cons p' by simp
    from fields_first [OF L this, of key' ms'] show ?thesis
      using dedented_line [OF key_mark(1) [OF L]] Cons p' by auto
  qed
  then have "rv line (below @ render_fields X alpha ms d @ rest) = Some (v, render_fields X alpha ms d @ rest)"
    by (rule rv)
  with Cons show ?case
    by (simp add: p k f key_mark(2) [OF L] drop_marked del: render_fields.simps render_items.simps)
qed

lemma read_items_render:
  "list_all (reads X alpha rv d) vs \<Longrightarrow> dedented d rest \<Longrightarrow> length vs < k \<Longrightarrow>
    read_items rv d k (render_items X alpha vs d @ rest) = Some (vs, rest)"
proof (induction vs arbitrary: k)
  case Nil
  then show ?case by (cases k) (auto simp: dedented_def)
next
  case (Cons v vs)
  obtain k' where k: "k = Suc k'" using Cons.prems by (cases k) auto
  obtain line below where f: "render_items X alpha (v # vs) d =
      (indent_of d @ marked ''-'' line) # below @ render_items X alpha vs d"
    and rv: "\<And>rest. dedented (Suc d) rest \<Longrightarrow> rv line (below @ rest) = Some (v, rest)"
    using items_first [of X alpha rv d v vs] Cons.prems by auto
  have "dedented (Suc d) (render_items X alpha vs d @ rest)"
  proof (cases vs)
    case Nil
    then show ?thesis using Cons.prems by (simp add: dedented_Suc)
  next
    case (Cons v' vs')
    have "reads X alpha rv d v'" using Cons.prems Cons by simp
    from items_first [OF this, of vs'] show ?thesis
      using dedented_line [OF item_mark(1)] Cons by auto
  qed
  then have "rv line (below @ render_items X alpha vs d @ rest) = Some (v, render_items X alpha vs d @ rest)"
    by (rule rv)
  moreover have "drop (2 * d + 2) (indent_of d @ marked ''-'' line) = line"
    using drop_marked(2) [of line] by (simp add: drop_append)
  ultimately show ?case using Cons
    by (simp add: k f del: render_fields.simps render_items.simps)
qed

definition subvalues :: "'n json \<Rightarrow> 'n json list" where
  "subvalues v = (case v of JObject ms \<Rightarrow> map snd ms | JArray vs \<Rightarrow> vs | _ \<Rightarrow> [])"

lemma render_value_nonempty: "label \<noteq> [] \<Longrightarrow> 0 < length (render_value X alpha v d label)"
  by (cases v) (auto simp: header_line_def table_lines_def block_lines_def split: option.splits)

lemma render_length:
  assumes "label \<noteq> []"
  shows "length (render_value X alpha v d label) = length (render_value X alpha v d ''- '')"
proof (cases "inline X alpha d v")
  case None
  then show ?thesis using assms
    by (simp add: render_value_children [OF None] header_line_def inner_depth_def)
next
  case (Some p)
  then obtain line below where "inline X alpha d v = Some (line, below)" by (cases p) auto
  from render_value_inline [OF this] show ?thesis by simp
qed

lemma fields_length:
  "length (render_fields X alpha ms d) = sum_list (map (\<lambda>m. length (render_value X alpha (snd m) d ''- '')) ms)"
proof (induction ms)
  case (Cons p ms)
  then show ?case
    using render_length [of "render_string X alpha (fst p) @ '': ''" X alpha "snd p" d]
    by (cases p) simp
qed simp

lemma items_length:
  "length (render_items X alpha vs d) = sum_list (map (\<lambda>v. length (render_value X alpha v d ''- '')) vs)"
  by (induction vs) simp_all

lemma children_length:
  "length (children X alpha v d) = sum_list (map (\<lambda>w. length (render_value X alpha w d ''- '')) (subvalues v))"
  by (cases v) (simp_all add: children_def subvalues_def fields_length items_length comp_def)

lemma sum_list_ge_length: "list_all (\<lambda>x. 0 < f x) xs \<Longrightarrow> length xs \<le> sum_list (map f xs)" for f :: "'a \<Rightarrow> nat"
  by (induction xs) auto

lemma subvalues_length: "length (subvalues v) \<le> length (children X alpha v d)"
  unfolding children_length
  by (rule sum_list_ge_length) (use render_value_nonempty [of "''- ''" X alpha] in \<open>auto simp: list_all_iff\<close>)

lemma subvalue_lines:
  "w \<in> set (subvalues v) \<Longrightarrow> length (render_value X alpha w d ''- '') \<le> length (children X alpha v d)"
  unfolding children_length by (rule member_le_sum_list) auto

lemma read_children_render:
  assumes L: "text_laws X alpha rd" and none: "inline X alpha d' v = None"
    and rv: "list_all (reads X alpha rv d) (subvalues v)" and rest: "dedented d rest"
  shows "read_children rd rv d (children X alpha v d @ rest) = Some (v, rest)"
proof -
  have len: "length (subvalues v) < Suc (length (children X alpha v d @ rest))"
    using subvalues_length [of v X alpha d] by simp
  from inline_None [OF none] show ?thesis
  proof (elim disjE exE)
    fix p ms assume v: "v = JObject (p # ms)"
    obtain key w where p: "p = (key, w)" by (cases p)
    have "reads X alpha rv d w" using rv by (simp add: subvalues_def v p)
    from fields_first [OF L this, of key ms] have
      "\<not> is_item (drop (2 * d) (hd (children X alpha v d @ rest)))"
      using key_mark(3) [OF L] by (auto simp: children_def v p del: render_fields.simps)
    moreover have "read_fields rd rv d (Suc (length (children X alpha v d @ rest))) (children X alpha v d @ rest)
        = Some (p # ms, rest)"
      unfolding children_def v json.case
      by (rule read_fields_render [OF L])
        (use rv rest len in \<open>auto simp: subvalues_def v children_def list_all_iff\<close>)
    ultimately show ?thesis by (simp add: read_children_def v)
  next
    fix w ws assume v: "v = JArray (w # ws)"
    have "reads X alpha rv d w" using rv by (simp add: subvalues_def v)
    from items_first [OF this, of ws] have
      "children X alpha v d @ rest \<noteq> [] \<and> is_item (drop (2 * d) (hd (children X alpha v d @ rest)))"
      using item_mark(2) by (auto simp: children_def v del: render_items.simps)
    moreover have "read_items rv d (Suc (length (children X alpha v d @ rest))) (children X alpha v d @ rest)
        = Some (w # ws, rest)"
      unfolding children_def v json.case
      by (rule read_items_render)
        (use rv rest len in \<open>auto simp: subvalues_def v children_def list_all_iff\<close>)
    ultimately show ?thesis by (simp add: read_children_def v)
  qed
qed

lemma json_ok_subvalues: "json_ok v \<Longrightarrow> w \<in> set (subvalues v) \<Longrightarrow> json_ok w"
  by (cases v) (auto simp: subvalues_def list_all_iff)

lemma reads_value:
  assumes L: "text_laws X alpha rd"
  shows "json_ok v \<Longrightarrow> length (render_value X alpha v d ''- '') \<le> f \<Longrightarrow> reads X alpha (read_value rd f d) d v"
proof (induction f arbitrary: v d)
  case 0
  then show ?case using render_value_nonempty [of "''- ''" X alpha v d] by simp
next
  case (Suc f)
  show ?case
  proof (cases "inline X alpha d v")
    case None
    have "length (children X alpha v (Suc d)) \<le> f"
      using Suc.prems(2) render_value_children [OF None, of "''- ''"]
      by (simp add: header_line_def inner_depth_def)
    then have "list_all (reads X alpha (read_value rd f (Suc d)) (Suc d)) (subvalues v)"
      unfolding list_all_iff
      using Suc.IH json_ok_subvalues [OF Suc.prems(1)] subvalue_lines le_trans by blast
    then show ?thesis
      by (intro reads_children [OF None]) (simp add: read_children_render [OF L None])
  next
    case (Some p)
    then obtain line below where i: "inline X alpha d v = Some (line, below)" by (cases p) auto
    note r = inline_read [OF L Suc.prems(1) i]
    from r [where rest = "[]"] have "line \<noteq> []" by (simp add: dedented_def)
    with r(1) show ?thesis by (intro reads_inline [OF i]) auto
  qed
qed

lemma jweight_subvalues: "w \<in> set (subvalues v) \<Longrightarrow> jweight w < jweight v"
proof -
  assume w: "w \<in> set (subvalues v)"
  then have "jweight w \<le> sum_list (map jweight (subvalues v))"
    by (intro member_le_sum_list) auto
  also have "\<dots> < jweight v" using w by (cases v) (auto simp: subvalues_def comp_def)
  finally show ?thesis .
qed

lemma fields_lines: "l \<in> set (render_fields X alpha ms d) \<Longrightarrow>
    \<exists>p\<in>set ms. l \<in> set (render_value X alpha (snd p) d (render_string X alpha (fst p) @ '': ''))"
proof (induction ms)
  case (Cons p ms)
  then show ?case by (cases p) auto
qed simp

lemma items_lines: "l \<in> set (render_items X alpha vs d) \<Longrightarrow> \<exists>v\<in>set vs. l \<in> set (render_value X alpha v d ''- '')"
  by (induction vs) auto

lemma children_lines: "l \<in> set (children X alpha v d) \<Longrightarrow> \<exists>w label. w \<in> set (subvalues v) \<and>
    l \<in> set (render_value X alpha w d label) \<and> (label = ''- '' \<or> (\<exists>k. label = render_string X alpha k @ '': ''))"
proof (cases v)
  case (JArray vs)
  assume "l \<in> set (children X alpha v d)"
  then show ?thesis using items_lines [of l X alpha vs d] by (auto simp: children_def subvalues_def JArray)
next
  case (JObject ms)
  assume "l \<in> set (children X alpha v d)"
  then obtain p where "p \<in> set ms" "l \<in> set (render_value X alpha (snd p) d (render_string X alpha (fst p) @ '': ''))"
    using fields_lines [of l X alpha ms d] by (auto simp: children_def JObject)
  then show ?thesis
    by (intro exI [of _ "snd p"] exI [of _ "render_string X alpha (fst p) @ '': ''"]) (auto simp: subvalues_def JObject)
qed (simp_all add: children_def)

text \<open>No line that is written holds a line break.\<close>

lemma newline_free:
  assumes L: "text_laws X alpha rd"
  shows "json_ok v \<Longrightarrow> newline_char \<notin> set label \<Longrightarrow> l \<in> set (render_value X alpha v d label) \<Longrightarrow> newline_char \<notin> set l"
proof (induction v arbitrary: d label l rule: measure_induct_rule [where f = jweight])
  case (less v)
  have ind: "newline_char \<notin> set (indent_of d)" for d by (simp add: indent_of_eq)
  have trim: "set (trim_end s) \<subseteq> set s" for s
    using strip_with_suffix [of "rev s" ws_suffix] unfolding trim_end_def
    by (metis Un_iff set_append set_rev subsetI)
  have key: "newline_char \<notin> set (render_string X alpha k)" for k
    using render_scalar_read(3) [OF L, of "JString k"]
    by (simp add: render_scalar_def json_scalar_def as_array_def as_object_def)
  show ?case
  proof (cases "inline X alpha d v")
    case None
    have sub: "newline_char \<notin> set l"
      if "w \<in> set (subvalues v)" "newline_char \<notin> set label" "l \<in> set (render_value X alpha w d label)" for w d label l
    proof (rule less.IH [OF _ json_ok_subvalues [OF less.prems(1) that(1)] that(2,3)])
      show "jweight w < jweight v"
        using that(1) jweight_subvalues by blast
    qed
    from less.prems(3) consider "l \<in> set (header_line label (indent_of d @ label))"
      | "l \<in> set (children X alpha v (inner_depth label d))"
      by (auto simp: render_value_children [OF None])
    then show ?thesis
    proof cases
      case 1
      then show ?thesis using less.prems(2) ind [of d] trim [of "indent_of d @ label"]
        by (auto simp: header_line_def split: if_splits)
    next
      case 2
      from children_lines [OF 2] obtain w label' where w: "w \<in> set (subvalues v)"
        "l \<in> set (render_value X alpha w (inner_depth label d) label')"
        "label' = ''- '' \<or> (\<exists>k. label' = render_string X alpha k @ '': '')" by blast
      have "newline_char \<notin> set label'" using w(3) key by auto
      from sub [OF w(1) this w(2)] show ?thesis .
    qed
  next
    case (Some p)
    then obtain line below where i: "inline X alpha d v = Some (line, below)" by (cases p) auto
    have nl: "newline_char \<notin> set line"
      using inline_read(4) [OF L less.prems(1) i, of "[]"] by (simp add: dedented_def)
    have "newline_char \<notin> set b" if "b \<in> set below" for b
    proof -
      consider t where "v = JString t" "below = map (\<lambda>l. indent_of (Suc d) @ l) (split_terminator t)"
        | "below = []" | items keys where "v = JArray items" "table_keys X alpha items = Some keys"
          "below = map (table_line X alpha (indent_of d) keys) items"
        using i by (auto simp: inline_def split: if_splits json.splits)
      then show ?thesis
      proof cases
        case (1 t)
        then show ?thesis using that split_terminator_free ind by auto
      next
        case (3 items keys)
        have "newline_char \<notin> set (render_scalar X alpha (case get_member item k of Some v \<Rightarrow> v | None \<Rightarrow> JNull))"
          if it: "item \<in> set items" for item k
        proof -
          obtain row where r: "item = JObject row" "list_all json_scalar (map snd row)"
            using table_keys_Some(3) [OF 3(2) it] by blast
          have "json_scalar (case get_member item k of Some v \<Rightarrow> v | None \<Rightarrow> JNull)"
            using r(2) by (auto simp: r(1) get_member_def json_scalar_def as_array_def as_object_def list_all_iff
                split: option.splits dest!: map_of_SomeD)
          then show ?thesis by (rule render_scalar_read(3) [OF L])
        qed
        with 3 that show ?thesis
          using join_set ind by (fastforce simp: table_line_def)
      qed (use that in simp)
    qed
    with nl less.prems(2,3) ind [of d] show ?thesis
      by (auto simp: render_value_inline [OF i])
  qed
qed

section \<open>Nothing is lost\<close>

lemma starts_with_part: "starts_with p (a @ c # b) \<Longrightarrow> c \<notin> set p \<Longrightarrow> starts_with p a"
proof (rule ccontr)
  assume p: "starts_with p (a @ c # b)" "c \<notin> set p" and n: "\<not> starts_with p a"
  have "length a < length p" using p(1) n by (cases "length p \<le> length a") (auto simp: starts_with_def)
  then have "c \<in> set (take (length p) (a @ c # b))" by (cases "length p - length a") auto
  with p show False by (simp add: starts_with_def)
qed

lemma rendered_lines:
  assumes "text_laws X alpha rd" and "json_ok v"
  shows "split_terminator (render_json_porcelain X alpha v) = render_value X alpha v 0 []"
proof -
  let ?ls = "render_value X alpha v 0 []"
  have ne: "?ls \<noteq> []"
  proof (cases "inline X alpha 0 v")
    case None
    have "0 < length (children X alpha v 0)"
    proof -
      have "subvalues v \<noteq> []" using inline_None [OF None] by (auto simp: subvalues_def)
      then show ?thesis using subvalues_length [of v X alpha 0] by (cases "subvalues v") auto
    qed
    then show ?thesis using render_value_children [OF None] by (auto simp: header_line_def inner_depth_def)
  next
    case (Some p)
    then obtain line below where "inline X alpha 0 v = Some (line, below)" by (cases p) auto
    from render_value_inline [OF this] show ?thesis by simp
  qed
  have "render_json_porcelain X alpha v = concat (map (\<lambda>l. l @ [newline_char]) ?ls)"
    using join_snoc [OF ne, of "[newline_char]" "[]"] join_terminated [OF ne]
    by (simp add: render_json_porcelain_def)
  moreover have "list_all (\<lambda>l. newline_char \<notin> set l) ?ls"
    using newline_free [OF assms, of "[]"] by (auto simp: list_all_iff)
  ultimately show ?thesis by (simp add: split_terminator_concat)
qed

lemma rendered_readable:
  assumes "text_laws X alpha rd" and "json_ok v"
  shows "read_porcelain rd (render_json_porcelain X alpha v) = Some v"
proof (cases "inline X alpha 0 v")
  case None
  let ?ls = "children X alpha v 0"
  have ls: "split_terminator (render_json_porcelain X alpha v) = ?ls"
    using rendered_lines [OF assms] render_value_children [OF None, of "[]"]
    by (simp add: header_line_def inner_depth_def)
  have sub: "list_all (reads X alpha (read_value rd (length ?ls) 0) 0) (subvalues v)"
    unfolding list_all_iff
    using reads_value [OF assms(1)] json_ok_subvalues [OF assms(2)] subvalue_lines by blast
  have rc: "read_children rd (read_value rd (length ?ls) 0) 0 ?ls = Some (v, [])"
    using read_children_render [OF assms(1) None sub, of "[]"] by (simp add: dedented_def)
  have "subvalues v \<noteq> []" using inline_None [OF None] by (auto simp: subvalues_def)
  then obtain l ls' where cons: "?ls = l # ls'"
    using subvalues_length [of v X alpha 0] by (cases "subvalues v"; cases ?ls) auto
  have "is_item l \<or> read_inline rd 0 l ls' = None"
    using inline_None [OF None]
  proof (elim disjE exE)
    fix p ms assume v: "v = JObject (p # ms)"
    obtain key w where p: "p = (key, w)" by (cases p)
    let ?rv = "read_value rd (length ?ls) 0"
    have "reads X alpha ?rv 0 w" using sub by (simp add: subvalues_def v p)
    from fields_first [OF assms(1) this, of key ms] obtain line where
      l: "l = marked (render_string X alpha key @ '':'') line"
      using cons by (auto simp: children_def v p indent_of_eq simp del: render_fields.simps)
    have js: "json_scalar (JString key)" by (simp add: json_scalar_def as_array_def as_object_def)
    have q: "render_string X alpha key = render_scalar X alpha (JString key)" by (simp add: render_scalar_def)
    note r = render_scalar_read [OF assms(1) js, folded q]
    have "\<not> starts_with ''|2'' l" using r(2,5) unfolding l by (cases "render_string X alpha key") (auto simp: starts_with_def marked_def)
    moreover have "\<not> starts_with ''table['' l"
    proof
      assume "starts_with ''table['' l"
      then have "starts_with ''table['' (render_string X alpha key @ CHR '':'' # (if line = [] then [] else '' '' @ line))"
        unfolding l marked_def by simp
      from starts_with_part [OF this] r(7) show False by simp
    qed
    ultimately show ?thesis using key_mark(2) [OF assms(1), of key line] l
      by (simp add: read_inline_def marked_def)
  next
    fix w ws assume v: "v = JArray (w # ws)"
    let ?rv = "read_value rd (length ?ls) 0"
    have "reads X alpha ?rv 0 w" using sub by (simp add: subvalues_def v)
    from items_first [OF this, of ws] show ?thesis
      using cons item_mark(2) by (auto simp: children_def v indent_of_eq simp del: render_items.simps)
  qed
  with rc show ?thesis unfolding read_porcelain_def ls cons by auto
next
  case (Some p)
  then obtain line below where i: "inline X alpha 0 v = Some (line, below)" by (cases p) auto
  have ls: "split_terminator (render_json_porcelain X alpha v) = line # below"
    using rendered_lines [OF assms] render_value_inline [OF i, of "[]"] by (simp add: indent_of_eq)
  note r = inline_read [OF assms i, of "[]"]
  have "read_inline rd 0 line below = Some (v, [])" "\<not> is_item line" using r by (auto simp: dedented_def)
  then show ?thesis unfolding read_porcelain_def ls by simp
qed

text \<open>
  C27. The porcelain text carries the complete value: from the text alone a reader gets back
  exactly the value that was rendered, whatever mixture of records, tables, nested
  collections, literal blocks, plain and quoted scalars it holds. So two different values
  never have the same text. The hypothesis is about the JSON library and the Unicode table
  only: its compact text of a scalar can be read back from the front of a line, and inside a
  string an escape stands for its character. The crate's own escaping of the line separators
  U+0085, U+2028 and U+2029 is part of what is proved.
\<close>

theorem porcelain_roundtrip:
  assumes "text_laws X alpha rd" and "json_ok v"
  shows "read_porcelain rd (render_json_porcelain X alpha v) = Some v"
  by (rule rendered_readable [OF assms])

section \<open>A JSON library that satisfies the laws\<close>

text \<open>
  Numbers are decimal. In a string the quote, the backslash and the control characters are
  escaped; the reader takes every escape of four hexadecimal digits for its character.
\<close>

definition json_escape :: "char \<Rightarrow> string" where
  "json_escape c =
     (if c = CHR 0x22 \<or> c = CHR 0x5C then [CHR 0x5C, c]
      else if code c < 32 then unicode_escape (code c)
      else [c])"

definition hex_value :: "char \<Rightarrow> nat option" where
  "hex_value c =
     (if 48 \<le> code c \<and> code c < 58 then Some (code c - 48)
      else if 97 \<le> code c \<and> code c < 103 then Some (code c - 87)
      else None)"

definition hex4 :: "char \<Rightarrow> char \<Rightarrow> char \<Rightarrow> char \<Rightarrow> nat option" where
  "hex4 a b c d =
     (case (hex_value a, hex_value b, hex_value c, hex_value d) of
        (Some i, Some j, Some k, Some l) \<Rightarrow> Some (((i * 16 + j) * 16 + k) * 16 + l)
      | _ \<Rightarrow> None)"

definition char_text :: "nat \<Rightarrow> string" where
  "char_text n = (if n < 128 then [char_of n] else bytes_text (utf8_bytes n))"

abbreviation put :: "string \<Rightarrow> (string \<times> string) option \<Rightarrow> (string \<times> string) option" where
  "put w \<equiv> map_option (\<lambda>(t, u). (w @ t, u))"

fun unescape :: "string \<Rightarrow> (string \<times> string) option" where
  "unescape [] = None"
| "unescape (c # s) =
     (if c = CHR 0x22 then Some ([], s)
      else if c \<noteq> CHR 0x5C then put [c] (unescape s)
      else case s of
          [] \<Rightarrow> None
        | e # s' \<Rightarrow>
            if e = CHR 0x22 \<or> e = CHR 0x5C then put [e] (unescape s')
            else if e \<noteq> CHR ''u'' then None
            else case s' of
                x1 # x2 # x3 # x4 # r \<Rightarrow>
                  (case hex4 x1 x2 x3 x4 of None \<Rightarrow> None | Some n \<Rightarrow> put (char_text n) (unescape r))
              | _ \<Rightarrow> None)"

definition scalar_text :: "u64 json \<Rightarrow> string" where
  "scalar_text v = (case v of JNull \<Rightarrow> ''null'' | JBool b \<Rightarrow> if b then ''true'' else ''false''
     | JNumber n \<Rightarrow> show_nat (unat n) | JString t \<Rightarrow> CHR 0x22 # concat (map json_escape t) @ [CHR 0x22]
     | JArray _ \<Rightarrow> ''[]'' | JObject _ \<Rightarrow> ''{}'')"

definition text_extern :: "u64 extern" where
  "text_extern = sample_extern\<lparr>x_json_text := scalar_text\<rparr>"

definition latin :: "nat \<Rightarrow> bool" where
  "latin c \<longleftrightarrow> 65 \<le> c \<and> c \<le> 90 \<or> 97 \<le> c \<and> c \<le> 122"

definition sample_reader :: "u64 scalar_reader" where
  "sample_reader s =
     (if hd s = CHR 0x22 then map_option (\<lambda>(t, u). (JString t, u)) (unescape (tl s))
      else if hd s = CHR ''['' then Some (JArray [], drop 2 s)
      else if hd s = CHR ''{'' then Some (JObject [], drop 2 s)
      else let w = takeWhile is_ascii_digit s in
        Some (JNumber (of_nat (digits_value w)), drop (length w) s))"

lemma hex_value_digit [simp]: "d < 16 \<Longrightarrow> hex_value (hex_digit d) = Some d"
  by (simp add: hex_value_def code_hex_digit)

lemma unescape_unicode:
  assumes "n < 65536"
  shows "unescape (unicode_escape n @ s) = put (char_text n) (unescape s)"
proof -
  have "n div 4096 * 16 + n div 256 mod 16 = n div 256" "n div 256 * 16 + n div 16 mod 16 = n div 16"
    "n div 16 * 16 + n mod 16 = n"
    using div_mult_mod_eq [of "n div 256" 16] div_mult_mod_eq [of "n div 16" 16] by (simp_all flip: div_mult2_eq)
  moreover have "n div 4096 < 16" using assms by (simp add: less_mult_imp_div_less)
  ultimately have "hex4 (hex_digit (n div 4096)) (hex_digit (n div 256 mod 16)) (hex_digit (n div 16 mod 16))
      (hex_digit (n mod 16)) = Some n"
    by (simp add: hex4_def)
  then show ?thesis by (simp add: unicode_escape_def)
qed

lemma unescape_raw: "\<forall>c\<in>set w. 128 \<le> code c \<Longrightarrow> unescape (w @ s) = put w (unescape s)"
proof (induction w)
  case Nil
  show ?case by (cases "unescape s") auto
next
  case (Cons c w)
  then have "c \<noteq> CHR 0x22" "c \<noteq> CHR 0x5C" by auto
  with Cons show ?case by (cases "unescape s") auto
qed

text \<open>How the reader takes one step.\<close>

lemma unescape_step:
  assumes "unescape (c # s) = Some (t, u)"
  obtains (close) "c = CHR 0x22" "t = []" "u = s"
  | (plain) t' where "c \<noteq> CHR 0x22" "c \<noteq> CHR 0x5C" "unescape s = Some (t', u)" "t = c # t'"
  | (quoted_char) e s' t' where "c = CHR 0x5C" "s = e # s'" "e = CHR 0x22 \<or> e = CHR 0x5C"
      "unescape s' = Some (t', u)" "t = e # t'"
  | (coded) x1 x2 x3 x4 r n t' where "c = CHR 0x5C" "s = CHR ''u'' # x1 # x2 # x3 # x4 # r"
      "hex4 x1 x2 x3 x4 = Some n" "unescape r = Some (t', u)" "t = char_text n @ t'"
proof -
  consider "c = CHR 0x22" | "c \<noteq> CHR 0x22" "c \<noteq> CHR 0x5C" | "c = CHR 0x5C" by blast
  then show thesis
  proof cases
    case 1
    with assms close show ?thesis by simp
  next
    case 2
    with assms plain show ?thesis by auto
  next
    case 3
    then obtain e s' where s: "s = e # s'" using assms by (cases s) auto
    show ?thesis
    proof (cases "e = CHR 0x22 \<or> e = CHR 0x5C")
      case True
      with 3 s assms quoted_char show ?thesis by auto
    next
      case False
      then have u: "e = CHR ''u''" using 3 s assms by (auto split: if_splits)
      obtain x1 x2 x3 x4 r n where "s' = x1 # x2 # x3 # x4 # r" "hex4 x1 x2 x3 x4 = Some n"
          "put (char_text n) (unescape r) = Some (t, u)"
        using 3 s u assms by (auto split: list.splits option.splits)
      with 3 s u coded show ?thesis by auto
    qed
  qed
qed

lemma unescape_escaped: "unescape (concat (map json_escape t) @ CHR 0x22 # u) = Some (t, u)"
proof (induction t)
  case (Cons c t)
  show ?case
  proof (cases "code c < 32")
    case True
    then have "c \<noteq> CHR 0x22" "c \<noteq> CHR 0x5C" by auto
    with True Cons show ?thesis by (simp add: json_escape_def unescape_unicode char_text_def)
  qed (use Cons in \<open>simp add: json_escape_def\<close>)
qed simp

text \<open>Where the reader meets a character above ASCII, it could as well meet its escape.\<close>

lemma unescape_either:
  assumes raw: "\<forall>c\<in>set raw. 128 \<le> code c" "raw \<noteq> []" and esc: "\<And>s. unescape (esc @ s) = put raw (unescape s)"
  shows "unescape (p @ raw @ q @ u) = Some (t, u) \<Longrightarrow> unescape (p @ esc @ q @ u) = Some (t, u)"
proof (induction p arbitrary: t rule: length_induct)
  case (1 p)
  have no: "r \<notin> set raw" if "code r < 128" for r using raw(1) that by fastforce
  have hex: "hex_value r = None" if "r \<in> set raw" for r using raw(1) that by (fastforce simp: hex_value_def)
  obtain r rs where r: "raw = r # rs" using raw(2) by (cases raw) auto
  have nr: "r \<noteq> CHR 0x22" "r \<noteq> CHR 0x5C" "r \<noteq> CHR ''u''" "hex_value r = None"
    using no [of "CHR 0x22"] no [of "CHR 0x5C"] no [of "CHR ''u''"] hex r by auto
  show ?case
  proof (cases p)
    case Nil
    with 1(2) show ?thesis using esc unescape_raw [OF raw(1)] by simp
  next
    case (Cons c p')
    from 1(2) have "unescape (c # p' @ raw @ q @ u) = Some (t, u)" by (simp add: Cons)
    then show ?thesis
    proof (cases rule: unescape_step)
      case close
      then have "length u = length (p' @ raw @ q @ u)" by simp
      with raw(2) show ?thesis by simp
    next
      case (plain t')
      with 1(1) Cons show ?thesis by simp
    next
      case (quoted_char e s' t')
      then obtain p'' where "p' = e # p''" "s' = p'' @ raw @ q @ u" using nr r by (cases p') auto
      with quoted_char 1(1) Cons show ?thesis by simp
    next
      case (coded x1 x2 x3 x4 rest n t')
      have x: "hex_value x1 \<noteq> None" "hex_value x2 \<noteq> None" "hex_value x3 \<noteq> None" "hex_value x4 \<noteq> None"
        using coded(3) by (auto simp: hex4_def split: option.splits)
      have skip: "\<exists>y'. y = x # y' \<and> w = y' @ raw @ q @ u"
        if "y @ raw @ q @ u = x # w" "x = CHR ''u'' \<or> hex_value x \<noteq> None" for y x w
        using that nr r by (cases y) auto
      from skip [OF coded(2)] obtain y where y: "p' = CHR ''u'' # y" "x1 # x2 # x3 # x4 # rest = y @ raw @ q @ u" by auto
      from skip [OF y(2) [symmetric]] x obtain y1 where y1: "y = x1 # y1" "x2 # x3 # x4 # rest = y1 @ raw @ q @ u" by auto
      from skip [OF y1(2) [symmetric]] x obtain y2 where y2: "y1 = x2 # y2" "x3 # x4 # rest = y2 @ raw @ q @ u" by auto
      from skip [OF y2(2) [symmetric]] x obtain y3 where y3: "y2 = x3 # y3" "x4 # rest = y3 @ raw @ q @ u" by auto
      from skip [OF y3(2) [symmetric]] x obtain y4 where y4: "y3 = x4 # y4" "rest = y4 @ raw @ q @ u" by auto
      have "unescape (y4 @ esc @ q @ u) = Some (t', u)"
        using 1(1) coded(4) Cons y y1 y2 y3 y4 by simp
      with coded Cons y(1) y1(1) y2(1) y3(1) y4(1) show ?thesis by simp
    qed
  qed
qed

lemma sample_escape_law:
  assumes "128 \<le> n" "n < 55296" "p \<noteq> []" "hd p = CHR 0x22"
    and "sample_reader (p @ bytes_text (utf8_bytes n) @ q @ u) = Some (JString t, u)"
  shows "sample_reader (p @ unicode_escape n @ q @ u) = Some (JString t, u)"
proof -
  let ?raw = "bytes_text (utf8_bytes n)"
  obtain p' where p: "p = CHR 0x22 # p'" using assms(3,4) by (cases p) auto
  have esc: "unescape (unicode_escape n @ w) = put ?raw (unescape w)" for w
    using assms(1,2) by (simp add: unescape_unicode char_text_def)
  have "unescape (p' @ ?raw @ q @ u) = Some (t, u)" using assms(5) p by (auto simp: sample_reader_def)
  from unescape_either [OF utf8_codes [OF assms(1,2)] esc this] show ?thesis by (simp add: p sample_reader_def)
qed

lemma escape_newline: "newline_char \<notin> set (concat (map json_escape t))"
proof -
  have "newline_char \<notin> set (json_escape c)" for c
    using unicode_escape_codes [of "code c" newline_char] by (auto simp: json_escape_def)
  then show ?thesis by simp
qed

lemma text_laws_sample: "text_laws text_extern latin sample_reader"
proof -
  have "scalar_text v \<noteq> [] \<and> json_lead (hd (scalar_text v)) \<and> newline_char \<notin> set (scalar_text v) \<and>
      \<not> is_item (scalar_text v) \<and> (\<forall>u. delimited u \<longrightarrow> sample_reader (scalar_text v @ u) = Some (v, u))"
    if v: "json_scalar v" "v \<noteq> JNull" "as_bool v = None" for v
  proof (cases v)
    case (JNumber n)
    have d: "show_nat (unat n) \<noteq> []" "list_all is_ascii_digit (show_nat (unat n))" using show_nat_digits by auto
    then obtain c cs where c: "show_nat (unat n) = c # cs" "is_ascii_digit c" by (cases "show_nat (unat n)") auto
    have "takeWhile is_ascii_digit (show_nat (unat n) @ u) = show_nat (unat n)" if "delimited u" for u
      using that d(2) by (cases u) (auto simp: delimited_def starts_with_def takeWhile_append list_all_iff is_ascii_digit_def)
    then have "sample_reader (show_nat (unat n) @ u) = Some (v, u)" if "delimited u" for u
      using that c digits_value_show_nat [of "unat n"]
      by (auto simp: sample_reader_def is_ascii_digit_def JNumber Let_def)
    moreover have "newline_char \<notin> set (show_nat (unat n))" using d(2) by (auto simp: list_all_iff is_ascii_digit_def)
    ultimately show ?thesis using c
      by (auto simp: scalar_text_def JNumber json_lead_def is_item_def starts_with_def is_ascii_digit_def)
  next
    case (JString t)
    then show ?thesis using escape_newline [of t] unescape_escaped [of t]
      by (simp add: scalar_text_def json_lead_def is_item_def starts_with_def sample_reader_def)
  qed (use v in \<open>auto simp: scalar_text_def json_lead_def is_item_def starts_with_def sample_reader_def
      json_scalar_def as_array_def as_object_def as_bool_def is_ascii_digit_def\<close>)
  then show ?thesis
    unfolding text_laws_def using sample_escape_law
    by (simp add: latin_def text_extern_def scalar_text_def)
qed

definition sample_value :: "u64 json" where
  "sample_value = JObject
     [(''a'', JArray [JObject [(''k'', JNumber 1), (''n'', JString ''x: y'')], JObject [(''k'', JNull), (''n'', JString ''true'')]]),
      (''b'', JArray [JArray [JString ''plain text'', JBool True], JObject [], JString [CHR ''p'', newline_char, CHR ''q'']]),
      (''c d'', JString ''- not an item''), (''e'', JString (''x: '' @ bytes_text [226, 128, 168] @ ''y''))]"

theorem porcelain_roundtrip_witness:
  "text_laws text_extern latin sample_reader \<and> json_ok sample_value \<and>
   read_porcelain sample_reader (render_json_porcelain text_extern latin sample_value) = Some sample_value"
proof -
  have "json_ok sample_value" by (simp add: sample_value_def)
  with porcelain_roundtrip [OF text_laws_sample this] text_laws_sample show ?thesis by simp
qed

end
