(* ===== verification/Projection.thy ===== *)
theory Projection
  imports RenderRead Types
begin

text \<open>
  Model-facing projections (\<open>projection.rs\<close>): the surface policy, the walk that validates a
  materialised value against it, selector references, timestamp text and the fallback
  projection.

  A type that implements the projection traits is the record \<open>'n projection\<close> of what its
  functions return. \<open>serde_json::to_value\<close> and the functions of the crate \<open>time\<close> are
  parameters: a serialised value is an \<open>option\<close>, \<open>None\<close> for its error.
\<close>

section \<open>Policies\<close>

datatype projection_error = Serialize | Policy string string

datatype surface_kind = Overview | Listing | Read | Mutation | Operations

record policy =
  po_kind :: surface_kind
  po_forbid_opaque_ids :: bool
  po_reference_only :: bool

definition from_surface :: "surface_kind \<Rightarrow> bool \<Rightarrow> bool \<Rightarrow> policy" where
  "from_surface kind forbid_opaque_ids reference_only =
     \<lparr>po_kind = kind, po_forbid_opaque_ids = forbid_opaque_ids, po_reference_only = reference_only\<rparr>"

definition opaque_key :: "string \<Rightarrow> bool" where
  "opaque_key key \<longleftrightarrow> key = ''id'' \<or> ends_with ''_id'' key"

definition content_key :: "string \<Rightarrow> bool" where
  "content_key key \<longleftrightarrow> key \<in> {''body'', ''content'', ''text'', ''bytes''}"

definition prose_key :: "string \<Rightarrow> bool" where
  "prose_key key \<longleftrightarrow> key \<in> {''body'', ''payload_preview'', ''analysis'', ''rationale''}"

fun check_keys :: "policy \<Rightarrow> string \<Rightarrow> string list \<Rightarrow> projection_error + unit" where
  "check_keys po path [] = Inr ()"
| "check_keys po path (key # keys) =
     (if po_forbid_opaque_ids po \<and> opaque_key key
      then Inl (Policy (path @ ''.'' @ key) ''opaque identifier fields are forbidden'')
      else if po_reference_only po \<and> content_key key
      then Inl (Policy (path @ ''.'' @ key) ''reference-only surfaces must not inline artifact content'')
      else if po_kind po = Listing \<and> prose_key key
      then Inl (Policy (path @ ''.'' @ key) ''list surfaces must not inline prose bodies'')
      else check_keys po path keys)"

definition index_path :: "string \<Rightarrow> nat \<Rightarrow> string" where
  "index_path path i = path @ ''['' @ show_nat i @ '']''"

fun walk_projection :: "(string \<Rightarrow> 'n obj \<Rightarrow> 'e + unit) \<Rightarrow> 'n json \<Rightarrow> string \<Rightarrow> 'e + unit"
  and walk_fields :: "(string \<Rightarrow> 'n obj \<Rightarrow> 'e + unit) \<Rightarrow> 'n obj \<Rightarrow> string \<Rightarrow> 'e + unit"
  and walk_items :: "(string \<Rightarrow> 'n obj \<Rightarrow> 'e + unit) \<Rightarrow> 'n json list \<Rightarrow> string \<Rightarrow> nat \<Rightarrow> 'e + unit"
where
  "walk_projection visitor (JObject object) path =
     bindE (visitor path object) (\<lambda>_. walk_fields visitor object path)"
| "walk_projection visitor (JArray items) path = walk_items visitor items path 0"
| "walk_projection visitor _ path = Inr ()"
| "walk_fields visitor [] path = Inr ()"
| "walk_fields visitor ((key, child) # object) path =
     bindE (walk_projection visitor child (path @ ''.'' @ key)) (\<lambda>_. walk_fields visitor object path)"
| "walk_items visitor [] path i = Inr ()"
| "walk_items visitor (child # items) path i =
     bindE (walk_projection visitor child (index_path path i)) (\<lambda>_. walk_items visitor items path (Suc i))"

definition validate_projection_policy :: "'n json \<Rightarrow> policy \<Rightarrow> projection_error + unit" where
  "validate_projection_policy v po =
     walk_projection (\<lambda>path object. check_keys po path (map fst object)) v ''$''"

section \<open>Projections\<close>

record 'n projection =
  concise_projection :: "projection_error + 'n json"
  full_projection :: "projection_error + 'n json"
  projection_policy :: policy
  render_porcelain :: "'n json \<Rightarrow> string"

definition structured_projection :: "'n projection \<Rightarrow> detail_level \<Rightarrow> projection_error + 'n json" where
  "structured_projection self detail =
     bindE (case detail of Concise \<Rightarrow> concise_projection self | Full \<Rightarrow> full_projection self) (\<lambda>value.
     bindE (validate_projection_policy value (projection_policy self)) (\<lambda>_. Inr value))"

definition porcelain_projection :: "'n projection \<Rightarrow> detail_level \<Rightarrow> projection_error + string" where
  "porcelain_projection self detail =
     bindE (structured_projection self detail) (\<lambda>value. Inr (render_porcelain self value))"

record 'n fallback =
  fb_concise :: "'n json"
  fb_full :: "'n json"
  fb_kind :: surface_kind
  fb_forbid_opaque_ids :: bool
  fb_reference_only :: bool

definition fallback_with_policy ::
    "'n json option \<Rightarrow> 'n json option \<Rightarrow> surface_kind \<Rightarrow> bool \<Rightarrow> bool \<Rightarrow> projection_error + 'n fallback" where
  "fallback_with_policy concise full kind forbid_opaque_ids reference_only =
     (case concise of
        None \<Rightarrow> Inl Serialize
      | Some c \<Rightarrow>
          (case full of
             None \<Rightarrow> Inl Serialize
           | Some f \<Rightarrow> Inr \<lparr>fb_concise = c, fb_full = f, fb_kind = kind,
               fb_forbid_opaque_ids = forbid_opaque_ids, fb_reference_only = reference_only\<rparr>))"

definition fallback_new :: "'n json option \<Rightarrow> 'n json option \<Rightarrow> surface_kind \<Rightarrow> projection_error + 'n fallback" where
  "fallback_new concise full kind =
     (case concise of
        None \<Rightarrow> Inl Serialize
      | Some c \<Rightarrow>
          (case full of
             None \<Rightarrow> Inl Serialize
           | Some f \<Rightarrow> Inr \<lparr>fb_concise = c, fb_full = f, fb_kind = kind,
               fb_forbid_opaque_ids = True, fb_reference_only = False\<rparr>))"

text \<open>The fallback as a projection: it keeps the default rendering of the trait.\<close>

definition fallback_projection :: "'n extern \<Rightarrow> (nat \<Rightarrow> bool) \<Rightarrow> 'n fallback \<Rightarrow> 'n projection" where
  "fallback_projection X alpha fb =
     \<lparr>concise_projection = Inr (fb_concise fb), full_projection = Inr (fb_full fb),
      projection_policy = from_surface (fb_kind fb) (fb_forbid_opaque_ids fb) (fb_reference_only fb),
      render_porcelain = render_json_porcelain X alpha\<rparr>"

section \<open>Selectors and timestamps\<close>

record selector_ref =
  sr_slug :: string
  sr_title :: "string option"

definition selector_json :: "selector_ref \<Rightarrow> 'n json" where
  "selector_json r = JObject
     ((''slug'', JString (sr_slug r)) #
      (case sr_title r of None \<Rightarrow> [] | Some t \<Rightarrow> [(''title'', JString t)]))"

text \<open>\<open>'d\<close> is \<open>OffsetDateTime\<close>; parsing and formatting RFC 3339 are the crate's.\<close>

record 'd rfc3339 =
  rf_parse :: "string \<Rightarrow> 'd option"
  rf_format :: "'d \<Rightarrow> string option"

datatype timestamp_text = TimestampText string

primrec timestamp_str :: "timestamp_text \<Rightarrow> string" where
  "timestamp_str (TimestampText t) = t"

definition timestamp_try_from :: "'d rfc3339 \<Rightarrow> 'd \<Rightarrow> invariant_violation + timestamp_text" where
  "timestamp_try_from R d = (case rf_format R d of
     None \<Rightarrow> Inl (InvariantViolation ''timestamp is outside the RFC3339 year range'')
   | Some t \<Rightarrow> Inr (TimestampText t))"

definition timestamp_try_new :: "'d rfc3339 \<Rightarrow> string \<Rightarrow> invariant_violation + timestamp_text" where
  "timestamp_try_new R t = (case rf_parse R t of
     None \<Rightarrow> Inl (InvariantViolation ''timestamp text must be valid RFC3339'')
   | Some d \<Rightarrow> timestamp_try_from R d)"

text \<open>Deserialising goes through the constructor; the inner \<open>None\<close> is serde's own type error.\<close>

definition timestamp_deserialize :: "'d rfc3339 \<Rightarrow> 'n json \<Rightarrow> invariant_violation option + timestamp_text" where
  "timestamp_deserialize R v = (case v of
     JString t \<Rightarrow> (case timestamp_try_new R t of Inl e \<Rightarrow> Inl (Some e) | Inr x \<Rightarrow> Inr x)
   | _ \<Rightarrow> Inl None)"

section \<open>The reference: every violation, in document order\<close>

definition key_rule :: "policy \<Rightarrow> string \<Rightarrow> string option" where
  "key_rule po key =
     (if po_forbid_opaque_ids po \<and> opaque_key key then Some ''opaque identifier fields are forbidden''
      else if po_reference_only po \<and> content_key key
      then Some ''reference-only surfaces must not inline artifact content''
      else if po_kind po = Listing \<and> prose_key key then Some ''list surfaces must not inline prose bodies''
      else None)"

definition key_violations :: "policy \<Rightarrow> string \<Rightarrow> string list \<Rightarrow> (string \<times> string) list" where
  "key_violations po path keys =
     List.map_filter (\<lambda>key. map_option (Pair (path @ ''.'' @ key)) (key_rule po key)) keys"

fun violations :: "policy \<Rightarrow> 'n json \<Rightarrow> string \<Rightarrow> (string \<times> string) list"
  and field_violations :: "policy \<Rightarrow> 'n obj \<Rightarrow> string \<Rightarrow> (string \<times> string) list"
  and item_violations :: "policy \<Rightarrow> 'n json list \<Rightarrow> string \<Rightarrow> nat \<Rightarrow> (string \<times> string) list"
where
  "violations po (JObject ob) path = key_violations po path (map fst ob) @ field_violations po ob path"
| "violations po (JArray items) path = item_violations po items path 0"
| "violations po _ path = []"
| "field_violations po [] path = []"
| "field_violations po ((key, child) # ob) path =
     violations po child (path @ ''.'' @ key) @ field_violations po ob path"
| "item_violations po [] path i = []"
| "item_violations po (child # items) path i =
     violations po child (index_path path i) @ item_violations po items path (Suc i)"

definition verdict :: "(string \<times> string) list \<Rightarrow> projection_error + unit" where
  "verdict vs = (case vs of [] \<Rightarrow> Inr () | (path, rule) # _ \<Rightarrow> Inl (Policy path rule))"

lemma verdict_append: "verdict (us @ vs) = bindE (verdict us) (\<lambda>_. verdict vs)"
  by (cases us) (auto simp: verdict_def)

lemma check_keys_verdict: "check_keys po path keys = verdict (key_violations po path keys)"
  by (induction keys) (auto simp: key_violations_def verdict_def key_rule_def List.map_filter_simps)

definition key_visitor :: "policy \<Rightarrow> string \<Rightarrow> 'n obj \<Rightarrow> projection_error + unit" where
  "key_visitor po = (\<lambda>path ob. check_keys po path (map fst ob))"

lemma walk_verdict:
  fixes v :: "'n json" and ob :: "'n obj" and items :: "'n json list"
  shows "walk_projection (key_visitor po) v path = verdict (violations po v path)"
  "walk_fields (key_visitor po) ob path = verdict (field_violations po ob path)"
  "walk_items (key_visitor po) items path i = verdict (item_violations po items path i)"
  by (induction po v path and po ob path and po items path i
      rule: violations_field_violations_item_violations.induct)
    (simp_all add: verdict_append key_visitor_def check_keys_verdict, simp_all add: verdict_def)

lemma validate_verdict: "validate_projection_policy v po = verdict (violations po v ''$'')"
  using walk_verdict(1) [of po v "''$''"] by (simp add: validate_projection_policy_def key_visitor_def)

text \<open>An object that occurs at any depth of a value.\<close>

inductive occurs :: "'n json \<Rightarrow> 'n obj \<Rightarrow> bool" where
  here: "occurs (JObject ob) ob"
| member: "(key, v) \<in> set ms \<Longrightarrow> occurs v ob \<Longrightarrow> occurs (JObject ms) ob"
| element: "v \<in> set vs \<Longrightarrow> occurs v ob \<Longrightarrow> occurs (JArray vs) ob"

inductive_simps occurs_simps: "occurs (JObject ms) ob" "occurs (JArray vs) ob" "occurs JNull ob"
  "occurs (JBool b) ob" "occurs (JNumber n) ob" "occurs (JString t) ob"

lemma key_violations_none: "key_violations po path keys = [] \<longleftrightarrow> (\<forall>key\<in>set keys. key_rule po key = None)"
  by (induction keys) (auto simp: key_violations_def List.map_filter_simps split: option.splits)

definition keys_clean :: "policy \<Rightarrow> 'n obj \<Rightarrow> bool" where
  "keys_clean po ob \<longleftrightarrow> (\<forall>key\<in>set (map fst ob). key_rule po key = None)"

lemma violations_clean:
  fixes v :: "'n json" and ms :: "'n obj" and vs :: "'n json list"
  shows "violations po v path = [] \<longleftrightarrow> (\<forall>ob. occurs v ob \<longrightarrow> keys_clean po ob)"
  "field_violations po ms path = [] \<longleftrightarrow> (\<forall>m\<in>set ms. \<forall>ob. occurs (snd m) ob \<longrightarrow> keys_clean po ob)"
  "item_violations po vs path i = [] \<longleftrightarrow> (\<forall>w\<in>set vs. \<forall>ob. occurs w ob \<longrightarrow> keys_clean po ob)"
proof (induction po v path and po ms path and po vs path i
      rule: violations_field_violations_item_violations.induct)
  case (1 po ob path)
  have "violations po (JObject ob) path = [] \<longleftrightarrow>
      keys_clean po ob \<and> (\<forall>m\<in>set ob. \<forall>ob. occurs (snd m) ob \<longrightarrow> keys_clean po ob)"
    using 1 by (simp add: key_violations_none keys_clean_def)
  also have "\<dots> \<longleftrightarrow> (\<forall>ob'. occurs (JObject ob) ob' \<longrightarrow> keys_clean po ob')"
  proof (intro iffI allI impI conjI ballI)
    fix ob' assume a: "keys_clean po ob \<and> (\<forall>m\<in>set ob. \<forall>ob. occurs (snd m) ob \<longrightarrow> keys_clean po ob)"
      and "occurs (JObject ob) ob'"
    from this(2) consider "ob' = ob" | k w where "(k, w) \<in> set ob" "occurs w ob'" by (auto simp: occurs_simps)
    then show "keys_clean po ob'" using a by cases force+
  next
    assume a: "\<forall>ob'. occurs (JObject ob) ob' \<longrightarrow> keys_clean po ob'"
    then show "keys_clean po ob" using here by blast
    fix m ob' assume "m \<in> set ob" "occurs (snd m) ob'"
    then have "occurs (JObject ob) ob'" using member [of "fst m" "snd m" ob ob'] by simp
    with a show "keys_clean po ob'" by blast
  qed
  finally show ?case .
next
  case (2 po items path)
  then show ?case by (auto simp: occurs_simps)
qed (auto simp: occurs_simps)

lemma violations_none:
  "violations po v path = [] \<longleftrightarrow> (\<forall>ob key. occurs v ob \<and> key \<in> fst ` set ob \<longrightarrow> key_rule po key = None)"
  using violations_clean(1) [of po v path] by (fastforce simp: keys_clean_def)

lemma key_rule_none:
  "key_rule po key = None \<longleftrightarrow> (po_forbid_opaque_ids po \<longrightarrow> \<not> opaque_key key) \<and>
     (po_reference_only po \<longrightarrow> \<not> content_key key) \<and> (po_kind po = Listing \<longrightarrow> \<not> prose_key key)"
  by (simp add: key_rule_def)

text \<open>
  C28. Validation is equivalent to collecting every violation of the policy in document
  order, object before members, and reporting the first: it fails exactly when some object
  at some depth has a forbidden member, and the error names that member's path and rule.
\<close>

theorem policy_first_violation:
  "validate_projection_policy v po =
     (case violations po v ''$'' of [] \<Rightarrow> Inr () | (path, rule) # _ \<Rightarrow> Inl (Policy path rule)) \<and>
   (violations po v ''$'' = [] \<longleftrightarrow>
     (\<forall>ob key. occurs v ob \<and> key \<in> fst ` set ob \<longrightarrow> key_rule po key = None))"
  unfolding validate_verdict verdict_def violations_none by simp

theorem policy_first_violation_witness:
  "validate_projection_policy (JObject [(''a'', JArray [JNull, JObject [(''row_id'', JNull :: u64 json)]])])
     \<lparr>po_kind = Read, po_forbid_opaque_ids = True, po_reference_only = False\<rparr> =
   Inl (Policy ''$.a[1].row_id'' ''opaque identifier fields are forbidden'')"
proof -
  have "show_nat (Suc 0) = ''1''" by code_simp
  then have "violations \<lparr>po_kind = Read, po_forbid_opaque_ids = True, po_reference_only = False\<rparr>
      (JObject [(''a'', JArray [JNull, JObject [(''row_id'', JNull :: u64 json)]])]) ''$'' =
      [(''$.a[1].row_id'', ''opaque identifier fields are forbidden'')]"
    by (simp add: key_violations_def key_rule_def opaque_key_def ends_with_def List.map_filter_simps
        index_path_def)
  then show ?thesis by (subst policy_first_violation [THEN conjunct1]) (simp only: list.case prod.case)
qed

text \<open>
  C29. What a model is shown of a projection is the selected value, complete and within the
  declared policy. For an implementation that keeps the trait's own \<open>render_porcelain\<close>: when
  the structured projection succeeds, the porcelain text exists, a reader of the text gets
  exactly that value, and at no depth does it have a member that the policy of the surface
  forbids. (Of the JSON library it is used that its text of a scalar reads back, and that
  inside a string an escape stands for its character.)
\<close>

theorem projection_within_policy:
  assumes "text_laws X alpha rd" and "render_porcelain self = render_json_porcelain X alpha"
    and "structured_projection self detail = Inr v" and "json_ok v"
  shows "(detail = Concise \<longrightarrow> concise_projection self = Inr v) \<and> (detail = Full \<longrightarrow> full_projection self = Inr v) \<and>
    (\<exists>text. porcelain_projection self detail = Inr text \<and> read_porcelain rd text = Some v) \<and>
    (\<forall>ob key. occurs v ob \<and> key \<in> fst ` set ob \<longrightarrow>
       (po_forbid_opaque_ids (projection_policy self) \<longrightarrow> \<not> opaque_key key) \<and>
       (po_reference_only (projection_policy self) \<longrightarrow> \<not> content_key key) \<and>
       (po_kind (projection_policy self) = Listing \<longrightarrow> \<not> prose_key key))"
proof -
  have sel: "(case detail of Concise \<Rightarrow> concise_projection self | Full \<Rightarrow> full_projection self) = Inr v"
    and "validate_projection_policy v (projection_policy self) = Inr ()"
    using assms(3) by (auto simp: structured_projection_def bindE_Inr_iff)
  then have "violations (projection_policy self) v ''$'' = []"
    unfolding validate_verdict by (auto simp: verdict_def split: list.splits)
  then have clean: "\<forall>ob key. occurs v ob \<and> key \<in> fst ` set ob \<longrightarrow> key_rule (projection_policy self) key = None"
    by (simp add: violations_none)
  have "porcelain_projection self detail = Inr (render_json_porcelain X alpha v)"
    using assms(2,3) by (simp add: porcelain_projection_def)
  moreover have "read_porcelain rd (render_json_porcelain X alpha v) = Some v"
    by (rule rendered_readable [OF assms(1,4)])
  ultimately show ?thesis
    using sel clean by (auto simp: key_rule_none split: detail_level.splits)
qed

definition sample_projection :: "u64 projection" where
  "sample_projection = fallback_projection text_extern latin
     \<lparr>fb_concise = sample_value, fb_full = sample_value, fb_kind = Listing,
      fb_forbid_opaque_ids = True, fb_reference_only = True\<rparr>"

theorem projection_within_policy_witness:
  "structured_projection sample_projection Full = Inr sample_value \<and>
   (\<exists>text. porcelain_projection sample_projection Full = Inr text \<and>
      read_porcelain sample_reader text = Some sample_value)"
proof -
  have r: "render_porcelain sample_projection = render_json_porcelain text_extern latin"
    by (simp add: sample_projection_def fallback_projection_def)
  have j: "json_ok sample_value" by (simp add: sample_value_def)
  have s: "structured_projection sample_projection Full = Inr sample_value"
    by (simp add: structured_projection_def validate_projection_policy_def sample_projection_def
        fallback_projection_def sample_value_def from_surface_def opaque_key_def content_key_def
        prose_key_def ends_with_def)
  from projection_within_policy [OF text_laws_sample r s j] s show ?thesis by simp
qed

text \<open>Timestamp text is canonical: constructing it again from its own text changes nothing.\<close>

lemma timestamp_canonical:
  assumes "\<And>d t. rf_format R d = Some t \<Longrightarrow> rf_parse R t = Some d"
    and "timestamp_try_new R t = Inr x"
  shows "timestamp_try_new R (timestamp_str x) = Inr x"
    and "timestamp_deserialize R (JString (timestamp_str x)) = Inr x"
proof -
  show c: "timestamp_try_new R (timestamp_str x) = Inr x"
    using assms(2) assms(1)
    by (auto simp: timestamp_try_new_def timestamp_try_from_def split: option.splits)
  show "timestamp_deserialize R (JString (timestamp_str x)) = Inr x"
    using c by (simp add: timestamp_deserialize_def)
qed

end
