(* ===== verification/Telemetry.thy ===== *)
theory Telemetry
  imports Render Jsonrpc Framing "HOL-Library.Product_Lexorder" "HOL-Library.Multiset"
begin

text \<open>
  The bounded telemetry log (\<open>telemetry.rs\<close>): the aggregate kept per path, the records,
  the snapshot of hot paths, and the append that keeps the file within its bound.

  The file is its bytes; the logs of several processes share one, and their sections under
  the file lock interleave (\<open>tele_step\<close>). What the system answers
  to one append (\<open>append_answers\<close>) and the clock are arguments of the operations, so every
  failure is possible at every call; a failed write leaves some prefix of its record. The
  JSON encoding of a record (\<open>serde_json::to_vec\<close> on a derived implementation) is the
  argument \<open>enc\<close>.
\<close>

definition telemetry_max_bytes :: nat where
  "telemetry_max_bytes = 8 * 1024 * 1024"

datatype flush_policy = PageCache | Flush | SyncData

datatype tool_outcome = OutcomeOk | OutcomeError

record tool_error_detail =
  td_code :: "u64 option"
  td_kind :: "string option"
  td_message :: "string option"

record path_aggregate =
  pa_request_count :: u64
  pa_error_count :: u64
  pa_total_latency :: u128
  pa_max_latency :: u64

definition default_aggregate :: path_aggregate where
  "default_aggregate = \<lparr>pa_request_count = 0, pa_error_count = 0, pa_total_latency = 0, pa_max_latency = 0\<rparr>"

record 'n tool_event_record =
  te_ts :: u64
  te_repo_root :: string
  te_request_id :: "'n json"
  te_tool_name :: string
  te_lsp_method :: "string option"
  te_path_hint :: "string option"
  te_latency :: u64
  te_replay_attempts :: u8
  te_outcome :: tool_outcome
  te_error_code :: "u64 option"
  te_error_kind :: "string option"
  te_error_message :: "string option"

record hot_path_line =
  hl_path :: string
  hl_request_count :: u64
  hl_error_count :: u64
  hl_avg_latency :: u64
  hl_max_latency :: u64

record hot_paths_record =
  hp_ts :: u64
  hp_repo_root :: string
  hp_total_tool_events :: u64
  hp_hottest :: "hot_path_line list"
  hp_slowest :: "hot_path_line list"

datatype 'n telemetry_record = ToolCallRecord "'n tool_event_record" | HotPathsRecord hot_paths_record

type_synonym 'n encoder = "'n telemetry_record \<Rightarrow> byte list option"

record telemetry_log =
  tl_repo_root :: string
  tl_by_path :: "(string \<times> path_aggregate) list"
  tl_emitted :: u64
  tl_snapshot_every :: u64
  tl_flush_policy :: flush_policy

section \<open>The clock and the file\<close>

text \<open>The clock answers the milliseconds since the epoch, \<open>None\<close> before it.\<close>

definition unix_ms_now :: "nat option \<Rightarrow> io_error + u64" where
  "unix_ms_now clock = (case clock of
     None \<Rightarrow> Inl (OtherIo ''system clock is before the Unix epoch'')
   | Some millis \<Rightarrow>
       if millis < 2 ^ 64 then Inr (of_nat millis)
       else Inl (OtherIo ''Unix timestamp milliseconds exceed u64''))"

record append_answers =
  aa_poisoned :: bool
  aa_lock :: "io_error option"
  aa_metadata :: "io_error option"
  aa_set_len :: "io_error option"
  aa_seek :: "io_error option"
  aa_write :: "(io_error \<times> nat) option"
  aa_sync :: "io_error option"
  aa_unlock :: "io_error option"

definition answer :: "io_error option \<Rightarrow> io_error + unit" where
  "answer a = (case a of None \<Rightarrow> Inr () | Some e \<Rightarrow> Inl e)"

definition write_all :: "append_answers \<Rightarrow> byte list \<Rightarrow> byte list \<Rightarrow> (io_error + unit) \<times> byte list" where
  "write_all ans record file = (case aa_write ans of
     None \<Rightarrow> (Inr (), file @ record)
   | Some (e, n) \<Rightarrow> (Inl e, file @ take n record))"

definition bounded_append :: "append_answers \<Rightarrow> byte list \<Rightarrow> nat \<Rightarrow> byte list \<Rightarrow> (io_error + unit) \<times> byte list" where
  "bounded_append ans record max_bytes file =
     (if length record > max_bytes
      then (Inl (InvalidData ''telemetry record exceeds the log bound''), file)
      else case answer (aa_metadata ans) of
        Inl e \<Rightarrow> (Inl e, file)
      | Inr _ \<Rightarrow>
          let over = min (length file + length record) (2 ^ 64 - 1) > max_bytes in
          if over \<and> aa_set_len ans \<noteq> None then (answer (aa_set_len ans), file)
          else let file' = (if over then [] else file) in
            case answer (aa_seek ans) of
              Inl e \<Rightarrow> (Inl e, file')
            | Inr _ \<Rightarrow> write_all ans record file')"

definition sync_record :: "flush_policy \<Rightarrow> append_answers \<Rightarrow> io_error + unit" where
  "sync_record policy ans = (case policy of PageCache \<Rightarrow> Inr () | _ \<Rightarrow> answer (aa_sync ans))"

definition write_json_line ::
    "'n encoder \<Rightarrow> append_answers \<Rightarrow> flush_policy \<Rightarrow> 'n telemetry_record \<Rightarrow> byte list \<Rightarrow> (io_error + unit) \<times> byte list" where
  "write_json_line enc ans policy value file =
     (case enc value of
        None \<Rightarrow> (Inl (OtherIo ''telemetry serialization failed''), file)
      | Some encoded \<Rightarrow>
          if aa_poisoned ans then (Inl (OtherIo ''telemetry append lock poisoned''), file)
          else case answer (aa_lock ans) of
            Inl e \<Rightarrow> (Inl e, file)
          | Inr _ \<Rightarrow>
              let (appended, file') = bounded_append ans (encoded @ [10]) telemetry_max_bytes file;
                  write_result = bindE appended (\<lambda>_. sync_record policy ans)
              in (bindE write_result (\<lambda>_. answer (aa_unlock ans)), file'))"

section \<open>Aggregates and snapshots\<close>

definition hot_path_line_of :: "string \<times> path_aggregate \<Rightarrow> io_error + hot_path_line" where
  "hot_path_line_of entry =
     (let a = snd entry;
          line = (\<lambda>avg. \<lparr>hl_path = fst entry, hl_request_count = pa_request_count a,
            hl_error_count = pa_error_count a, hl_avg_latency = avg, hl_max_latency = pa_max_latency a\<rparr>)
      in if pa_request_count a = 0 then Inr (line 0)
         else let avg = unat (pa_total_latency a) div unat (pa_request_count a) in
           if avg < 2 ^ 64 then Inr (line (of_nat avg))
           else Inl (OtherIo ''telemetry average latency exceeds u64''))"

fun collect_results :: "('e + 'a) list \<Rightarrow> 'e + 'a list" where
  "collect_results [] = Inr []"
| "collect_results (r # rs) = bindE r (\<lambda>a. bindE (collect_results rs) (\<lambda>as. Inr (a # as)))"

text \<open>The comparators, as keys: descending counts are negated.\<close>

definition hottest_key :: "hot_path_line \<Rightarrow> int \<times> int \<times> string" where
  "hottest_key l = (- uint (hl_request_count l), - uint (hl_max_latency l), hl_path l)"

definition slowest_key :: "hot_path_line \<Rightarrow> int \<times> int \<times> string" where
  "slowest_key l = (- uint (hl_avg_latency l), - uint (hl_request_count l), hl_path l)"

definition hottest_lines :: "(string \<times> path_aggregate) list \<Rightarrow> io_error + hot_path_line list" where
  "hottest_lines by_path =
     bindE (collect_results (map hot_path_line_of by_path)) (\<lambda>ls. Inr (take 12 (sort_key hottest_key ls)))"

definition slowest_lines :: "(string \<times> path_aggregate) list \<Rightarrow> io_error + hot_path_line list" where
  "slowest_lines by_path =
     bindE (collect_results (map hot_path_line_of (filter (\<lambda>e. pa_request_count (snd e) > 0) by_path)))
       (\<lambda>ls. Inr (take 12 (sort_key slowest_key ls)))"

definition hot_paths_snapshot :: "nat option \<Rightarrow> telemetry_log \<Rightarrow> io_error + 'n telemetry_record" where
  "hot_paths_snapshot clock log =
     bindE (hottest_lines (tl_by_path log)) (\<lambda>hottest.
     bindE (slowest_lines (tl_by_path log)) (\<lambda>slowest.
     bindE (unix_ms_now clock) (\<lambda>now.
       Inr (HotPathsRecord \<lparr>hp_ts = now, hp_repo_root = tl_repo_root log,
         hp_total_tool_events = tl_emitted log, hp_hottest = hottest, hp_slowest = slowest\<rparr>))))"

definition write_hot_paths_snapshot ::
    "'n encoder \<Rightarrow> nat option \<Rightarrow> append_answers \<Rightarrow> telemetry_log \<Rightarrow> byte list \<Rightarrow> (io_error + unit) \<times> byte list" where
  "write_hot_paths_snapshot enc clock ans log file =
     (case hot_paths_snapshot clock log of
        Inl e \<Rightarrow> (Inl e, file)
      | Inr snapshot \<Rightarrow> write_json_line enc ans (tl_flush_policy log) snapshot file)"

section \<open>Opening and recording\<close>

text \<open>Creating the parent directory and opening the file are answers of the system.\<close>

definition telemetry_new ::
    "io_error option \<Rightarrow> io_error option \<Rightarrow> string \<Rightarrow> u64 \<Rightarrow> flush_policy \<Rightarrow> io_error + telemetry_log" where
  "telemetry_new created opened repo_root snapshot_every policy =
     (if snapshot_every = 0 then Inl (InvalidInput ''telemetry snapshot interval must be non-zero'')
      else bindE (answer created) (\<lambda>_. bindE (answer opened) (\<lambda>_.
        Inr \<lparr>tl_repo_root = render_path repo_root Absolute None, tl_by_path = [], tl_emitted = 0,
             tl_snapshot_every = snapshot_every, tl_flush_policy = policy\<rparr>)))"

definition ok_or :: "string \<Rightarrow> 'a option \<Rightarrow> io_error + 'a" where
  "ok_or message v = (case v of None \<Rightarrow> Inl (OtherIo message) | Some a \<Rightarrow> Inr a)"

definition update_aggregate :: "path_aggregate \<Rightarrow> u64 \<Rightarrow> bool \<Rightarrow> io_error + path_aggregate" where
  "update_aggregate a latency is_error =
     bindE (ok_or ''telemetry path counter exhausted u64'' (checked_add (pa_request_count a) 1)) (\<lambda>requests.
     bindE (ok_or ''telemetry latency total exhausted u128'' (checked_add (pa_total_latency a) (ucast latency))) (\<lambda>total.
     bindE (if is_error then ok_or ''telemetry error counter exhausted u64'' (checked_add (pa_error_count a) 1)
            else Inr (pa_error_count a)) (\<lambda>errors.
       Inr \<lparr>pa_request_count = requests, pa_error_count = errors, pa_total_latency = total,
            pa_max_latency = max (pa_max_latency a) latency\<rparr>)))"

record 'n completion =
  cm_request_id :: "'n request_id"
  cm_meta :: tool_call_meta
  cm_latency :: u64
  cm_replay_attempts :: u8
  cm_outcome :: tool_outcome
  cm_error :: tool_error_detail

definition tool_record :: "telemetry_log \<Rightarrow> u64 \<Rightarrow> 'n completion \<Rightarrow> 'n tool_event_record" where
  "tool_record log now c =
     \<lparr>te_ts = now, te_repo_root = tl_repo_root log, te_request_id = request_id_to_json (cm_request_id c),
      te_tool_name = tool_text (tm_tool_name (cm_meta c)),
      te_lsp_method = map_option method_text (tm_lsp_method (cm_meta c)),
      te_path_hint = tm_path_hint (cm_meta c), te_latency = cm_latency c,
      te_replay_attempts = cm_replay_attempts c, te_outcome = cm_outcome c,
      te_error_code = td_code (cm_error c), te_error_kind = td_kind (cm_error c),
      te_error_message = td_message (cm_error c)\<rparr>"

text \<open>The update of the aggregate of the hinted path, computed before anything is written.\<close>

definition updated_path ::
    "telemetry_log \<Rightarrow> 'n completion \<Rightarrow> io_error + (string \<times> path_aggregate) option" where
  "updated_path log c = (case tm_path_hint (cm_meta c) of
     None \<Rightarrow> Inr None
   | Some p \<Rightarrow>
       bindE (update_aggregate (case map_of (tl_by_path log) p of None \<Rightarrow> default_aggregate | Some a \<Rightarrow> a)
           (cm_latency c) (cm_outcome c = OutcomeError))
         (\<lambda>a. Inr (Some (p, a))))"

text \<open>
  \<open>record_tool_completion\<close> takes the file lock twice: once to append the record, and once more
  when a snapshot is due. \<open>record_append\<close> is the call up to the end of the first section; its
  result says whether a snapshot is due. Other writers may come between the two.
\<close>

definition record_append ::
    "'n encoder \<Rightarrow> nat option \<Rightarrow> append_answers \<Rightarrow> 'n completion \<Rightarrow> telemetry_log \<Rightarrow> byte list \<Rightarrow>
       (io_error + bool) \<times> telemetry_log \<times> byte list" where
  "record_append enc clock ans c log file =
     (case bindE (unix_ms_now clock) (\<lambda>now.
           bindE (ok_or ''telemetry event counter exhausted u64'' (checked_add (tl_emitted log) 1)) (\<lambda>next_emitted.
           bindE (updated_path log c) (\<lambda>updated. Inr (now, next_emitted, updated)))) of
        Inl e \<Rightarrow> (Inl e, log, file)
      | Inr (now, next_emitted, updated) \<Rightarrow>
          (case write_json_line enc ans (tl_flush_policy log) (ToolCallRecord (tool_record log now c)) file of
             (Inl e, file') \<Rightarrow> (Inl e, log, file')
           | (Inr _, file') \<Rightarrow>
               let by_path = (case updated of None \<Rightarrow> tl_by_path log
                     | Some (p, a) \<Rightarrow> AList.update p a (tl_by_path log))
               in (Inr (next_emitted mod tl_snapshot_every log = 0),
                   log\<lparr>tl_by_path := by_path, tl_emitted := next_emitted\<rparr>, file')))"

record tool_answers =
  ta_clock :: "nat option"
  ta_append :: append_answers
  ta_snapshot_clock :: "nat option"
  ta_snapshot_append :: append_answers

text \<open>The whole call, when no other writer comes between its sections.\<close>

definition record_tool_completion ::
    "'n encoder \<Rightarrow> tool_answers \<Rightarrow> 'n completion \<Rightarrow> telemetry_log \<Rightarrow> byte list \<Rightarrow>
       (io_error + unit) \<times> telemetry_log \<times> byte list" where
  "record_tool_completion enc ans c log file =
     (case record_append enc (ta_clock ans) (ta_append ans) c log file of
        (Inl e, log', file') \<Rightarrow> (Inl e, log', file')
      | (Inr due, log', file') \<Rightarrow>
          if due
          then (let (r, file'') = write_hot_paths_snapshot enc (ta_snapshot_clock ans)
                      (ta_snapshot_append ans) log' file'
                in (r, log', file''))
          else (Inr (), log', file'))"

section \<open>The file\<close>

lemma write_all_length: "length (snd (write_all ans record file)) \<le> length file + length record"
  by (auto simp: write_all_def split: option.splits)

lemma bounded_append_bound:
  assumes "length file \<le> m" and "m < 2 ^ 64 - 1"
  shows "length (snd (bounded_append ans record m file)) \<le> m"
proof -
  have "length (snd (write_all ans record (if min (length file + length record) (2 ^ 64 - 1) > m then [] else file))) \<le> m"
    if "length record \<le> m"
    using that assms write_all_length [of ans "record" "if min (length file + length record) (2 ^ 64 - 1) > m then [] else file"]
    by (auto split: if_splits)
  then show ?thesis
    using assms by (auto simp: bounded_append_def Let_def split: sum.splits)
qed

lemma write_json_line_bound:
  assumes "length file \<le> telemetry_max_bytes"
  shows "length (snd (write_json_line enc ans policy v file)) \<le> telemetry_max_bytes"
proof -
  have "length (snd (bounded_append ans r telemetry_max_bytes file)) \<le> telemetry_max_bytes" for r
    by (rule bounded_append_bound [OF assms]) (simp add: telemetry_max_bytes_def)
  then show ?thesis using assms
    by (auto simp: write_json_line_def Let_def split: option.splits sum.splits prod.splits) (metis snd_conv)
qed

text \<open>The encoded line of a record.\<close>

definition record_line :: "'n encoder \<Rightarrow> 'n telemetry_record \<Rightarrow> byte list" where
  "record_line enc v = (case enc v of Some b \<Rightarrow> b @ [10] | None \<Rightarrow> [])"

section \<open>Several writers of one file\<close>

text \<open>
  Several logs, each of a process of its own, over one file. A step is one section under the
  file lock: the append of a completion's record, the snapshot that append made due, or a
  snapshot asked for. \<open>wr_due\<close> is that the writer is in \<open>record_tool_completion\<close>, between its
  two sections; it begins no other call then (a log is borrowed exclusively by its caller),
  but the steps of the other writers come in any order.
\<close>

record telemetry_writer =
  wr_log :: telemetry_log
  wr_due :: bool

datatype 'n tele_event = Completed nat "'n completion" "nat option" append_answers
  | SnapshotDue nat "nat option" append_answers
  | SnapshotNow nat "nat option" append_answers

type_synonym tele_state = "telemetry_writer list \<times> byte list"

fun tele_step :: "'n encoder \<Rightarrow> tele_state \<Rightarrow> 'n tele_event \<Rightarrow> tele_state" where
  "tele_step enc (ws, file) (Completed i c clock ans) =
     (if i < length ws \<and> \<not> wr_due (ws ! i)
      then let (r, log, file') = record_append enc clock ans c (wr_log (ws ! i)) file
        in (ws[i := \<lparr>wr_log = log, wr_due = (r = Inr True)\<rparr>], file')
      else (ws, file))"
| "tele_step enc (ws, file) (SnapshotDue i clock ans) =
     (if i < length ws \<and> wr_due (ws ! i)
      then (ws[i := (ws ! i)\<lparr>wr_due := False\<rparr>], snd (write_hot_paths_snapshot enc clock ans (wr_log (ws ! i)) file))
      else (ws, file))"
| "tele_step enc (ws, file) (SnapshotNow i clock ans) =
     (if i < length ws \<and> \<not> wr_due (ws ! i)
      then (ws, snd (write_hot_paths_snapshot enc clock ans (wr_log (ws ! i)) file))
      else (ws, file))"

lemma completion_sections:
  assumes "i < length ws" "ws ! i = \<lparr>wr_log = log, wr_due = False\<rparr>"
    and "record_tool_completion enc ans c log file = (r, log', file')"
  shows "foldl (tele_step enc) (ws, file) [Completed i c (ta_clock ans) (ta_append ans),
      SnapshotDue i (ta_snapshot_clock ans) (ta_snapshot_append ans)] =
    (ws[i := \<lparr>wr_log = log', wr_due = False\<rparr>], file')"
  using assms by (auto simp: record_tool_completion_def split: prod.splits sum.splits if_splits)

text \<open>
  The record a step hands to the file, with the system's answers, and whether the append
  succeeded. Most steps have one; a call that fails before it has a record has none.
\<close>

fun attempt :: "'n encoder \<Rightarrow> tele_state \<Rightarrow> 'n tele_event \<Rightarrow> ('n telemetry_record \<times> append_answers \<times> bool) list" where
  "attempt enc (ws, file) (Completed i c clock ans) =
     (let log = wr_log (ws ! i) in
      case unix_ms_now clock of
        Inl _ \<Rightarrow> []
      | Inr now \<Rightarrow>
          if i < length ws \<and> \<not> wr_due (ws ! i) \<and> checked_add (tl_emitted log) 1 \<noteq> None \<and> \<not> isl (updated_path log c)
          then [(ToolCallRecord (tool_record log now c), ans, \<not> isl (fst (record_append enc clock ans c log file)))]
          else [])"
| "attempt enc (ws, file) (SnapshotDue i clock ans) =
     (let log = wr_log (ws ! i) in
      case hot_paths_snapshot clock log of
        Inl _ \<Rightarrow> []
      | Inr v \<Rightarrow>
          if i < length ws \<and> wr_due (ws ! i)
          then [(v, ans, \<not> isl (fst (write_hot_paths_snapshot enc clock ans log file)))]
          else [])"
| "attempt enc (ws, file) (SnapshotNow i clock ans) =
     (let log = wr_log (ws ! i) in
      case hot_paths_snapshot clock log of
        Inl _ \<Rightarrow> []
      | Inr v \<Rightarrow>
          if i < length ws \<and> \<not> wr_due (ws ! i)
          then [(v, ans, \<not> isl (fst (write_hot_paths_snapshot enc clock ans log file)))]
          else [])"

fun attempts :: "'n encoder \<Rightarrow> tele_state \<Rightarrow> 'n tele_event list \<Rightarrow> ('n telemetry_record \<times> append_answers \<times> bool) list" where
  "attempts enc s [] = []"
| "attempts enc s (e # es) = attempt enc s e @ attempts enc (tele_step enc s e) es"

lemma attempts_append: "attempts enc s (es @ fs) = attempts enc s es @ attempts enc (foldl (tele_step enc) s es) fs"
  by (induction es arbitrary: s) simp_all

fun event_answers :: "'n tele_event \<Rightarrow> append_answers" where
  "event_answers (Completed i c clock ans) = ans"
| "event_answers (SnapshotDue i clock ans) = ans"
| "event_answers (SnapshotNow i clock ans) = ans"

fun event_writer :: "'n tele_event \<Rightarrow> nat" where
  "event_writer (Completed i c clock ans) = i"
| "event_writer (SnapshotDue i clock ans) = i"
| "event_writer (SnapshotNow i clock ans) = i"

definition event_policy :: "tele_state \<Rightarrow> 'n tele_event \<Rightarrow> flush_policy" where
  "event_policy s e = tl_flush_policy (wr_log (fst s ! event_writer e))"

definition writes_complete :: "'n tele_event \<Rightarrow> bool" where
  "writes_complete e \<longleftrightarrow> aa_write (event_answers e) = None"

text \<open>A step changes the file by one append of its record, or not at all.\<close>

lemma tele_step_append:
  "attempt enc s e = [] \<and> snd (tele_step enc s e) = snd s \<or>
   (\<exists>v. attempt enc s e =
        [(v, event_answers e, \<not> isl (fst (write_json_line enc (event_answers e) (event_policy s e) v (snd s))))] \<and>
      snd (tele_step enc s e) = snd (write_json_line enc (event_answers e) (event_policy s e) v (snd s)))"
proof -
  obtain ws f where s: "s = (ws, f)" by (cases s)
  show ?thesis
  proof (cases e)
    case (Completed i c clock ans)
    show ?thesis
      by (auto simp: s Completed event_policy_def record_append_def Let_def bindE_def ok_or_def
          split: sum.splits option.splits prod.splits)
  next
    case (SnapshotDue i clock ans)
    show ?thesis
      by (auto simp: s SnapshotDue event_policy_def write_hot_paths_snapshot_def Let_def split: sum.splits)
  next
    case (SnapshotNow i clock ans)
    show ?thesis
      by (auto simp: s SnapshotNow event_policy_def write_hot_paths_snapshot_def Let_def split: sum.splits)
  qed
qed

definition within_bound :: "tele_state \<Rightarrow> bool" where
  "within_bound s \<longleftrightarrow> length (snd s) \<le> telemetry_max_bytes"

lemma within_bound_step: "within_bound s \<Longrightarrow> within_bound (tele_step enc s e)"
  using tele_step_append [of enc s e] write_json_line_bound [of "snd s"] by (auto simp: within_bound_def)

interpretation telemetry_bound: invariant_machine "tele_step enc" within_bound "\<lambda>_. True" for enc
  by unfold_locales (rule within_bound_step)

text \<open>
  What an append does to a file of whole records: it adds the record, or leaves the file, or
  empties it first, and that only when the file and the record exceed the bound together. An
  append that succeeds has added the record.
\<close>

lemma write_json_line_records:
  assumes "list_all (\<lambda>v. enc v \<noteq> None) vs" and "file = concat (map (record_line enc) vs)"
    and "aa_write ans = None"
  shows "\<exists>vs'. list_all (\<lambda>v. enc v \<noteq> None) vs' \<and>
    snd (write_json_line enc ans policy v file) = concat (map (record_line enc) vs') \<and>
    (vs' = vs \<or> vs' = vs @ [v] \<or>
       (vs' = [] \<or> vs' = [v]) \<and> telemetry_max_bytes < length file + length (record_line enc v)) \<and>
    (isl (fst (write_json_line enc ans policy v file)) \<or> vs' = vs @ [v] \<or>
       vs' = [v] \<and> telemetry_max_bytes < length file + length (record_line enc v))"
proof (cases "enc v")
  case None
  show ?thesis by (rule exI [of _ vs]) (use None assms in \<open>simp_all add: write_json_line_def\<close>)
next
  case (Some b)
  let ?r = "bounded_append ans (b @ [10]) telemetry_max_bytes file"
  let ?w = "write_json_line enc ans policy v file"
  have line: "record_line enc v = b @ [10]" by (simp add: record_line_def Some)
  have w: "snd ?w = file \<and> isl (fst ?w) \<or> snd ?w = snd ?r \<and> (\<not> isl (fst ?w) \<longrightarrow> fst ?r = Inr ())"
    by (auto simp: write_json_line_def Some Let_def bindE_def split: sum.splits prod.splits)
  have r: "snd ?r = file \<and> isl (fst ?r) \<or> snd ?r = file @ b @ [10] \<or>
      (snd ?r = [] \<and> isl (fst ?r) \<or> snd ?r = b @ [10]) \<and> telemetry_max_bytes < length file + length (b @ [10])"
    using assms(3) by (auto simp: bounded_append_def write_all_def answer_def Let_def split: option.splits sum.splits)
  consider (keep) "snd ?w = file" "isl (fst ?w)" | (add) "snd ?w = file @ b @ [10]"
    | (clear) "snd ?w = []" "isl (fst ?w)" "telemetry_max_bytes < length file + length (b @ [10])"
    | (fresh) "snd ?w = b @ [10]" "telemetry_max_bytes < length file + length (b @ [10])"
    using w r by (cases "fst ?r") auto
  then show ?thesis
  proof cases
    case keep
    show ?thesis by (rule exI [of _ vs]) (use keep assms in simp_all)
  next
    case add
    show ?thesis by (rule exI [of _ "vs @ [v]"]) (use add assms line Some in simp_all)
  next
    case clear
    show ?thesis by (rule exI [of _ "[]"]) (use clear line in simp_all)
  next
    case fresh
    show ?thesis by (rule exI [of _ "[v]"]) (use fresh line Some in simp_all)
  qed
qed

text \<open>
  The attempts since the file was last emptied, and the records the file holds: all that were
  appended with success since then, and none that was not attempted.
\<close>

definition log_holds ::
    "'n encoder \<Rightarrow> ('n telemetry_record \<times> append_answers \<times> bool) list \<Rightarrow> byte list \<Rightarrow> 'n telemetry_record list \<Rightarrow> bool" where
  "log_holds enc att file vs \<longleftrightarrow> list_all (\<lambda>v. enc v \<noteq> None) vs \<and> file = concat (map (record_line enc) vs) \<and>
     (\<exists>before after. att = before @ after \<and> subseq vs (map fst after) \<and>
        subseq (map fst (filter (\<lambda>(v, ans, ok). ok) after)) vs \<and>
        (before \<noteq> [] \<longrightarrow> after \<noteq> [] \<and> telemetry_max_bytes <
           sum_list (map (\<lambda>x. length (record_line enc (fst x))) (before @ [hd after]))))"

lemma subseq_lengths: "subseq vs us \<Longrightarrow> length (concat (map f vs)) \<le> sum_list (map (length \<circ> f) us)"
  by (induction rule: list_emb.induct) auto

lemma log_holds_step:
  assumes "log_holds enc att file vs" and "aa_write ans = None"
  shows "\<exists>vs'. log_holds enc (att @ [(v, ans, \<not> isl (fst (write_json_line enc ans policy v file)))])
    (snd (write_json_line enc ans policy v file)) vs'"
proof -
  let ?x = "(v, ans, \<not> isl (fst (write_json_line enc ans policy v file)))"
  obtain before after where h: "list_all (\<lambda>v. enc v \<noteq> None) vs" "file = concat (map (record_line enc) vs)"
      "att = before @ after" "subseq vs (map fst after)" "subseq (map fst (filter (\<lambda>(v, ans, ok). ok) after)) vs"
      "before \<noteq> [] \<longrightarrow> after \<noteq> [] \<and> telemetry_max_bytes <
         sum_list (map (\<lambda>x. length (record_line enc (fst x))) (before @ [hd after]))"
    using assms(1) unfolding log_holds_def by blast
  obtain vs' where w: "list_all (\<lambda>v. enc v \<noteq> None) vs'"
      "snd (write_json_line enc ans policy v file) = concat (map (record_line enc) vs')"
      "vs' = vs \<or> vs' = vs @ [v] \<or>
         (vs' = [] \<or> vs' = [v]) \<and> telemetry_max_bytes < length file + length (record_line enc v)"
      "isl (fst (write_json_line enc ans policy v file)) \<or> vs' = vs @ [v] \<or>
         vs' = [v] \<and> telemetry_max_bytes < length file + length (record_line enc v)"
    using write_json_line_records [OF h(1,2) assms(2), of policy v] by (elim exE conjE)
  show ?thesis
  proof (cases "(vs' = [] \<or> vs' = [v]) \<and> telemetry_max_bytes < length file + length (record_line enc v)
      \<and> (isl (fst (write_json_line enc ans policy v file)) \<or> vs' = [v])")
    case True
    have "length file \<le> sum_list (map (length \<circ> record_line enc) (map fst after))"
      unfolding h(2) by (rule subseq_lengths [OF h(4)])
    then have "telemetry_max_bytes <
        sum_list (map (\<lambda>x. length (record_line enc (fst x))) ((before @ after) @ [hd [?x]]))"
      using True by (simp add: comp_def)
    with True w(1,2) show ?thesis unfolding log_holds_def h(3)
      by (intro exI [of _ vs'] conjI exI [of _ "before @ after"] exI [of _ "[?x]"]) auto
  next
    case False
    then have k: "vs' = vs \<and> isl (fst (write_json_line enc ans policy v file)) \<or> vs' = vs @ [v]" using w(3,4) by blast
    have "subseq vs' (map fst (after @ [?x]))" "subseq (map fst (filter (\<lambda>(v, ans, ok). ok) (after @ [?x]))) vs'"
      using k h(4,5) by (auto intro: list_emb_append_mono subseq_order.trans)
    moreover have "before \<noteq> [] \<longrightarrow> after @ [?x] \<noteq> [] \<and> telemetry_max_bytes <
         sum_list (map (\<lambda>x. length (record_line enc (fst x))) (before @ [hd (after @ [?x])]))"
      using h(6) by auto
    ultimately show ?thesis unfolding log_holds_def h(3) using w(1,2)
      by (intro exI [of _ vs'] conjI exI [of _ before] exI [of _ "after @ [?x]"]) auto
  qed
qed

lemma log_holds_run:
  "list_all writes_complete es \<Longrightarrow>
     \<exists>vs. log_holds enc (attempts enc (ws, []) es) (snd (foldl (tele_step enc) (ws, []) es)) vs"
proof (induction es rule: rev_induct)
  case Nil
  show ?case by (rule exI [of _ "[]"]) (simp add: log_holds_def)
next
  case (snoc e es)
  let ?s = "foldl (tele_step enc) (ws, []) es"
  obtain vs where vs: "log_holds enc (attempts enc (ws, []) es) (snd ?s) vs" using snoc by auto
  have "aa_write (event_answers e) = None" using snoc.prems by (simp add: writes_complete_def)
  note next_step = log_holds_step [OF vs this]
  from tele_step_append [of enc ?s e] show ?case
  proof (elim disjE exE conjE)
    assume "attempt enc ?s e = []" "snd (tele_step enc ?s e) = snd ?s"
    with vs show ?thesis by (auto simp: attempts_append)
  next
    fix v
    assume "attempt enc ?s e = [(v, event_answers e, \<not> isl (fst (write_json_line enc (event_answers e) (event_policy ?s e) v (snd ?s))))]"
      "snd (tele_step enc ?s e) = snd (write_json_line enc (event_answers e) (event_policy ?s e) v (snd ?s))"
    with next_step [of v "event_policy ?s e"] show ?thesis by (simp add: attempts_append)
  qed
qed

text \<open>Without a failure an append of a record that fits succeeds.\<close>

definition calm_append :: append_answers where
  "calm_append = \<lparr>aa_poisoned = False, aa_lock = None, aa_metadata = None, aa_set_len = None,
     aa_seek = None, aa_write = None, aa_sync = None, aa_unlock = None\<rparr>"

lemma calm_write:
  "enc v = Some b \<Longrightarrow> length b < telemetry_max_bytes \<Longrightarrow> \<not> isl (fst (write_json_line enc calm_append policy v file))"
  by (auto simp: write_json_line_def bounded_append_def write_all_def answer_def sync_record_def calm_append_def
      Let_def split: flush_policy.split)

lemma calm_attempts:
  assumes "(v, calm_append, ok) \<in> set (attempts enc s es)" and "enc v = Some b" and "length b < telemetry_max_bytes"
  shows "ok"
  using assms(1)
proof (induction es arbitrary: s)
  case (Cons e es)
  then consider "(v, calm_append, ok) \<in> set (attempt enc s e)" | "(v, calm_append, ok) \<in> set (attempts enc (tele_step enc s e) es)"
    by auto
  then show ?case
  proof cases
    case 1
    with tele_step_append [of enc s e] calm_write [of enc v b, OF assms(2,3)] show ?thesis by auto
  qed (rule Cons.IH)
qed simp

section \<open>The aggregates count the events\<close>

type_synonym 'n call = "'n completion \<times> tool_answers \<times> byte list"

text \<open>
  The history of one log: its calls with the file each of them finds, whatever the other
  writers did to it. A call is counted when its record was written.
\<close>

definition tele_call :: "'n encoder \<Rightarrow> telemetry_log \<Rightarrow> 'n call \<Rightarrow> telemetry_log" where
  "tele_call enc log call = (case call of (c, ans, file) \<Rightarrow> fst (snd (record_tool_completion enc ans c log file)))"

definition recorded :: "'n encoder \<Rightarrow> telemetry_log \<Rightarrow> 'n call \<Rightarrow> bool" where
  "recorded enc log call = (case call of (c, ans, file) \<Rightarrow>
     (\<exists>now n u. unix_ms_now (ta_clock ans) = Inr now \<and> checked_add (tl_emitted log) 1 = Some n \<and>
        updated_path log c = Inr u \<and>
        fst (write_json_line enc (ta_append ans) (tl_flush_policy log) (ToolCallRecord (tool_record log now c)) file) = Inr ()))"

fun history :: "'n encoder \<Rightarrow> telemetry_log \<Rightarrow> 'n call list \<Rightarrow> 'n completion list" where
  "history enc log [] = []"
| "history enc log (call # calls) =
     (if recorded enc log call then [fst call] else []) @ history enc (tele_call enc log call) calls"

definition on_path :: "string \<Rightarrow> 'n completion list \<Rightarrow> 'n completion list" where
  "on_path p h = filter (\<lambda>c. tm_path_hint (cm_meta c) = Some p) h"

definition counts :: "'n completion list \<Rightarrow> path_aggregate \<Rightarrow> bool" where
  "counts cs a \<longleftrightarrow> cs \<noteq> [] \<and> unat (pa_request_count a) = length cs \<and>
     unat (pa_error_count a) = length (filter (\<lambda>c. cm_outcome c = OutcomeError) cs) \<and>
     unat (pa_total_latency a) = sum_list (map (unat \<circ> cm_latency) cs) \<and>
     (\<forall>c\<in>set cs. cm_latency c \<le> pa_max_latency a) \<and> pa_max_latency a \<in> cm_latency ` set cs"

definition log_counts :: "telemetry_log \<Rightarrow> 'n completion list \<Rightarrow> bool" where
  "log_counts log h \<longleftrightarrow> unat (tl_emitted log) = length h \<and> alist_ok (tl_by_path log) \<and>
     (\<forall>p. map_of (tl_by_path log) p = None \<longrightarrow> on_path p h = []) \<and>
     (\<forall>p a. map_of (tl_by_path log) p = Some a \<longrightarrow> counts (on_path p h) a)"

lemma on_path_simps [simp]: "on_path p (h @ k) = on_path p h @ on_path p k"
  "on_path p [c] = (if tm_path_hint (cm_meta c) = Some p then [c] else [])"
  by (simp_all add: on_path_def)

lemma unat_ucast_u128 [simp]: "unat (ucast (l :: u64) :: u128) = unat l"
proof -
  have "unat l < 2 ^ 64" using unsigned_less [of l, where 'a = nat] by simp
  then have "unat l < 2 ^ 128" by simp
  then show ?thesis by (simp add: unsigned_ucast_eq take_bit_nat_eq_self)
qed

lemma ok_or_Some [simp]: "ok_or m (Some a) = Inr a"
  by (simp add: ok_or_def)

lemma ok_or_Inr [simp]: "ok_or m v = Inr a \<longleftrightarrow> v = Some a"
  by (auto simp: ok_or_def split: option.splits)

lemma update_aggregate_Inr:
  assumes "update_aggregate a l e = Inr b"
  shows "unat (pa_request_count b) = unat (pa_request_count a) + 1"
    "unat (pa_error_count b) = unat (pa_error_count a) + (if e then 1 else 0)"
    "unat (pa_total_latency b) = unat (pa_total_latency a) + unat l"
    "pa_max_latency b = max (pa_max_latency a) l"
  using assms
  by (auto simp: update_aggregate_def bindE_Inr_iff dest!: checked_add_Some split: if_splits)

lemma counts_snoc:
  assumes "cs \<noteq> [] \<longrightarrow> counts cs a" and "cs = [] \<longrightarrow> a = default_aggregate"
    and "update_aggregate a (cm_latency c) (cm_outcome c = OutcomeError) = Inr b"
  shows "counts (cs @ [c]) b"
proof (cases "cs = []")
  case True
  with assms(2) update_aggregate_Inr [OF assms(3)] show ?thesis
    by (auto simp: counts_def default_aggregate_def)
next
  case False
  with assms(1) have "counts cs a" by blast
  with update_aggregate_Inr [OF assms(3)] show ?thesis
    by (auto simp: counts_def max_def intro: order.trans)
qed

lemma completion_log:
  "fst (snd (record_tool_completion enc ans c log file)) =
    (if recorded enc log (c, ans, file)
     then (case updated_path log c of Inr u \<Rightarrow>
        log\<lparr>tl_by_path := (case u of None \<Rightarrow> tl_by_path log | Some (p, a) \<Rightarrow> AList.update p a (tl_by_path log)),
            tl_emitted := tl_emitted log + 1\<rparr> | Inl _ \<Rightarrow> log)
     else log)"
  by (auto simp: record_tool_completion_def record_append_def recorded_def bindE_Inr_iff checked_add_def Let_def
      split: sum.splits prod.splits if_splits) 

lemma call_counts:
  assumes "log_counts log h"
  shows "log_counts (tele_call enc log call) (h @ (if recorded enc log call then [fst call] else []))"
proof -
  obtain c ans f where call: "call = (c, ans, f)" by (cases call)
  show ?thesis
  proof (cases "recorded enc log call")
    case True
    then obtain n u where n: "checked_add (tl_emitted log) 1 = Some n" and u: "updated_path log c = Inr u"
      by (auto simp: recorded_def call)
    have e: "unat (tl_emitted log + 1) = length h + 1"
      using checked_add_Some [OF n] n assms by (auto simp: log_counts_def checked_add_def split: if_splits)
    show ?thesis
    proof (cases "tm_path_hint (cm_meta c)")
      case None
      with u have "u = None" by (simp add: updated_path_def)
      with assms e True u None show ?thesis
        by (auto simp: log_counts_def tele_call_def call completion_log)
    next
      case (Some p)
      let ?a = "case map_of (tl_by_path log) p of None \<Rightarrow> default_aggregate | Some a \<Rightarrow> a"
      from Some u obtain b where b: "update_aggregate ?a (cm_latency c) (cm_outcome c = OutcomeError) = Inr b"
        and ub: "u = Some (p, b)" by (auto simp: updated_path_def bindE_Inr_iff)
      have "counts (on_path p h @ [c]) b"
        using assms by (intro counts_snoc [OF _ _ b])
          (auto simp: log_counts_def counts_def split: option.splits)
      with assms e True u ub Some show ?thesis
        by (auto simp: log_counts_def tele_call_def call completion_log lookup_simps)
    qed
  next
    case False
    then show ?thesis using assms by (simp add: tele_call_def call completion_log)
  qed
qed

lemma calls_count:
  "log_counts log h \<Longrightarrow> log_counts (foldl (tele_call enc) log calls) (h @ history enc log calls)"
proof (induction calls arbitrary: log h)
  case (Cons call calls)
  from Cons.IH [OF call_counts [OF Cons.prems, of enc call]] show ?case by simp
qed simp

section \<open>The hot-path snapshot\<close>

lemma take_sorted:
  fixes k :: "'a \<Rightarrow> 'b::linorder" and n :: nat
  assumes "distinct xs" and "inj_on k (set xs)"
  defines "t \<equiv> take n (sort_key k xs)"
  shows "sorted_wrt (\<lambda>a b. k a < k b) t" "length t = min n (length xs)" "set t \<subseteq> set xs"
    "\<lbrakk>x \<in> set xs; x \<notin> set t; y \<in> set t\<rbrakk> \<Longrightarrow> k y < k x"
proof -
  have s: "sorted_wrt (\<lambda>a b. k a < k b) (sort_key k xs)" by (rule strict_sort_key [OF assms(1,2)])
  then show "sorted_wrt (\<lambda>a b. k a < k b) t" unfolding t_def by (rule sorted_wrt_take)
  show "length t = min n (length xs)" by (simp add: t_def min.commute)
  show "set t \<subseteq> set xs" unfolding t_def by (metis set_sort set_take_subset)
  assume x: "x \<in> set xs" "x \<notin> set t" and y: "y \<in> set t"
  have "sort_key k xs = t @ drop n (sort_key k xs)" by (simp add: t_def)
  moreover from this x have "x \<in> set (drop n (sort_key k xs))" by (metis Un_iff set_append set_sort)
  ultimately show "k y < k x" using s y by (metis sorted_wrt_append)
qed

text \<open>The line of an aggregate that counts some events: its average never exceeds its maximum.\<close>

definition exact_line :: "string \<times> path_aggregate \<Rightarrow> hot_path_line" where
  "exact_line e = \<lparr>hl_path = fst e, hl_request_count = pa_request_count (snd e),
     hl_error_count = pa_error_count (snd e),
     hl_avg_latency = of_nat (unat (pa_total_latency (snd e)) div unat (pa_request_count (snd e))),
     hl_max_latency = pa_max_latency (snd e)\<rparr>"

lemma sum_list_le_length: "(\<And>x. x \<in> set xs \<Longrightarrow> f x \<le> m) \<Longrightarrow> sum_list (map f xs) \<le> length xs * m" for f :: "'a \<Rightarrow> nat"
  by (induction xs) (auto intro: add_mono)

lemma counts_average:
  assumes "counts cs a"
  shows "0 < unat (pa_request_count a)"
    "unat (pa_total_latency a) div unat (pa_request_count a) \<le> unat (pa_max_latency a)"
proof -
  show pos: "0 < unat (pa_request_count a)" using assms by (auto simp: counts_def)
  have "unat (pa_total_latency a) \<le> unat (pa_request_count a) * unat (pa_max_latency a)"
    using assms sum_list_le_length [of cs "unat \<circ> cm_latency" "unat (pa_max_latency a)"]
    by (auto simp: counts_def word_le_nat_alt)
  then have "unat (pa_total_latency a) div unat (pa_request_count a)
      \<le> unat (pa_request_count a) * unat (pa_max_latency a) div unat (pa_request_count a)"
    by (rule div_le_mono)
  with pos show "unat (pa_total_latency a) div unat (pa_request_count a) \<le> unat (pa_max_latency a)" by simp
qed

lemma hot_path_line_counts:
  assumes "counts cs (snd e)"
  shows "hot_path_line_of e = Inr (exact_line e)" "pa_request_count (snd e) > 0"
    "hl_avg_latency (exact_line e) \<le> hl_max_latency (exact_line e)"
proof -
  note c = counts_average [OF assms]
  have lt: "unat (pa_total_latency (snd e)) div unat (pa_request_count (snd e)) < 2 ^ 64"
    using c(2) unsigned_less [of "pa_max_latency (snd e)", where 'a = nat] by simp
  show p: "pa_request_count (snd e) > 0" using c(1) by (simp add: word_less_nat_alt)
  then have "pa_request_count (snd e) \<noteq> 0" by auto
  with lt show "hot_path_line_of e = Inr (exact_line e)"
    by (simp add: hot_path_line_of_def exact_line_def Let_def)
  show "hl_avg_latency (exact_line e) \<le> hl_max_latency (exact_line e)"
    using c(2) lt by (simp add: exact_line_def word_le_nat_alt unat_of_nat take_bit_nat_eq_self)
qed

lemma collect_results_Inr: "collect_results (map Inr xs) = Inr xs"
  by (induction xs) auto

lemma snapshot_lines:
  assumes "log_counts log h"
  shows "hottest_lines (tl_by_path log) = Inr (take 12 (sort_key hottest_key (map exact_line (tl_by_path log))))"
    and "slowest_lines (tl_by_path log) = Inr (take 12 (sort_key slowest_key (map exact_line (tl_by_path log))))"
proof -
  have c: "counts (on_path (fst e) h) (snd e)" if "e \<in> set (tl_by_path log)" for e
    using assms that alist_mem [of "tl_by_path log" "fst e" "snd e"] by (simp add: log_counts_def)
  have ls: "map hot_path_line_of (tl_by_path log) = map Inr (map exact_line (tl_by_path log))"
    using hot_path_line_counts(1) [OF c] by simp
  have all: "filter (\<lambda>e. 0 < pa_request_count (snd e)) (tl_by_path log) = tl_by_path log"
    using hot_path_line_counts(2) [OF c] by simp
  show "hottest_lines (tl_by_path log) = Inr (take 12 (sort_key hottest_key (map exact_line (tl_by_path log))))"
    unfolding hottest_lines_def ls collect_results_Inr by simp
  show "slowest_lines (tl_by_path log) = Inr (take 12 (sort_key slowest_key (map exact_line (tl_by_path log))))"
    unfolding slowest_lines_def all ls collect_results_Inr by simp
qed

lemma exact_lines_keys:
  assumes "alist_ok al"
  shows "distinct (map exact_line al)" "inj_on hottest_key (set (map exact_line al))"
    "inj_on slowest_key (set (map exact_line al))"
proof -
  have inj: "inj_on (hl_path \<circ> exact_line) (set al)"
    using assms by (auto simp: alist_ok_def exact_line_def distinct_map comp_def)
  then have path: "inj_on hl_path (set (map exact_line al))" by (simp add: inj_on_imageI)
  have "distinct al" using assms by (auto simp: alist_ok_def distinct_map)
  with inj show "distinct (map exact_line al)" by (simp add: distinct_map inj_on_imageI2)
  show "inj_on hottest_key (set (map exact_line al))" "inj_on slowest_key (set (map exact_line al))"
    using path by (auto simp: inj_on_def hottest_key_def slowest_key_def)
qed

lemma new_counts: "telemetry_new created opened root every policy = Inr log \<Longrightarrow> log_counts log []"
  by (auto simp: telemetry_new_def bindE_Inr_iff log_counts_def on_path_def split: if_splits)

lemma run_counts:
  assumes "telemetry_new created opened root every policy = Inr log0"
  shows "log_counts (foldl (tele_call enc) log0 calls) (history enc log0 calls)"
  using calls_count [OF new_counts [OF assms], of enc calls] by simp

section \<open>Properties\<close>

text \<open>
  C31. The aggregates are exact: after any calls on a log, interleaved with any changes of
  the file by others, the event counter is the number of completions whose record was
  written, and the aggregate of a path counts those that hinted at it, with their errors,
  the sum of their latencies without wrap-around, and their maximum; a path without such
  a completion has no aggregate.
\<close>

theorem telemetry_counts_calls:
  fixes enc :: "'n encoder" and calls :: "'n call list"
  assumes "telemetry_new created opened root every policy = Inr log0"
  defines "log \<equiv> foldl (tele_call enc) log0 calls" and "h \<equiv> history enc log0 calls"
  shows "unat (tl_emitted log) = length h \<and>
    (case map_of (tl_by_path log) p of
       None \<Rightarrow> on_path p h = []
     | Some a \<Rightarrow> on_path p h \<noteq> [] \<and> unat (pa_request_count a) = length (on_path p h) \<and>
         unat (pa_error_count a) = length (filter (\<lambda>c. cm_outcome c = OutcomeError) (on_path p h)) \<and>
         unat (pa_total_latency a) = sum_list (map (unat \<circ> cm_latency) (on_path p h)) \<and>
         pa_max_latency a = Max (cm_latency ` set (on_path p h)))"
proof -
  have l: "log_counts log h" unfolding log_def h_def by (rule run_counts [OF assms(1)])
  have "pa_max_latency a = Max (cm_latency ` set cs)" if "counts cs a" for cs :: "'n completion list" and a
    using that by (intro Max_eqI [symmetric]) (auto simp: counts_def)
  note max = this
  show ?thesis
  proof (cases "map_of (tl_by_path log) p")
    case (Some a)
    with l have "counts (on_path p h) a" by (simp add: log_counts_def)
    with max [OF this] l Some show ?thesis by (simp add: log_counts_def counts_def)
  qed (use l in \<open>simp add: log_counts_def\<close>)
qed

text \<open>
  A snapshot of hot paths always exists and is exact: its two lists hold the lines of
  the at most twelve paths that come first, by requests, maximum and name, or by average,
  requests and name, in strict order; every other path comes after all of them; no average
  exceeds its maximum; and neither list depends on the iteration order of the hash map.
\<close>

theorem hot_paths_exact:
  fixes enc :: "'n encoder" and calls :: "'n call list"
  assumes "telemetry_new created opened root every policy = Inr log0"
  defines "by_path \<equiv> tl_by_path (foldl (tele_call enc) log0 calls)"
  shows "\<exists>hot slow. hottest_lines by_path = Inr hot \<and> slowest_lines by_path = Inr slow \<and>
    sorted_wrt (\<lambda>a b. hottest_key a < hottest_key b) hot \<and> sorted_wrt (\<lambda>a b. slowest_key a < slowest_key b) slow \<and>
    length hot = min 12 (length by_path) \<and> length slow = min 12 (length by_path) \<and>
    (\<forall>l\<in>set hot \<union> set slow. l \<in> exact_line ` set by_path \<and> hl_avg_latency l \<le> hl_max_latency l) \<and>
    (\<forall>l\<in>exact_line ` set by_path - set hot. \<forall>m\<in>set hot. hottest_key m < hottest_key l) \<and>
    (\<forall>l\<in>exact_line ` set by_path - set slow. \<forall>m\<in>set slow. slowest_key m < slowest_key l) \<and>
    (\<forall>order. mset order = mset by_path \<longrightarrow> hottest_lines order = Inr hot \<and> slowest_lines order = Inr slow)"
proof -
  define h where "h = history enc log0 calls"
  have l: "log_counts (foldl (tele_call enc) log0 calls) h" unfolding h_def by (rule run_counts [OF assms(1)])
  then have ok: "alist_ok by_path" by (simp add: log_counts_def by_path_def)
  let ?ls = "map exact_line by_path"
  note k = exact_lines_keys [OF ok]
  note hot = take_sorted [OF k(1) k(2), where n = 12] and slow = take_sorted [OF k(1) k(3), where n = 12]
  have avg: "hl_avg_latency l \<le> hl_max_latency l" if "l \<in> exact_line ` set by_path" for l
  proof -
    from that obtain e where e: "l = exact_line e" "e \<in> set by_path" by auto
    then have "counts (on_path (fst e) h) (snd e)"
      using l ok alist_mem [of by_path "fst e" "snd e"] by (simp add: log_counts_def by_path_def)
    then show ?thesis unfolding e(1) by (rule hot_path_line_counts(3))
  qed
  have free: "hottest_lines order = Inr (take 12 (sort_key hottest_key ?ls)) \<and>
      slowest_lines order = Inr (take 12 (sort_key slowest_key ?ls))" if "mset order = mset by_path" for order
  proof -
    let ?log = "foldl (tele_call enc) log0 calls"
    have set: "set order = set by_path" using that by (rule mset_eq_setD)
    have "mset (map fst order) = mset (map fst by_path)" using that by simp
    then have "alist_ok order" using ok unfolding alist_ok_def by (metis mset_eq_imp_distinct_iff)
    moreover from this have "map_of order = map_of by_path"
      using set ok unfolding alist_ok_def by (simp add: map_of_inject_set)
    ultimately have "log_counts (?log\<lparr>tl_by_path := order\<rparr>) h"
      using l by (simp add: log_counts_def by_path_def)
    from snapshot_lines [OF this] have "hottest_lines order = Inr (take 12 (sort_key hottest_key (map exact_line order)))"
      "slowest_lines order = Inr (take 12 (sort_key slowest_key (map exact_line order)))" by simp_all
    moreover have "mset (map exact_line order) = mset ?ls" using that by simp
    moreover have "set (map exact_line order) = set ?ls" using set by simp
    ultimately show ?thesis
      using k(2,3) sort_key_eq_sort_key [of "map exact_line order" ?ls hottest_key]
        sort_key_eq_sort_key [of "map exact_line order" ?ls slowest_key] by simp
  qed
  show ?thesis
    using hot slow avg free free [OF refl]
    by (intro exI [of _ "take 12 (sort_key hottest_key ?ls)"] exI [of _ "take 12 (sort_key slowest_key ?ls)"])
      (auto dest: subsetD)
qed

text \<open>
  A write that the system cuts short breaks the next record too: the prefix it leaves
  is not removed, and the record written next is appended to it on the same line, so that
  line is neither record. The log is record-atomic only while every write is complete.
\<close>

theorem torn_record_corrupts_next:
  assumes "enc v1 = Some b1" and "enc v2 = Some b2"
    and "0 < n" and "n < length b1" and "length file + n + length b2 + length b1 < telemetry_max_bytes"
    and "aa_write ans1 = Some (e, n)" and "answer (aa_metadata ans1) = Inr ()" and "answer (aa_seek ans1) = Inr ()"
    and "\<not> aa_poisoned ans1" and "aa_lock ans1 = None"
  shows "write_json_line enc ans1 policy v1 file = (Inl e, file @ take n b1) \<and>
    write_json_line enc \<lparr>aa_poisoned = False, aa_lock = None, aa_metadata = None, aa_set_len = None,
      aa_seek = None, aa_write = None, aa_sync = None, aa_unlock = None\<rparr> policy v2 (file @ take n b1) =
      (Inr (), file @ (take n b1 @ b2) @ [10])"
  using assms
  by (auto simp: write_json_line_def bounded_append_def write_all_def answer_def sync_record_def
      telemetry_max_bytes_def split: flush_policy.split)

definition sample_encoder :: "u64 encoder" where
  "sample_encoder v = (case v of ToolCallRecord _ \<Rightarrow> Some [123, 49, 125] | HotPathsRecord _ \<Rightarrow> Some [123, 50, 125])"

definition sample_completion :: "u64 completion" where
  "sample_completion = \<lparr>cm_request_id = IdNumber 7,
     cm_meta = \<lparr>tm_tool_name = ToolName ''hover'', tm_lsp_method = None, tm_path_hint = Some ''/a''\<rparr>,
     cm_latency = 12, cm_replay_attempts = 0, cm_outcome = OutcomeOk,
     cm_error = \<lparr>td_code = None, td_kind = None, td_message = None\<rparr>\<rparr>"

definition sample_answers :: tool_answers where
  "sample_answers = \<lparr>ta_clock = Some 5, ta_append = calm_append, ta_snapshot_clock = Some 6,
     ta_snapshot_append = calm_append\<rparr>"

definition sample_log :: telemetry_log where
  "sample_log = \<lparr>tl_repo_root = ''/r'', tl_by_path = [], tl_emitted = 0, tl_snapshot_every = 1, tl_flush_policy = Flush\<rparr>"

lemma sample_new: "telemetry_new None None ''/r'' 1 Flush = Inr sample_log"
  by (simp add: telemetry_new_def answer_def render_path_def sample_log_def)

lemma sample_record:
  "record_tool_completion sample_encoder sample_answers sample_completion sample_log [] =
     (Inr (), sample_log\<lparr>tl_by_path := [(''/a'', \<lparr>pa_request_count = 1, pa_error_count = 0,
        pa_total_latency = 12, pa_max_latency = 12\<rparr>)], tl_emitted := 1\<rparr>,
      [123, 49, 125, 10, 123, 50, 125, 10])"
  by (simp add: record_tool_completion_def record_append_def hot_paths_snapshot_def sample_answers_def sample_completion_def sample_log_def calm_append_def
      sample_encoder_def unix_ms_now_def updated_path_def update_aggregate_def default_aggregate_def
      checked_add_def write_json_line_def bounded_append_def write_all_def answer_def sync_record_def
      write_hot_paths_snapshot_def hottest_lines_def slowest_lines_def hot_path_line_of_def telemetry_max_bytes_def)

definition sample_snapshot :: hot_paths_record where
  "sample_snapshot = \<lparr>hp_ts = 0, hp_repo_root = ''/r'', hp_total_tool_events = 0, hp_hottest = [], hp_slowest = []\<rparr>"

theorem torn_record_corrupts_next_witness:
  "write_json_line sample_encoder (calm_append\<lparr>aa_write := Some (OtherIo ''disk full'', 2)\<rparr>) Flush
     (ToolCallRecord (tool_record sample_log 0 sample_completion)) [] = (Inl (OtherIo ''disk full''), [123, 49]) \<and>
   write_json_line sample_encoder calm_append Flush (HotPathsRecord sample_snapshot) [123, 49] =
     (Inr (), [123, 49, 123, 50, 125, 10])"
  using torn_record_corrupts_next [of sample_encoder "ToolCallRecord (tool_record sample_log 0 sample_completion)"
      "[123, 49, 125]" "HotPathsRecord sample_snapshot" "[123, 50, 125]" 2 "[]"
      "calm_append\<lparr>aa_write := Some (OtherIo ''disk full'', 2)\<rparr>" "OtherIo ''disk full''" Flush]
  by (simp add: sample_encoder_def calm_append_def telemetry_max_bytes_def answer_def)

theorem telemetry_counts_calls_witness:
  "map_of (tl_by_path (foldl (tele_call sample_encoder) sample_log [(sample_completion, sample_answers, [])])) ''/a''
     = Some \<lparr>pa_request_count = 1, pa_error_count = 0, pa_total_latency = 12, pa_max_latency = 12\<rparr> \<and>
   length (history sample_encoder sample_log [(sample_completion, sample_answers, [])]) = 1"
proof -
  have l: "foldl (tele_call sample_encoder) sample_log [(sample_completion, sample_answers, [])] =
      sample_log\<lparr>tl_by_path := [(''/a'', \<lparr>pa_request_count = 1, pa_error_count = 0,
        pa_total_latency = 12, pa_max_latency = 12\<rparr>)], tl_emitted := 1\<rparr>"
    by (simp add: tele_call_def sample_record)
  from telemetry_counts_calls [OF sample_new, of sample_encoder "[(sample_completion, sample_answers, [])]"]
  show ?thesis unfolding l by simp
qed

theorem hot_paths_exact_witness:
  "\<exists>hot slow. hottest_lines (tl_by_path (foldl (tele_call sample_encoder) sample_log
       [(sample_completion, sample_answers, [])])) = Inr hot \<and>
     slowest_lines (tl_by_path (foldl (tele_call sample_encoder) sample_log
       [(sample_completion, sample_answers, [])])) = Inr slow \<and> length hot = 1 \<and> length slow = 1"
proof -
  have l: "tl_by_path (foldl (tele_call sample_encoder) sample_log [(sample_completion, sample_answers, [])]) =
      [(''/a'', \<lparr>pa_request_count = 1, pa_error_count = 0, pa_total_latency = 12, pa_max_latency = 12\<rparr>)]"
    by (simp add: tele_call_def sample_record)
  show ?thesis
    using hot_paths_exact [OF sample_new, of sample_encoder "[(sample_completion, sample_answers, [])]"]
    unfolding l by auto
qed

end
