(* ===== verification/Derive.thy ===== *)
theory Derive
  imports Projection
begin

text \<open>
  The derive macros (\<open>libmcp-derive\<close>): the attributes they accept, the errors they report
  and what the implementations they generate compute.

  A declaration is the part of the syntax tree of \<open>syn\<close> that the macros look at. An
  attribute holds the metas of its parenthesised list, \<open>None\<close> when it has no such list;
  \<open>SynError\<close> is an error raised by the parser of \<open>syn\<close> itself. The meaning of the generated
  code is a function of an instance: what each field serialises to. Bounds added to the
  where clause, tokens and spans are left out.
\<close>

section \<open>Declarations\<close>

datatype meta_value = LitStr string | PathValue string | OtherValue

datatype meta_arg = Bare | Assigned meta_value | Parenthesised

record meta_item =
  mi_path :: string
  mi_arg :: meta_arg

record attribute =
  at_path :: string
  at_metas :: "meta_item list option"

datatype type_shape = TypePath bool "string list" | OtherType

record field_decl =
  fd_ident :: string
  fd_type :: type_shape
  fd_attrs :: "attribute list"

datatype fields_shape = NamedFields "field_decl list" | UnnamedFields | UnitFields

datatype data_shape = StructData fields_shape | EnumData | UnionData

record derive_input =
  di_attrs :: "attribute list"
  di_data :: data_shape

datatype derive_error = SynError | OnlyStructs | RequiresNamedFields
  | DuplicatePorcelain | DuplicateKind | UnknownKind | UnsupportedContainerAttribute
  | FlagTakesNoValue | DuplicateFlag | UnsupportedFieldAttribute
  | SkipWithDetail | FullAndConcise | SkipNoneRequiresOption | SelectorAndTitle
  | OneFieldPerMarker string | NeedsSlugField | CrateNotFound

section \<open>Attributes of the container\<close>

definition surface_kind_of :: "string \<Rightarrow> surface_kind option" where
  "surface_kind_of text =
     (let t = map to_ascii_lowercase (trim text) in
      if t = ''overview'' then Some Overview
      else if t = ''list'' then Some Listing
      else if t = ''read'' then Some Read
      else if t = ''mutation'' then Some Mutation
      else if t = ''ops'' then Some Operations
      else None)"

record container_attrs =
  ca_kind :: surface_kind
  ca_kind_seen :: bool
  ca_reference_only :: bool
  ca_allow_opaque_ids :: bool
  ca_porcelain :: "string option"

definition default_container :: container_attrs where
  "default_container = \<lparr>ca_kind = Read, ca_kind_seen = False, ca_reference_only = False,
     ca_allow_opaque_ids = False, ca_porcelain = None\<rparr>"

definition set_flag :: "bool \<Rightarrow> meta_arg \<Rightarrow> derive_error + bool" where
  "set_flag slot arg =
     (if arg \<noteq> Bare then Inl FlagTakesNoValue
      else if slot then Inl DuplicateFlag else Inr True)"

definition container_meta :: "container_attrs \<Rightarrow> meta_item \<Rightarrow> derive_error + container_attrs" where
  "container_meta parsed meta =
     (if mi_path meta = ''porcelain'' then
        (if ca_porcelain parsed \<noteq> None then Inl DuplicatePorcelain
         else case mi_arg meta of
           Assigned (PathValue p) \<Rightarrow> Inr (parsed\<lparr>ca_porcelain := Some p\<rparr>)
         | _ \<Rightarrow> Inl SynError)
      else if mi_path meta = ''kind'' then
        (if ca_kind_seen parsed then Inl DuplicateKind
         else case mi_arg meta of
           Assigned (LitStr t) \<Rightarrow>
             (case surface_kind_of t of
                None \<Rightarrow> Inl UnknownKind
              | Some k \<Rightarrow> Inr (parsed\<lparr>ca_kind := k, ca_kind_seen := True\<rparr>))
         | _ \<Rightarrow> Inl SynError)
      else if mi_path meta = ''reference_only'' then
        bindE (set_flag (ca_reference_only parsed) (mi_arg meta)) (\<lambda>b. Inr (parsed\<lparr>ca_reference_only := b\<rparr>))
      else if mi_path meta = ''allow_opaque_ids'' then
        bindE (set_flag (ca_allow_opaque_ids parsed) (mi_arg meta)) (\<lambda>b. Inr (parsed\<lparr>ca_allow_opaque_ids := b\<rparr>))
      else Inl UnsupportedContainerAttribute)"

text \<open>\<open>parse_nested_meta\<close> on every attribute named \<open>libmcp\<close>, in order.\<close>

fun fold_metas :: "('s \<Rightarrow> meta_item \<Rightarrow> derive_error + 's) \<Rightarrow> 's \<Rightarrow> meta_item list \<Rightarrow> derive_error + 's" where
  "fold_metas f s [] = Inr s"
| "fold_metas f s (m # ms) = bindE (f s m) (\<lambda>s'. fold_metas f s' ms)"

fun fold_attrs :: "('s \<Rightarrow> meta_item \<Rightarrow> derive_error + 's) \<Rightarrow> 's \<Rightarrow> attribute list \<Rightarrow> derive_error + 's" where
  "fold_attrs f s [] = Inr s"
| "fold_attrs f s (a # as) =
     (if at_path a \<noteq> ''libmcp'' then fold_attrs f s as
      else case at_metas a of
        None \<Rightarrow> Inl SynError
      | Some ms \<Rightarrow> bindE (fold_metas f s ms) (\<lambda>s'. fold_attrs f s' as))"

definition parse_container_attrs :: "attribute list \<Rightarrow> derive_error + container_attrs" where
  "parse_container_attrs attrs = fold_attrs container_meta default_container attrs"

section \<open>Attributes of a field\<close>

datatype field_flag = Selector | Title | Skip | SkipNone | FullOnly | ConciseOnly

type_synonym field_flags = "field_flag list"

definition flag_of :: "string \<Rightarrow> field_flag option" where
  "flag_of name =
     (if name = ''selector'' then Some Selector
      else if name = ''title'' then Some Title
      else if name = ''skip'' then Some Skip
      else if name = ''skip_none'' then Some SkipNone
      else if name = ''full_only'' \<or> name = ''full'' then Some FullOnly
      else if name = ''concise_only'' then Some ConciseOnly
      else None)"

definition insert_field_flag :: "field_flags \<Rightarrow> field_flag \<Rightarrow> meta_arg \<Rightarrow> derive_error + field_flags" where
  "insert_field_flag flags flag arg =
     (if arg \<noteq> Bare then Inl FlagTakesNoValue
      else if flag \<in> set flags then Inl DuplicateFlag else Inr (flags @ [flag]))"

definition field_meta :: "field_flags \<Rightarrow> meta_item \<Rightarrow> derive_error + field_flags" where
  "field_meta flags meta = (case flag_of (mi_path meta) of
     None \<Rightarrow> Inl UnsupportedFieldAttribute
   | Some flag \<Rightarrow> insert_field_flag flags flag (mi_arg meta))"

definition is_option :: "type_shape \<Rightarrow> bool" where
  "is_option ty = (case ty of
     TypePath qself segments \<Rightarrow> \<not> qself \<and> segments \<noteq> [] \<and> last segments = ''Option''
   | OtherType \<Rightarrow> False)"

definition projected :: "field_flags \<Rightarrow> bool" where
  "projected flags \<longleftrightarrow> Skip \<notin> set flags"

definition in_concise :: "field_flags \<Rightarrow> bool" where
  "in_concise flags \<longleftrightarrow> projected flags \<and> FullOnly \<notin> set flags"

definition in_full :: "field_flags \<Rightarrow> bool" where
  "in_full flags \<longleftrightarrow> projected flags \<and> ConciseOnly \<notin> set flags"

definition parse_field_attrs :: "field_decl \<Rightarrow> derive_error + field_flags" where
  "parse_field_attrs field =
     bindE (fold_attrs field_meta [] (fd_attrs field)) (\<lambda>flags.
       if Skip \<in> set flags \<and> list_ex (\<lambda>flag. flag \<in> set flags) [SkipNone, FullOnly, ConciseOnly]
       then Inl SkipWithDetail
       else if FullOnly \<in> set flags \<and> ConciseOnly \<in> set flags then Inl FullAndConcise
       else if SkipNone \<in> set flags \<and> \<not> is_option (fd_type field) then Inl SkipNoneRequiresOption
       else if Selector \<in> set flags \<and> Title \<in> set flags then Inl SelectorAndTitle
       else Inr flags)"

fun parse_fields :: "field_decl list \<Rightarrow> derive_error + (field_decl \<times> field_flags) list" where
  "parse_fields [] = Inr []"
| "parse_fields (field # members) =
     bindE (parse_field_attrs field) (\<lambda>flags. bindE (parse_fields members) (\<lambda>ps. Inr ((field, flags) # ps)))"

definition named_fields :: "data_shape \<Rightarrow> derive_error + field_decl list" where
  "named_fields d = (case d of
     StructData (NamedFields members) \<Rightarrow> Inr members
   | StructData _ \<Rightarrow> Inl RequiresNamedFields
   | _ \<Rightarrow> Inl OnlyStructs)"

text \<open>\<open>Ident::unraw\<close>: a raw identifier without its prefix.\<close>

definition field_ident :: "field_decl \<Rightarrow> string" where
  "field_ident field =
     (if starts_with ''r#'' (fd_ident field) then drop 2 (fd_ident field) else fd_ident field)"

section \<open>The projections\<close>

text \<open>
  What a field of an instance serialises to: an \<open>Option\<close> by its content, any other type by
  the result of \<open>serde_json::to_value\<close>, \<open>None\<close> for its error.
\<close>

datatype 'n field_value = Value "'n json option" | NoneValue | SomeValue "'n json option"

type_synonym 'n inst = "string \<Rightarrow> 'n field_value"

definition to_value :: "'n field_value \<Rightarrow> 'n json option" where
  "to_value v = (case v of Value r \<Rightarrow> r | NoneValue \<Rightarrow> Some JNull | SomeValue r \<Rightarrow> r)"

definition insert_value :: "string \<Rightarrow> 'n json option \<Rightarrow> 'n obj \<Rightarrow> projection_error + 'n obj" where
  "insert_value key r object = (case r of None \<Rightarrow> Inl Serialize | Some v \<Rightarrow> Inr (obj_insert key v object))"

text \<open>The statement generated for one field.\<close>

definition project_field :: "'n inst \<Rightarrow> field_decl \<times> field_flags \<Rightarrow> 'n obj \<Rightarrow> projection_error + 'n obj" where
  "project_field self p object =
     (let key = field_ident (fst p); v = self (fd_ident (fst p)) in
      if SkipNone \<in> set (snd p)
      then (case v of SomeValue r \<Rightarrow> insert_value key r object | _ \<Rightarrow> Inr object)
      else insert_value key (to_value v) object)"

fun project_fields :: "'n inst \<Rightarrow> (field_decl \<times> field_flags) list \<Rightarrow> 'n obj \<Rightarrow> projection_error + 'n obj" where
  "project_fields self [] object = Inr object"
| "project_fields self (p # ps) object = bindE (project_field self p object) (project_fields self ps)"

record derived_projection =
  dp_concise :: "(field_decl \<times> field_flags) list"
  dp_full :: "(field_decl \<times> field_flags) list"
  dp_kind :: surface_kind
  dp_forbid_opaque_ids :: bool
  dp_reference_only :: bool
  dp_porcelain :: "string option"

definition expand_tool_projection :: "bool \<Rightarrow> derive_input \<Rightarrow> derive_error + derived_projection" where
  "expand_tool_projection crate_found input =
     bindE (named_fields (di_data input)) (\<lambda>members.
     bindE (parse_container_attrs (di_attrs input)) (\<lambda>container.
     bindE (parse_fields members) (\<lambda>parsed.
       if \<not> crate_found then Inl CrateNotFound
       else Inr \<lparr>dp_concise = filter (in_concise \<circ> snd) parsed, dp_full = filter (in_full \<circ> snd) parsed,
         dp_kind = ca_kind container, dp_forbid_opaque_ids = \<not> ca_allow_opaque_ids container,
         dp_reference_only = ca_reference_only container, dp_porcelain = ca_porcelain container\<rparr>)))"


section \<open>The selector\<close>

definition unique_marked_field ::
    "(field_decl \<times> field_flags) list \<Rightarrow> field_flag \<Rightarrow> string \<Rightarrow> derive_error + field_decl option" where
  "unique_marked_field members flag marker =
     (case filter (\<lambda>p. flag \<in> set (snd p)) members of
        [] \<Rightarrow> Inr None
      | [p] \<Rightarrow> Inr (Some (fst p))
      | _ \<Rightarrow> Inl (OneFieldPerMarker marker))"

definition named_field :: "string \<Rightarrow> (field_decl \<times> field_flags) list \<Rightarrow> field_decl option" where
  "named_field name members = map_option fst (List.find (\<lambda>p. field_ident (fst p) = name) members)"

record derived_selector =
  ds_slug :: field_decl
  ds_title :: "field_decl option"

definition expand_selector_projection :: "bool \<Rightarrow> derive_input \<Rightarrow> derive_error + derived_selector" where
  "expand_selector_projection crate_found input =
     bindE (parse_container_attrs (di_attrs input)) (\<lambda>_.
     bindE (named_fields (di_data input)) (\<lambda>members.
     bindE (parse_fields members) (\<lambda>parsed.
       if \<not> crate_found then Inl CrateNotFound
       else bindE (unique_marked_field parsed Selector ''selector'') (\<lambda>marked.
         case or_else marked (named_field ''slug'' parsed) of
           None \<Rightarrow> Inl NeedsSlugField
         | Some slug \<Rightarrow>
             bindE (unique_marked_field parsed Title ''title'') (\<lambda>titled.
               Inr \<lparr>ds_slug = slug, ds_title = or_else titled (named_field ''title'' parsed)\<rparr>)))))"

text \<open>\<open>texts\<close> is the text of each field after \<open>clone().into()\<close>.\<close>

definition derived_selector_ref :: "derived_selector \<Rightarrow> (string \<Rightarrow> string) \<Rightarrow> selector_ref" where
  "derived_selector_ref d texts =
     \<lparr>sr_slug = texts (fd_ident (ds_slug d)),
      sr_title = map_option (\<lambda>f. texts (fd_ident f)) (ds_title d)\<rparr>"

section \<open>The declarations that are accepted\<close>

text \<open>The metas of the attributes named \<open>libmcp\<close>, \<open>None\<close> when one of them has no list.\<close>

definition libmcp_metas :: "attribute list \<Rightarrow> meta_item list option" where
  "libmcp_metas attrs = map_option concat (those (map at_metas (filter (\<lambda>a. at_path a = ''libmcp'') attrs)))"

lemma fold_metas_append: "fold_metas f s (ms @ ns) = bindE (fold_metas f s ms) (\<lambda>s'. fold_metas f s' ns)"
  by (induction ms arbitrary: s) (auto simp: bindE_def split: sum.splits)

lemma fold_attrs_metas:
  "fold_attrs f s attrs = Inr t \<longleftrightarrow> (\<exists>ms. libmcp_metas attrs = Some ms \<and> fold_metas f s ms = Inr t)"
proof (induction attrs arbitrary: s)
  case (Cons a attrs)
  show ?case
  proof (cases "at_path a = ''libmcp'' \<and> at_metas a \<noteq> None")
    case True
    then obtain ms where "at_path a = ''libmcp''" "at_metas a = Some ms" by auto
    then show ?thesis
      by (auto simp: libmcp_metas_def Cons.IH fold_metas_append bindE_Inr_iff)
  qed (auto simp: libmcp_metas_def Cons.IH)
qed (simp add: libmcp_metas_def)

text \<open>The reference: a declaration is well formed when\<close>

definition meta_flag :: "meta_item \<Rightarrow> field_flag option" where
  "meta_flag m = flag_of (mi_path m)"

definition container_ok :: "meta_item \<Rightarrow> bool" where
  "container_ok m \<longleftrightarrow>
     (mi_path m = ''porcelain'' \<and> (\<exists>p. mi_arg m = Assigned (PathValue p))) \<or>
     (mi_path m = ''kind'' \<and> (\<exists>t. mi_arg m = Assigned (LitStr t) \<and> surface_kind_of t \<noteq> None)) \<or>
     (mi_path m \<in> {''reference_only'', ''allow_opaque_ids''} \<and> mi_arg m = Bare)"

definition container_well_formed :: "attribute list \<Rightarrow> bool" where
  "container_well_formed attrs \<longleftrightarrow>
     (\<exists>ms. libmcp_metas attrs = Some ms \<and> list_all container_ok ms \<and> distinct (map mi_path ms))"

definition field_well_formed :: "field_decl \<Rightarrow> bool" where
  "field_well_formed field \<longleftrightarrow> (\<exists>ms. libmcp_metas (fd_attrs field) = Some ms \<and>
     list_all (\<lambda>m. meta_flag m \<noteq> None \<and> mi_arg m = Bare) ms \<and>
     distinct (map meta_flag ms) \<and>
     (let flags = set (List.map_filter meta_flag ms) in
        (Skip \<in> flags \<longrightarrow> flags \<inter> {SkipNone, FullOnly, ConciseOnly} = {}) \<and>
        \<not> {FullOnly, ConciseOnly} \<subseteq> flags \<and> \<not> {Selector, Title} \<subseteq> flags \<and>
        (SkipNone \<in> flags \<longrightarrow> is_option (fd_type field))))"

lemma set_flag_Inr: "set_flag slot arg = Inr b \<longleftrightarrow> arg = Bare \<and> \<not> slot \<and> b"
  by (auto simp: set_flag_def)

text \<open>The state of the container after some metas says which of them were seen.\<close>

definition container_seen :: "container_attrs \<Rightarrow> string \<Rightarrow> bool" where
  "container_seen c p \<longleftrightarrow> p = ''porcelain'' \<and> ca_porcelain c \<noteq> None \<or> p = ''kind'' \<and> ca_kind_seen c \<or>
     p = ''reference_only'' \<and> ca_reference_only c \<or> p = ''allow_opaque_ids'' \<and> ca_allow_opaque_ids c"

lemma container_meta_seen:
  "(\<exists>d. container_meta c m = Inr d) \<longleftrightarrow> container_ok m \<and> \<not> container_seen c (mi_path m)" (is ?ok)
  "container_meta c m = Inr d \<Longrightarrow> container_seen d p \<longleftrightarrow> p = mi_path m \<or> container_seen c p" (is "_ \<Longrightarrow> ?seen")
proof -
  note defs = container_meta_def container_ok_def container_seen_def set_flag_Inr bindE_Inr_iff
  consider "mi_path m = ''porcelain''" | "mi_path m = ''kind''" | "mi_path m = ''reference_only''"
    | "mi_path m = ''allow_opaque_ids''"
    | "mi_path m \<notin> {''porcelain'', ''kind'', ''reference_only'', ''allow_opaque_ids''}" by blast
  then have ok: ?ok
  proof cases
    case 1
    then show ?thesis by (cases "mi_arg m") (simp_all add: defs split: meta_value.split)
  next
    case 2
    then show ?thesis by (cases "mi_arg m") (simp_all add: defs split: meta_value.split option.split)
  qed (simp_all add: defs, blast+)
  have seen: ?seen if m: "container_meta c m = Inr d"
  proof -
    consider q where "mi_path m = ''porcelain''" "d = c\<lparr>ca_porcelain := Some q\<rparr>"
      | k where "mi_path m = ''kind''" "d = c\<lparr>ca_kind := k, ca_kind_seen := True\<rparr>"
      | "mi_path m = ''reference_only''" "d = c\<lparr>ca_reference_only := True\<rparr>"
      | "mi_path m = ''allow_opaque_ids''" "d = c\<lparr>ca_allow_opaque_ids := True\<rparr>"
      using m by (auto simp: container_meta_def set_flag_Inr bindE_Inr_iff
          split: if_splits meta_arg.splits meta_value.splits option.splits)
    then show ?thesis by cases (auto simp: container_seen_def)
  qed
  show ?ok by (rule ok)
  show "container_meta c m = Inr d \<Longrightarrow> ?seen" by (rule seen)
qed

lemma container_fold:
  "(\<exists>d. fold_metas container_meta c ms = Inr d) \<longleftrightarrow>
     list_all container_ok ms \<and> distinct (map mi_path ms) \<and> (\<forall>m\<in>set ms. \<not> container_seen c (mi_path m))"
proof (induction ms arbitrary: c)
  case (Cons m ms)
  show ?case
  proof (cases "\<exists>d. container_meta c m = Inr d")
    case True
    then obtain d where d: "container_meta c m = Inr d" by blast
    have "(\<exists>e. fold_metas container_meta c (m # ms) = Inr e) \<longleftrightarrow> list_all container_ok ms \<and>
        distinct (map mi_path ms) \<and> (\<forall>n\<in>set ms. \<not> (mi_path n = mi_path m \<or> container_seen c (mi_path n)))"
      using Cons.IH [of d] by (simp add: d container_meta_seen(2) [OF d])
    moreover have "container_ok m \<and> \<not> container_seen c (mi_path m)"
      using True container_meta_seen(1) by blast
    ultimately show ?thesis by (simp add: image_iff) metis
  next
    case False
    then show ?thesis using container_meta_seen(1) [of c m] by (auto simp: bindE_Inr_iff)
  qed
qed simp

lemma container_accepted: "(\<exists>c. parse_container_attrs attrs = Inr c) \<longleftrightarrow> container_well_formed attrs"
  using container_fold [of default_container]
  by (auto simp: parse_container_attrs_def fold_attrs_metas container_well_formed_def container_seen_def
      default_container_def)

lemma map_filter_mem: "y \<in> set (List.map_filter f xs) \<longleftrightarrow> Some y \<in> f ` set xs"
  by (induction xs) (auto simp: List.map_filter_simps split: option.splits)

lemma field_meta_Inr:
  "field_meta flags m = Inr gs \<longleftrightarrow> (\<exists>flag. meta_flag m = Some flag \<and> mi_arg m = Bare \<and>
     flag \<notin> set flags \<and> gs = flags @ [flag])"
  by (auto simp: field_meta_def meta_flag_def insert_field_flag_def split: option.splits)

lemma field_fold:
  "fold_metas field_meta flags ms = Inr gs \<longleftrightarrow>
     list_all (\<lambda>m. meta_flag m \<noteq> None \<and> mi_arg m = Bare) ms \<and>
     distinct (map meta_flag ms) \<and>
     set flags \<inter> set (List.map_filter meta_flag ms) = {} \<and>
     gs = flags @ List.map_filter meta_flag ms"
proof (induction ms arbitrary: flags)
  case (Cons m ms)
  show ?case
  proof (cases "meta_flag m")
    case (Some flag)
    have "Some flag \<in> meta_flag ` set ms \<longleftrightarrow> flag \<in> set (List.map_filter meta_flag ms)"
      by (rule map_filter_mem [symmetric])
    then show ?thesis using Some
      by (auto simp: field_meta_Inr bindE_Inr_iff Cons.IH List.map_filter_simps)
  qed (simp add: field_meta_Inr bindE_Inr_iff)
qed (auto simp: List.map_filter_simps)

lemma field_accepted: "(\<exists>flags. parse_field_attrs field = Inr flags) \<longleftrightarrow> field_well_formed field"
  by (auto simp: parse_field_attrs_def field_well_formed_def bindE_Inr_iff fold_attrs_metas field_fold Let_def
      split: if_splits)

lemma members_accepted: "(\<exists>ps. parse_fields ms = Inr ps) \<longleftrightarrow> list_all field_well_formed ms"
proof (induction ms)
  case (Cons m ms)
  then show ?case using field_accepted [of m] by (auto simp: bindE_Inr_iff)
qed simp



lemma parsed_flags:
  assumes "parse_field_attrs f = Inr flags"
  shows "Skip \<in> set flags \<Longrightarrow> SkipNone \<notin> set flags \<and> FullOnly \<notin> set flags \<and> ConciseOnly \<notin> set flags"
    and "\<not> (FullOnly \<in> set flags \<and> ConciseOnly \<in> set flags)"
  using assms by (auto simp: parse_field_attrs_def bindE_Inr_iff split: if_splits)

section \<open>What the generated code computes\<close>

text \<open>The member a field contributes to a projection that includes it.\<close>

definition contributes :: "'n inst \<Rightarrow> field_decl \<times> field_flags \<Rightarrow> 'n json option" where
  "contributes self p =
     (if SkipNone \<in> set (snd p)
      then (case self (fd_ident (fst p)) of SomeValue r \<Rightarrow> r | _ \<Rightarrow> None)
      else to_value (self (fd_ident (fst p))))"

definition serialisable :: "'n inst \<Rightarrow> field_decl \<times> field_flags \<Rightarrow> bool" where
  "serialisable self p \<longleftrightarrow> to_value (self (fd_ident (fst p))) \<noteq> None \<or>
     SkipNone \<in> set (snd p) \<and> self (fd_ident (fst p)) = Value None"

lemma project_field_cases:
  "project_field self p ob =
     (if serialisable self p
      then Inr (case contributes self p of None \<Rightarrow> ob | Some v \<Rightarrow> obj_insert (field_ident (fst p)) v ob)
      else Inl Serialize)"
  by (cases "self (fd_ident (fst p))")
    (auto simp: project_field_def insert_value_def contributes_def serialisable_def to_value_def Let_def
      split: option.splits)


lemma project_fields_result:
  assumes "distinct (map (field_ident \<circ> fst) ps)" and "obj_ok ob"
  shows "project_fields self ps ob =
      (if list_all (serialisable self) ps then Inr (foldl (\<lambda>o' p. case contributes self p of None \<Rightarrow> o'
         | Some v \<Rightarrow> obj_insert (field_ident (fst p)) v o') ob ps) else Inl Serialize)"
  by (induction ps arbitrary: ob) (auto simp: project_field_cases)




section \<open>Properties\<close>

text \<open>
  C32. The derive accepts exactly the well-formed declarations: a struct with named fields,
  whose container attributes are known, well-typed and given once, and whose every field
  carries known bare flags, each once, without \<open>skip\<close> beside a detail flag, both detail
  flags, both markers, or \<open>skip_none\<close> on a type that is not an \<open>Option\<close>.
\<close>

theorem derive_accepts_exactly:
  "(\<exists>d. expand_tool_projection crate_found input = Inr d) \<longleftrightarrow>
     crate_found \<and> container_well_formed (di_attrs input) \<and>
     (\<exists>ms. di_data input = StructData (NamedFields ms) \<and> list_all field_well_formed ms)"
proof (cases "di_data input")
  case (StructData shape)
  then show ?thesis
    using container_accepted [of "di_attrs input"] members_accepted
    by (cases shape) (auto simp: expand_tool_projection_def named_fields_def bindE_Inr_iff)
qed (simp_all add: expand_tool_projection_def named_fields_def)














text \<open>
  The check that selector and title identify different fields sees one field's flags only:
  a title marker on the field that is the slug by its name is accepted, and both parts of
  the reference are then that one field.
\<close>

lemma title_on_slug_field:
  "expand_selector_projection True \<lparr>di_attrs = [], di_data = StructData (NamedFields
     [\<lparr>fd_ident = ''slug'', fd_type = TypePath False [''String''],
        fd_attrs = [\<lparr>at_path = ''libmcp'', at_metas = Some [\<lparr>mi_path = ''title'', mi_arg = Bare\<rparr>]\<rparr>]\<rparr>])\<rparr> = Inr d \<Longrightarrow>
   derived_selector_ref d texts = \<lparr>sr_slug = texts ''slug'', sr_title = Some (texts ''slug'')\<rparr>"
  by (auto simp: expand_selector_projection_def parse_container_attrs_def named_fields_def parse_field_attrs_def
      field_meta_def flag_of_def insert_field_flag_def unique_marked_field_def named_field_def field_ident_def
      starts_with_def or_else_def derived_selector_ref_def default_container_def bindE_Inr_iff)

end
