(* ===== verification/ReleaseRun.thy ===== *)
theory ReleaseRun
  imports Release
begin

text \<open>
  The release runtime embedded in a host (\<open>rollout.rs\<close>): discovering how the process was
  started, observing the selected release, and handing the session to a successor process.

  Instants and the settling time are nanoseconds. The environment is a map of variables;
  \<open>utf8\<close> says which values are UTF-8. The system calls on files are \<open>release_os\<close>.

  The two-phase handoff runs in two processes over one socket: \<open>parent_step\<close> and
  \<open>child_step\<close> have one rule per statement of \<open>finish_handoff\<close> and \<open>admit_successor\<close> that
  waits, reads, writes or fails, and \<open>gate_step\<close> is either of them, the passing of time or the
  arrival of public input, so the processes interleave at these points. The errors that a
  situation brings about (a timeout, an end, a closed peer) have rules of their own; those a
  call may answer besides are a set \<open>F\<close>, so that safety is proved for every \<open>F\<close> and existence
  for the empty one. The builds for systems other than Unix are left out.
\<close>

section \<open>The runtime\<close>

type_synonym vars = "string \<Rightarrow> string option"

definition channel_env :: string where "channel_env = ''LIBMCP_RELEASE_CHANNEL''"
definition generation_env :: string where "generation_env = ''LIBMCP_RELEASE_GENERATION''"
definition socket_env :: string where "socket_env = ''LIBMCP_HANDOFF_SOCKET''"

definition settle_time :: nat where "settle_time = 200 * 1000 * 1000"

record fingerprint =
  fp_length :: u64
  fp_modified :: nat
  fp_device :: u64
  fp_inode :: u64

definition fingerprint_of :: "release_os \<Rightarrow> path \<Rightarrow> io_error + fingerprint" where
  "fingerprint_of os p =
     bindE (os_stat os p) (\<lambda>meta.
       if \<not> om_is_file meta then Inl (InvalidData ''release executable must be a regular file'')
       else Inr \<lparr>fp_length = om_len meta, fp_modified = om_modified meta, fp_device = om_dev meta,
                 fp_inode = om_ino meta\<rparr>)"

datatype observation = ObservedIncumbent | SuccessorSettling | SuccessorReady

definition rollout_pending :: "observation \<Rightarrow> bool" where
  "rollout_pending ob \<longleftrightarrow> ob \<noteq> ObservedIncumbent"

definition rollout_ready :: "observation \<Rightarrow> bool" where
  "rollout_ready ob \<longleftrightarrow> ob = SuccessorReady"

record settling =
  sg_fingerprint :: fingerprint
  sg_first_observed :: nat

record target =
  tg_executable :: path
  tg_channel :: "path option"
  tg_generation :: "release_id option"

datatype release_mode = Standalone path fingerprint "settling option"
  | Managed path string release_id

record runtime =
  rt_mode :: release_mode
  rt_successor :: "target option"
  rt_gate :: "string option"

definition nonempty_var :: "vars \<Rightarrow> string \<Rightarrow> string option" where
  "nonempty_var vars name = (case vars name of Some v \<Rightarrow> if v = [] then None else Some v | None \<Rightarrow> None)"

definition os_string :: "(string \<Rightarrow> bool) \<Rightarrow> string \<Rightarrow> io_error + string" where
  "os_string utf8 v =
     (if utf8 v then Inr v else Inl (InvalidData ''managed release generation must be UTF-8''))"

definition discover :: "release_os \<Rightarrow> (string \<Rightarrow> bool) \<Rightarrow> vars \<Rightarrow> (io_error + path) \<Rightarrow> string \<Rightarrow> io_error + runtime" where
  "discover os utf8 vars current_exe server =
     bindE (validate_server_name server) (\<lambda>_.
     bindE (case (vars channel_env, vars generation_env) of
         (None, None) \<Rightarrow>
           bindE current_exe (\<lambda>executable.
           bindE (fingerprint_of os executable) (\<lambda>incumbent. Inr (Standalone executable incumbent None)))
       | (Some channel, Some generation) \<Rightarrow>
           if \<not> path_absolute (path_of channel)
           then Inl (InvalidData ''managed release channel must be absolute'')
           else bindE (os_string utf8 generation) (\<lambda>generation.
                bindE (release_id_try_new generation) (\<lambda>incumbent.
                  Inr (Managed (path_of channel) server incumbent)))
       | _ \<Rightarrow> Inl (InvalidData ''managed release channel and generation must be set together''))
       (\<lambda>mode. Inr \<lparr>rt_mode = mode, rt_successor = None, rt_gate = nonempty_var vars socket_env\<rparr>))"

definition is_managed :: "runtime \<Rightarrow> bool" where
  "is_managed rt = (case rt_mode rt of Managed _ _ _ \<Rightarrow> True | _ \<Rightarrow> False)"

definition path_contains_target :: "path \<Rightarrow> bool" where
  "path_contains_target p \<longleftrightarrow> Normal ''target'' \<in> set p"

definition launch_path_stable :: "runtime \<Rightarrow> bool" where
  "launch_path_stable rt = (case rt_mode rt of
     Managed _ _ _ \<Rightarrow> True | Standalone executable _ _ \<Rightarrow> \<not> path_contains_target executable)"

definition runtime_generation :: "runtime \<Rightarrow> release_id option" where
  "runtime_generation rt = (case rt_mode rt of Managed _ _ incumbent \<Rightarrow> Some incumbent | _ \<Rightarrow> None)"

definition observe_managed ::
    "release_os \<Rightarrow> path \<Rightarrow> string \<Rightarrow> release_id \<Rightarrow> runtime \<Rightarrow> (io_error + observation) \<times> runtime" where
  "observe_managed os channel server incumbent rt =
     (case load_release os channel server of
        Inl e \<Rightarrow> (Inl e, rt)
      | Inr release \<Rightarrow>
          if mf_generation release = incumbent
          then (Inr ObservedIncumbent, rt\<lparr>rt_successor := None\<rparr>)
          else if Option.bind (rt_successor rt) tg_generation \<noteq> Some (mf_generation release)
          then (case verify_release os release of
                  Inl e \<Rightarrow> (Inl e, rt)
                | Inr _ \<Rightarrow> (Inr SuccessorReady, rt\<lparr>rt_successor := Some
                    \<lparr>tg_executable = mf_executable release, tg_channel = Some channel,
                     tg_generation = Some (mf_generation release)\<rparr>\<rparr>))
          else (Inr SuccessorReady, rt))"

definition observe_standalone ::
    "release_os \<Rightarrow> nat \<Rightarrow> path \<Rightarrow> fingerprint \<Rightarrow> settling option \<Rightarrow> runtime \<Rightarrow> (io_error + observation) \<times> runtime" where
  "observe_standalone os now executable incumbent settling rt =
     (let mode = Standalone executable incumbent in
      case fingerprint_of os executable of
        Inl e \<Rightarrow>
          if e = NotFound then (Inr SuccessorSettling, rt\<lparr>rt_mode := mode None\<rparr>) else (Inl e, rt)
      | Inr observed \<Rightarrow>
          if observed = incumbent
          then (Inr ObservedIncumbent, rt\<lparr>rt_mode := mode None, rt_successor := None\<rparr>)
          else (case settling of
              Some c \<Rightarrow>
                if sg_fingerprint c = observed then
                  (if now - sg_first_observed c \<ge> settle_time
                   then (Inr SuccessorReady, rt\<lparr>rt_successor := Some
                     \<lparr>tg_executable = executable, tg_channel = None, tg_generation = None\<rparr>\<rparr>)
                   else (Inr SuccessorSettling, rt))
                else (Inr SuccessorSettling, rt\<lparr>rt_mode := mode (Some
                  \<lparr>sg_fingerprint = observed, sg_first_observed = now\<rparr>)\<rparr>)
            | None \<Rightarrow> (Inr SuccessorSettling, rt\<lparr>rt_mode := mode (Some
                \<lparr>sg_fingerprint = observed, sg_first_observed = now\<rparr>)\<rparr>)))"

definition observe :: "release_os \<Rightarrow> nat \<Rightarrow> runtime \<Rightarrow> (io_error + observation) \<times> runtime" where
  "observe os now rt = (case rt_mode rt of
     Managed channel server incumbent \<Rightarrow> observe_managed os channel server incumbent rt
   | Standalone executable incumbent settling \<Rightarrow> observe_standalone os now executable incumbent settling rt)"

definition arm_current_relaunch :: "(io_error + path) \<Rightarrow> runtime \<Rightarrow> (io_error + unit) \<times> runtime" where
  "arm_current_relaunch current_exe rt = (case current_exe of
     Inl e \<Rightarrow> (Inl e, rt)
   | Inr executable \<Rightarrow>
       (Inr (), rt\<lparr>rt_successor := Some
          \<lparr>tg_executable = executable,
           tg_channel = (case rt_mode rt of Standalone _ _ _ \<Rightarrow> None | Managed channel _ _ \<Rightarrow> Some channel),
           tg_generation = (case rt_mode rt of Standalone _ _ _ \<Rightarrow> None | Managed _ _ incumbent \<Rightarrow> Some incumbent)\<rparr>\<rparr>))"

section \<open>Starting the successor\<close>

datatype handoff_outcome = Retained | Relinquish

definition validate_env_name :: "string \<Rightarrow> io_error + unit" where
  "validate_env_name name =
     (if name = [] \<or> \<not> list_all (\<lambda>c. is_ascii_uppercase c \<or> is_ascii_digit c \<or> c = CHR ''_'') name
      then Inl (InvalidInput ''snapshot environment name must use uppercase ASCII, digits, and underscores'')
      else Inr ())"

text \<open>The text of an absolute path, as the child reads it back from its environment.\<close>

fun path_text :: "path \<Rightarrow> string" where
  "path_text [] = []"
| "path_text (RootDir # p) = ''/'' @ path_text p"
| "path_text (CurDir # p) = ''./'' @ path_text p"
| "path_text (ParentDir # p) = ''../'' @ path_text p"
| "path_text (Normal s # p) = s @ (if p = [] then [] else ''/'' @ path_text p)"

definition child_environment ::
    "target \<Rightarrow> string \<Rightarrow> string \<Rightarrow> string \<Rightarrow> vars \<Rightarrow> io_error + vars" where
  "child_environment t snapshot_env snapshot_path socket vars =
     (let base = vars(snapshot_env \<mapsto> snapshot_path, socket_env \<mapsto> socket) in
      case (tg_channel t, tg_generation t) of
        (Some channel, Some generation) \<Rightarrow>
          Inr (base(channel_env \<mapsto> path_text channel, generation_env \<mapsto> id_text generation))
      | (None, None) \<Rightarrow> Inr (base(channel_env := None, generation_env := None))
      | _ \<Rightarrow> Inl (InvalidData ''incomplete successor release target''))"

text \<open>The checks before a process is started: \<open>None\<close> when there is nothing to hand off to.\<close>

definition handoff_target :: "runtime \<Rightarrow> string \<Rightarrow> nat \<Rightarrow> io_error + target option" where
  "handoff_target rt snapshot_env timeout = (case rt_successor rt of
     None \<Rightarrow> Inr None
   | Some t \<Rightarrow>
       bindE (validate_env_name snapshot_env) (\<lambda>_.
         if timeout = 0 then Inl (InvalidInput ''successor handoff timeout must be non-zero'')
         else Inr (Some t)))"

text \<open>
  \<open>handoff_unix\<close> up to the gate, over what the system answers: the socket's directory, binding
  and configuring it, starting the process, and the deadline when it can be represented. The
  environment beside the result is that of the process it has started, if it has.
\<close>

record handoff_answers =
  ho_rendezvous :: "io_error + string"
  ho_bind :: "io_error option"
  ho_nonblocking :: "io_error option"
  ho_spawn :: "io_error option"
  ho_deadline :: "nat option"

definition ok_unless :: "io_error option \<Rightarrow> io_error + unit" where
  "ok_unless e = (case e of None \<Rightarrow> Inr () | Some x \<Rightarrow> Inl x)"

definition handoff_unix ::
    "target \<Rightarrow> string \<Rightarrow> string \<Rightarrow> handoff_answers \<Rightarrow> vars \<Rightarrow> (io_error + nat) \<times> vars option" where
  "handoff_unix t snapshot_env snapshot_path a vars =
     (case bindE (ho_rendezvous a) (\<lambda>rendezvous.
           bindE (ok_unless (ho_bind a)) (\<lambda>_.
           bindE (ok_unless (ho_nonblocking a)) (\<lambda>_.
           bindE (child_environment t snapshot_env snapshot_path (rendezvous @ ''/gate'') vars) (\<lambda>child.
           bindE (ok_unless (ho_spawn a)) (\<lambda>_. Inr child))))) of
        Inl e \<Rightarrow> (Inl e, None)
      | Inr child \<Rightarrow>
          (case ho_deadline a of
             None \<Rightarrow> (Inl (InvalidData ''successor handoff deadline overflow''), Some child)
           | Some deadline \<Rightarrow> (Inr deadline, Some child)))"

text \<open>
  It fails with a process left running exactly when the deadline overflows: that process is
  not killed, nor waited for.
\<close>

lemma handoff_leaves_orphan:
  "handoff_unix t snapshot_env snapshot_path a vars = (Inl e, Some child) \<longleftrightarrow>
     ho_deadline a = None \<and> e = InvalidData ''successor handoff deadline overflow'' \<and>
     ho_bind a = None \<and> ho_nonblocking a = None \<and> ho_spawn a = None \<and>
     (\<exists>rendezvous. ho_rendezvous a = Inr rendezvous \<and>
        child_environment t snapshot_env snapshot_path (rendezvous @ ''/gate'') vars = Inr child)"
  by (cases "ho_rendezvous a")
    (auto simp: handoff_unix_def ok_unless_def bindE_Inr_iff split: sum.splits option.splits)

section \<open>The gate\<close>

definition READY :: byte where "READY = 82"
definition ACTIVATE :: byte where "ACTIVATE = 65"
definition LIVE :: byte where "LIVE = 76"

definition expect_gate_byte :: "byte \<Rightarrow> byte \<Rightarrow> io_error + unit" where
  "expect_gate_byte expected observed =
     (if observed = expected then Inr () else Inl (InvalidData ''invalid gate byte''))"

text \<open>
  Where the parent is in \<open>finish_handoff\<close> and \<open>handoff_unix\<close>, and the child in
  \<open>admit_successor\<close>. \<open>ParentAbort\<close> is the failure of \<open>finish_handoff\<close>: its stream is dropped
  on the way out, then \<open>abort_successor\<close> is called; \<open>ParentDone\<close> is the result of
  \<open>handoff\<close>; a child that was admitted reads the public input.
\<close>

datatype parent_at = ParentAccept | ParentReady | ParentActivate | ParentLive
  | ParentAbort io_error | ParentDone "io_error + handoff_outcome"

datatype child_at = ChildBoot | ChildConnected | ChildGate | ChildActivated | ChildAdmitted
  | ChildFailed io_error | ChildExited

text \<open>
  \<open>g_open\<close> is the parent's end of the stream, from its acceptance until it is dropped;
  \<open>g_remaining\<close> the timeout it was given, \<open>g_parent_since\<close> and \<open>g_child_since\<close> when the current
  read began. The two processes share the public input: \<open>g_arrived\<close> is all of it so far,
  \<open>g_input\<close> what nobody has read, \<open>g_held\<close> what the child has taken.
\<close>

record gate =
  g_now :: nat
  g_parent :: parent_at
  g_child :: child_at
  g_connected :: bool
  g_open :: bool
  g_remaining :: nat
  g_parent_since :: nat
  g_child_since :: nat
  g_to_parent :: "byte list"
  g_to_child :: "byte list"
  g_owned :: bool
  g_arrived :: "byte list"
  g_input :: "byte list"
  g_held :: "byte list"

definition gate_start :: "nat \<Rightarrow> gate" where
  "gate_start now = \<lparr>g_now = now, g_parent = ParentAccept, g_child = ChildBoot, g_connected = False,
     g_open = False, g_remaining = 0, g_parent_since = now, g_child_since = now,
     g_to_parent = [], g_to_child = [], g_owned = False, g_arrived = [], g_input = [], g_held = []\<rparr>"

definition timed_out :: io_error where
  "timed_out = OtherIo ''successor did not report readiness before the handoff deadline''"

definition deadline_consumed :: io_error where
  "deadline_consumed = OtherIo ''successor readiness consumed the handoff deadline''"

definition broken_pipe :: io_error where
  "broken_pipe = OtherIo ''successor exited before readiness''"

text \<open>What the standard library reports of a stream: a read that timed out, an end, a closed peer.\<close>

definition would_block :: io_error where "would_block = OtherIo ''Resource temporarily unavailable''"
definition unexpected_eof :: io_error where "unexpected_eof = OtherIo ''failed to fill whole buffer''"
definition pipe_closed :: io_error where "pipe_closed = OtherIo ''Broken pipe''"

definition successor_gate_timeout :: nat where "successor_gate_timeout = 15 * 1000 * 1000 * 1000"

text \<open>\<open>abort_successor\<close> returns when the child was waited for; what it held is gone with it.\<close>

definition abort_successor :: "gate \<Rightarrow> gate" where
  "abort_successor g = g\<lparr>g_child := ChildExited, g_held := []\<rparr>"

definition child_closed :: "gate \<Rightarrow> bool" where
  "child_closed g \<longleftrightarrow> g_child g = ChildExited \<or> (\<exists>e. g_child g = ChildFailed e)"

text \<open>
  \<open>finish_handoff\<close>, one rule per accept, poll, read and write and per way it ends. \<open>F\<close> are the
  errors the system may answer a call with beyond those the situation itself brings about (a
  read that times out or meets the end, a write to a closed peer); with \<open>F\<close> empty no call fails
  by itself.
\<close>

inductive parent_step :: "io_error set \<Rightarrow> nat \<Rightarrow> gate \<Rightarrow> gate \<Rightarrow> bool"
  for F :: "io_error set" and deadline :: nat where
  accept: "g_parent g = ParentAccept \<Longrightarrow> g_connected g \<Longrightarrow>
    parent_step F deadline g (g\<lparr>g_open := True, g_remaining := deadline - g_now g, g_parent_since := g_now g,
      g_parent := (if deadline - g_now g = 0 then ParentAbort deadline_consumed else ParentReady)\<rparr>)"
| accept_exited: "g_parent g = ParentAccept \<Longrightarrow> \<not> g_connected g \<Longrightarrow> g_child g = ChildExited \<Longrightarrow>
    parent_step F deadline g (g\<lparr>g_parent := ParentAbort broken_pipe\<rparr>)"
| accept_deadline: "g_parent g = ParentAccept \<Longrightarrow> \<not> g_connected g \<Longrightarrow> g_now g \<ge> deadline \<Longrightarrow>
    parent_step F deadline g (g\<lparr>g_parent := ParentAbort timed_out\<rparr>)"
| parent_fails: "g_parent g \<in> {ParentAccept, ParentReady, ParentActivate, ParentLive} \<Longrightarrow> e \<in> F \<Longrightarrow>
    parent_step F deadline g (g\<lparr>g_parent := ParentAbort e\<rparr>)"
| read_times_out: "g_parent g \<in> {ParentReady, ParentLive} \<Longrightarrow> g_to_parent g = [] \<Longrightarrow>
    g_parent_since g + g_remaining g \<le> g_now g \<Longrightarrow>
    parent_step F deadline g (g\<lparr>g_parent := ParentAbort would_block\<rparr>)"
| read_ends: "g_parent g \<in> {ParentReady, ParentLive} \<Longrightarrow> g_to_parent g = [] \<Longrightarrow> child_closed g \<Longrightarrow>
    parent_step F deadline g (g\<lparr>g_parent := ParentAbort unexpected_eof\<rparr>)"
| write_closed: "g_parent g = ParentActivate \<Longrightarrow> child_closed g \<Longrightarrow>
    parent_step F deadline g (g\<lparr>g_parent := ParentAbort pipe_closed\<rparr>)"
| parent_ready: "g_parent g = ParentReady \<Longrightarrow> g_to_parent g = b # bs \<Longrightarrow>
    parent_step F deadline g (g\<lparr>g_to_parent := bs, g_parent := (case expect_gate_byte READY b of
      Inl e \<Rightarrow> ParentAbort e | Inr _ \<Rightarrow> ParentActivate)\<rparr>)"
| parent_activate: "g_parent g = ParentActivate \<Longrightarrow>
    parent_step F deadline g (g\<lparr>g_to_child := g_to_child g @ [ACTIVATE], g_parent := ParentLive,
      g_parent_since := g_now g\<rparr>)"
| parent_live: "g_parent g = ParentLive \<Longrightarrow> g_to_parent g = b # bs \<Longrightarrow>
    parent_step F deadline g (g\<lparr>g_to_parent := bs, g_parent := (case expect_gate_byte LIVE b of
      Inl e \<Rightarrow> ParentAbort e | Inr _ \<Rightarrow> ParentDone (Inr Relinquish))\<rparr>)"
| parent_drop: "g_parent g = ParentAbort e \<Longrightarrow> g_open g \<Longrightarrow> parent_step F deadline g (g\<lparr>g_open := False\<rparr>)"
| parent_abort: "g_parent g = ParentAbort e \<Longrightarrow> \<not> g_open g \<Longrightarrow>
    parent_step F deadline g ((abort_successor g)\<lparr>g_parent := ParentDone (Inl e)\<rparr>)"

text \<open>
  \<open>admit_successor\<close>, and the admitted child's reading of the public input, which starts when it
  has returned; the process may also die at any time, with what it held.
\<close>

inductive child_step :: "io_error set \<Rightarrow> gate \<Rightarrow> gate \<Rightarrow> bool" for F :: "io_error set" where
  child_connect: "g_child g = ChildBoot \<Longrightarrow>
    child_step F g (g\<lparr>g_connected := True, g_child := ChildConnected\<rparr>)"
| child_ready: "g_child g = ChildConnected \<Longrightarrow>
    child_step F g (g\<lparr>g_to_parent := g_to_parent g @ [READY], g_child := ChildGate, g_child_since := g_now g\<rparr>)"
| child_activate: "g_child g = ChildGate \<Longrightarrow> g_to_child g = b # bs \<Longrightarrow>
    child_step F g (g\<lparr>g_to_child := bs, g_child := (case expect_gate_byte ACTIVATE b of
      Inl e \<Rightarrow> ChildFailed e | Inr _ \<Rightarrow> ChildActivated)\<rparr>)"
| child_times_out: "g_child g = ChildGate \<Longrightarrow> g_to_child g = [] \<Longrightarrow>
    g_child_since g + successor_gate_timeout \<le> g_now g \<Longrightarrow>
    child_step F g (g\<lparr>g_child := ChildFailed would_block\<rparr>)"
| child_ends: "g_child g = ChildGate \<Longrightarrow> g_to_child g = [] \<Longrightarrow> g_parent g = ParentAbort e \<Longrightarrow> \<not> g_open g \<Longrightarrow>
    child_step F g (g\<lparr>g_child := ChildFailed unexpected_eof\<rparr>)"
| child_live: "g_child g = ChildActivated \<Longrightarrow> g_open g \<Longrightarrow>
    child_step F g (g\<lparr>g_to_parent := g_to_parent g @ [LIVE], g_child := ChildAdmitted, g_owned := True\<rparr>)"
| child_closed_pipe: "g_child g = ChildActivated \<Longrightarrow> \<not> g_open g \<Longrightarrow>
    child_step F g (g\<lparr>g_child := ChildFailed pipe_closed\<rparr>)"
| child_reads: "g_child g = ChildAdmitted \<Longrightarrow> g_input g = b # bs \<Longrightarrow>
    child_step F g (g\<lparr>g_input := bs, g_held := g_held g @ [b]\<rparr>)"
| child_fails: "g_child g \<in> {ChildBoot, ChildConnected, ChildGate, ChildActivated} \<Longrightarrow> e \<in> F \<Longrightarrow>
    child_step F g (g\<lparr>g_child := ChildFailed e\<rparr>)"
| child_exits: "child_step F g (g\<lparr>g_child := ChildExited, g_held := []\<rparr>)"

inductive gate_step :: "io_error set \<Rightarrow> nat \<Rightarrow> gate \<Rightarrow> gate \<Rightarrow> bool"
  for F :: "io_error set" and deadline :: nat where
  time: "gate_step F deadline g (g\<lparr>g_now := g_now g + d\<rparr>)"
| arrives: "gate_step F deadline g (g\<lparr>g_arrived := g_arrived g @ bs, g_input := g_input g @ bs\<rparr>)"
| parent: "parent_step F deadline g h \<Longrightarrow> gate_step F deadline g h"
| child: "child_step F g h \<Longrightarrow> gate_step F deadline g h"

section \<open>What an armed successor went through\<close>

type_synonym sighting = "release_os \<times> nat"

definition observe_step :: "runtime \<Rightarrow> sighting \<Rightarrow> runtime" where
  "observe_step rt o' = snd (observe (fst o') (snd o') rt)"

text \<open>What the observation number \<open>k\<close> of a history saw.\<close>

definition saw_file :: "sighting list \<Rightarrow> path \<Rightarrow> nat \<Rightarrow> io_error + fingerprint" where
  "saw_file seen executable k = fingerprint_of (fst (seen ! k)) executable"

definition saw_release :: "sighting list \<Rightarrow> path \<Rightarrow> string \<Rightarrow> nat \<Rightarrow> io_error + manifest" where
  "saw_release seen channel server k = load_release (fst (seen ! k)) channel server"

text \<open>
  Since observation \<open>i\<close> saw the file \<open>f\<close>, none before \<open>n\<close> saw another or saw none: they saw it,
  or could not tell.
\<close>

definition steady :: "sighting list \<Rightarrow> path \<Rightarrow> fingerprint \<Rightarrow> nat \<Rightarrow> nat \<Rightarrow> bool" where
  "steady seen executable f i n \<longleftrightarrow> saw_file seen executable i = Inr f \<and>
     (\<forall>k. i < k \<and> k < n \<longrightarrow> saw_file seen executable k = Inr f \<or>
        (\<exists>e. saw_file seen executable k = Inl e \<and> e \<noteq> NotFound))"

definition verified_target :: "sighting list \<Rightarrow> path \<Rightarrow> string \<Rightarrow> release_id \<Rightarrow> target \<Rightarrow> bool" where
  "verified_target seen channel server incumbent t \<longleftrightarrow> (\<exists>i r. i < length seen \<and>
     saw_release seen channel server i = Inr r \<and> verify_release (fst (seen ! i)) r = Inr () \<and>
     mf_generation r \<noteq> incumbent \<and>
     (\<forall>k r'. i < k \<and> k < length seen \<and> saw_release seen channel server k = Inr r' \<longrightarrow> mf_generation r' \<noteq> incumbent) \<and>
     t = \<lparr>tg_executable = mf_executable r, tg_channel = Some channel, tg_generation = Some (mf_generation r)\<rparr>)"

definition settled_target :: "sighting list \<Rightarrow> path \<Rightarrow> fingerprint \<Rightarrow> target \<Rightarrow> bool" where
  "settled_target seen executable incumbent t \<longleftrightarrow> (\<exists>i j f. i < j \<and> j < length seen \<and> f \<noteq> incumbent \<and>
     steady seen executable f i j \<and> saw_file seen executable j = Inr f \<and>
     settle_time \<le> snd (seen ! j) - snd (seen ! i) \<and>
     (\<forall>k. j < k \<and> k < length seen \<longrightarrow> saw_file seen executable k \<noteq> Inr incumbent) \<and>
     t = \<lparr>tg_executable = executable, tg_channel = None, tg_generation = None\<rparr>)"

fun armed_ok :: "sighting list \<Rightarrow> release_mode \<Rightarrow> target option \<Rightarrow> bool" where
  "armed_ok seen (Managed channel server incumbent) successor \<longleftrightarrow>
     (\<forall>t. successor = Some t \<longrightarrow> verified_target seen channel server incumbent t)"
| "armed_ok seen (Standalone executable incumbent settling) successor \<longleftrightarrow>
     (\<forall>c. settling = Some c \<longrightarrow> sg_fingerprint c \<noteq> incumbent \<and>
        (\<exists>i<length seen. snd (seen ! i) = sg_first_observed c \<and>
           steady seen executable (sg_fingerprint c) i (length seen))) \<and>
     (\<forall>t. successor = Some t \<longrightarrow> settled_target seen executable incumbent t)"

lemma saw_snoc [simp]:
  "k < length seen \<Longrightarrow> saw_file (seen @ [x]) exe k = saw_file seen exe k"
  "saw_file (seen @ [x]) exe (length seen) = fingerprint_of (fst x) exe"
  "k < length seen \<Longrightarrow> saw_release (seen @ [x]) channel server k = saw_release seen channel server k"
  "saw_release (seen @ [x]) channel server (length seen) = load_release (fst x) channel server"
  by (simp_all add: saw_file_def saw_release_def nth_append)

lemma steady_snoc:
  assumes "steady seen exe f i (length seen)" and "i < length seen"
    and "fingerprint_of (fst x) exe = Inr f \<or> (\<exists>e. fingerprint_of (fst x) exe = Inl e \<and> e \<noteq> NotFound)"
  shows "steady (seen @ [x]) exe f i (length (seen @ [x]))"
  unfolding steady_def
proof (intro conjI allI impI)
  show "saw_file (seen @ [x]) exe i = Inr f" using assms by (simp add: steady_def)
  fix k assume k: "i < k \<and> k < length (seen @ [x])"
  show "saw_file (seen @ [x]) exe k = Inr f \<or> (\<exists>e. saw_file (seen @ [x]) exe k = Inl e \<and> e \<noteq> NotFound)"
  proof (cases "k = length seen")
    case True
    then show ?thesis using assms(3) by simp
  next
    case False
    then show ?thesis using assms(1) k by (simp add: steady_def)
  qed
qed

lemma steady_before: "steady seen exe f i n \<Longrightarrow> i < length seen \<Longrightarrow> n \<le> length seen \<Longrightarrow> steady (seen @ [x]) exe f i n"
  by (simp add: steady_def)

lemma verified_snoc:
  assumes "verified_target seen channel server incumbent t"
    and "\<And>r. load_release (fst x) channel server = Inr r \<Longrightarrow> mf_generation r \<noteq> incumbent"
  shows "verified_target (seen @ [x]) channel server incumbent t"
proof -
  from assms(1) obtain i r where i: "i < length seen" "saw_release seen channel server i = Inr r"
    "verify_release (fst (seen ! i)) r = Inr ()" "mf_generation r \<noteq> incumbent"
    "\<forall>k r'. i < k \<and> k < length seen \<and> saw_release seen channel server k = Inr r' \<longrightarrow> mf_generation r' \<noteq> incumbent"
    "t = \<lparr>tg_executable = mf_executable r, tg_channel = Some channel, tg_generation = Some (mf_generation r)\<rparr>"
    unfolding verified_target_def by blast
  have "mf_generation r' \<noteq> incumbent"
    if "i < k" "k < length (seen @ [x])" "saw_release (seen @ [x]) channel server k = Inr r'" for k r'
    using that i(5) assms(2) by (cases "k = length seen") (auto simp: less_Suc_eq)
  with i show ?thesis unfolding verified_target_def
    by (intro exI [of _ i] exI [of _ r]) (auto simp: nth_append)
qed

lemma settled_snoc:
  assumes "settled_target seen exe incumbent t" and "fingerprint_of (fst x) exe \<noteq> Inr incumbent"
  shows "settled_target (seen @ [x]) exe incumbent t"
proof -
  from assms(1) obtain i j f where i: "i < j" "j < length seen" "f \<noteq> incumbent" "steady seen exe f i j"
    "saw_file seen exe j = Inr f" "settle_time \<le> snd (seen ! j) - snd (seen ! i)"
    "\<forall>k. j < k \<and> k < length seen \<longrightarrow> saw_file seen exe k \<noteq> Inr incumbent"
    "t = \<lparr>tg_executable = exe, tg_channel = None, tg_generation = None\<rparr>"
    unfolding settled_target_def by blast
  have "saw_file (seen @ [x]) exe k \<noteq> Inr incumbent" if "j < k" "k < length (seen @ [x])" for k
    using that i(7) assms(2) by (cases "k = length seen") (auto simp: less_Suc_eq)
  with i steady_before [OF i(4)] show ?thesis unfolding settled_target_def
    by (intro exI [of _ i] exI [of _ j] exI [of _ f]) (simp add: nth_append)
qed

lemma observe_armed_managed:
  assumes armed: "armed_ok seen (rt_mode rt) (rt_successor rt)" and mode: "rt_mode rt = Managed channel server incumbent"
  shows "armed_ok (seen @ [(os, now)]) (rt_mode (observe_step rt (os, now))) (rt_successor (observe_step rt (os, now)))"
proof (cases "load_release os channel server")
  case (Inl e)
  then have keep: "verified_target (seen @ [(os, now)]) channel server incumbent t"
    if "rt_successor rt = Some t" for t
    using armed mode that by (intro verified_snoc) auto
  then show ?thesis using Inl mode by (simp add: observe_step_def observe_def observe_managed_def)
next
  case (Inr r)
  show ?thesis
  proof (cases "mf_generation r = incumbent")
    case True
    then show ?thesis using Inr mode by (simp add: observe_step_def observe_def observe_managed_def)
  next
    case False
    have keep: "verified_target (seen @ [(os, now)]) channel server incumbent t"
      if "rt_successor rt = Some t" for t
      using armed mode that Inr False by (intro verified_snoc) auto
    have "verified_target (seen @ [(os, now)]) channel server incumbent
        \<lparr>tg_executable = mf_executable r, tg_channel = Some channel, tg_generation = Some (mf_generation r)\<rparr>"
      if "verify_release os r = Inr ()"
      using that Inr False unfolding verified_target_def
      by (intro exI [of _ "length seen"] exI [of _ r]) auto
    then show ?thesis using Inr False mode keep
      by (simp add: observe_step_def observe_def observe_managed_def split: sum.split)
  qed
qed

lemma observe_armed_standalone:
  assumes armed: "armed_ok seen (rt_mode rt) (rt_successor rt)" and mode: "rt_mode rt = Standalone exe incumbent st"
  shows "armed_ok (seen @ [(os, now)]) (rt_mode (observe_step rt (os, now))) (rt_successor (observe_step rt (os, now)))"
proof (cases "fingerprint_of os exe")
  case (Inl e)
  have keep: "settled_target (seen @ [(os, now)]) exe incumbent t" if "rt_successor rt = Some t" for t
    using armed mode that Inl by (intro settled_snoc) auto
  have "\<exists>i<length (seen @ [(os, now)]). snd ((seen @ [(os, now)]) ! i) = sg_first_observed c \<and>
      steady (seen @ [(os, now)]) exe (sg_fingerprint c) i (length (seen @ [(os, now)]))"
    if "st = Some c" "e \<noteq> NotFound" for c
  proof -
    from armed mode that(1) obtain i where i: "i < length seen" "snd (seen ! i) = sg_first_observed c"
      "steady seen exe (sg_fingerprint c) i (length seen)" by auto
    with steady_snoc [OF i(3,1), of "(os, now)"] Inl that(2) show ?thesis
      by (intro exI [of _ i]) (simp add: nth_append)
  qed
  with armed mode Inl keep show ?thesis
    by (auto simp: observe_step_def observe_def observe_standalone_def Let_def simp del: length_append)
next
  case (Inr f)
  have keep: "settled_target (seen @ [(os, now)]) exe incumbent t" if "rt_successor rt = Some t" "f \<noteq> incumbent" for t
    using armed mode that Inr by (intro settled_snoc) auto
  have fresh: "steady (seen @ [(os, now)]) exe f (length seen) (length (seen @ [(os, now)]))"
    using Inr by (auto simp: steady_def)
  show ?thesis
  proof (cases "f \<noteq> incumbent \<and> (\<exists>c. st = Some c \<and> sg_fingerprint c = f)")
    case True
    then obtain c where c: "st = Some c" "sg_fingerprint c = f" "f \<noteq> incumbent" by blast
    from armed mode c obtain i where i: "i < length seen" "snd (seen ! i) = sg_first_observed c"
      "steady seen exe f i (length seen)" by auto
    have st': "steady (seen @ [(os, now)]) exe f i (length (seen @ [(os, now)]))"
      using steady_snoc [OF i(3,1), of "(os, now)"] Inr by simp
    have "settled_target (seen @ [(os, now)]) exe incumbent
        \<lparr>tg_executable = exe, tg_channel = None, tg_generation = None\<rparr>"
      if "settle_time \<le> now - sg_first_observed c"
      unfolding settled_target_def
      by (rule exI [of _ i], rule exI [of _ "length seen"], rule exI [of _ f])
        (use i c Inr that steady_before [OF i(3,1)] in \<open>auto simp: nth_append\<close>)
    with c i(1,2) st' keep Inr mode show ?thesis
      by (auto simp: observe_step_def observe_def observe_standalone_def Let_def nth_append intro!: exI [of _ i])
  next
    case False
    with keep Inr mode fresh show ?thesis
      by (auto simp: observe_step_def observe_def observe_standalone_def Let_def nth_append split: option.splits
          intro!: exI [of _ "length seen"])
  qed
qed

lemma observe_armed:
  "armed_ok seen (rt_mode rt) (rt_successor rt) \<Longrightarrow>
     armed_ok (seen @ [x]) (rt_mode (observe_step rt x)) (rt_successor (observe_step rt x))"
  using observe_armed_managed observe_armed_standalone by (cases x; cases "rt_mode rt") blast+

lemma observe_run: "armed_ok seen (rt_mode rt) (rt_successor rt) \<Longrightarrow>
    armed_ok (seen @ os) (rt_mode (foldl observe_step rt os)) (rt_successor (foldl observe_step rt os))"
proof (induction os arbitrary: seen rt)
  case (Cons x os)
  from Cons.IH [OF observe_armed [OF Cons.prems, of x]] show ?case by simp
qed simp

lemma discover_armed: "discover os utf8 vars exe server = Inr rt \<Longrightarrow> armed_ok [] (rt_mode rt) (rt_successor rt)"
  by (auto simp: discover_def bindE_Inr_iff split: option.splits if_splits)

text \<open>
  C35. A successor is armed by observation only if it was checked. In managed mode some
  observation loaded it from the channel and its executable hashed to its recorded identity,
  it is not the incumbent, and no later observation saw the incumbent selected again. In
  standalone mode one new file was in the place of the executable for the settling time: two
  observations that far apart saw it, none between them saw another file or none at all (one
  may have failed otherwise), and no later one saw the incumbent's file again.
\<close>

theorem armed_successor_checked:
  assumes "discover os utf8 vars exe server = Inr rt0"
    and "rt_successor (foldl observe_step rt0 seen) = Some t"
  shows "case rt_mode (foldl observe_step rt0 seen) of
      Managed channel srv incumbent \<Rightarrow> (\<exists>i r. i < length seen \<and>
        load_release (fst (seen ! i)) channel srv = Inr r \<and> verify_release (fst (seen ! i)) r = Inr () \<and>
        mf_generation r \<noteq> incumbent \<and>
        (\<forall>k r'. i < k \<and> k < length seen \<and> load_release (fst (seen ! k)) channel srv = Inr r' \<longrightarrow>
           mf_generation r' \<noteq> incumbent) \<and>
        t = \<lparr>tg_executable = mf_executable r, tg_channel = Some channel, tg_generation = Some (mf_generation r)\<rparr>)
    | Standalone executable incumbent settling \<Rightarrow> (\<exists>i j f. i < j \<and> j < length seen \<and> f \<noteq> incumbent \<and>
        fingerprint_of (fst (seen ! i)) executable = Inr f \<and> fingerprint_of (fst (seen ! j)) executable = Inr f \<and>
        settle_time \<le> snd (seen ! j) - snd (seen ! i) \<and>
        (\<forall>k. i < k \<and> k < j \<longrightarrow> fingerprint_of (fst (seen ! k)) executable = Inr f \<or>
           (\<exists>e. fingerprint_of (fst (seen ! k)) executable = Inl e \<and> e \<noteq> NotFound)) \<and>
        (\<forall>k. j < k \<and> k < length seen \<longrightarrow> fingerprint_of (fst (seen ! k)) executable \<noteq> Inr incumbent) \<and>
        t = \<lparr>tg_executable = executable, tg_channel = None, tg_generation = None\<rparr>)"
proof -
  let ?mode = "rt_mode (foldl observe_step rt0 seen)"
  have armed: "armed_ok seen ?mode (Some t)"
    using observe_run [OF discover_armed [OF assms(1)], of seen] assms(2) by simp
  show ?thesis
  proof (cases ?mode)
    case (Managed channel srv incumbent)
    with armed show ?thesis by (simp add: verified_target_def saw_release_def)
  next
    case (Standalone executable incumbent settling)
    with armed obtain i j f where "i < j" "j < length seen" "f \<noteq> incumbent" "steady seen executable f i j"
      "saw_file seen executable j = Inr f" "settle_time \<le> snd (seen ! j) - snd (seen ! i)"
      "\<forall>k. j < k \<and> k < length seen \<longrightarrow> saw_file seen executable k \<noteq> Inr incumbent"
      "t = \<lparr>tg_executable = executable, tg_channel = None, tg_generation = None\<rparr>"
      by (auto simp: settled_target_def)
    with Standalone show ?thesis unfolding steady_def saw_file_def
      by (simp, intro exI [of _ i] exI [of _ j] exI [of _ f]) simp
  qed
qed

text \<open>
  An observation that reports a settling successor leaves an armed one armed, though the
  file it was armed for has changed or is gone.
\<close>

lemma settling_keeps_target:
  "observe_standalone os now exe incumbent st rt = (Inr SuccessorSettling, rt') \<Longrightarrow> rt_successor rt' = rt_successor rt"
  by (auto simp: observe_standalone_def Let_def split: sum.splits option.splits if_splits)

section \<open>The handoff\<close>

definition gate_reachable :: "io_error set \<Rightarrow> nat \<Rightarrow> nat \<Rightarrow> gate \<Rightarrow> bool" where
  "gate_reachable F deadline now = (gate_step F deadline)\<^sup>*\<^sup>* (gate_start now)"

text \<open>Before activation is sent nothing of it is in the child; the owner flag remembers an admission.\<close>

fun before_activation :: "parent_at \<Rightarrow> bool" where
  "before_activation ParentAccept = True"
| "before_activation ParentReady = True"
| "before_activation ParentActivate = True"
| "before_activation _ = False"

definition gate_inv :: "gate \<Rightarrow> bool" where
  "gate_inv g \<longleftrightarrow>
     (before_activation (g_parent g) \<longrightarrow> g_to_child g = [] \<and> g_child g \<notin> {ChildActivated, ChildAdmitted} \<and> \<not> g_owned g) \<and>
     (LIVE \<in> set (g_to_parent g) \<longrightarrow> g_owned g) \<and>
     (g_child g = ChildAdmitted \<longrightarrow> g_owned g) \<and>
     (\<forall>r. g_parent g = ParentDone (Inr r) \<longrightarrow> r = Relinquish \<and> g_owned g) \<and>
     (\<forall>e. g_parent g = ParentDone (Inl e) \<longrightarrow> g_child g = ChildExited) \<and>
     (\<not> g_owned g \<longrightarrow> g_input g = g_arrived g \<and> g_held g = [])"

lemma gate_inv_start: "gate_inv (gate_start now)"
  by (simp add: gate_inv_def gate_start_def)

lemma parent_inv: "parent_step F deadline g h \<Longrightarrow> gate_inv g \<Longrightarrow> gate_inv h"
proof (induction rule: parent_step.induct)
  case (parent_ready g b bs)
  then show ?case by (auto simp: gate_inv_def expect_gate_byte_def)
next
  case (parent_live g b bs)
  then show ?case by (auto simp: gate_inv_def expect_gate_byte_def)
qed (auto simp: gate_inv_def abort_successor_def)

lemma child_inv: "child_step F g h \<Longrightarrow> gate_inv g \<Longrightarrow> gate_inv h"
proof (induction rule: child_step.induct)
  case (child_activate g b bs)
  then show ?case by (cases "g_parent g") (auto simp: gate_inv_def expect_gate_byte_def)
next
  case (child_live g)
  then show ?case by (cases "g_parent g") (auto simp: gate_inv_def)
next
  case (child_ready g)
  then show ?case by (auto simp: gate_inv_def READY_def LIVE_def)
qed (auto simp: gate_inv_def)

lemma gate_inv_step: "gate_step F deadline g h \<Longrightarrow> gate_inv g \<Longrightarrow> gate_inv h"
proof (induction rule: gate_step.induct)
  case (time g d)
  then show ?case by (simp add: gate_inv_def)
next
  case (arrives g bs)
  then show ?case by (simp add: gate_inv_def)
qed (erule parent_inv child_inv, assumption)+

lemma gate_inv_reachable: "gate_reachable F deadline now g \<Longrightarrow> gate_inv g"
  unfolding gate_reachable_def
  by (induction rule: rtranclp_induct) (auto intro: gate_inv_start gate_inv_step)

text \<open>
  C34. The handoff never leaves two owners of the public session, whatever calls fail (with
  whatever errors \<open>F\<close>) and however the two processes interleave: the parent relinquishes only
  when the child was admitted, when the handoff fails the child has exited before the parent
  goes on, and the child is admitted only once the parent has stopped to read and sent the
  activation.
\<close>

theorem handoff_exclusive:
  assumes "gate_reachable F deadline now g"
  shows "(g_parent g = ParentDone (Inr Relinquish) \<longrightarrow> g_owned g) \<and> g_parent g \<noteq> ParentDone (Inr Retained) \<and>
    (\<forall>e. g_parent g = ParentDone (Inl e) \<longrightarrow> g_child g = ChildExited) \<and>
    (g_child g = ChildAdmitted \<longrightarrow> g_owned g \<and> \<not> before_activation (g_parent g))"
  using gate_inv_reachable [OF assms] by (auto simp: gate_inv_def)

lemma gate_path: "gate_reachable F deadline now g \<Longrightarrow> gate_step F deadline g h \<Longrightarrow> gate_reachable F deadline now h"
  unfolding gate_reachable_def by (rule rtranclp.rtrancl_into_rtrancl)

lemma gate_paths: "gate_reachable F deadline now g \<Longrightarrow> (gate_step F deadline)\<^sup>*\<^sup>* g h \<Longrightarrow> gate_reachable F deadline now h"
  unfolding gate_reachable_def by (rule rtranclp_trans)

text \<open>The gate with the activation sent, the child about to take it, at the instant \<open>n\<close>.\<close>

definition activated_gate :: "nat \<Rightarrow> nat \<Rightarrow> nat \<Rightarrow> parent_at \<Rightarrow> gate" where
  "activated_gate deadline now n at = \<lparr>g_now = n, g_parent = at, g_child = ChildGate, g_connected = True,
     g_open = True, g_remaining = deadline - now, g_parent_since = now, g_child_since = now,
     g_to_parent = [], g_to_child = [ACTIVATE], g_owned = False, g_arrived = [], g_input = [], g_held = []\<rparr>"

lemma activated_reachable:
  assumes "now < deadline"
  shows "gate_reachable F deadline now (activated_gate deadline now now ParentLive)"
proof -
  let ?G = "\<lambda>p c conn op rem tp tc. \<lparr>g_now = now, g_parent = p, g_child = c, g_connected = conn, g_open = op,
     g_remaining = rem, g_parent_since = now, g_child_since = now, g_to_parent = tp, g_to_child = tc,
     g_owned = False, g_arrived = [], g_input = [], g_held = []\<rparr>"
  let ?r = "deadline - now"
  have 0: "gate_reachable F deadline now (?G ParentAccept ChildBoot False False 0 [] [])"
    by (simp add: gate_reachable_def gate_start_def)
  have 1: "gate_step F deadline (?G ParentAccept ChildBoot False False 0 [] [])
      (?G ParentAccept ChildConnected True False 0 [] [])"
    by (rule child) (use child_connect [of "?G ParentAccept ChildBoot False False 0 [] []"] in simp)
  have 2: "gate_step F deadline (?G ParentAccept ChildConnected True False 0 [] [])
      (?G ParentAccept ChildGate True False 0 [READY] [])"
    by (rule child) (use child_ready [of "?G ParentAccept ChildConnected True False 0 [] []"] in simp)
  have 3: "gate_step F deadline (?G ParentAccept ChildGate True False 0 [READY] [])
      (?G ParentReady ChildGate True True ?r [READY] [])"
    by (rule parent) (use accept [of "?G ParentAccept ChildGate True False 0 [READY] []" F deadline] assms in simp)
  have 4: "gate_step F deadline (?G ParentReady ChildGate True True ?r [READY] [])
      (?G ParentActivate ChildGate True True ?r [] [])"
    by (rule parent) (use parent_ready [of "?G ParentReady ChildGate True True ?r [READY] []" READY "[]"]
      in \<open>simp add: expect_gate_byte_def\<close>)
  have 5: "gate_step F deadline (?G ParentActivate ChildGate True True ?r [] [])
      (?G ParentLive ChildGate True True ?r [] [ACTIVATE])"
    by (rule parent) (use parent_activate [of "?G ParentActivate ChildGate True True ?r [] []"] in simp)
  show ?thesis
    unfolding activated_gate_def by (rule gate_path [OF gate_path [OF gate_path [OF gate_path [OF gate_path
      [OF 0 1] 2] 3] 4] 5])
qed

text \<open>The admission: the child takes the activation and writes its acknowledgement.\<close>

definition admitted_gate :: "gate \<Rightarrow> gate" where
  "admitted_gate g = g\<lparr>g_to_child := [], g_to_parent := g_to_parent g @ [LIVE], g_child := ChildAdmitted, g_owned := True\<rparr>"

lemma admission:
  assumes "g_child g = ChildGate" and "g_to_child g = [ACTIVATE]" and "g_open g"
  shows "(gate_step F deadline)\<^sup>*\<^sup>* g (admitted_gate g)"
proof -
  let ?g = "g\<lparr>g_to_child := [], g_child := ChildActivated\<rparr>"
  have "gate_step F deadline g ?g"
    using gate_step.child [OF child_activate [OF assms(1,2), of F]] by (simp add: expect_gate_byte_def)
  moreover have "gate_step F deadline ?g (?g\<lparr>g_to_parent := g_to_parent ?g @ [LIVE], g_child := ChildAdmitted, g_owned := True\<rparr>)"
    by (rule gate_step.child [OF child_live]) (use assms in simp_all)
  ultimately show ?thesis by (simp add: admitted_gate_def)
qed

lemma input_read:
  "g_child g = ChildAdmitted \<Longrightarrow> (gate_step F deadline)\<^sup>*\<^sup>* g (g\<lparr>g_input := [], g_held := g_held g @ g_input g\<rparr>)"
proof (induction "g_input g" arbitrary: g)
  case Nil
  then have "g\<lparr>g_input := [], g_held := g_held g @ g_input g\<rparr> = g" by (metis append_Nil2 gate.surjective gate.update_convs(13,14))
  then show ?case by simp
next
  case (Cons b bs)
  let ?g = "g\<lparr>g_input := bs, g_held := g_held g @ [b]\<rparr>"
  have "gate_step F deadline g ?g" by (rule gate_step.child [OF child_reads]) (use Cons in simp_all)
  moreover have "(gate_step F deadline)\<^sup>*\<^sup>* ?g (?g\<lparr>g_input := [], g_held := g_held ?g @ g_input ?g\<rparr>)"
    by (rule Cons.hyps(1)) (use Cons in simp_all)
  ultimately show ?case using Cons(2) [symmetric] by (simp add: converse_rtranclp_into_rtranclp)
qed

text \<open>
  C36. The handoff is not failure-atomic. Public input is lost only after an admission; but
  it can then be lost although no call of the system fails by itself. The parent's wait for
  the acknowledgement times out; before it has closed the stream the slow child takes the
  activation, acknowledges it and is admitted, so \<open>admit_successor\<close> succeeds, and it reads
  whatever public input has arrived; then the parent kills it, reports a failed handoff and
  goes on as the owner of a session whose input is neither unread nor held by anybody.
\<close>

theorem handoff_may_lose_input:
  assumes "now < deadline"
  shows "(\<forall>F g. gate_reachable F deadline now g \<and> \<not> g_owned g \<longrightarrow> g_input g = g_arrived g) \<and>
    (\<exists>g h. gate_reachable {} deadline now g \<and> g_child g = ChildAdmitted \<and> g_held g = bs \<and>
       (gate_step {} deadline)\<^sup>*\<^sup>* g h \<and> g_parent h = ParentDone (Inl would_block) \<and> g_child h = ChildExited \<and>
       g_arrived h = bs \<and> g_input h = [] \<and> g_held h = [])"
proof (intro conjI allI impI)
  fix F g assume "gate_reachable F deadline now g \<and> \<not> g_owned g"
  then show "g_input g = g_arrived g" using gate_inv_reachable by (auto simp: gate_inv_def)
next
  let ?late = "activated_gate deadline now deadline"
  have "gate_step {} deadline (activated_gate deadline now now ParentLive) (?late ParentLive)"
    using gate_step.time [of "{}" deadline "activated_gate deadline now now ParentLive" "deadline - now"] assms
    by (simp add: activated_gate_def)
  moreover have "gate_step {} deadline (?late ParentLive) (?late (ParentAbort would_block))"
    using gate_step.parent [OF read_times_out [of "?late ParentLive" "{}" deadline]] assms
    by (simp add: activated_gate_def)
  ultimately have late: "gate_reachable {} deadline now (?late (ParentAbort would_block))"
    using activated_reachable [OF assms] gate_path by blast
  let ?a = "admitted_gate (?late (ParentAbort would_block))"
  let ?b = "?a\<lparr>g_arrived := bs, g_input := bs\<rparr>"
  let ?g = "?b\<lparr>g_input := [], g_held := bs\<rparr>"
  have "gate_reachable {} deadline now ?a"
    by (rule gate_paths [OF late admission]) (simp_all add: activated_gate_def)
  moreover have "gate_step {} deadline ?a ?b"
    using gate_step.arrives [of "{}" deadline ?a bs] by (simp add: admitted_gate_def activated_gate_def)
  moreover have "(gate_step {} deadline)\<^sup>*\<^sup>* ?b ?g"
    using input_read [of ?b "{}" deadline] by (simp add: admitted_gate_def activated_gate_def)
  ultimately have g: "gate_reachable {} deadline now ?g" using gate_path gate_paths by blast
  let ?h = "(abort_successor (?g\<lparr>g_open := False\<rparr>))\<lparr>g_parent := ParentDone (Inl would_block)\<rparr>"
  have "gate_step {} deadline ?g (?g\<lparr>g_open := False\<rparr>)"
    by (rule gate_step.parent [OF parent_drop]) (simp_all add: admitted_gate_def activated_gate_def)
  moreover have "gate_step {} deadline (?g\<lparr>g_open := False\<rparr>) ?h"
    by (rule gate_step.parent [OF parent_abort]) (simp_all add: admitted_gate_def activated_gate_def)
  ultimately have "(gate_step {} deadline)\<^sup>*\<^sup>* ?g ?h" by simp
  with g show "\<exists>g h. gate_reachable {} deadline now g \<and> g_child g = ChildAdmitted \<and> g_held g = bs \<and>
       (gate_step {} deadline)\<^sup>*\<^sup>* g h \<and> g_parent h = ParentDone (Inl would_block) \<and> g_child h = ChildExited \<and>
       g_arrived h = bs \<and> g_input h = [] \<and> g_held h = []"
    by (intro exI [of _ ?g] exI [of _ ?h])
      (simp add: admitted_gate_def activated_gate_def abort_successor_def)
qed

section \<open>What the successor discovers\<close>

fun segment_ok :: "component \<Rightarrow> bool" where
  "segment_ok (Normal s) \<longleftrightarrow> s \<noteq> [] \<and> s \<noteq> ''.'' \<and> s \<noteq> ''..'' \<and> CHR ''/'' \<notin> set s"
| "segment_ok ParentDir = True"
| "segment_ok _ = False"

definition path_ok :: "path \<Rightarrow> bool" where
  "path_ok p \<longleftrightarrow> p \<noteq> [] \<and> hd p = RootDir \<and> list_all segment_ok (tl p)"

lemma split_slash_join: "CHR ''/'' \<notin> set a \<Longrightarrow> split_slash (a @ CHR ''/'' # b) = a # split_slash b"
  by (induction a) auto

lemma split_slash_plain: "CHR ''/'' \<notin> set a \<Longrightarrow> split_slash a = [a]"
  by (induction a) auto

lemma segments_text: "list_all segment_ok p \<Longrightarrow> List.map_filter segment (split_slash (path_text p)) = p"
proof (induction p)
  case (Cons c p)
  then have IH: "List.map_filter segment (split_slash (path_text p)) = p" by simp
  show ?case
  proof (cases c)
    case ParentDir
    have "split_slash (''..'' @ CHR ''/'' # path_text p) = ''..'' # split_slash (path_text p)"
      by (rule split_slash_join) simp
    moreover have "segment ''..'' = Some ParentDir" by (simp add: segment_def)
    ultimately show ?thesis using IH by (simp add: ParentDir List.map_filter_simps)
  next
    case (Normal s)
    then have s: "s \<noteq> []" "s \<noteq> ''.''" "s \<noteq> ''..''" "CHR ''/'' \<notin> set s" using Cons.prems by auto
    show ?thesis
      using IH s split_slash_join [OF s(4), of "path_text p"] split_slash_plain [OF s(4)]
      by (cases "p = []") (simp_all add: Normal List.map_filter_simps segment_def [of s])
  qed (use Cons.prems in auto)
qed (simp add: List.map_filter_simps segment_def)

lemma path_text_roundtrip: "path_ok p \<Longrightarrow> path_of (path_text p) = p"
proof -
  assume p: "path_ok p"
  then obtain q where q: "p = RootDir # q" "list_all segment_ok q" by (cases p) (auto simp: path_ok_def)
  have "split_slash (path_text p) = [] # split_slash (path_text q)" by (simp add: q(1))
  then show ?thesis using segments_text [OF q(2)]
    by (simp add: path_of_def q(1) starts_with_def List.map_filter_simps segment_def)
qed

text \<open>
  The successor of a managed host is managed by the same channel and knows itself as the
  generation it was selected as, waits at the gate its parent opened, finds the snapshot
  under the variable the consumer named, and starts with nothing armed.
\<close>

theorem successor_discovers_target:
  assumes "tg_channel t = Some channel" and "tg_generation t = Some generation" and "path_ok channel"
    and "release_id_try_new (id_text generation) = Inr generation" and "utf8 (id_text generation)"
    and "validate_server_name server = Inr ()"
    and "snapshot_env \<notin> {channel_env, generation_env, socket_env}" and "socket \<noteq> []"
  shows "\<exists>vars'. child_environment t snapshot_env snapshot_path socket vars = Inr vars' \<and>
    vars' snapshot_env = Some snapshot_path \<and>
    discover os utf8 vars' exe server =
      Inr \<lparr>rt_mode = Managed channel server generation, rt_successor = None, rt_gate = Some socket\<rparr>"
proof -
  have "path_absolute channel" using assms(3) by (cases channel) (auto simp: path_ok_def path_absolute_def)
  with assms path_text_roundtrip [OF assms(3)] show ?thesis
    by (auto simp: child_environment_def Let_def discover_def os_string_def nonempty_var_def
        channel_env_def generation_env_def socket_env_def)
qed

text \<open>A managed host whose channel selects another release, seen once.\<close>

definition incumbent_id :: release_id where
  "incumbent_id = ReleaseId (replicate 64 (CHR ''1''))"

definition managed_vars :: vars where
  "managed_vars = [channel_env \<mapsto> ''/c/stable'', generation_env \<mapsto> id_text incumbent_id]"

lemma managed_discover:
  "discover (sample_depot StatelessState) (\<lambda>_. True) managed_vars (Inl NotFound) ''server'' =
     Inr \<lparr>rt_mode = Managed sample_channel ''server'' incumbent_id, rt_successor = None, rt_gate = None\<rparr>"
proof -
  have "path_of ''/c/stable'' = sample_channel" "release_id_try_new (replicate 64 (CHR ''1'')) = Inr incumbent_id"
    by code_simp+
  then show ?thesis
    by (simp add: discover_def sample_server managed_vars_def channel_env_def generation_env_def socket_env_def
        os_string_def nonempty_var_def sample_dir_simps bindE_simps incumbent_id_def)
qed

lemma managed_observed:
  "rt_successor (foldl observe_step \<lparr>rt_mode = Managed sample_channel ''server'' incumbent_id,
       rt_successor = None, rt_gate = None\<rparr> [(sample_depot StatelessState, 0)]) =
     Some \<lparr>tg_executable = sample_dir @ [Normal ''server''], tg_channel = Some sample_channel,
       tg_generation = Some (ReleaseId sample_digits)\<rparr>"
proof -
  have "mf_generation (sample_release StatelessState) = ReleaseId sample_digits"
    "mf_executable (sample_release StatelessState) = sample_dir @ [Normal ''server'']"
    by (simp_all add: sample_release_def)
  moreover have "ReleaseId sample_digits \<noteq> incumbent_id" by code_simp
  ultimately show ?thesis
    by (simp add: observe_step_def observe_def observe_managed_def sample_load sample_verify)
qed

theorem armed_successor_checked_witness:
  "\<exists>os r. load_release os sample_channel ''server'' = Inr r \<and> verify_release os r = Inr () \<and>
     mf_generation r \<noteq> incumbent_id \<and> mf_executable r = sample_dir @ [Normal ''server'']"
proof -
  let ?rt = "\<lparr>rt_mode = Managed sample_channel ''server'' incumbent_id, rt_successor = None, rt_gate = None\<rparr>"
  have "rt_mode (foldl observe_step ?rt [(sample_depot StatelessState, 0)]) = rt_mode ?rt"
    by (simp add: observe_step_def observe_def observe_managed_def split: sum.splits)
  with armed_successor_checked [OF managed_discover managed_observed] show ?thesis by auto metis
qed

theorem handoff_exclusive_witness:
  "\<exists>g. gate_reachable {} 1 0 g \<and> g_child g = ChildAdmitted \<and> g_owned g \<and> \<not> before_activation (g_parent g)"
proof -
  let ?g = "admitted_gate (activated_gate 1 0 0 ParentLive)"
  have "gate_reachable {} 1 0 ?g"
    by (rule gate_paths [OF activated_reachable admission]) (simp_all add: activated_gate_def)
  moreover have "g_child ?g = ChildAdmitted" by (simp add: admitted_gate_def)
  ultimately show ?thesis using handoff_exclusive by blast
qed

theorem handoff_may_lose_input_witness:
  "\<exists>g h. gate_reachable {} 1 0 g \<and> g_held g = [7, 8] \<and> (gate_step {} 1)\<^sup>*\<^sup>* g h \<and>
    g_parent h = ParentDone (Inl would_block) \<and> g_arrived h = [7, 8] \<and> g_input h = [] \<and> g_held h = []"
  using handoff_may_lose_input [of 0 1 "[7, 8]"] by auto

theorem successor_discovers_target_witness:
  "\<exists>vars'. child_environment \<lparr>tg_executable = sample_channel, tg_channel = Some sample_channel,
       tg_generation = Some (ReleaseId sample_digits)\<rparr> ''STATE'' ''/tmp/state'' ''/tmp/gate'' managed_vars = Inr vars' \<and>
     vars' ''STATE'' = Some ''/tmp/state'' \<and>
     discover (sample_depot StatelessState) (\<lambda>_. True) vars' (Inl NotFound) ''server'' =
       Inr \<lparr>rt_mode = Managed sample_channel ''server'' (ReleaseId sample_digits), rt_successor = None,
         rt_gate = Some ''/tmp/gate''\<rparr>"
proof (rule successor_discovers_target)
  show "path_ok sample_channel" by code_simp
  show "''STATE'' \<notin> {channel_env, generation_env, socket_env}"
    by (simp add: channel_env_def generation_env_def socket_env_def)
qed (simp_all add: sample_ids sample_server)

end
