(* ===== verification/SnapshotFile.thy ===== *)
theory SnapshotFile
  imports Snapshot ReleaseRun Normalize Ops "HOL-Library.AList"
begin

text \<open>
  Snapshot capsules (the last part of \<open>host.rs\<close>): the private directory they live in and its
  pruning, writing one for a replacement process, and reading one back exactly once.

  The file system is an association list from paths to nodes. What the system answers to the
  calls of one operation is the record \<open>snapshot_host\<close>: every call may fail, a failed write
  leaves some prefix of its bytes, and a file may grow while it is read. A call that
  answers \<open>NotFound\<close> to a removal means that somebody else has removed the file. Times are in
  nanoseconds. The
  directory and name of a temporary file are chosen by the crate \<open>tempfile\<close>, an argument
  here (\<open>sh_create\<close>, \<open>sh_drop\<close>), as are the derived encoder and decoder of the value.
  Links in the middle of a path and the builds for systems other than Unix are left out.
\<close>

section \<open>The file system\<close>

datatype node_kind = RegularFile | Directory | Symlink | OtherNode

text \<open>Of \<open>nd_mode\<close> only the permission bits matter here: the type bits lie above bit six.\<close>

record node =
  nd_kind :: node_kind
  nd_uid :: u32
  nd_mode :: u32
  nd_modified :: "nat option"
  nd_bytes :: "byte list"

type_synonym disk = "(path \<times> node) list"

datatype file_call = CallLstat | CallCreateDir | CallLstatRaced | CallSetMode | CallReadDir
  | CallEntry | CallRemove | CallOpen | CallOpenMetadata | CallMetadata | CallRead | CallWrite
  | CallFlush | CallSync

record snapshot_host =
  sh_uid :: u32
  sh_now :: nat
  sh_runtime_dir :: "string option"
  sh_temp_dir :: path
  sh_fails :: "file_call \<Rightarrow> path \<Rightarrow> io_error option"
  sh_raced :: "disk option"
  sh_written :: nat
  sh_grown :: "byte list"
  sh_create :: "path \<Rightarrow> string \<Rightarrow> string \<Rightarrow> disk \<Rightarrow> io_error + path \<times> disk"
  sh_drop :: "path \<Rightarrow> disk \<Rightarrow> disk"

type_synonym 'a disk_op = "(disk, io_error, 'a) op"

definition sys :: "snapshot_host \<Rightarrow> file_call \<Rightarrow> path \<Rightarrow> unit disk_op" where
  "sys h c p = liftO (case sh_fails h c p of None \<Rightarrow> Inr () | Some e \<Rightarrow> Inl e)"

definition node_at :: "path \<Rightarrow> node disk_op" where
  "node_at p d = (case map_of d p of None \<Rightarrow> Inl NotFound | Some n \<Rightarrow> Inr n, d)"

definition set_node :: "path \<Rightarrow> (node \<Rightarrow> node) \<Rightarrow> disk \<Rightarrow> disk" where
  "set_node p f d = (case map_of d p of None \<Rightarrow> d | Some n \<Rightarrow> AList.update p (f n) d)"

text \<open>\<open>remove_file\<close> of the standard library.\<close>

definition remove_file :: "snapshot_host \<Rightarrow> path \<Rightarrow> unit disk_op" where
  "remove_file h p d =
     (case sh_fails h CallRemove p of
        Some e \<Rightarrow> (Inl e, if e = NotFound then AList.delete p d else d)
      | None \<Rightarrow> (if map_of d p = None then Inl NotFound else Inr (), AList.delete p d))"

section \<open>The directory of the capsules\<close>

definition snapshot_max_age :: nat where "snapshot_max_age = 3600 * 10 ^ 9"
definition snapshot_max_files :: nat where "snapshot_max_files = 128"

text \<open>
  Creating the directory; \<open>True\<close> when it exists already. \<open>sh_raced\<close> is the disk another
  process has left since the directory was found missing.
\<close>

definition create_dir :: "snapshot_host \<Rightarrow> path \<Rightarrow> bool disk_op" where
  "create_dir h root d =
     (let d' = (case sh_raced h of None \<Rightarrow> d | Some r \<Rightarrow> r) in
      case sh_fails h CallCreateDir root of
        Some e \<Rightarrow> (Inl e, d')
      | None \<Rightarrow> if map_of d' root = None
          then (Inr False, AList.update root \<lparr>nd_kind = Directory, nd_uid = sh_uid h, nd_mode = 448,
                 nd_modified = Some (sh_now h), nd_bytes = []\<rparr> d')
          else (Inr True, d'))"

definition not_real_directory :: "node \<Rightarrow> bool" where
  "not_real_directory n \<longleftrightarrow> nd_kind n = Symlink \<or> nd_kind n \<noteq> Directory"

definition ensure_root :: "snapshot_host \<Rightarrow> path \<Rightarrow> unit disk_op" where
  "ensure_root h root d =
     (case bindO (sys h CallLstat root) (\<lambda>_. node_at root) d of
        (Inr n, d') \<Rightarrow>
          if not_real_directory n then (Inl (OtherIo ''snapshot root is not a real directory''), d')
          else (Inr (), d')
      | (Inl e, d') \<Rightarrow>
          if e \<noteq> NotFound then (Inl e, d')
          else bindO (create_dir h root) (\<lambda>existed.
                 if \<not> existed then retO ()
                 else bindO (sys h CallLstatRaced root) (\<lambda>_. bindO (node_at root) (\<lambda>n.
                        if not_real_directory n
                        then failO (OtherIo ''snapshot root raced with a non-directory'')
                        else retO ()))) d')"

definition prepare_snapshot_root :: "snapshot_host \<Rightarrow> path \<Rightarrow> unit disk_op" where
  "prepare_snapshot_root h root =
     bindO (ensure_root h root) (\<lambda>_.
     bindO (sys h CallSetMode root) (\<lambda>_.
       modO (set_node root (\<lambda>n. n\<lparr>nd_mode := 448\<rparr>))))"

definition dir_entries :: "path \<Rightarrow> disk \<Rightarrow> disk" where
  "dir_entries root d = [(p, n) \<leftarrow> d. path_parent p = Some root]"

definition capsule_entry :: "snapshot_host \<Rightarrow> path \<times> node \<Rightarrow> (nat option \<times> path) option" where
  "capsule_entry h e =
     (if sh_fails h CallEntry (fst e) \<noteq> None then None
      else if nd_kind (snd e) = RegularFile then Some (nd_modified (snd e), fst e) else None)"

text \<open>The order of \<open>Reverse\<close> on an optional time: the newest first, no time last.\<close>

definition reverse_time :: "nat option \<Rightarrow> int" where
  "reverse_time m = (case m of None \<Rightarrow> 1 | Some t \<Rightarrow> - int t)"

definition expired :: "snapshot_host \<Rightarrow> nat option \<Rightarrow> bool" where
  "expired h modified =
     (case modified of None \<Rightarrow> False | Some m \<Rightarrow> m \<le> sh_now h \<and> sh_now h - m > snapshot_max_age)"

fun prune_entries :: "snapshot_host \<Rightarrow> nat \<Rightarrow> (nat option \<times> path) list \<Rightarrow> unit disk_op" where
  "prune_entries h index [] = retO ()"
| "prune_entries h index ((modified, p) # es) =
     bindO (if expired h modified \<or> index \<ge> snapshot_max_files
            then catchO (remove_file h p) (\<lambda>e. if e = NotFound then retO () else failO e)
            else retO ())
       (\<lambda>_. prune_entries h (Suc index) es)"

definition prune_snapshot_root :: "snapshot_host \<Rightarrow> path \<Rightarrow> unit disk_op" where
  "prune_snapshot_root h root =
     bindO (sys h CallReadDir root) (\<lambda>_ d.
       let capsules = sort_key (reverse_time \<circ> fst) (List.map_filter (capsule_entry h) (dir_entries root d))
       in prune_entries h 0 capsules d)"

definition fallback_snapshot_root :: "snapshot_host \<Rightarrow> path" where
  "fallback_snapshot_root h = sh_temp_dir h @ [Normal (''libmcp-snapshots-'' @ show_nat (unat (sh_uid h)))]"

definition root_path :: "snapshot_host \<Rightarrow> path" where
  "root_path h =
     (case sh_runtime_dir h of
        Some v \<Rightarrow> if v \<noteq> [] \<and> path_absolute (path_of v) then path_of v @ [Normal ''libmcp-snapshots'']
                  else fallback_snapshot_root h
      | None \<Rightarrow> fallback_snapshot_root h)"

definition snapshot_root :: "snapshot_host \<Rightarrow> path disk_op" where
  "snapshot_root h =
     bindO (prepare_snapshot_root h (root_path h)) (\<lambda>_.
     bindO (prune_snapshot_root h (root_path h)) (\<lambda>_. retO (root_path h)))"

section \<open>Writing and loading a capsule\<close>

definition validate_snapshot_prefix :: "string \<Rightarrow> io_error + unit" where
  "validate_snapshot_prefix s =
     (if s = [] \<or> length s > 64 \<or> \<not> list_all server_char s
      then Inl (InvalidInput ''snapshot prefix must be 1-64 portable filename characters'')
      else Inr ())"

definition append_bytes :: "snapshot_host \<Rightarrow> path \<Rightarrow> byte list \<Rightarrow> disk \<Rightarrow> disk" where
  "append_bytes h p bs = set_node p (\<lambda>n. n\<lparr>nd_bytes := nd_bytes n @ bs, nd_modified := Some (sh_now h)\<rparr>)"

definition write_capsule :: "snapshot_host \<Rightarrow> path \<Rightarrow> byte list \<Rightarrow> unit disk_op" where
  "write_capsule h p bytes =
     bindO (\<lambda>d. case sh_fails h CallWrite p of
         Some e \<Rightarrow> (Inl e, append_bytes h p (take (sh_written h) bytes) d)
       | None \<Rightarrow> (Inr (), append_bytes h p bytes d)) (\<lambda>_.
     bindO (sys h CallFlush p) (\<lambda>_. sys h CallSync p))"

definition write_snapshot_file ::
    "snapshot_host \<Rightarrow> ('a \<Rightarrow> byte list option) \<Rightarrow> string \<Rightarrow> 'a \<Rightarrow> path disk_op" where
  "write_snapshot_file h enc name_prefix x =
     bindO (liftO (validate_snapshot_prefix name_prefix)) (\<lambda>_.
     bindO (liftO (case enc x of
         None \<Rightarrow> Inl (InvalidData ''failed to serialize host reexec snapshot'') | Some b \<Rightarrow> Inr b)) (\<lambda>serialized.
     bindO (snapshot_root h) (\<lambda>root.
     bindO (\<lambda>d. case sh_create h root name_prefix ''.json'' d of
         Inl e \<Rightarrow> (Inl e, d) | Inr (p, d') \<Rightarrow> (Inr p, d')) (\<lambda>p.
       catchO (bindO (write_capsule h p serialized) (\<lambda>_. retO p))
         (\<lambda>e. bindO (modO (sh_drop h p)) (\<lambda>_. failO e))))))"

definition trailing_zeros :: "u32 \<Rightarrow> nat" where
  "trailing_zeros w = length (takeWhile (\<lambda>i. \<not> bit w i) [0..<32])"

definition open_private_snapshot :: "snapshot_host \<Rightarrow> path \<Rightarrow> node disk_op" where
  "open_private_snapshot h p =
     bindO (sys h CallOpen p) (\<lambda>_.
     bindO (node_at p) (\<lambda>file.
       if nd_kind file = Symlink then failO (OtherIo ''too many levels of symbolic links'')
       else bindO (sys h CallOpenMetadata p) (\<lambda>_.
         if nd_kind file \<noteq> RegularFile \<or> nd_uid file \<noteq> sh_uid h \<or> trailing_zeros (nd_mode file) < 6
         then failO (PermissionDenied ''snapshot capsule must be a private regular file owned by this user'')
         else retO file)))"

definition load_snapshot_file ::
    "snapshot_host \<Rightarrow> (byte list \<Rightarrow> 'a option) \<Rightarrow> path \<Rightarrow> nat \<Rightarrow> 'a disk_op" where
  "load_snapshot_file h dec p max_bytes =
     (if max_bytes = 0 then failO (InvalidInput ''snapshot byte limit must be non-zero'')
      else
        bindO (open_private_snapshot h p) (\<lambda>file.
        bindO (sys h CallMetadata p) (\<lambda>_.
        bindO (remove_file h p) (\<lambda>_.
          if length (nd_bytes file) > max_bytes
          then failO (InvalidData ''host snapshot exceeds the byte limit'')
          else
            bindO (sys h CallRead p) (\<lambda>_.
              let serialized = take (usize_saturating_add max_bytes 1) (nd_bytes file @ sh_grown h)
              in if length serialized > max_bytes
                 then failO (InvalidData ''host snapshot exceeds the byte limit'')
                 else case dec serialized of
                     None \<Rightarrow> failO (InvalidData ''failed to decode host reexec snapshot'')
                   | Some v \<Rightarrow> retO v)))))"


section \<open>What loading a capsule does\<close>

definition capsule_private :: "snapshot_host \<Rightarrow> node \<Rightarrow> bool" where
  "capsule_private h n \<longleftrightarrow>
     nd_kind n = RegularFile \<and> nd_uid n = sh_uid h \<and> (\<forall>i<6. \<not> bit (nd_mode n) i)"

lemma trailing_zeros_less: "trailing_zeros w < 6 \<longleftrightarrow> (\<exists>i<6. bit w i)"
proof
  let ?P = "\<lambda>i. \<not> bit w i"
  assume "trailing_zeros w < 6"
  then have "length (takeWhile ?P [0..<32]) < 6" by (simp add: trailing_zeros_def)
  with nth_length_takeWhile [of ?P "[0..<32]"] show "\<exists>i<6. bit w i" by auto
next
  let ?P = "\<lambda>i. \<not> bit w i"
  assume "\<exists>i<6. bit w i"
  then obtain i where i: "i < 6" "bit w i" by blast
  show "trailing_zeros w < 6"
  proof (rule ccontr)
    assume "\<not> trailing_zeros w < 6"
    then have l: "i < length (takeWhile ?P [0..<32])" using i(1) by (simp add: trailing_zeros_def)
    from takeWhile_nth [OF l] have "takeWhile ?P [0..<32] ! i = i" using i(1) by simp
    with nth_mem [OF l] i(2) show False by (auto dest: set_takeWhileD)
  qed
qed

lemma sys_result: "sys h c p d = (case sh_fails h c p of None \<Rightarrow> Inr () | Some e \<Rightarrow> Inl e, d)"
  by (simp add: sys_def)

lemma open_private_result:
  assumes "open_private_snapshot h p d = (r, d')"
  shows "d' = d \<and> (\<forall>n. r = Inr n \<longrightarrow> map_of d p = Some n \<and> capsule_private h n)"
  using assms
  by (auto simp: open_private_snapshot_def bindO_def sys_result node_at_def capsule_private_def
      trailing_zeros_less split: option.splits if_splits)

lemma remove_file_result:
  assumes "remove_file h p d = (r, d')"
  shows "(d' = d \<or> d' = AList.delete p d) \<and> (r = Inr () \<or> r = Inl NotFound \<longrightarrow> d' = AList.delete p d)"
  using assms by (auto simp: remove_file_def split: option.splits if_splits)

text \<open>
  C38. A value comes out of a capsule only if the file was a private regular file of this
  user, within the limit, and not a link; whoever loads it finds it gone, and a load that
  fails has changed nothing else.
\<close>

theorem loaded_capsule_private:
  assumes "load_snapshot_file h dec p max_bytes d = (r, d')" and "max_bytes < usize_max"
  shows "(d' = d \<or> d' = AList.delete p d) \<and>
    (\<forall>v. r = Inr v \<longrightarrow> d' = AList.delete p d \<and> (\<exists>n. map_of d p = Some n \<and> capsule_private h n \<and>
       length (nd_bytes n @ sh_grown h) \<le> max_bytes \<and> dec (nd_bytes n @ sh_grown h) = Some v))"
proof (cases "max_bytes = 0")
  case False
  obtain r1 d1 where o: "open_private_snapshot h p d = (r1, d1)" by fastforce
  note o' = open_private_result [OF o]
  show ?thesis
  proof (cases r1)
    case (Inr n)
    then have n: "map_of d p = Some n" "capsule_private h n" "d1 = d" using o' by auto
    obtain r2 d2 where rm: "remove_file h p d = (r2, d2)" by fastforce
    note rm' = remove_file_result [OF rm]
    show ?thesis
    proof (cases "sh_fails h CallMetadata p = None \<and> r2 = Inr ()")
      case True
      let ?bs = "nd_bytes n @ sh_grown h"
      have small: "length (take (usize_saturating_add max_bytes 1) ?bs) \<le> max_bytes \<Longrightarrow>
          length ?bs \<le> max_bytes \<and> take (usize_saturating_add max_bytes 1) ?bs = ?bs"
        using assms(2) by (auto simp: usize_saturating_add_def)
      have gone: "d2 = AList.delete p d" using rm' True by blast
      have "load_snapshot_file h dec p max_bytes d =
          (if length (nd_bytes n) > max_bytes
           then failO (InvalidData ''host snapshot exceeds the byte limit'')
           else bindO (sys h CallRead p) (\<lambda>_.
              let serialized = take (usize_saturating_add max_bytes 1) ?bs
              in if length serialized > max_bytes
                 then failO (InvalidData ''host snapshot exceeds the byte limit'')
                 else case dec serialized of
                     None \<Rightarrow> failO (InvalidData ''failed to decode host reexec snapshot'')
                   | Some v \<Rightarrow> retO v)) d2"
        using True o Inr rm n(3) \<open>max_bytes \<noteq> 0\<close>
        by (simp add: load_snapshot_file_def bindO_def sys_result)
      with assms(1) small gone n show ?thesis
        by (auto simp: bindO_def sys_result Let_def split: if_splits option.splits)
    next
      case False
      then show ?thesis using assms rm rm' n o Inr \<open>max_bytes \<noteq> 0\<close>
        by (cases r2) (auto simp: load_snapshot_file_def bindO_def sys_result split: option.splits)
    qed
  qed (use assms o o' False in \<open>auto simp: load_snapshot_file_def\<close>)
qed (use assms in \<open>auto simp: load_snapshot_file_def\<close>)




section \<open>What writing a capsule leaves\<close>

text \<open>
  What the crate \<open>tempfile\<close> documents: a new file, under the prefix and suffix asked for with a
  random part of letters and digits between them, empty, private and the user's own;
  dropped, it is removed.
\<close>

definition tempfile_laws :: "snapshot_host \<Rightarrow> bool" where
  "tempfile_laws h \<longleftrightarrow>
     (\<forall>dir pre suf d p d'. sh_create h dir pre suf d = Inr (p, d') \<longrightarrow> map_of d p = None \<and>
        (\<exists>name. list_all is_ascii_alphanumeric name \<and> p = dir @ [Normal (pre @ name @ suf)]) \<and>
        (\<exists>t. d' = AList.update p \<lparr>nd_kind = RegularFile, nd_uid = sh_uid h, nd_mode = 384,
           nd_modified = t, nd_bytes = []\<rparr> d)) \<and>
     (\<forall>p d. sh_drop h p d = AList.delete p d)"

lemma set_node_at: "map_of (set_node p f d) q = (if q = p then map_option f (map_of d p) else map_of d q)"
  by (auto simp: set_node_def update_conv' split: option.split)

lemma append_bytes_at:
  "map_of (append_bytes h p bs d) q = (if q = p then map_option
     (\<lambda>n. n\<lparr>nd_bytes := nd_bytes n @ bs, nd_modified := Some (sh_now h)\<rparr>) (map_of d p) else map_of d q)"
  by (simp add: append_bytes_def set_node_at)

lemma write_capsule_result:
  assumes "write_capsule h p bytes d = (r, d')"
  shows "(\<exists>bs. d' = append_bytes h p bs d) \<and> (r = Inr () \<longrightarrow> d' = append_bytes h p bytes d)"
  using assms by (auto simp: write_capsule_def bindO_def sys_result split: option.splits)

lemma write_steps:
  assumes "write_snapshot_file h enc pre x d = (r, d')"
  obtains (refused) e where "r = Inl e" "d' = d"
  | (root) e where "r = Inl e" "d' = snd (snapshot_root h d)"
  | (capsule) d1 p d2 b s d3 where "validate_snapshot_prefix pre = Inr ()" "enc x = Some b"
      "snapshot_root h d = (Inr (root_path h), d1)" "sh_create h (root_path h) pre ''.json'' d1 = Inr (p, d2)"
      "write_capsule h p b d2 = (s, d3)"
      "(r, d') = (case s of Inl e \<Rightarrow> (Inl e, sh_drop h p d3) | Inr _ \<Rightarrow> (Inr p, d3))"
proof (cases "validate_snapshot_prefix pre = Inr () \<and> enc x \<noteq> None")
  case False
  with assms refused show ?thesis
    by (cases "validate_snapshot_prefix pre"; cases "enc x") (auto simp: write_snapshot_file_def)
next
  case True
  then obtain b where b: "enc x = Some b" "validate_snapshot_prefix pre = Inr ()" by auto
  obtain rr d1 where sr: "snapshot_root h d = (rr, d1)" by fastforce
  have rr: "rr = Inr root \<Longrightarrow> root = root_path h" for root
    using sr by (auto simp: snapshot_root_def bindO_def split: prod.splits sum.splits)
  show ?thesis
  proof (cases rr)
    case (Inl e)
    with assms b sr root show ?thesis by (auto simp: write_snapshot_file_def bindO_def)
  next
    case (Inr rt)
    then have rt: "rt = root_path h" using rr by simp
    show ?thesis
    proof (cases "sh_create h (root_path h) pre ''.json'' d1")
      case (Inl e)
      with assms b sr Inr rt root show ?thesis by (auto simp: write_snapshot_file_def bindO_def)
    next
      case (Inr c)
      obtain p d2 where c: "c = (p, d2)" by fastforce
      obtain s d3 where w: "write_capsule h p b d2 = (s, d3)" by fastforce
      have "(r, d') = (case s of Inl e \<Rightarrow> (Inl e, sh_drop h p d3) | Inr _ \<Rightarrow> (Inr p, d3))"
        using assms b sr \<open>rr = Inr rt\<close> rt Inr c w
        by (cases s) (simp_all add: write_snapshot_file_def bindO_def catchO_def)
      with b sr \<open>rr = Inr rt\<close> rt Inr c w capsule show ?thesis by auto
    qed
  qed
qed

lemma written_capsule:
  assumes "tempfile_laws h" and "write_snapshot_file h enc pre x d = (Inr p, d')"
  shows "\<exists>n name. enc x = Some (nd_bytes n) \<and> capsule_private h n \<and> validate_snapshot_prefix pre = Inr () \<and>
    list_all is_ascii_alphanumeric name \<and> p = root_path h @ [Normal (pre @ name @ ''.json'')] \<and>
    map_of (snd (snapshot_root h d)) p = None \<and> map_of d' = (map_of (snd (snapshot_root h d)))(p \<mapsto> n)"
  using assms(2)
proof (cases rule: write_steps)
  case (capsule d1 p' d2 b s d3)
  then have p: "p' = p" "d3 = d'" "s = Inr ()" by (auto split: sum.splits)
  from assms(1) capsule(4) p obtain name t where new: "map_of d1 p = None"
    "list_all is_ascii_alphanumeric name" "p = root_path h @ [Normal (pre @ name @ ''.json'')]"
    "d2 = AList.update p \<lparr>nd_kind = RegularFile, nd_uid = sh_uid h, nd_mode = 384, nd_modified = t, nd_bytes = []\<rparr> d1"
    unfolding tempfile_laws_def by metis
  let ?n = "\<lparr>nd_kind = RegularFile, nd_uid = sh_uid h, nd_mode = 384, nd_modified = Some (sh_now h), nd_bytes = b\<rparr>"
  have "d' = append_bytes h p b d2" using write_capsule_result [OF capsule(5)] p by blast
  then have "map_of d' = (map_of d1)(p \<mapsto> ?n)" by (auto simp: fun_eq_iff append_bytes_at new(4) update_conv')
  moreover have "capsule_private h ?n"
  proof -
    have "\<forall>i\<in>set [0..<6]. \<not> bit (384 :: u32) i" by code_simp
    then show ?thesis by (simp add: capsule_private_def)
  qed
  ultimately show ?thesis using capsule new by (auto intro!: exI [of _ ?n] exI [of _ name])
qed auto

text \<open>
  C39. Writing a capsule is all or nothing: either it returns the path of a new private file
  that holds exactly the encoded value and leaves every other file as preparing the
  directory left it, or it fails and no part of a capsule is left behind.
\<close>

theorem capsule_all_or_nothing:
  assumes "tempfile_laws h" and "write_snapshot_file h enc pre x d = (r, d')"
  shows "case r of
      Inl e \<Rightarrow> map_of d' \<in> {map_of d, map_of (snd (snapshot_root h d))}
    | Inr p \<Rightarrow> \<exists>n name. enc x = Some (nd_bytes n) \<and> capsule_private h n \<and>
        p = root_path h @ [Normal (pre @ name @ ''.json'')] \<and>
        map_of (snd (snapshot_root h d)) p = None \<and> map_of d' = (map_of (snd (snapshot_root h d)))(p \<mapsto> n)"
proof (cases r)
  case (Inr p)
  then show ?thesis using written_capsule [OF assms(1)] assms(2) by fastforce
next
  case (Inl e)
  from assms(2) show ?thesis
  proof (cases rule: write_steps)
    case (capsule d1 p d2 b s d3)
    from assms(1) capsule(4) obtain t where new: "map_of d1 p = None"
      "d2 = AList.update p \<lparr>nd_kind = RegularFile, nd_uid = sh_uid h, nd_mode = 384, nd_modified = t, nd_bytes = []\<rparr> d1"
      unfolding tempfile_laws_def by metis
    obtain bs where bs: "d3 = append_bytes h p bs d2" using write_capsule_result [OF capsule(5)] by blast
    have "map_of (AList.delete p d3) = map_of d1"
      using new(1) by (auto simp: fun_eq_iff delete_conv' bs append_bytes_at new(2) update_conv')
    with Inl capsule assms(1) show ?thesis by (auto simp: tempfile_laws_def split: sum.splits)
  qed auto
qed

section \<open>What pruning leaves\<close>

definition victim :: "snapshot_host \<Rightarrow> nat \<times> nat option \<times> path \<Rightarrow> bool" where
  "victim h e \<longleftrightarrow> expired h (fst (snd e)) \<or> fst e \<ge> snapshot_max_files"

definition doomed :: "snapshot_host \<Rightarrow> nat \<Rightarrow> (nat option \<times> path) list \<Rightarrow> path set" where
  "doomed h i es = {p. \<exists>j m. (j, m, p) \<in> set (enumerate i es) \<and> victim h (j, m, p)}"

lemma doomed_simps [simp]:
  "doomed h i [] = {}"
  "doomed h i ((m, p) # es) = (if victim h (i, m, p) then {p} else {}) \<union> doomed h (Suc i) es"
  by (auto simp: doomed_def)

lemma delete_filter: "AList.delete p (d :: ('a \<times> 'b) list) = filter (\<lambda>e. fst e \<noteq> p) d"
proof -
  have "(\<lambda>(k, _). p \<noteq> k) = (\<lambda>e :: 'a \<times> 'b. fst e \<noteq> p)" by (auto simp: fun_eq_iff)
  then show ?thesis by (simp add: AList.delete_eq)
qed

lemma prune_entries_result:
  "prune_entries h i es d = (Inr (), d') \<Longrightarrow> d' = filter (\<lambda>e. fst e \<notin> doomed h i es) d"
proof (induction h i es arbitrary: d rule: prune_entries.induct)
  case (2 h i m p es)
  show ?case
  proof (cases "victim h (i, m, p)")
    case True
    obtain r d1 where rm: "remove_file h p d = (r, d1)" by fastforce
    with 2(2) True have "r = Inr () \<or> r = Inl NotFound"
      by (cases r) (auto simp: victim_def bindO_def catchO_def split: if_splits)
    then have "d1 = AList.delete p d" using remove_file_result [OF rm] by blast
    moreover have "prune_entries h (Suc i) es d1 = (Inr (), d')"
      using 2(2) True rm \<open>r = Inr () \<or> r = Inl NotFound\<close> by (auto simp: victim_def bindO_def catchO_def)
    then have "d' = filter (\<lambda>e. fst e \<notin> doomed h (Suc i) es) d1" by (rule 2(1))
    ultimately show ?thesis using True by (simp add: delete_filter)
  next
    case False
    with 2 show ?thesis by (auto simp: victim_def intro!: filter_cong)
  qed
qed simp

definition capsule_at :: "path \<Rightarrow> path \<times> node \<Rightarrow> bool" where
  "capsule_at root e \<longleftrightarrow> path_parent (fst e) = Some root \<and> nd_kind (snd e) = RegularFile"

lemma enumerate_nth: "j < length es \<Longrightarrow> (i + j, es ! j) \<in> set (enumerate i es)"
  by (auto simp: in_set_enumerate_eq)

lemma spared:
  assumes "c \<in> set es" and "snd c \<notin> doomed h 0 es"
  shows "c \<in> set (take snapshot_max_files es) \<and> \<not> expired h (fst c)"
proof -
  obtain j where j: "j < length es" "es ! j = c" using assms(1) by (auto simp: in_set_conv_nth)
  have "\<not> victim h (j, c)"
    using assms(2) enumerate_nth [OF j(1), of 0] j(2) by (cases c) (auto simp: doomed_def)
  then show ?thesis using j by (auto simp: victim_def in_set_conv_nth intro: exI [of _ j])
qed

lemma slain:
  assumes "(m, p) \<in> set es" and "p \<in> doomed h 0 es" and "distinct (map snd es)" and "sorted (map (f \<circ> fst) es)"
  shows "expired h m \<or> snapshot_max_files < length es \<and>
    (\<forall>c\<in>set (take snapshot_max_files es). (f (fst c) :: int) \<le> f m)"
proof -
  from assms(2) obtain j m' where j: "j < length es" "es ! j = (m', p)" "victim h (j, m', p)"
    by (auto simp: doomed_def in_set_enumerate_eq)
  from assms(1) obtain j' where j': "j' < length es" "es ! j' = (m, p)" by (auto simp: in_set_conv_nth)
  with j assms(3) have "j' = j" by (metis distinct_conv_nth length_map nth_map snd_conv)
  show ?thesis
  proof (cases "expired h m")
    case False
    then have n: "snapshot_max_files \<le> j" using j j' \<open>j' = j\<close> by (simp add: victim_def)
    have "f (fst c) \<le> f m" if "c \<in> set (take snapshot_max_files es)" for c
    proof -
      from that obtain i where i: "i < snapshot_max_files" "i < length es" "es ! i = c"
        by (auto simp: in_set_conv_nth)
      have "map (f \<circ> fst) es ! i \<le> map (f \<circ> fst) es ! j"
        using assms(4) i n j(1) by (intro sorted_nth_mono) auto
      then show ?thesis using i j j' \<open>j' = j\<close> by simp
    qed
    with n j(1) show ?thesis by auto
  qed simp
qed

text \<open>The capsules that pruning considers, and what it makes of them.\<close>

definition capsules_of :: "snapshot_host \<Rightarrow> path \<Rightarrow> disk \<Rightarrow> (nat option \<times> path) list" where
  "capsules_of h root d =
     sort_key (reverse_time \<circ> fst) (List.map_filter (capsule_entry h) (dir_entries root d))"

lemma capsules_of_map:
  assumes "\<And>p. sh_fails h CallEntry p = None"
  shows "List.map_filter (capsule_entry h) (dir_entries root d) =
    map (\<lambda>e. (nd_modified (snd e), fst e)) (filter (capsule_at root) d)"
  using assms by (induction d) (auto simp: dir_entries_def List.map_filter_simps capsule_entry_def capsule_at_def)

lemma capsules_of_facts:
  assumes "\<And>p. sh_fails h CallEntry p = None" and "alist_ok d"
  shows "(m, p) \<in> set (capsules_of h root d) \<longleftrightarrow>
      (\<exists>n. (p, n) \<in> set d \<and> capsule_at root (p, n) \<and> m = nd_modified n)"
    and "length (capsules_of h root d) = length (filter (capsule_at root) d)"
    and "distinct (map snd (capsules_of h root d))"
    and "sorted (map (reverse_time \<circ> fst) (capsules_of h root d))"
proof -
  note all = capsules_of_map [OF assms(1), of root d]
  show "(m, p) \<in> set (capsules_of h root d) \<longleftrightarrow>
      (\<exists>n. (p, n) \<in> set d \<and> capsule_at root (p, n) \<and> m = nd_modified n)"
    by (force simp: capsules_of_def all)
  show "length (capsules_of h root d) = length (filter (capsule_at root) d)" by (simp add: capsules_of_def all)
  have "distinct (map snd (map (\<lambda>e. (nd_modified (snd e), fst e)) (filter (capsule_at root) d)))"
    using assms(2) by (simp add: comp_def alist_ok_def distinct_map_filter)
  then show "distinct (map snd (capsules_of h root d))" unfolding capsules_of_def all
    by (auto simp: distinct_map inj_on_def)
  show "sorted (map (reverse_time \<circ> fst) (capsules_of h root d))" by (simp add: capsules_of_def)
qed

lemma pruned_disk:
  "prune_snapshot_root h root d = (Inr (), d') \<Longrightarrow>
     d' = filter (\<lambda>e. fst e \<notin> doomed h 0 (capsules_of h root d)) d"
  by (intro prune_entries_result)
    (auto simp: prune_snapshot_root_def capsules_of_def bindO_def sys_result Let_def split: option.splits)

lemma kept_few:
  assumes "distinct (map fst es)" and "fst ` set es \<subseteq> snd ` set (take n cs)"
  shows "length es \<le> n"
proof -
  have "length es = card (fst ` set es)" using distinct_card [OF assms(1)] by simp
  also have "\<dots> \<le> card (snd ` set (take n cs))" by (intro card_mono assms(2)) simp
  also have "\<dots> \<le> card (set (take n cs))" by (rule card_image_le) simp
  also have "\<dots> \<le> length (take n cs)" by (rule card_length)
  also have "\<dots> \<le> n" by simp
  finally show ?thesis .
qed

lemma newer_first:
  "reverse_time m' \<le> reverse_time m \<Longrightarrow> m = Some t \<Longrightarrow> \<exists>t'. m' = Some t' \<and> t \<le> t'"
  by (cases m') (simp_all add: reverse_time_def)

text \<open>
  C40. Pruning bounds the directory and keeps the newest: it leaves at most 128 files, none of
  them expired, and takes nothing but regular files of the directory: the expired ones, and
  of a directory of more than 128 files those that every file kept is at least as new as, by
  its time of modification (a file whose time cannot be read counts as the oldest). It does so
  whoever wrote the files and whatever handoff they belong to.
\<close>

theorem pruning_keeps_newest:
  assumes "prune_snapshot_root h root d = (Inr (), d')" and ok: "alist_ok d"
    and ent: "\<And>p. sh_fails h CallEntry p = None"
  shows "length (filter (capsule_at root) d') \<le> snapshot_max_files \<and>
    (\<forall>e\<in>set d'. capsule_at root e \<longrightarrow> \<not> expired h (nd_modified (snd e))) \<and>
    (\<forall>e\<in>set d - set d'. capsule_at root e \<and> (expired h (nd_modified (snd e)) \<or>
       snapshot_max_files < length (filter (capsule_at root) d) \<and>
       (\<forall>e'\<in>set d'. capsule_at root e' \<longrightarrow> (\<forall>t. nd_modified (snd e) = Some t \<longrightarrow>
          (\<exists>t'. nd_modified (snd e') = Some t' \<and> t \<le> t'))))) \<and>
    set d' \<subseteq> set d"
proof -
  let ?cs = "capsules_of h root d"
  note cs = capsules_of_facts [OF ent ok, where root = root]
  note d' = pruned_disk [OF assms(1)]
  have keep: "(nd_modified n, p) \<in> set (take snapshot_max_files ?cs) \<and> \<not> expired h (nd_modified n)"
    if "(p, n) \<in> set d'" "capsule_at root (p, n)" for p n
    using spared [of "(nd_modified n, p)" ?cs h] that cs(1) by (auto simp: d')
  have few: "length (filter (capsule_at root) d') \<le> snapshot_max_files"
    by (rule kept_few [where cs = ?cs]) (use ok keep in \<open>force simp: d' alist_ok_def distinct_map_filter\<close>)+
  have lost: "capsule_at root (p, n) \<and> (expired h (nd_modified n) \<or>
     snapshot_max_files < length (filter (capsule_at root) d) \<and>
     (\<forall>e'\<in>set d'. capsule_at root e' \<longrightarrow> (\<forall>t. nd_modified n = Some t \<longrightarrow>
        (\<exists>t'. nd_modified (snd e') = Some t' \<and> t \<le> t'))))"
    if e: "(p, n) \<in> set d" "(p, n) \<notin> set d'" for p n
  proof -
    have doom: "p \<in> doomed h 0 ?cs" using e by (auto simp: d')
    then obtain m where m: "(m, p) \<in> set ?cs" by (auto simp: doomed_def in_set_enumerate_eq) (metis nth_mem)
    with cs(1) obtain n' where n': "(p, n') \<in> set d" "capsule_at root (p, n')" "m = nd_modified n'" by blast
    have "n' = n" using n'(1) e(1) ok by (metis alist_ok_def eq_key_imp_eq_value)
    with slain [OF m doom cs(3,4)] keep n' cs(2) have "expired h (nd_modified n) \<or>
        snapshot_max_files < length (filter (capsule_at root) d) \<and>
        (\<forall>e'\<in>set d'. capsule_at root e' \<longrightarrow> reverse_time (nd_modified (snd e')) \<le> reverse_time (nd_modified n))"
      by fastforce
    with n'(2) \<open>n' = n\<close> newer_first show ?thesis by blast
  qed
  have "set d' \<subseteq> set d" by (auto simp: d')
  with few keep lost show ?thesis by (intro conjI) fastforce+
qed

section \<open>A session through a handoff\<close>









section \<open>Samples\<close>

text \<open>A host on an empty disk, whose temporary files are named by a letter.\<close>

definition sample_host :: snapshot_host where
  "sample_host = \<lparr>sh_uid = 7, sh_now = 5, sh_runtime_dir = Some ''/run'', sh_temp_dir = [RootDir, Normal ''tmp''],
     sh_fails = (\<lambda>_ _. None), sh_raced = None, sh_written = 0, sh_grown = [],
     sh_create = (\<lambda>dir pre suf d. let p = dir @ [Normal (pre @ ''x'' @ suf)] in
       if map_of d p = None
       then Inr (p, AList.update p \<lparr>nd_kind = RegularFile, nd_uid = 7, nd_mode = 384, nd_modified = None,
         nd_bytes = []\<rparr> d)
       else Inl (OtherIo ''exists'')),
     sh_drop = AList.delete\<rparr>"

definition sample_capsule_path :: path where
  "sample_capsule_path = [RootDir, Normal ''run'', Normal ''libmcp-snapshots'', Normal ''a-x.json'']"

lemma sample_laws: "tempfile_laws sample_host"
  by (auto simp: tempfile_laws_def sample_host_def Let_def is_ascii_alphanumeric_def is_ascii_lowercase_def
      split: if_splits intro!: exI [of _ "''x''"])

lemma sample_root: "root_path sample_host = [RootDir, Normal ''run'', Normal ''libmcp-snapshots'']"
  by code_simp

definition sample_disk :: disk where
  "sample_disk = [(root_path sample_host, \<lparr>nd_kind = Directory, nd_uid = 7, nd_mode = 448,
     nd_modified = Some 5, nd_bytes = []\<rparr>)]"



definition sample_file :: node where
  "sample_file = \<lparr>nd_kind = RegularFile, nd_uid = 7, nd_mode = 384, nd_modified = Some 5, nd_bytes = [1]\<rparr>"

definition written_disk :: disk where
  "written_disk = sample_disk @ [(sample_capsule_path, sample_file)]"

lemma sample_host_simps:
  "sh_uid sample_host = 7" "sh_now sample_host = 5" "sh_fails sample_host c p = None"
  "sh_raced sample_host = None" "sh_grown sample_host = []"
  by (simp_all add: sample_host_def)

lemmas sample_file_simps = bindO_def sys_result node_at_def sample_host_simps sample_disk_def written_disk_def
  sample_file_def sample_root sample_capsule_path_def set_node_def

lemma sample_snapshot_root: "snapshot_root sample_host sample_disk = (Inr (root_path sample_host), sample_disk)"
  by (simp add: snapshot_root_def prepare_snapshot_root_def ensure_root_def prune_snapshot_root_def
      dir_entries_def path_parent_def not_real_directory_def sample_file_simps List.map_filter_simps)

lemma sample_create:
  "sh_create sample_host (root_path sample_host) ''a-'' ''.json'' sample_disk =
     Inr (sample_capsule_path, AList.update sample_capsule_path
       \<lparr>nd_kind = RegularFile, nd_uid = 7, nd_mode = 384, nd_modified = None, nd_bytes = []\<rparr> sample_disk)"
  unfolding sample_root sample_capsule_path_def sample_disk_def by (simp add: sample_host_def Let_def)

lemma sample_write:
  "write_snapshot_file sample_host (\<lambda>_. Some [1]) ''a-'' () sample_disk = (Inr sample_capsule_path, written_disk)"
proof -
  have "validate_snapshot_prefix ''a-'' = Inr ()" by code_simp
  then show ?thesis
    using sample_snapshot_root [unfolded sample_file_simps] sample_create [unfolded sample_file_simps]
    by (simp add: write_snapshot_file_def catchO_def write_capsule_def append_bytes_def sample_file_simps)
qed

lemma sample_capsule_load:
  "load_snapshot_file sample_host Some sample_capsule_path 9 written_disk = (Inr [1], sample_disk)"
proof -
  have "\<not> trailing_zeros 384 < 6" by (simp add: trailing_zeros_def upt_rec)
  then show ?thesis
    by (simp add: load_snapshot_file_def open_private_snapshot_def remove_file_def sample_file_simps
        usize_saturating_add_def usize_max_def)
qed

theorem loaded_capsule_private_witness:
  "\<exists>n. map_of written_disk sample_capsule_path = Some n \<and> capsule_private sample_host n \<and> length (nd_bytes n) \<le> 9"
  using loaded_capsule_private [OF sample_capsule_load] by (auto simp: usize_max_def)

theorem capsule_all_or_nothing_witness:
  "\<exists>n. capsule_private sample_host n \<and> nd_bytes n = [1] \<and> map_of written_disk sample_capsule_path = Some n"
  using capsule_all_or_nothing [OF sample_laws sample_write] by auto

text \<open>The same directory when the capsule has outlived its time.\<close>

definition stale_host :: snapshot_host where
  "stale_host = sample_host\<lparr>sh_now := 6 + snapshot_max_age\<rparr>"

lemma stale_host_simps:
  "sh_now stale_host = 6 + snapshot_max_age" "sh_fails stale_host c p = None"
  by (simp_all add: stale_host_def sample_host_def)

lemma stale_prune: "prune_snapshot_root stale_host (root_path sample_host) written_disk = (Inr (), sample_disk)"
  by (simp add: prune_snapshot_root_def dir_entries_def path_parent_def sample_file_simps stale_host_simps
      List.map_filter_simps capsule_entry_def expired_def remove_file_def catchO_def)

theorem pruning_keeps_newest_witness:
  "capsule_at (root_path sample_host) (sample_capsule_path, sample_file) \<and>
     expired stale_host (nd_modified sample_file) \<and> (sample_capsule_path, sample_file) \<notin> set sample_disk"
proof -
  have ok: "alist_ok written_disk" and out: "(sample_capsule_path, sample_file) \<notin> set sample_disk"
    and few: "\<not> snapshot_max_files < length (filter (capsule_at (root_path sample_host)) written_disk)"
    by (simp_all add: alist_ok_def written_disk_def sample_disk_def sample_capsule_path_def sample_root
        snapshot_max_files_def)
  have "(sample_capsule_path, sample_file) \<in> set written_disk - set sample_disk"
    using out by (simp add: written_disk_def)
  from pruning_keeps_newest [OF stale_prune ok stale_host_simps(2), THEN conjunct2, THEN conjunct2, THEN conjunct1,
      THEN bspec, OF this] few out
  show ?thesis by simp
qed


end
