(* ===== verification/Stages.thy ===== *)
theory Stages
  imports HostTheorems
begin

text \<open>
  The stages of a candidate: the invariant of a reachable host that ties the candidate's stage,
  the requests the host has put to it, the phase of the rollover and the session kernel
  together. \<open>Drain\<close> draws from it what a rollover waits for.

  \<open>ok b X\<close> is the supervisor's invariant with this one; with \<open>b\<close> it also says that beside a
  live incumbent nothing waits to be replayed, which holds between events only, so a handler is
  shown to \<open>settle\<close>: what it leaves on success satisfies \<open>ok True\<close>, on an error \<open>ok False\<close>.
\<close>

section \<open>The stage of a candidate\<close>

fun stage_action :: "candidate_stage \<Rightarrow> internal_action \<Rightarrow> bool" where
  "stage_action CandidateInitializing InitializeCandidate = True"
| "stage_action CandidateCatalog CatalogOfCandidate = True"
| "stage_action CandidateRestoring (RestoreJournal _) = True"
| "stage_action _ _ = False"

definition candidate_entries ::
    "('n request_id \<times> internal_request) list \<Rightarrow> ('n request_id \<times> internal_request) list" where
  "candidate_entries al = filter (\<lambda>e. ir_action (snd e) \<noteq> ActiveCatalog) al"

definition entries_ok :: "'n candidate option \<Rightarrow> ('n request_id \<times> internal_request) list \<Rightarrow> bool" where
  "entries_ok c al \<longleftrightarrow> length (candidate_entries al) \<le> 1 \<and>
     (\<forall>e\<in>set (candidate_entries al). case c of None \<Rightarrow> False | Some x \<Rightarrow>
        ir_worker (snd e) = wh_token (cd_worker x) \<and> stage_action (cd_stage x) (ir_action (snd e)))"

definition live :: "'n kernel \<Rightarrow> bool" where
  "live k \<longleftrightarrow> k_phase k = Live"

definition unscheduled :: "'n kernel \<Rightarrow> bool" where
  "unscheduled k \<longleftrightarrow> scheduled_ids (k_pending k) = {}"

definition candidate_ok :: "'n candidate option \<Rightarrow> rollover_phase \<Rightarrow> 'n kernel \<Rightarrow> bool" where
  "candidate_ok c ph k \<longleftrightarrow> (\<forall>x. c = Some x \<longrightarrow>
     (cd_stage x = CandidateRestoring \<longrightarrow> ph = Draining) \<and>
     (ph = Draining \<longrightarrow> cd_stage x = CandidateReady \<or> cd_stage x = CandidateRestoring) \<and>
     (ph = AwaitingCatalogRefresh \<longrightarrow> cd_stage x = CandidateReady) \<and>
     (wh_catalog (cd_worker x) \<noteq> None \<longrightarrow> live k) \<and>
     (cd_purpose x = Rollover \<longrightarrow> live k \<and> unscheduled k \<and>
        (cd_stage x = CandidateRestoring \<longrightarrow> k_pending k = [])))"

definition needs_live :: "internal_action \<Rightarrow> bool" where
  "needs_live a \<longleftrightarrow> a = ActiveCatalog \<or> a = CatalogOfCandidate"

definition stages_ok :: "'n supervisor \<Rightarrow> bool" where
  "stages_ok s \<longleftrightarrow> entries_ok (sv_candidate s) (sv_internal s) \<and>
     candidate_ok (sv_candidate s) (sv_phase s) (sv_kernel s) \<and>
     (sv_active s \<noteq> None \<and> sv_phase s \<noteq> PhaseNone \<longrightarrow> sv_candidate s \<noteq> None) \<and>
     (sv_published s \<noteq> None \<longrightarrow> live (sv_kernel s)) \<and>
     (\<forall>e\<in>set (sv_internal s). needs_live (ir_action (snd e)) \<longrightarrow> live (sv_kernel s))"

definition settled :: "'n supervisor \<Rightarrow> bool" where
  "settled s \<longleftrightarrow> (sv_active s \<noteq> None \<and> sv_published s \<noteq> None \<longrightarrow> unscheduled (sv_kernel s))"

definition ok :: "bool \<Rightarrow> 'n extern \<Rightarrow> 'n supervisor \<Rightarrow> bool" where
  "ok b X s \<longleftrightarrow> sup_inv X s \<and> stages_ok s \<and> (b \<longrightarrow> settled s)"

lemma ok_weaken: "ok True X s \<Longrightarrow> ok b X s"
  by (simp add: ok_def)

lemma ok_sup_inv: "ok b X s \<Longrightarrow> sup_inv X s"
  by (simp add: ok_def)

lemma ok_updates [simp]:
  "ok b X (s\<lparr>sv_calls := n\<rparr>) = ok b X s" "ok b X (s\<lparr>sv_log := l\<rparr>) = ok b X s"
  "ok b X (s\<lparr>sv_retry_at := r\<rparr>) = ok b X s" "ok b X (s\<lparr>sv_rejected := g\<rparr>) = ok b X s"
  "ok b X (s\<lparr>sv_refresh := rf\<rparr>) = ok b X s" "ok b X (record_effect e s) = ok b X s"
  by (simp_all add: ok_def stages_ok_def settled_def record_effect_def)

lemma quiet_ok: "quiet s s' \<Longrightarrow> ok b X s' = ok b X s"
  by (simp add: ok_def quiet_sup_inv stages_ok_def settled_def quiet_fields)

lemma leaves_quiet_ok: "leaves (quiet s) r \<Longrightarrow> ok b X s \<Longrightarrow> leaves (ok b X) r"
  by (simp add: leaves_def quiet_ok)

lemma quiet_ops_ok [leaves_rules]:
  assumes "ok b X s"
  shows "leaves (ok b X) (emit E e p s)" "leaves (ok b X) (write_value X' E v s)"
    "leaves (ok b X) (send_handle E w p s)" "leaves (ok b X) (send_active E p s)"
    "leaves (ok b X) (send_worker E t p s)" "leaves (ok b X) (reply_catalog X' E f s)"
    "leaves (ok b X) (reject_client_id X' E i r s)" "leaves (ok b X) (reject_client_frame X' E f r s)"
    "leaves (ok b X) (write_rejections X' E rs s)" "leaves (ok b X) (ask q s)"
proof -
  show "leaves (ok b X) (ask q s)" using assms by (simp add: ask_def)
qed (rule leaves_quiet_ok [OF _ assms], rule leaves_rules, simp)+

section \<open>The kernel\<close>

definition kernel_step :: "'n kernel \<Rightarrow> 'n kernel \<Rightarrow> bool" where
  "kernel_step k k' \<longleftrightarrow> (live k \<longrightarrow> live k') \<and> (unscheduled k \<longrightarrow> unscheduled k')"

definition kernel_shrinks :: "'n kernel \<Rightarrow> 'n kernel \<Rightarrow> bool" where
  "kernel_shrinks k k' \<longleftrightarrow> kernel_step k k' \<and> (k_pending k = [] \<longrightarrow> k_pending k' = [])"

lemma set_kernel_ok:
  assumes "ok b X s" and "host_kernel X k" and "kernel_step (sv_kernel s) k"
    and "sv_phase s = Draining \<Longrightarrow> kernel_shrinks (sv_kernel s) k"
  shows "ok b X (s\<lparr>sv_kernel := k\<rparr>)"
proof -
  let ?k = "sv_kernel s"
  have l: "live ?k \<Longrightarrow> live k" and u: "unscheduled ?k \<Longrightarrow> unscheduled k"
    using assms(3) by (auto simp: kernel_step_def)
  have "candidate_ok (sv_candidate s) (sv_phase s) k"
    using assms(1,4) l u unfolding ok_def stages_ok_def candidate_ok_def kernel_shrinks_def by metis
  moreover have "sup_inv X (s\<lparr>sv_kernel := k\<rparr>)" using assms(1,2) by (simp add: ok_def set_kernel_inv)
  ultimately show ?thesis using assms(1) l u by (auto simp: ok_def stages_ok_def settled_def)
qed

lemma observe_shrinks: "kernel_shrinks k (snd (observe_client_frame f k))"
  by (auto simp: observe_client_frame_def kernel_shrinks_def kernel_step_def live_def unscheduled_def
      split: envelope.split option.split)

lemma enqueue_shrinks: "kernel_shrinks k (snd (queue_client_frame f n k))"
  by (auto simp: queue_client_frame_def kernel_shrinks_def kernel_step_def live_def unscheduled_def)

lemma complete_shrinks: "kernel_shrinks k (snd (complete_response f k))"
  by (auto simp: complete_response_def kernel_shrinks_def kernel_step_def live_def unscheduled_def Let_def
      scheduled_ids_def lookup_simps remove_queued_request_def split: envelope.split option.split sum.split)

lemma begin_step: "kernel_step k (snd (begin_request_dispatch X now f c n k))"
  by (auto simp: begin_request_dispatch_def kernel_step_def live_def unscheduled_def Let_def
      scheduled_ids_def lookup_simps split: envelope.split option.split)

lemma pop_step: "kernel_step k (snd (pop_next_dispatch k))"
  by (auto simp: pop_next_dispatch_def kernel_step_def live_def unscheduled_def Let_def update_pending_def
      scheduled_ids_def lookup_simps split: list.split envelope.split option.split disposition.split sum.split)

lemma requeue_keeps_live: "live (snd (requeue_pending_for_replay rb k)) = live k"
  by (simp add: requeue_pending_for_replay_def live_def Let_def)

section \<open>The loss of the incumbent and the queue\<close>

lemma ok_parts:
  assumes "ok b X s"
  shows "entries_ok (sv_candidate s) (sv_internal s)" "candidate_ok (sv_candidate s) (sv_phase s) (sv_kernel s)"
    "sv_published s \<noteq> None \<Longrightarrow> live (sv_kernel s)"
    "sv_active s \<noteq> None \<Longrightarrow> sv_phase s \<noteq> PhaseNone \<Longrightarrow> sv_candidate s \<noteq> None"
  using assms by (simp_all add: ok_def stages_ok_def)

lemma no_candidate_ok [simp]: "candidate_ok None ph k"
  by (simp add: candidate_ok_def)

lemma no_entries_ok [simp]: "entries_ok c []"
  by (simp add: entries_ok_def candidate_entries_def)

lemma worker_loss_ok [leaves_rules]:
  assumes okay: "ok b X s"
  shows "leaves (ok b X) (handle_worker_loss_by_id X' E token s)"
proof (cases "token = None \<or> active_token s \<noteq> token")
  case True
  with okay show ?thesis by (simp add: handle_worker_loss_by_id_def)
next
  case False
  then obtain w where w: "sv_active s = Some w" by (auto simp: active_token_def)
  note inv = ok_sup_inv [OF okay]
  let ?s1 = "(drop_candidate (forget_active s))\<lparr>sv_internal := [], sv_phase := Recovering\<rparr>"
  obtain outcome k where rq: "requeue_pending_for_replay replay_limits (sv_kernel ?s1) = (outcome, k)"
    by fastforce
  let ?s0 = "drop_candidate (forget_active s)"
  have f: "sv_kernel ?s0 = sv_kernel s" "sv_active ?s0 = None" "sv_candidate ?s0 = None"
    "sv_published ?s0 = sv_published s"
    by (simp_all add: w drop_candidate_def forget_active_def retain_callbacks_def kill_def record_effect_def
        split: option.split)
  have lv: "live k = live (sv_kernel s)" using requeue_keeps_live [of replay_limits "sv_kernel ?s1"] rq f by simp
  have "host_kernel X k" using host_requeue [of X "sv_kernel s"] inv rq f by (simp add: sup_inv_def)
  then have "sup_inv X (?s1\<lparr>sv_kernel := k\<rparr>)"
    using inv workers_ok_lost [of "sv_next_worker s" w]
    by (auto simp: sup_inv_def w drop_candidate_def forget_active_def retain_callbacks_def kill_def
        record_effect_def split: option.split)
  then have "ok b X (?s1\<lparr>sv_kernel := k\<rparr>)"
    using ok_parts(3) [OF okay] lv by (simp add: ok_def stages_ok_def settled_def f)
  with False rq show ?thesis unfolding handle_worker_loss_by_id_def Let_def
    by (simp only: if_False split) (rule leaves_rules | simp)+
qed

lemma send_active_or_recover_ok [leaves_rules]:
  "ok b X s \<Longrightarrow> leaves (ok b X) (send_active_or_recover X' E p s)"
  unfolding send_active_or_recover_def by (rule leaves_rules | simp)+

lemma dispatch_request_ok [leaves_rules]:
  assumes okay: "ok b X s" and f: "frame_ok X f" and ph: "sv_phase s \<noteq> Draining"
  shows "leaves (ok b X) (dispatch_request X E f m s)"
proof -
  let ?s = "s\<lparr>sv_calls := Suc (sv_calls s)\<rparr>"
  let ?b = "begin_request_dispatch X (e_now E (sv_calls s)) f (classify_request X ?s f m) pending_capacity (sv_kernel s)"
  have "host_kernel X (snd ?b)"
    by (rule host_begin) (use ok_sup_inv [OF okay] f classify_not_probe in \<open>auto simp: sup_inv_def\<close>)
  then have "ok b X (s\<lparr>sv_calls := n, sv_kernel := snd ?b\<rparr>)" for n
    using set_kernel_ok [of b X "s\<lparr>sv_calls := n\<rparr>" "snd ?b"] okay ph
    by (simp add: begin_step)
  then show ?thesis by (auto simp: dispatch_request_def split: prod.split sum.split)
qed

lemma dispatch_request_phase: "dispatch_request X E f m s = (r, s') \<Longrightarrow> sv_phase s' = sv_phase s"
  by (auto simp: dispatch_request_def split: prod.splits sum.splits)

lemma flush_client_frame_ok [leaves_rules]:
  assumes "ok b X s" and "frame_ok X f" and "sv_phase s \<noteq> Draining"
  shows "leaves (ok b X) (flush_client_frame X E f s)"
  unfolding flush_client_frame_def using assms
  by (auto intro!: leaves_rules split: envelope.split)

lemma flush_step_ok [leaves_rules]:
  assumes okay: "ok b X s" and ph: "sv_phase s \<noteq> Draining"
  shows "leaves (ok b X) (flush_step X E s)"
proof -
  obtain r k where pop: "pop_next_dispatch (sv_kernel s) = (r, k)" by fastforce
  have hk: "host_kernel X (sv_kernel s)" using ok_sup_inv [OF okay] by (simp add: sup_inv_def)
  have "ok b X (s\<lparr>sv_kernel := k\<rparr>)"
    using set_kernel_ok [OF okay _ pop_step] host_pop [OF hk] ph pop by (metis snd_conv)
  moreover have "frame_ok X f" if "r = Inr (ReplayFrame f) \<or> r = Inr (ClientFrame f)" for f
    using pop_frame_ok [OF hk] pop that by auto
  ultimately show ?thesis using pop ph
    by (auto simp: flush_step_def intro!: leaves_rules split: sum.split queue_outcome.split)
qed

lemma flush_queue_ok [leaves_rules]: "ok b X s \<Longrightarrow> leaves (ok b X) (flush_queue X E s)"
proof (induction X E s rule: flush_queue.induct)
  case (1 X E s)
  show ?case
  proof (cases "can_flush s")
    case True
    then have ph: "sv_phase s \<noteq> Draining" by (simp add: can_flush_def)
    note step = flush_step_ok [OF 1(2) ph, of E]
    show ?thesis
    proof (cases "flush_step X E s")
      case (Pair r s')
      with step have "ok b X s'" by simp
      with 1 Pair True show ?thesis by (subst flush_queue.simps) (auto split: sum.split)
    qed
  next
    case False
    with 1(2) show ?thesis by (subst flush_queue.simps) simp
  qed
qed

text \<open>What a handler leaves on success is settled; on an error it need not be.\<close>

definition settles :: "'n extern \<Rightarrow> (sup_error + 'a) \<times> 'n supervisor \<Rightarrow> bool" where
  "settles X r \<longleftrightarrow> (case fst r of Inl _ \<Rightarrow> ok False X (snd r) | Inr _ \<Rightarrow> ok True X (snd r))"

named_theorems settles_rules "one rule per handler: success leaves a settled state"

lemma settles_pair [simp]: "settles X (Inr a, s) = ok True X s" "settles X (Inl e, s) = ok False X s"
  by (simp_all add: settles_def)

lemma settles_leaves: "leaves (ok True X) r \<Longrightarrow> settles X r"
  by (cases r; cases "fst r") (auto intro: ok_weaken)

lemma settles_bind [settles_rules]:
  assumes "settles X (m s)" and "\<And>a s'. m s = (Inr a, s') \<Longrightarrow> ok True X s' \<Longrightarrow> settles X (f a s')"
  shows "settles X (bindO m f s)"
proof (cases "m s")
  case (Pair r t)
  with assms show ?thesis by (cases r) auto
qed

lemma settles_catch [settles_rules]:
  assumes "settles X (m s)" and "\<And>e s'. m s = (Inl e, s') \<Longrightarrow> ok False X s' \<Longrightarrow> settles X (h e s')"
  shows "settles X (catchO m h s)"
proof (cases "m s")
  case (Pair r t)
  with assms show ?thesis by (cases r) auto
qed

lemma settles_if [settles_rules]:
  "(c \<Longrightarrow> settles X x) \<Longrightarrow> (\<not> c \<Longrightarrow> settles X y) \<Longrightarrow> settles X (if c then x else y)"
  by simp

lemma settles_option [settles_rules]:
  "(v = None \<Longrightarrow> settles X x) \<Longrightarrow> (\<And>a. v = Some a \<Longrightarrow> settles X (f a)) \<Longrightarrow>
     settles X (case v of None \<Rightarrow> x | Some a \<Rightarrow> f a)"
  by (cases v) auto

lemma settles_sum [settles_rules]:
  "(\<And>e. v = Inl e \<Longrightarrow> settles X (f e)) \<Longrightarrow> (\<And>a. v = Inr a \<Longrightarrow> settles X (g a)) \<Longrightarrow>
     settles X (case v of Inl e \<Rightarrow> f e | Inr a \<Rightarrow> g a)"
  by (cases v) auto

lemma settles_if_op [settles_rules]:
  "(c \<Longrightarrow> settles X (m s)) \<Longrightarrow> (\<not> c \<Longrightarrow> settles X (n s)) \<Longrightarrow> settles X ((if c then m else n) s)"
  by simp

lemma rollover_unscheduled:
  assumes "ok b X s" and "sv_active s \<noteq> None" and "sv_phase s \<noteq> PhaseNone"
  shows "unscheduled (sv_kernel s)"
proof -
  from ok_parts(4) [OF assms] obtain c where c: "sv_candidate s = Some c" by blast
  with ok_sup_inv [OF assms(1)] assms(2) have "cd_purpose c = Rollover" by (auto simp: sup_inv_def workers_ok_def)
  with ok_parts(2) [OF assms(1)] c show ?thesis by (simp add: candidate_ok_def)
qed

lemma flush_queue_settles [settles_rules]:
  assumes okay: "ok False X s"
  shows "settles X (flush_queue X E s)"
proof (cases "flush_queue X E s")
  case (Pair r s')
  have okay': "ok False X s'" using flush_queue_ok [OF okay] Pair leaves_result by metis
  show ?thesis
  proof (cases r)
    case (Inl e)
    with okay' Pair show ?thesis by simp
  next
    case (Inr u)
    have inv: "kernel_inv (sv_kernel s')"
      using host_kernel_inv(1) [OF sup_inv_kernel [OF ok_sup_inv [OF okay']]] .
    have "scheduled_ids (k_pending (sv_kernel s')) = {}" if "k_queue (sv_kernel s') = []"
      by (rule kernel_invE [OF inv]) (use that in \<open>auto simp: recovery_ok_def\<close>)
    moreover have "k_queue (sv_kernel s') = [] \<or> \<not> can_flush s'"
      using flush_queue_empties [OF ok_sup_inv [OF okay]] Pair Inr by blast
    moreover have "unscheduled (sv_kernel s')" if "sv_active s' \<noteq> None" "\<not> can_flush s'"
      using rollover_unscheduled [OF okay' that(1)] that by (simp add: can_flush_def)
    ultimately have "settled s'" by (auto simp: settled_def unscheduled_def)
    with okay' Pair Inr show ?thesis by (simp add: ok_def)
  qed
qed

section \<open>Candidates\<close>

lemma entries_none: "entries_ok None al \<longleftrightarrow> candidate_entries al = []"
  by (cases "candidate_entries al") (auto simp: entries_ok_def)

lemma entries_empty: "candidate_entries al = [] \<Longrightarrow> entries_ok c al"
  by (simp add: entries_ok_def)

lemma entries_ready:
  assumes "entries_ok (Some c) al" and "cd_stage c = CandidateReady"
  shows "candidate_entries al = []"
  using assms by (cases "candidate_entries al") (auto simp: entries_ok_def)

lemma entries_retained:
  "entries_ok (Some c) al \<Longrightarrow>
     candidate_entries (filter (\<lambda>(_, r). ir_worker r \<noteq> wh_token (cd_worker c)) al) = []"
  by (fastforce simp: entries_ok_def candidate_entries_def filter_empty_conv)

lemma entries_update_active:
  assumes "entries_ok c al" and "ir_action v = ActiveCatalog"
  shows "entries_ok c (AList.update i v al)"
proof -
  have "length (candidate_entries (AList.update i v al)) \<le> length (candidate_entries al)"
    using assms(2) unfolding candidate_entries_def by (induction al) auto
  moreover have "set (candidate_entries (AList.update i v al)) \<subseteq> set (candidate_entries al)"
    using assms(2) set_update by (fastforce simp: candidate_entries_def)
  ultimately show ?thesis using assms(1) unfolding entries_ok_def by (meson dual_order.trans subsetD)
qed

lemma entries_update_candidate:
  assumes "candidate_entries al = []" and "ir_worker v = wh_token (cd_worker c)"
    and "stage_action (cd_stage c) (ir_action v)"
  shows "entries_ok (Some c) (AList.update i v al)"
proof -
  have "length (candidate_entries (AList.update i v al)) \<le> Suc (length (candidate_entries al))"
    unfolding candidate_entries_def by (induction al) auto
  moreover have "e = (i, v)" if "e \<in> set (candidate_entries (AList.update i v al))" for e
    using that assms(1) set_update [of e i v al] by (auto simp: candidate_entries_def filter_empty_conv)
  ultimately show ?thesis using assms by (fastforce simp: entries_ok_def)
qed

lemma entries_deleted:
  assumes "entries_ok c al" and "map_of al i = Some v"
  shows "entries_ok c (AList.delete i al)"
    and "ir_action v \<noteq> ActiveCatalog \<Longrightarrow> candidate_entries (AList.delete i al) = []"
proof -
  have mem: "(i, v) \<in> set al" using assms(2) by (rule map_of_SomeD)
  have del: "candidate_entries (AList.delete i al) = filter (\<lambda>e. fst e \<noteq> i) (candidate_entries al)"
  proof -
    have "(\<lambda>(k, _). i \<noteq> k) = (\<lambda>e :: 'a request_id \<times> internal_request. fst e \<noteq> i)" by (auto simp: fun_eq_iff)
    then show ?thesis by (simp add: candidate_entries_def AList.delete_eq conj_commute)
  qed
  have len: "length (candidate_entries al) \<le> 1" using assms(1) by (simp add: entries_ok_def)
  have "length (filter (\<lambda>e. fst e \<noteq> i) (candidate_entries al)) \<le> 1"
    by (rule order.trans [OF length_filter_le len])
  with assms(1) show "entries_ok c (AList.delete i al)" by (auto simp: entries_ok_def del)
  assume "ir_action v \<noteq> ActiveCatalog"
  then have "(i, v) \<in> set (candidate_entries al)" using mem by (simp add: candidate_entries_def)
  with len have "candidate_entries al = [(i, v)]" by (cases "candidate_entries al") auto
  then show "candidate_entries (AList.delete i al) = []" by (simp add: del)
qed

lemma idle_pending:
  assumes "unscheduled k" and "\<not> has_in_flight k"
  shows "k_pending k = []"
proof (cases "k_pending k")
  case (Cons e es)
  obtain i r where e: "e = (i, r)" by fastforce
  have "pr_scheduled r = None"
    using assms(1) Cons e by (auto simp: unscheduled_def scheduled_ids_def split: if_splits)
  with assms(2) Cons e show ?thesis by (simp add: has_in_flight_def)
qed simp

lemma rejected_state_ok:
  assumes okay: "ok b X s"
  shows "sv_active s \<noteq> None \<Longrightarrow> ok b X ((rejected_state s)\<lparr>sv_phase := PhaseNone, sv_refresh := None\<rparr>)"
    and "sv_active s = None \<Longrightarrow> ok b X (rejected_state s)"
proof -
  note inv = ok_sup_inv [OF okay]
  have inv': "sup_inv X ((rejected_state s)\<lparr>sv_phase := PhaseNone, sv_refresh := None\<rparr>)" if "sv_active s \<noteq> None"
    using rejected_state_inv [OF inv] that workers_ok_phase_none by (auto simp: sup_inv_def)
  have sub: "set (sv_internal (rejected_state s)) \<subseteq> set (sv_internal s)"
    by (auto simp: rejected_state_def Let_def retain_internal_def kill_def record_effect_def split: option.split)
  have none: "candidate_entries (sv_internal (rejected_state s)) = []"
    using ok_parts(1) [OF okay]
    by (auto simp: entries_none entries_retained rejected_state_def Let_def retain_internal_def kill_def record_effect_def split: option.split)
  note facts = sub none okay rejected_state_inv [OF inv] inv'
  show "sv_active s \<noteq> None \<Longrightarrow> ok b X ((rejected_state s)\<lparr>sv_phase := PhaseNone, sv_refresh := None\<rparr>)"
    using facts by (auto simp: ok_def stages_ok_def settled_def entries_none)
  show "sv_active s = None \<Longrightarrow> ok b X (rejected_state s)"
    using facts by (auto simp: ok_def stages_ok_def settled_def entries_none)
qed

lemma reject_candidate_ok [leaves_rules]: "ok b X s \<Longrightarrow> leaves (ok b X) (reject_candidate X E s)"
  using rejected_state_ok [of b X s] by (auto simp: reject_candidate_eq intro!: leaves_rules)

lemma reject_candidate_settles [settles_rules]:
  assumes "ok False X s"
  shows "settles X (reject_candidate X E s)"
proof (cases "sv_active s")
  case None
  with rejected_state_ok(2) [OF assms] show ?thesis by (simp add: reject_candidate_eq ok_def settled_def)
next
  case (Some w)
  with rejected_state_ok(1) [OF assms] show ?thesis
    by (auto simp: reject_candidate_eq intro!: settles_rules)
qed

lemma install_candidate_ok:
  assumes okay: "ok b X s" and c: "sv_candidate s = Some c" and none: "candidate_entries (sv_internal s) = []"
  shows "ok False X (install_candidate c s)"
proof -
  have "sup_inv X (install_candidate c s)" by (rule install_candidate_inv [OF ok_sup_inv [OF okay] c])
  moreover have "sv_internal (install_candidate c s) = sv_internal s" "sv_candidate (install_candidate c s) = None"
    "sv_phase (install_candidate c s) = PhaseNone" "sv_kernel (install_candidate c s) = sv_kernel s"
    "sv_published (install_candidate c s) = wh_catalog (cd_worker c)"
    by (auto simp: install_candidate_def Let_def kill_def record_effect_def retain_callbacks_def split: option.split)
  ultimately show ?thesis using okay none c
    by (auto simp: ok_def stages_ok_def entries_none candidate_ok_def)
qed

lemma activate_candidate_settles [settles_rules]:
  assumes "ok True X s" and "candidate_entries (sv_internal s) = []"
  shows "settles X (activate_candidate X E s)"
proof (cases "sv_candidate s")
  case None
  with assms show ?thesis by (simp add: activate_candidate_def)
next
  case (Some c)
  note installed = install_candidate_ok [OF assms(1) Some assms(2)]
  show ?thesis
  proof (cases "sv_refresh (install_candidate c s)")
    case None
    with installed Some show ?thesis by (auto simp: activate_candidate_def Let_def intro!: settles_rules)
  next
    case (Some f)
    let ?s = "(install_candidate c s)\<lparr>sv_refresh := None\<rparr>"
    have "leaves (ok False X) (reply_catalog X E f ?s)" by (rule leaves_rules) (simp add: installed)
    then have "settles X (bindO (reply_catalog X E f) (\<lambda>_. flush_queue X E) ?s)"
      using flush_queue_settles by (cases "reply_catalog X E f ?s"; cases "fst (reply_catalog X E f ?s)") auto
    with Some \<open>sv_candidate s = Some c\<close> show ?thesis by (simp add: activate_candidate_def Let_def)
  qed
qed

section \<open>Restoring a candidate\<close>

lemma internal_id_fields:
  "internal_id t k s = (r, s') \<Longrightarrow> sv_internal s' = sv_internal s \<and> sv_candidate s' = sv_candidate s \<and>
     sv_kernel s' = sv_kernel s"
  by (auto simp: internal_id_def split: option.splits)

lemma internal_id_ok [leaves_rules]:
  assumes "ok b X s"
  shows "leaves (ok b X) (internal_id t k s)"
proof (cases "internal_id t k s")
  case (Pair r s')
  have "sup_inv X s'" using internal_id_inv [OF ok_sup_inv [OF assms]] Pair leaves_result by metis
  with assms Pair show ?thesis
    by (auto simp: internal_id_def ok_def stages_ok_def settled_def split: option.splits)
qed

lemma insert_internal_ok:
  assumes okay: "ok b X s" and issued: "issued_internal (sv_next_internal s) i"
    and entries: "entries_ok (sv_candidate s) (AList.update i \<lparr>ir_worker = t, ir_action = a\<rparr> (sv_internal s))"
    and lv: "needs_live a \<Longrightarrow> live (sv_kernel s)"
  shows "leaves (ok b X) (insert_internal i t a s)"
proof -
  have "leaves (sup_inv X) (insert_internal i t a s)"
    by (rule insert_internal_inv [OF ok_sup_inv [OF okay] issued])
  with okay entries lv show ?thesis
    by (auto simp: insert_internal_def ok_def stages_ok_def settled_def dest!: set_update)
qed

text \<open>Putting a request to the candidate, under a fresh identifier.\<close>

lemma put_request_ok:
  assumes id: "internal_id t k s = (Inr i, s')" and okay: "ok b X s"
    and c: "sv_candidate s = Some c" "candidate_entries (sv_internal s) = []"
    and t: "t = wh_token (cd_worker c)" and a: "stage_action (cd_stage c) a"
    and lv: "needs_live a \<Longrightarrow> live (sv_kernel s)"
  shows "leaves (ok b X) (insert_internal i t a s')"
proof (rule insert_internal_ok)
  note f = internal_id_fields [OF id]
  show "ok b X s'" using internal_id_ok [OF okay] id leaves_result by metis
  show "issued_internal (sv_next_internal s') i" by (rule internal_id_result(1) [OF id])
  show "entries_ok (sv_candidate s') (AList.update i \<lparr>ir_worker = t, ir_action = a\<rparr> (sv_internal s'))"
    using entries_update_candidate [of "sv_internal s" "\<lparr>ir_worker = t, ir_action = a\<rparr>" c i] f c t a by simp
  show "needs_live a \<Longrightarrow> live (sv_kernel s')" using lv f by simp
qed

text \<open>A candidate whose journal may be replayed.\<close>

definition restorable :: "'n supervisor \<Rightarrow> bool" where
  "restorable s \<longleftrightarrow> candidate_entries (sv_internal s) = [] \<and>
     (\<forall>c. sv_candidate s = Some c \<longrightarrow> sv_phase s = Draining \<and>
        (cd_purpose c = Rollover \<longrightarrow> k_pending (sv_kernel s) = []))"

lemma restoring_ok:
  assumes okay: "ok b X s" and c: "sv_candidate s = Some c" and r: "restorable s"
  shows "ok b X (s\<lparr>sv_calls := n, sv_candidate := Some (c\<lparr>cd_stage := CandidateRestoring, cd_deadline := d\<rparr>)\<rparr>)"
proof -
  have "sup_inv X (s\<lparr>sv_calls := n, sv_candidate := Some (c\<lparr>cd_stage := CandidateRestoring, cd_deadline := d\<rparr>)\<rparr>)"
    by (rule candidate_change [where c = c]) (use ok_sup_inv [OF okay] c in auto)
  with okay c r show ?thesis
    by (auto simp: ok_def stages_ok_def settled_def candidate_ok_def restorable_def entries_empty)
qed

lemma continue_restore_settles [settles_rules]:
  assumes okay: "ok True X s" and r: "restorable s"
  shows "settles X (continue_restore X E index s)"
proof (cases "index \<ge> length (sj_entries (sv_journal s)) \<or> sv_candidate s = None")
  case True
  then show ?thesis using okay r
    by (auto simp: continue_restore_def restorable_def intro!: settles_rules split: option.split)
next
  case False
  then obtain c where c: "sv_candidate s = Some c" by auto
  have "leaves (ok True X) (continue_restore X E index s)"
    unfolding continue_restore_def using False c restoring_ok [OF okay c r] r
    by (auto simp: restorable_def needs_live_def intro!: leaves_rules elim!: put_request_ok split: sum.split)
  then show ?thesis by (rule settles_leaves)
qed

lemma try_begin_restore_settles [settles_rules]:
  assumes okay: "ok True X s"
    and ready: "\<And>c. sv_phase s = Draining \<Longrightarrow> sv_candidate s = Some c \<Longrightarrow> cd_stage c = CandidateReady"
  shows "settles X (try_begin_restore X E s)"
proof (cases "sv_phase s \<noteq> Draining \<or> has_in_flight (sv_kernel s) \<or> active_callbacks s \<noteq> 0")
  case True
  with okay show ?thesis by (simp add: try_begin_restore_def)
next
  case False
  have "candidate_entries (sv_internal s) = []"
    using ok_parts(1) [OF okay] ready entries_ready entries_none False by (cases "sv_candidate s") auto
  moreover have "k_pending (sv_kernel s) = []" if "sv_candidate s = Some c" "cd_purpose c = Rollover" for c
    using ok_parts(2) [OF okay] that False idle_pending by (auto simp: candidate_ok_def)
  ultimately have "restorable s" using False by (auto simp: restorable_def)
  with False okay show ?thesis
    by (auto simp: try_begin_restore_def intro!: settles_rules intro: ok_weaken)
qed

definition ready :: "'n supervisor \<Rightarrow> bool" where
  "ready s \<longleftrightarrow> (\<forall>c. sv_candidate s = Some c \<longrightarrow> cd_stage c = CandidateReady) \<and>
     (sv_active s \<noteq> None \<longrightarrow> sv_candidate s \<noteq> None)"

lemma drained_ok:
  assumes okay: "ok b X s" and r: "ready s"
  shows "ok b X (set_candidate_deadline d (s\<lparr>sv_phase := Draining\<rparr>))"
    and "ok b X (s\<lparr>sv_phase := AwaitingCatalogRefresh\<rparr>)"
proof -
  have "sup_inv X (set_candidate_deadline d (s\<lparr>sv_phase := Draining\<rparr>))"
    "sup_inv X (s\<lparr>sv_phase := AwaitingCatalogRefresh\<rparr>)"
    by (intro deadline_inv set_phase_inv ok_sup_inv [OF okay]; simp)+
  with okay r show "ok b X (set_candidate_deadline d (s\<lparr>sv_phase := Draining\<rparr>))"
    "ok b X (s\<lparr>sv_phase := AwaitingCatalogRefresh\<rparr>)"
    by (cases "sv_candidate s"; auto simp: ok_def stages_ok_def settled_def candidate_ok_def ready_def
        set_candidate_deadline_def entries_ok_def)+
qed

lemma drained_restore_settles:
  assumes "ok True X s" and "ready s"
  shows "settles X (try_begin_restore X E (set_candidate_deadline d (s\<lparr>sv_phase := Draining\<rparr>)))"
  by (rule try_begin_restore_settles [OF drained_ok(1) [OF assms]])
    (use assms(2) in \<open>auto simp: ready_def set_candidate_deadline_def\<close>)

lemma on_candidate_ready_settles [settles_rules]:
  assumes okay: "ok True X s" and r: "ready s"
  shows "settles X (on_candidate_ready X E c s)"
proof -
  have "leaves (\<lambda>t. ok True X t \<and> ready t) (write_value X E list_changed s)"
    using leaves_quiet_ok [OF write_value_quiet [of s s X E list_changed], simplified, OF okay]
      write_value_quiet [of s s X E list_changed, simplified] r
    by (auto simp: leaves_def ready_def quiet_fields)
  then have "settles X (bindO (write_value X E list_changed)
      (\<lambda>_. modO (\<lambda>s. s\<lparr>sv_phase := AwaitingCatalogRefresh\<rparr>)) s)"
    using drained_ok(2) by (cases "write_value X E list_changed s"; cases "fst (write_value X E list_changed s)")
      (auto intro: ok_weaken)
  with drained_restore_settles [OF okay r, of E None] okay show ?thesis
    by (auto simp: on_candidate_ready_def ok_weaken split: sum.split)
qed

lemma kernel_seed_ok [leaves_rules]: "ok b X s \<Longrightarrow> leaves (ok b X) (kernel_seed s)"
  by (auto simp: kernel_seed_def split: sum.split option.split)

lemma kernel_seed_live:
  "kernel_seed s = (Inr sd, s') \<Longrightarrow> s' = s \<and> (sd_notification sd \<noteq> None \<longrightarrow> live (sv_kernel s))"
  by (auto simp: kernel_seed_def replay_seed_def prepare_replay_seed_def live_def
      split: sum.splits option.splits session_phase.splits if_splits)

lemma seed_candidate_initialize_ok [leaves_rules]:
  assumes "ok b X s" and "sv_candidate s = Some c" and "candidate_entries (sv_internal s) = []"
    and "t = wh_token (cd_worker c)" and "cd_stage c = CandidateInitializing"
  shows "leaves (ok b X) (seed_candidate_initialize X' E t s)"
  unfolding seed_candidate_initialize_def using assms
  by (auto simp: needs_live_def intro!: leaves_rules elim!: put_request_ok dest!: kernel_seed_result split: sum.split)

lemma stage_catalog_ok:
  assumes okay: "ok b X s" and c: "sv_candidate s = Some c" "cd_stage c = CandidateInitializing"
    and none: "candidate_entries (sv_internal s) = []"
  shows "ok b X (s\<lparr>sv_candidate := Some (c\<lparr>cd_stage := CandidateCatalog\<rparr>)\<rparr>)"
proof -
  have "sup_inv X (s\<lparr>sv_candidate := Some (c\<lparr>cd_stage := CandidateCatalog\<rparr>)\<rparr>)"
    by (rule candidate_change [where c = c]) (use ok_sup_inv [OF okay] c in auto)
  with okay c none show ?thesis
    by (auto simp: ok_def stages_ok_def settled_def candidate_ok_def entries_empty)
qed

lemma seed_candidate_catalog_ok [leaves_rules]:
  assumes okay: "ok b X s" and c: "\<And>c. sv_candidate s = Some c \<Longrightarrow> cd_stage c = CandidateInitializing"
    and none: "candidate_entries (sv_internal s) = []"
  shows "leaves (ok b X) (seed_candidate_catalog X' E s)"
proof (cases "sv_candidate s")
  case None
  with okay show ?thesis by (simp add: seed_candidate_catalog_def)
next
  case (Some c)
  have sent: "ok b X (s'\<lparr>sv_candidate := Some (c\<lparr>cd_stage := CandidateCatalog\<rparr>)\<rparr>)"
    "sv_internal s' = sv_internal s" "sv_kernel s' = sv_kernel s"
    if "send_handle E (cd_worker c) p s = (r, s')" "ok b X s'" for p r s'
    using stage_catalog_ok [OF that(2), of c] Some assms(2) none quiet_fields [OF send_handle_result [OF that(1)]]
    by auto
  show ?thesis unfolding seed_candidate_catalog_def
    using okay Some sent none
    by (auto intro!: leaves_rules elim!: put_request_ok dest!: kernel_seed_live split: sum.split option.split)
qed

lemma request_active_catalog_ok [leaves_rules]:
  assumes okay: "ok b X s" and lv: "live (sv_kernel s)"
  shows "leaves (ok b X) (request_active_catalog X' E s)"
proof -
  have put: "leaves (ok b X) (insert_internal i t ActiveCatalog s')"
    if id: "internal_id t k s = (Inr i, s')" and ok': "ok b X s'" for t k i s'
    by (rule insert_internal_ok [OF ok' internal_id_result(1) [OF id]])
      (use internal_id_fields [OF id] ok_parts(1) [OF ok'] lv in \<open>auto intro: entries_update_active\<close>)
  show ?thesis unfolding request_active_catalog_def using okay
    by (auto intro!: leaves_rules put split: sum.split option.split)
qed

section \<open>Recovery and the tick\<close>

lemma await_retry_ok [leaves_rules]: "ok b X s \<Longrightarrow> leaves (ok b X) (await_retry E s)"
  by (simp add: await_retry_def)

lemma lost_candidate_ok:
  assumes okay: "ok b X s" and c: "sv_candidate s = Some c" "cd_purpose c \<noteq> Rollover"
  shows "ok b' X ((retain_internal (wh_token (cd_worker c)) (s\<lparr>sv_candidate := None\<rparr>))\<lparr>sv_phase := Recovering\<rparr>)"
proof -
  have act: "sv_active s = None" using ok_sup_inv [OF okay] c by (auto simp: sup_inv_def workers_ok_def)
  have "sup_inv X ((retain_internal (wh_token (cd_worker c)) (s\<lparr>sv_candidate := None\<rparr>))\<lparr>sv_phase := Recovering\<rparr>)"
    using ok_sup_inv [OF okay] c act by (auto simp: sup_inv_def workers_ok_def retain_internal_def)
  with okay c act show ?thesis
    by (fastforce simp: ok_def stages_ok_def settled_def retain_internal_def entries_none entries_retained)
qed

lemma handle_worker_loss_settles [settles_rules]:
  assumes okay: "ok True X s"
  shows "settles X (handle_worker_loss X E token s)"
proof (cases "\<exists>c. sv_candidate s = Some c \<and> wh_token (cd_worker c) = token")
  case False
  then have "handle_worker_loss X E token s = handle_worker_loss_by_id X E (Some token) s"
    by (auto simp: handle_worker_loss_def split: option.split)
  with worker_loss_ok [OF okay] show ?thesis by (simp add: settles_leaves)
next
  case True
  then obtain c where c: "sv_candidate s = Some c" "wh_token (cd_worker c) = token" by blast
  show ?thesis
  proof (cases "cd_purpose c = Rollover")
    case True
    with c okay show ?thesis
      by (auto simp: handle_worker_loss_def intro!: settles_rules intro: ok_weaken)
  next
    case False
    with c lost_candidate_ok [OF okay c(1) False, of True] show ?thesis
      by (auto simp: handle_worker_loss_def intro!: settles_leaves leaves_rules)
  qed
qed

lemma spawn_worker_ok [leaves_rules]:
  assumes "ok b X s"
  shows "leaves (ok b X) (spawn_worker E release s)"
proof (cases "spawn_worker E release s")
  case (Pair r s')
  have "sup_inv X s'" using spawn_worker_inv [OF ok_sup_inv [OF assms]] Pair leaves_result by metis
  with assms Pair quiet_fields [OF spawn_worker_result(1) [OF Pair]] show ?thesis
    by (simp add: ok_def stages_ok_def settled_def)
qed

lemma spawn_worker_fields:
  assumes "spawn_worker E release s = (r, s')"
  shows "sv_candidate s' = sv_candidate s" "sv_internal s' = sv_internal s" "sv_kernel s' = sv_kernel s"
    "sv_phase s' = sv_phase s" "sv_active s' = sv_active s" "sv_published s' = sv_published s"
    "r = Inr w \<Longrightarrow> wh_catalog w = None"
proof -
  show "r = Inr w \<Longrightarrow> wh_catalog w = None"
    using assms by (auto simp: spawn_worker_def split: sum.splits option.splits)
qed (use quiet_fields [OF spawn_worker_result(1) [OF assms]] in simp_all)

text \<open>A new candidate starts with nothing asked of it.\<close>

lemma new_candidate_ok:
  assumes okay: "ok True X s" and spawn: "spawn_worker E r s = (Inr w, s')"
    and c: "c = \<lparr>cd_worker = w, cd_purpose = p, cd_stage = CandidateInitializing, cd_deadline = d\<rparr>"
    and p: "p = Rollover \<longleftrightarrow> sv_active s \<noteq> None" and none: "sv_candidate s = None"
    and ph: "sv_phase s = PhaseNone \<or> sv_phase s = Recovering"
    and lv: "p = Rollover \<Longrightarrow> live (sv_kernel s) \<and> sv_published s \<noteq> None"
  shows "ok True X (s'\<lparr>sv_calls := n, sv_candidate := Some c\<rparr>)"
    and "candidate_entries (sv_internal s') = []"
proof -
  note f = spawn_worker_fields [OF spawn]
  have "sup_inv X (s'\<lparr>sv_candidate := Some c\<rparr>)"
    using new_candidate_inv [OF ok_sup_inv [OF okay] spawn, of c] c p by simp
  then have inv: "sup_inv X (s'\<lparr>sv_calls := n, sv_candidate := Some c\<rparr>)" by (simp add: sup_inv_def)
  show none': "candidate_entries (sv_internal s') = []"
    using ok_parts(1) [OF okay] none f(2) by (simp add: entries_none)
  have "unscheduled (sv_kernel s)" if "p = Rollover"
    using okay p lv that by (auto simp: ok_def settled_def)
  with okay inv none' f c ph lv show "ok True X (s'\<lparr>sv_calls := n, sv_candidate := Some c\<rparr>)"
    by (auto simp: ok_def stages_ok_def settled_def candidate_ok_def entries_empty)
qed

lemma abandon_ok [leaves_rules]:
  assumes okay: "ok b X s" and c: "sv_candidate s = Some c" "t = wh_token (cd_worker c)"
    and rec: "cd_purpose c \<noteq> Rollover"
  shows "leaves (ok b X) (abandon_candidate t e s)"
proof -
  have act: "sv_active s = None" using ok_sup_inv [OF okay] c rec by (auto simp: sup_inv_def workers_ok_def)
  have "sup_inv X (retain_internal t (drop_candidate s))"
    using retain_internal_inv [OF drop_candidate_inv [OF ok_sup_inv [OF okay]]] .
  with okay c act show ?thesis
    by (fastforce simp: abandon_candidate_def drop_candidate_def retain_internal_def kill_def record_effect_def
        ok_def stages_ok_def settled_def entries_none entries_retained)
qed

lemma seed_candidate_initialize_keeps:
  assumes "seed_candidate_initialize X' E t s = (r, s')"
  shows "sv_candidate s' = sv_candidate s"
proof -
  let ?P = "\<lambda>u. sv_candidate u = sv_candidate s"
  have "leaves ?P (kernel_seed u)" if "?P u" for u
    using that by (auto simp: kernel_seed_def split: sum.split option.split)
  moreover have "leaves ?P (internal_id t k u)" if "?P u" for u k
    using that by (auto simp: internal_id_def split: option.split)
  moreover have "leaves ?P (insert_internal i t a u)" if "?P u" for u i a
    using that by (simp add: insert_internal_def)
  moreover have "leaves ?P (send_worker E t p u)" if "?P u" for u p
    using that send_worker_quiet [of u u E t p] by (simp add: leaves_def quiet_fields)
  ultimately have "leaves ?P (seed_candidate_initialize X' E t s)"
    unfolding seed_candidate_initialize_def by (auto intro!: leaves_bind split: sum.split)
  with assms show ?thesis by simp
qed

lemma place_recovery_worker_ok:
  assumes okay: "ok True X s" and ph: "sv_phase s = Recovering" and none: "sv_candidate s = None"
    and spawn: "spawn_worker E r s = (Inr w, s')"
  shows "leaves (ok True X) (place_recovery_worker X E w s')"
proof -
  note inv = ok_sup_inv [OF okay]
  have act: "sv_active s = None" using inv ph by (simp add: sup_inv_def workers_ok_def)
  note f = spawn_worker_fields [OF spawn]
  have okay': "ok True X s'" using spawn_worker_ok [OF okay, of E r] spawn leaves_result by fastforce
  show ?thesis
  proof (cases "k_phase (sv_kernel s') = Cold \<or> k_phase (sv_kernel s') = Initializing")
    case True
    then have pub: "sv_published s' = None" using ok_parts(3) [OF okay'] by (cases "sv_published s'") (auto simp: live_def)
    have "sup_inv X (s'\<lparr>sv_active := Some w, sv_phase := PhaseNone, sv_retry_at := None\<rparr>)"
    proof -
      have "sv_callbacks s' = []"
        using ok_sup_inv [OF okay'] act f(5) by (cases "sv_callbacks s'") (auto simp: sup_inv_def workers_ok_def)
      then show ?thesis using ok_sup_inv [OF okay'] spawn_worker_result(3) [OF spawn refl] none f(1)
        by (auto simp: sup_inv_def workers_ok_def)
    qed
    then have "ok True X (s'\<lparr>sv_active := Some w, sv_phase := PhaseNone, sv_retry_at := None\<rparr>)"
      using okay' pub none f(1) by (auto simp: ok_def stages_ok_def settled_def)
    with True show ?thesis by (auto simp: place_recovery_worker_def intro!: leaves_rules)
  next
    case False
    let ?c = "\<lambda>d. \<lparr>cd_worker = w, cd_purpose = Recovery, cd_stage = CandidateInitializing, cd_deadline = d\<rparr>"
    have new: "ok True X (s'\<lparr>sv_calls := n, sv_candidate := Some (?c d)\<rparr>)" for n d
      by (rule new_candidate_ok(1) [OF okay spawn refl]) (use act none ph in auto)
    have "candidate_entries (sv_internal s') = []"
      by (rule new_candidate_ok(2) [OF okay spawn refl, of Recovery]) (use act none ph in auto)
    with False new show ?thesis
      by (auto simp: place_recovery_worker_def intro!: leaves_rules dest!: seed_candidate_initialize_keeps)
  qed
qed

lemma start_recovery_ok [leaves_rules]:
  assumes okay: "ok True X s" and ph: "sv_phase s = Recovering" and none: "sv_candidate s = None"
  shows "leaves (ok True X) (start_recovery X E s)"
  unfolding start_recovery_def
  by (auto intro!: leaves_bind spawn_worker_ok okay place_recovery_worker_ok [where s = "s\<lparr>sv_calls := n\<rparr>" for n]
      simp: ph none ask_def split: sum.split)

lemma reject_generation_ok [leaves_rules]: "ok b X s \<Longrightarrow> leaves (ok b X) (reject_generation g s)"
  by (simp add: reject_generation_def)

definition idle_host :: "'n supervisor \<Rightarrow> bool" where
  "idle_host s \<longleftrightarrow> sv_active s \<noteq> None \<and> sv_candidate s = None \<and> sv_phase s = PhaseNone \<and>
     k_phase (sv_kernel s) = Live \<and> sv_published s \<noteq> None"

lemma launch_candidate_settles:
  assumes okay: "ok True X s" and idle: "idle_host s" and spawn: "spawn_worker E r s = (Inr w, s')"
  shows "settles X (launch_candidate X E w s')"
proof -
  let ?c = "\<lambda>d. \<lparr>cd_worker = w, cd_purpose = Rollover, cd_stage = CandidateInitializing, cd_deadline = d\<rparr>"
  have new: "ok True X (s'\<lparr>sv_calls := n, sv_candidate := Some (?c d)\<rparr>)" for n d
    by (rule new_candidate_ok(1) [OF okay spawn refl]) (use idle in \<open>auto simp: idle_host_def live_def\<close>)
  have "candidate_entries (sv_internal s') = []"
    by (rule new_candidate_ok(2) [OF okay spawn refl, of Rollover])
      (use idle in \<open>auto simp: idle_host_def live_def\<close>)
  then have "leaves (ok True X) (seed_candidate_initialize X E (wh_token w)
      (s'\<lparr>sv_calls := n, sv_candidate := Some (?c d)\<rparr>))" for n d
    by (intro seed_candidate_initialize_ok [OF new]) auto
  then show ?thesis
    by (auto simp: launch_candidate_def intro!: settles_catch reject_candidate_settles intro: settles_leaves)
qed

lemma idle_host_updates [simp]:
  "idle_host (s\<lparr>sv_calls := n\<rparr>) = idle_host s" "idle_host (s\<lparr>sv_rejected := g\<rparr>) = idle_host s"
  by (simp_all add: idle_host_def)

lemma prepare_rollover_settles:
  assumes okay: "ok True X s" and idle: "idle_host s"
  shows "settles X (prepare_rollover X E release s)"
proof -
  let ?s = "s\<lparr>sv_calls := Suc (sv_calls s)\<rparr>"
  have okay': "ok True X ?s" "idle_host ?s" using okay idle by simp_all
  obtain r t where spawn: "spawn_worker E release ?s = (r, t)" by fastforce
  have t: "ok True X t" using spawn_worker_ok [OF okay'(1), of E release] spawn leaves_result by fastforce
  show ?thesis
  proof (cases r)
    case (Inl e)
    with okay t spawn show ?thesis
      by (auto simp: prepare_rollover_def bindO_def catchO_def ask_def reject_generation_def split: sum.split)
  next
    case (Inr w)
    note launch = launch_candidate_settles [OF okay' spawn [unfolded Inr]]
    with okay spawn Inr show ?thesis
      by (auto simp: prepare_rollover_def bindO_def catchO_def ask_def reject_generation_def split: sum.split)
  qed
qed

lemma observe_channel_settles [settles_rules]:
  assumes okay: "ok True X s" and idle: "sv_active s \<noteq> None \<Longrightarrow> idle_host s"
  shows "settles X (observe_channel X E s)"
  unfolding observe_channel_def using okay idle
  by (auto simp: ask_def bindO_def reject_generation_def intro!: prepare_rollover_settles
      split: sum.split option.split)

lemma retry_gate_ok:
  assumes "(if sv_phase s = Recovering \<and> sv_candidate s = None then retry_due E s else (Inr False, s)) = (Inr due, t)"
  shows "quiet s t \<and> (due \<longrightarrow> sv_phase t = Recovering \<and> sv_candidate t = None)"
  using assms by (auto simp: retry_due_def split: if_splits option.splits)

lemma retry_due_ok [leaves_rules]: "ok b X s \<Longrightarrow> leaves (ok b X) (retry_due E s)"
  by (auto simp: retry_due_def split: option.split)

lemma tick_rest_settles [settles_rules]:
  assumes okay: "ok True X s"
  shows "settles X (tick_rest X E s)"
  unfolding tick_rest_def
proof (rule settles_bind)
  show "settles X (if sv_phase s = Recovering \<and> sv_candidate s = None then retry_due E s else (Inr False, s))"
    using okay by (auto intro!: settles_leaves leaves_rules)
next
  fix due t
  assume gate: "(if sv_phase s = Recovering \<and> sv_candidate s = None then retry_due E s else (Inr False, s)) = (Inr due, t)"
    and t: "ok True X t"
  note g = retry_gate_ok [OF gate]
  show "settles X ((\<lambda>s. if due then catchO (start_recovery X E) (\<lambda>_. await_retry E) (s\<lparr>sv_retry_at := None\<rparr>)
      else if sv_phase s \<noteq> PhaseNone \<or> sv_candidate s \<noteq> None \<or> k_phase (sv_kernel s) \<noteq> Live \<or> sv_published s = None
      then (Inr (), s) else observe_channel X E s) t)"
  proof (cases due)
    case True
    with g t have "leaves (ok True X) (start_recovery X E (t\<lparr>sv_retry_at := None\<rparr>))"
      by (intro start_recovery_ok) auto
    then have "leaves (ok True X) (catchO (start_recovery X E) (\<lambda>_. await_retry E) (t\<lparr>sv_retry_at := None\<rparr>))"
      by (rule leaves_catch) (rule await_retry_ok)
    with True show ?thesis by (simp add: settles_leaves)
  next
    case False
    with t show ?thesis by (auto simp: idle_host_def intro!: observe_channel_settles)
  qed
qed

lemma candidate_expired_result:
  assumes "candidate_expired E s = (r, t)"
  shows "quiet s t" "r = Inr x \<Longrightarrow> x = None \<or> x = sv_candidate s" "\<exists>x. r = Inr x"
  using assms by (auto simp: candidate_expired_def split: option.splits if_splits)

lemma on_tick_settles [settles_rules]:
  assumes okay: "ok True X s"
  shows "settles X (on_tick X E s)"
proof -
  obtain r t where ex: "candidate_expired E s = (r, t)" by fastforce
  note q = candidate_expired_result [OF ex]
  then obtain x where r: "r = Inr x" by blast
  have t: "ok True X t" using okay quiet_ok [OF q(1)] by simp
  show ?thesis
  proof (cases x)
    case None
    with ex r t show ?thesis by (simp add: on_tick_def bindO_def tick_rest_settles)
  next
    case (Some c)
    then have c: "sv_candidate t = Some c" using q(2) [OF r] quiet_fields(4) [OF q(1)] by auto
    note inv = ok_sup_inv [OF t]
    show ?thesis
    proof (cases "cd_purpose c")
      case Rollover
      with inv c have act: "sv_active t \<noteq> None" by (auto simp: sup_inv_def workers_ok_def)
      have "ready t" if "sv_phase t = AwaitingCatalogRefresh"
        using ok_parts(2) [OF t] that c by (auto simp: ready_def candidate_ok_def)
      then have "settles X (try_begin_restore X E (set_candidate_deadline None (t\<lparr>sv_phase := Draining\<rparr>)))"
        if "sv_phase t = AwaitingCatalogRefresh" using drained_restore_settles [OF t] that by blast
      moreover have "settles X (bindO (reject_candidate X E) (\<lambda>_. tick_rest X E) t)"
        by (rule settles_bind) (rule reject_candidate_settles [OF ok_weaken [OF t]], rule tick_rest_settles)
      ultimately show ?thesis using ex r Some Rollover by (simp add: on_tick_def bindO_def)
    next
      case Recovery
      note rec = reject_recovery [OF inv c Recovery]
      have "ok True X ((rejected_state t)\<lparr>sv_phase := Recovering\<rparr>)"
        using rejected_state_ok(2) [OF t rec(2)] rec by (simp add: ok_def stages_ok_def settled_def)
      then have "settles X (bindO (modO (\<lambda>s. s\<lparr>sv_phase := Recovering\<rparr>)) (\<lambda>_.
          bindO (await_retry E) (\<lambda>_. tick_rest X E)) (rejected_state t))"
        by (auto intro!: settles_bind tick_rest_settles intro: settles_leaves leaves_rules)
      with ex r Some Recovery rec(1) show ?thesis by (simp add: on_tick_def bindO_def)
    qed
  qed
qed

section \<open>Frames from workers and clients\<close>

lemma publish_ok:
  assumes okay: "ok b X s" and lv: "live (sv_kernel s)"
  shows "ok False X (publish_active_catalog c s)"
proof -
  have "sup_inv X (publish_active_catalog c s)" by (rule publish_inv [OF ok_sup_inv [OF okay]])
  with okay lv show ?thesis
    by (cases "sv_active s") (auto simp: publish_active_catalog_def ok_def stages_ok_def)
qed

lemma take_internal:
  assumes okay: "ok b X s" and i: "map_of (sv_internal s) i = Some r"
  defines "s' \<equiv> s\<lparr>sv_internal := AList.delete i (sv_internal s)\<rparr>"
  shows "ok b X s'" and "needs_live (ir_action r) \<Longrightarrow> live (sv_kernel s)"
    and "ir_action r \<noteq> ActiveCatalog \<Longrightarrow> candidate_entries (sv_internal s') = [] \<and>
      (\<exists>c. sv_candidate s = Some c \<and> stage_action (cd_stage c) (ir_action r))"
proof -
  have mem: "(i, r) \<in> set (sv_internal s)" using i by (rule map_of_SomeD)
  note e = ok_parts(1) [OF okay]
  have "sup_inv X s'" using ok_sup_inv [OF okay] by (simp add: s'_def sup_inv_def)
  then show "ok b X s'" using okay entries_deleted(1) [OF e i]
    by (auto simp: s'_def ok_def stages_ok_def settled_def dest: set_delete)
  show "needs_live (ir_action r) \<Longrightarrow> live (sv_kernel s)"
    using okay mem unfolding ok_def stages_ok_def by fastforce
  assume a: "ir_action r \<noteq> ActiveCatalog"
  then have "(i, r) \<in> set (candidate_entries (sv_internal s))" using mem by (simp add: candidate_entries_def)
  with e have "\<exists>c. sv_candidate s = Some c \<and> stage_action (cd_stage c) (ir_action r)"
    by (fastforce simp: entries_ok_def split: option.splits)
  with entries_deleted(2) [OF e i a] show "candidate_entries (sv_internal s') = [] \<and>
      (\<exists>c. sv_candidate s = Some c \<and> stage_action (cd_stage c) (ir_action r))"
    by (simp add: s'_def)
qed

lemma catalog_ready_ok:
  assumes okay: "ok b X s" and c: "sv_candidate s = Some c" and none: "candidate_entries (sv_internal s) = []"
    and lv: "live (sv_kernel s)" and st: "cd_stage c = CandidateCatalog"
  shows "ok b X (s\<lparr>sv_calls := n, sv_candidate := Some (c\<lparr>cd_worker := (cd_worker c)\<lparr>wh_catalog := k\<rparr>,
           cd_stage := CandidateReady, cd_deadline := d\<rparr>)\<rparr>)"
  using okay c none lv st candidate_ready_inv [OF ok_sup_inv [OF okay] c, where n = n and k = k and st = CandidateReady and d = d]
  by (auto simp: ok_def stages_ok_def settled_def candidate_ok_def entries_empty)

lemma stage_action_cases:
  "stage_action st InitializeCandidate \<longleftrightarrow> st = CandidateInitializing"
  "stage_action st CatalogOfCandidate \<longleftrightarrow> st = CandidateCatalog"
  "stage_action st (RestoreJournal n) \<longleftrightarrow> st = CandidateRestoring"
  by (cases st; simp)+

lemma handle_internal_response_settles:
  assumes okay: "ok True X s" and i: "map_of (sv_internal s) i = Some r"
  shows "settles X (handle_internal_response X E r f has_error
    (s\<lparr>sv_internal := AList.delete i (sv_internal s)\<rparr>))"
proof -
  let ?s = "s\<lparr>sv_internal := AList.delete i (sv_internal s)\<rparr>"
  note taken = take_internal [OF okay i]
  note weak = ok_weaken [OF taken(1)]
  show ?thesis
  proof (cases "ir_action r")
    case ActiveCatalog
    then have lv: "live (sv_kernel ?s)" using taken(2) by (simp add: needs_live_def)
    show ?thesis using ActiveCatalog taken(1) publish_ok [OF taken(1) lv]
      by (auto simp: handle_internal_response_def intro!: flush_queue_settles
          intro: settles_leaves leaves_rules split: sum.split)
  next
    case InitializeCandidate
    then have none: "candidate_entries (sv_internal ?s) = []"
      and c: "\<And>c. sv_candidate ?s = Some c \<Longrightarrow> cd_stage c = CandidateInitializing"
      using taken(3) by (auto simp: stage_action_cases)
    have "leaves (ok True X) (seed_candidate_catalog X E ?s)"
      by (rule seed_candidate_catalog_ok [OF taken(1) c none])
    then have "settles X (catchO (seed_candidate_catalog X E) (\<lambda>_. reject_candidate X E) ?s)"
      by (intro settles_catch reject_candidate_settles settles_leaves)
    with InitializeCandidate weak none taken(1) show ?thesis
      by (auto simp: handle_internal_response_def intro!: reject_candidate_settles activate_candidate_settles)
  next
    case CatalogOfCandidate
    then have none: "candidate_entries (sv_internal ?s) = []" and lv: "live (sv_kernel ?s)"
      and "\<exists>c. sv_candidate ?s = Some c \<and> cd_stage c = CandidateCatalog"
      using taken(2,3) by (auto simp: stage_action_cases needs_live_def)
    then obtain c where c: "sv_candidate ?s = Some c" "cd_stage c = CandidateCatalog" by blast
    have step: "settles X (on_candidate_ready X E k (?s\<lparr>sv_calls := n, sv_candidate := Some (c\<lparr>
        cd_worker := (cd_worker c)\<lparr>wh_catalog := Some k\<rparr>, cd_stage := CandidateReady, cd_deadline := d\<rparr>)\<rparr>))" for n k d
      by (rule on_candidate_ready_settles [OF catalog_ready_ok [OF taken(1) c(1) none lv c(2)]])
        (simp add: ready_def)
    note rej = reject_candidate_settles [OF weak, of E]
    show ?thesis
    proof (cases "has_error \<or> (\<exists>e. parse_catalog_response X f = Inl e)")
      case True
      with rej CatalogOfCandidate show ?thesis by (auto simp: handle_internal_response_def)
    next
      case False
      then obtain k where "parse_catalog_response X f = Inr k" by (cases "parse_catalog_response X f") auto
      with False CatalogOfCandidate c(1) step show ?thesis by (simp add: handle_internal_response_def)
    qed
  next
    case (RestoreJournal n)
    then have none: "candidate_entries (sv_internal ?s) = []"
      and "\<exists>c. sv_candidate ?s = Some c \<and> cd_stage c = CandidateRestoring"
      using taken(3) by (auto simp: stage_action_cases)
    then obtain c where c: "sv_candidate s = Some c" "cd_stage c = CandidateRestoring" by auto
    have "restorable ?s"
      using ok_parts(2) [OF okay] none unfolding restorable_def candidate_ok_def c(1) by (simp add: c)
    then have "settles X (catchO (continue_restore X E (n + 1)) (\<lambda>_. reject_candidate X E) ?s)"
      by (intro settles_catch continue_restore_settles taken(1) reject_candidate_settles)
    with RestoreJournal weak show ?thesis
      by (auto simp: handle_internal_response_def intro!: reject_candidate_settles)
  qed
qed

lemma stages_updates [simp]:
  "stages_ok (s\<lparr>sv_journal := j\<rparr>) = stages_ok s" "settled (s\<lparr>sv_journal := j\<rparr>) = settled s"
  "stages_ok (s\<lparr>sv_callbacks := cbs\<rparr>) = stages_ok s" "settled (s\<lparr>sv_callbacks := cbs\<rparr>) = settled s"
  "stages_ok (s\<lparr>sv_next_callback := n\<rparr>) = stages_ok s" "settled (s\<lparr>sv_next_callback := n\<rparr>) = settled s"
  by (simp_all add: stages_ok_def settled_def)

lemma record_session_transition_journal:
  assumes "record_session_transition X' f s = (r, s')"
  shows "\<exists>j. s' = s\<lparr>sv_journal := j\<rparr>"
proof -
  have "\<exists>j. s = s\<lparr>sv_journal := j\<rparr>" by (rule exI [of _ "sv_journal s"]) simp
  with assms show ?thesis
    by (auto simp: record_session_transition_def journal_op_def split: option.splits state_contract.splits
        sum.splits prod.splits)
qed

text \<open>States that differ in the journal, the log and the call counter only.\<close>

definition alike :: "'n extern \<Rightarrow> 'n supervisor \<Rightarrow> 'n supervisor \<Rightarrow> bool" where
  "alike X s u \<longleftrightarrow> ok True X u \<and> sv_phase u = sv_phase s \<and> sv_candidate u = sv_candidate s \<and>
     sv_active u = sv_active s \<and> sv_kernel u = sv_kernel s"

lemma record_session_transition_alike:
  assumes "alike X s u"
  shows "leaves (alike X s) (record_session_transition X' f u)"
proof (cases "record_session_transition X' f u")
  case (Pair r v)
  have inv: "sup_inv X u" using assms by (simp add: alike_def ok_def)
  have "sup_inv X v" using record_session_transition_inv [OF inv] Pair leaves_result by metis
  moreover obtain j where j: "v = u\<lparr>sv_journal := j\<rparr>" using record_session_transition_journal [OF Pair] by blast
  ultimately have "alike X s v" using assms by (simp add: alike_def ok_def)
  with Pair show ?thesis by simp
qed

lemma write_value_alike: "alike X s u \<Longrightarrow> leaves (alike X s) (write_value X' E v u)"
  using write_value_quiet [of u u X' E v]
  by (simp add: leaves_def alike_def quiet_fields quiet_ok)

definition answered :: "'n extern \<Rightarrow> env \<Rightarrow> 'n pending_request \<Rightarrow> 'n frame \<Rightarrow> bool \<Rightarrow> ('n, unit) sop" where
  "answered X E completed f has_error =
     bindO (if has_error then retO ()
            else catchO (record_session_transition X (pr_frame completed))
                   (\<lambda>_. modO (\<lambda>s. s\<lparr>sv_journal := sv_journal s\<lparr>sj_pinned := True\<rparr>\<rparr>))) (\<lambda>_.
       write_value X E (if is_initialize (pr_method completed)
                        then patch_initialize_response (fr_value f) else fr_value f))"

lemma answered_alike:
  assumes "ok True X s"
  shows "leaves (alike X s) (answered X E completed f has_error s)"
proof -
  have s: "alike X s s" using assms by (simp add: alike_def)
  have pin: "alike X s (u\<lparr>sv_journal := sv_journal u\<lparr>sj_pinned := True\<rparr>\<rparr>)" if u: "alike X s u" for u
  proof -
    have inv: "sup_inv X u" using u by (simp add: alike_def ok_def)
    have "sup_inv X (u\<lparr>sv_journal := sv_journal u\<lparr>sj_pinned := True\<rparr>\<rparr>)"
      by (rule journal_update_inv [OF inv]) (use sup_inv_journal [OF inv] in simp)
    with u show ?thesis by (simp add: alike_def ok_def)
  qed
  show ?thesis unfolding answered_def
    by (rule leaves_bind) (auto intro!: leaves_catch record_session_transition_alike write_value_alike s pin)
qed

lemma forward_response_answered:
  "forward_response X E token f has_error s =
     (case complete_response f (sv_kernel s) of
        (Inl _, k) \<Rightarrow> handle_worker_loss_by_id X E (Some token) (s\<lparr>sv_kernel := k\<rparr>)
      | (Inr completed, k) \<Rightarrow>
          bindO (answered X E completed f has_error) (\<lambda>_. try_begin_restore X E) (s\<lparr>sv_kernel := k\<rparr>))"
  unfolding forward_response_def answered_def bindO_assoc ..

lemma forward_response_settles [settles_rules]:
  assumes okay: "ok True X s" and act: "sv_active s \<noteq> None"
  shows "settles X (forward_response X E token f has_error s)"
proof -
  obtain r k where comp: "complete_response f (sv_kernel s) = (r, k)" by fastforce
  have hk: "host_kernel X k"
    using host_complete [OF sup_inv_kernel [OF ok_sup_inv [OF okay]], of f] comp by simp
  have shr: "kernel_shrinks (sv_kernel s) k" using complete_shrinks [of "sv_kernel s" f] comp by simp
  then have ok': "ok True X (s\<lparr>sv_kernel := k\<rparr>)"
    by (intro set_kernel_ok [OF okay hk]) (simp_all add: kernel_shrinks_def)
  show ?thesis
  proof (cases r)
    case (Inl e)
    with comp worker_loss_ok [OF ok'] show ?thesis by (simp add: forward_response_def settles_leaves)
  next
    case (Inr completed)
    have busy: "k_pending (sv_kernel s) \<noteq> []"
      using comp Inr by (auto simp: complete_response_def split: envelope.splits option.splits)
    have ready: "cd_stage c = CandidateReady" if "sv_phase s = Draining" "sv_candidate s = Some c" for c
    proof -
      have "cd_purpose c = Rollover" using ok_sup_inv [OF okay] act that by (auto simp: sup_inv_def workers_ok_def)
      with ok_parts(2) [OF okay] that busy show ?thesis by (auto simp: candidate_ok_def)
    qed
    have A: "leaves (alike X (s\<lparr>sv_kernel := k\<rparr>)) (answered X E completed f has_error (s\<lparr>sv_kernel := k\<rparr>))"
      by (rule answered_alike [OF ok'])
    have "settles X (bindO (answered X E completed f has_error) (\<lambda>_. try_begin_restore X E) (s\<lparr>sv_kernel := k\<rparr>))"
    proof (rule settles_bind)
      show "settles X (answered X E completed f has_error (s\<lparr>sv_kernel := k\<rparr>))"
        using A by (auto simp: leaves_def alike_def intro: settles_leaves)
      fix a t assume "answered X E completed f has_error (s\<lparr>sv_kernel := k\<rparr>) = (Inr a, t)" and t: "ok True X t"
      with A have "alike X (s\<lparr>sv_kernel := k\<rparr>) t" by simp
      then show "settles X (try_begin_restore X E t)"
        using ready by (intro try_begin_restore_settles [OF t]) (simp add: alike_def)
    qed
    with comp Inr show ?thesis by (simp add: forward_response_answered)
  qed
qed

lemma forward_callback_ok [leaves_rules]:
  assumes okay: "ok b X s" and act: "active_token s = Some token"
  shows "leaves (ok b X) (forward_callback X E token i f s)"
proof (cases "forward_callback X E token i f s")
  case (Pair r s')
  have inv': "sup_inv X s'"
    using forward_callback_inv [OF ok_sup_inv [OF okay] act] Pair leaves_result by metis
  have P: "leaves (\<lambda>u. stages_ok u \<and> (b \<longrightarrow> settled u)) (forward_callback X E token i f s)"
  proof -
    let ?P = "\<lambda>u. stages_ok u \<and> (b \<longrightarrow> settled u)"
    have w: "leaves ?P (write_value X E v u)" if "?P u" for v u
      using that write_value_quiet [of u u X E v] by (simp add: leaves_def stages_ok_def settled_def quiet_fields)
    have n: "leaves ?P (next_callback_id u)" if "?P u" for u
      using that by (auto simp: next_callback_id_def split: option.split)
    have s: "?P s" using okay by (simp add: ok_def)
    show ?thesis unfolding forward_callback_def by (intro w n s leaves_rules | simp add: s split: sum.split)+
  qed
  from inv' P Pair show ?thesis by (simp add: ok_def)
qed

lemma handle_worker_payload_settles [settles_rules]:
  assumes okay: "ok True X s"
  shows "settles X (handle_worker_payload X E token p s)"
proof -
  note rej = reject_candidate_settles [OF ok_weaken [OF okay], of E]
  note loss = settles_leaves [OF worker_loss_ok [OF okay]]
  note internal = handle_internal_response_settles [OF okay]
  have taken: "ok False X (s\<lparr>sv_internal := AList.delete i (sv_internal s)\<rparr>)" if "map_of (sv_internal s) i = Some r" for i r
    by (rule ok_weaken [OF take_internal(1) [OF okay that]])
  have act: "sv_active s \<noteq> None" if "active_token s = Some token" using that by (auto simp: active_token_def)
  have quiet: "settles X (emit E e bs s)" for e bs by (rule settles_leaves) (rule leaves_rules, rule okay)
  show ?thesis unfolding handle_worker_payload_def Let_def
    using okay rej loss internal taken act quiet
    by (auto intro!: forward_response_settles intro: settles_leaves forward_callback_ok
        split: sum.split envelope.split option.split)
qed

text \<open>Frames from the client.\<close>

lemma queue_or_reject_ok [leaves_rules]:
  assumes okay: "ok b X s" and f: "frame_ok X f"
  shows "leaves (ok b X) (queue_or_reject X' E f s)"
proof (cases "queue_client_frame f queue_capacity (sv_kernel s)")
  case (Pair r k)
  have "kernel_shrinks (sv_kernel s) k" using enqueue_shrinks [of "sv_kernel s" f queue_capacity] Pair by simp
  moreover have "host_kernel X k" using host_enqueue [OF sup_inv_kernel [OF ok_sup_inv [OF okay]] f] Pair by simp
  ultimately have "ok b X (s\<lparr>sv_kernel := k\<rparr>)"
    by (intro set_kernel_ok [OF okay]) (simp_all add: kernel_shrinks_def)
  with Pair show ?thesis unfolding queue_or_reject_def
    by (auto intro!: leaves_rules split: sum.split)
qed

lemma callbacks_delete_ok: "ok b X s \<Longrightarrow> ok b X (s\<lparr>sv_callbacks := AList.delete i (sv_callbacks s)\<rparr>)"
  by (simp add: ok_def callbacks_delete_inv)

lemma route_callback_response_ok [leaves_rules]:
  "ok b X s \<Longrightarrow> leaves (ok b X) (route_callback_response X' E i f s)"
  unfolding route_callback_response_def
  by (auto intro!: leaves_rules callbacks_delete_ok split: sum.split option.split)

lemma route_cancellation_ok [leaves_rules]:
  "ok b X s \<Longrightarrow> leaves (ok b X) (route_cancellation X' E f s)"
  unfolding route_cancellation_def by (auto intro!: leaves_rules split: option.split)

lemma send_or_lose_ok [leaves_rules]: "ok b X s \<Longrightarrow> leaves (ok b X) (send_or_lose X' E p s)"
  unfolding send_or_lose_def by (auto intro!: leaves_rules)

lemma send_active_kernel: "send_active E p s = (r, t) \<Longrightarrow> sv_kernel t = sv_kernel s"
  using send_active_quiet [of s s E p] by (simp add: leaves_def quiet_fields)

lemma forward_initialized_ok [leaves_rules]:
  assumes okay: "ok b X s" and lv: "live (sv_kernel s)"
  shows "leaves (ok b X) (forward_initialized X' E f s)"
proof -
  obtain r t where sent: "send_active E (fr_payload f) s = (r, t)" by fastforce
  have t: "ok b X t" using quiet_ops_ok(4) [OF okay, of E "fr_payload f"] sent by simp
  have "live (sv_kernel t)" using lv send_active_kernel [OF sent] by simp
  note request = request_active_catalog_ok [OF t this, of X' E]
  show ?thesis
  proof (cases r)
    case (Inl e)
    have "leaves (ok b X) (bindO (bindO (handle_worker_loss_by_id X' E (active_token s)) (\<lambda>_. retO False))
        (\<lambda>sent. if sent then catchO (request_active_catalog X' E)
           (\<lambda>_. handle_worker_loss_by_id X' E (active_token s)) else retO ()) t)"
      using t by (auto simp: bindO_assoc intro!: leaves_rules)
    with Inl sent show ?thesis by (simp add: forward_initialized_def bindO_def catchO_def Let_def)
  next
    case (Inr u)
    have "leaves (ok b X) (catchO (request_active_catalog X' E)
        (\<lambda>_. handle_worker_loss_by_id X' E (active_token s)) t)"
      by (rule leaves_catch) (rule request, rule worker_loss_ok)
    with Inr sent show ?thesis by (simp add: forward_initialized_def bindO_def catchO_def Let_def)
  qed
qed

lemma forward_request_ok [leaves_rules]:
  "ok b X s \<Longrightarrow> frame_ok X f \<Longrightarrow> sv_phase s \<noteq> Draining \<Longrightarrow> leaves (ok b X) (forward_request X E f m s)"
  unfolding forward_request_def by (auto intro!: leaves_rules split: option.split)

lemma list_tools_settles:
  assumes okay: "ok True X s" and f: "frame_ok X f"
  shows "settles X (list_tools X E f s)"
proof (cases "sv_phase s = AwaitingCatalogRefresh")
  case True
  have "ready s" using ok_parts(2,4) [OF okay] True by (auto simp: ready_def candidate_ok_def)
  then have "ready (s\<lparr>sv_refresh := Some f\<rparr>)" by (simp add: ready_def)
  with drained_restore_settles [of X "s\<lparr>sv_refresh := Some f\<rparr>"] okay True show ?thesis
    by (simp add: list_tools_def)
next
  case False
  with okay f show ?thesis unfolding list_tools_def
    by (auto intro!: settles_leaves queue_or_reject_ok quiet_ops_ok)
qed

lemma dispatch_client_frame_settles:
  assumes okay: "ok True X s" and f: "frame_ok X f"
    and lv: "\<And>m. fr_envelope f = Notification m \<Longrightarrow> is_initialized_notification m \<Longrightarrow> live (sv_kernel s)"
  shows "settles X (dispatch_client_frame X E f s)"
proof (cases "fr_envelope f")
  case (Request i m)
  have q: "settles X (queue_or_reject X E f s)" by (rule settles_leaves) (rule queue_or_reject_ok [OF okay f])
  have "settles X (forward_request X E f m s)" if "\<not> gating_new_work s"
    by (rule settles_leaves [OF forward_request_ok [OF okay f]]) (use that in \<open>simp add: gating_new_work_def\<close>)
  with q list_tools_settles [OF okay f] Request show ?thesis by (simp add: dispatch_client_frame_def)
next
  case (Notification m)
  with okay f lv show ?thesis unfolding dispatch_client_frame_def
    by (auto intro!: settles_leaves queue_or_reject_ok forward_initialized_ok route_cancellation_ok send_or_lose_ok)
next
  case (Response i e)
  with okay show ?thesis unfolding dispatch_client_frame_def
    by (auto intro!: settles_leaves route_callback_response_ok)
qed

lemma observe_live:
  "observe_client_frame f k = (Inr u, k') \<Longrightarrow> fr_envelope f = Notification m \<Longrightarrow>
     is_initialized_notification m \<Longrightarrow> live k'"
  by (auto simp: observe_client_frame_def live_def split: if_splits option.splits)

lemma handle_client_payload_settles:
  assumes okay: "ok True X s"
  shows "settles X (handle_client_payload X E p s)"
proof (cases "frame_parse X p")
  case (Inl e)
  with okay show ?thesis by (auto simp: handle_client_payload_def intro!: settles_leaves quiet_ops_ok)
next
  case (Inr f)
  then have f: "frame_ok X f" by (simp add: frame_parse_ok)
  obtain r k where o: "observe_client_frame f (sv_kernel s) = (r, k)" by fastforce
  have shr: "kernel_shrinks (sv_kernel s) k" using observe_shrinks [of "sv_kernel s" f] o by simp
  have "host_kernel X k" using host_observe [OF sup_inv_kernel [OF ok_sup_inv [OF okay]] f] o by simp
  with shr have ok': "ok True X (s\<lparr>sv_kernel := k\<rparr>)"
    by (intro set_kernel_ok [OF okay]) (simp_all add: kernel_shrinks_def)
  show ?thesis
  proof (cases r)
    case (Inl e)
    with Inr o ok' show ?thesis by (auto simp: handle_client_payload_def intro!: settles_leaves quiet_ops_ok)
  next
    case (Inr u)
    have "settles X (dispatch_client_frame X E f (s\<lparr>sv_kernel := k\<rparr>))"
      by (rule dispatch_client_frame_settles [OF ok' f]) (use observe_live o Inr in auto)
    with Inr o \<open>frame_parse X p = Inr f\<close> show ?thesis by (simp add: handle_client_payload_def)
  qed
qed

section \<open>The event loop\<close>

lemma handle_event_ok:
  assumes "ok True X s" and "handle_event X E ev s = (Inr True, s')"
  shows "ok True X s'"
proof -
  have "settles X (handle_event X E ev s)" if "ev \<noteq> ClientEnd" "\<forall>e. ev \<noteq> ClientFault e"
    using assms(1) that by (cases ev) (auto simp: handle_event_def intro!: settles_bind handle_client_payload_settles
        handle_worker_payload_settles handle_worker_loss_settles on_tick_settles)
  moreover have "ev \<noteq> ClientEnd" "\<forall>e. ev \<noteq> ClientFault e" using assms(2) by (auto simp: handle_event_def)
  ultimately show ?thesis using assms(2) by simp
qed

lemma event_loop_ok:
  assumes "ok True X s" and "event_loop X E evs s = (Inr True, s')"
  shows "ok True X s'"
  using assms
proof (induction evs arbitrary: s)
  case (Cons ev evs)
  obtain r t where step: "handle_event X E ev s = (r, t)" by fastforce
  with Cons.prems(2) have r: "r = Inr True" by (cases r) (auto simp: bindO_def split: if_splits)
  have "ok True X t" using handle_event_ok [OF Cons.prems(1)] step r by blast
  with Cons r step show ?case by (simp add: bindO_def)
qed simp

lemma start_ok:
  fixes s :: "'n supervisor"
  assumes "start X E c evs (new_supervisor c) = (Inr True, s)"
  shows "ok True X s"
proof (cases "spawn_worker E (cf_initial c) (new_supervisor c :: 'n supervisor)")
  case (Pair r t)
  with assms obtain w where r: "r = Inr w" by (cases r) (auto simp: start_def)
  note f = spawn_worker_fields [OF Pair]
  have "ok True X (t\<lparr>sv_active := Some w\<rparr>)"
    using start_worker_inv [OF Pair [unfolded r], of X] f(1-6)
    by (simp add: ok_def stages_ok_def settled_def new_supervisor_def)
  moreover have "event_loop X E evs (t\<lparr>sv_active := Some w\<rparr>) = (Inr True, s)"
    using Pair r assms by (simp add: start_def)
  ultimately show ?thesis using event_loop_ok by blast
qed

end
