(* ===== verification/Drain.thy ===== *)
theory Drain
  imports Stages
begin

text \<open>
  A rollover waits for the incumbent: an event replaces the worker in service by another only
  when no invocation is in flight with it, so the one event that does so while one is pending
  is the incumbent's own answer to it. The invariant of \<open>Stages\<close> excludes the other paths;
  what remains is that every other operation keeps the worker in service or loses it.
\<close>

section \<open>What keeps the worker in service\<close>

text \<open>With \<open>l\<close> the session is known to be live.\<close>

definition stays :: "u64 \<Rightarrow> bool \<Rightarrow> 'n supervisor \<Rightarrow> bool" where
  "stays t l s \<longleftrightarrow> (sv_active s = None \<or> active_token s = Some t) \<and> (l \<longrightarrow> live (sv_kernel s))"

lemma stays_fields:
  "sv_active s' = sv_active s \<Longrightarrow> live (sv_kernel s') = live (sv_kernel s) \<Longrightarrow> stays t l s' = stays t l s"
  by (simp add: stays_def active_token_def)

lemma stays_updates [simp]:
  "stays t l (s\<lparr>sv_calls := n\<rparr>) = stays t l s" "stays t l (s\<lparr>sv_log := g\<rparr>) = stays t l s"
  "stays t l (s\<lparr>sv_retry_at := r\<rparr>) = stays t l s" "stays t l (s\<lparr>sv_rejected := x\<rparr>) = stays t l s"
  "stays t l (s\<lparr>sv_refresh := rf\<rparr>) = stays t l s" "stays t l (record_effect e s) = stays t l s"
  "stays t l (s\<lparr>sv_internal := ri\<rparr>) = stays t l s" "stays t l (s\<lparr>sv_candidate := cd\<rparr>) = stays t l s"
  "stays t l (s\<lparr>sv_phase := ph\<rparr>) = stays t l s" "stays t l (s\<lparr>sv_callbacks := cbs\<rparr>) = stays t l s"
  "stays t l (s\<lparr>sv_journal := j\<rparr>) = stays t l s" "stays t l (s\<lparr>sv_next_callback := nc\<rparr>) = stays t l s"
  "stays t l (s\<lparr>sv_next_internal := ni\<rparr>) = stays t l s" "stays t l (rejected_state s) = stays t l s"
  "stays t l (set_candidate_deadline d s) = stays t l s" "stays t l (retain_internal k s) = stays t l s"
  by (rule stays_fields; simp add: record_effect_def set_candidate_deadline_def retain_internal_def
        split: option.split)+

lemma stays_lost: "sv_active s = None \<Longrightarrow> stays t l s \<longleftrightarrow> (l \<longrightarrow> live (sv_kernel s))"
  by (simp add: stays_def)

lemma quiet_stays: "quiet s s' \<Longrightarrow> stays t l s' = stays t l s"
  by (rule stays_fields) (simp_all add: quiet_fields)

lemma leaves_quiet_stays: "leaves (quiet s) r \<Longrightarrow> stays t l s \<Longrightarrow> leaves (stays t l) r"
  by (simp add: leaves_def quiet_stays)

lemma quiet_ops_stay [leaves_rules]:
  assumes "stays t l s"
  shows "leaves (stays t l) (emit E e p s)" "leaves (stays t l) (write_value X E v s)"
    "leaves (stays t l) (send_handle E w p s)" "leaves (stays t l) (send_active E p s)"
    "leaves (stays t l) (send_worker E k p s)" "leaves (stays t l) (reply_catalog X E f s)"
    "leaves (stays t l) (reject_client_id X E i r s)" "leaves (stays t l) (reject_client_frame X E f r s)"
    "leaves (stays t l) (write_rejections X E rs s)" "leaves (stays t l) (ask q s)"
proof -
  show "leaves (stays t l) (ask q s)" using assms by (simp add: ask_def)
qed (rule leaves_quiet_stays [OF _ assms], rule leaves_rules, simp)+

lemma kernel_step_stays:
  assumes "stays t l s" and "kernel_step (sv_kernel s) k"
  shows "stays t l (s\<lparr>sv_kernel := k\<rparr>)"
  using assms by (auto simp: stays_def kernel_step_def active_token_def)

lemma worker_loss_stays [leaves_rules]:
  assumes s: "stays t l s"
  shows "leaves (stays t l) (handle_worker_loss_by_id X E token s)"
proof (cases "token = None \<or> active_token s \<noteq> token")
  case True
  with s show ?thesis by (simp add: handle_worker_loss_by_id_def)
next
  case False
  let ?s0 = "drop_candidate (forget_active s)"
  obtain outcome k where rq: "requeue_pending_for_replay replay_limits (sv_kernel ?s0) = (outcome, k)"
    by fastforce
  have f: "sv_kernel ?s0 = sv_kernel s" "sv_active ?s0 = None"
    by (auto simp: drop_candidate_def forget_active_def retain_callbacks_def kill_def record_effect_def
        split: option.split)
  have "live k = live (sv_kernel s)" using requeue_keeps_live [of replay_limits "sv_kernel ?s0"] rq f by simp
  with s have "stays t l (?s0\<lparr>sv_internal := [], sv_phase := Recovering, sv_kernel := k\<rparr>)"
    by (simp add: stays_def f)
  with False rq show ?thesis unfolding handle_worker_loss_by_id_def Let_def
    by (auto simp: f intro!: leaves_rules split: prod.split)
qed

lemma send_active_or_recover_stays [leaves_rules]:
  "stays t l s \<Longrightarrow> leaves (stays t l) (send_active_or_recover X E p s)"
  unfolding send_active_or_recover_def by (rule leaves_rules | simp)+

lemma dispatch_request_stays [leaves_rules]:
  assumes "stays t l s"
  shows "leaves (stays t l) (dispatch_request X E f m s)"
proof -
  have "stays t l (s\<lparr>sv_calls := n, sv_kernel := snd (begin_request_dispatch X now f c m' (sv_kernel s))\<rparr>)" for n now c m'
    using kernel_step_stays [of t l "s\<lparr>sv_calls := n\<rparr>"] assms by (simp add: begin_step)
  then show ?thesis by (auto simp: dispatch_request_def split: prod.split sum.split) (metis snd_conv)+
qed

lemma flush_client_frame_stays [leaves_rules]:
  "stays t l s \<Longrightarrow> leaves (stays t l) (flush_client_frame X E f s)"
  unfolding flush_client_frame_def by (auto intro!: leaves_rules split: envelope.split)

lemma flush_step_stays [leaves_rules]:
  assumes s: "stays t l s"
  shows "leaves (stays t l) (flush_step X E s)"
proof -
  obtain r k where pop: "pop_next_dispatch (sv_kernel s) = (r, k)" by fastforce
  have "stays t l (s\<lparr>sv_kernel := k\<rparr>)"
    using kernel_step_stays [OF s pop_step] pop by simp
  with pop show ?thesis
    by (auto simp: flush_step_def intro!: leaves_rules split: sum.split queue_outcome.split)
qed

lemma flush_queue_stays [leaves_rules]: "stays t l s \<Longrightarrow> leaves (stays t l) (flush_queue X E s)"
proof (induction X E s rule: flush_queue.induct)
  case (1 X E s)
  show ?case
  proof (cases "flush_step X E s")
    case (Pair r s')
    with flush_step_stays [OF 1(2), of X E] have "stays t l s'" by simp
    with 1 Pair show ?thesis by (subst flush_queue.simps) (auto split: sum.split)
  qed
qed

lemma reject_candidate_stays [leaves_rules]: "stays t l s \<Longrightarrow> leaves (stays t l) (reject_candidate X E s)"
  by (auto simp: reject_candidate_eq intro!: leaves_rules)

lemma internal_ops_stay [leaves_rules]:
  assumes "stays t l s"
  shows "leaves (stays t l) (internal_id k x s)" "leaves (stays t l) (insert_internal i k a s)"
    "leaves (stays t l) (kernel_seed s)" "leaves (stays t l) (await_retry E s)"
    "leaves (stays t l) (reject_generation g s)"
    "leaves (stays t l) (retry_due E s)"
  using assms by (auto simp: internal_id_def insert_internal_def kernel_seed_def await_retry_def
      reject_generation_def retry_due_def split: option.split sum.split)

lemma seeds_stay [leaves_rules]:
  assumes "stays t l s"
  shows "leaves (stays t l) (seed_candidate_initialize X E k s)"
    "leaves (stays t l) (seed_candidate_catalog X E s)" "leaves (stays t l) (request_active_catalog X E s)"
  unfolding seed_candidate_initialize_def seed_candidate_catalog_def request_active_catalog_def using assms
  by (auto intro!: leaves_rules split: sum.split option.split)

lemma handle_worker_loss_stays [leaves_rules]:
  "stays t l s \<Longrightarrow> leaves (stays t l) (handle_worker_loss X E token s)"
  unfolding handle_worker_loss_def by (auto intro!: leaves_rules split: option.split)

lemma spawn_worker_stays [leaves_rules]:
  assumes "stays t l s"
  shows "leaves (stays t l) (spawn_worker E release s)"
proof (cases "spawn_worker E release s")
  case (Pair r s')
  with assms spawn_worker_fields [OF Pair] stays_fields [of s' s t l] show ?thesis by simp
qed

lemma place_recovery_worker_stays:
  assumes "stays t True s"
  shows "leaves (stays t True) (place_recovery_worker X E w s)"
proof -
  have "leaves (stays t True) (abandon_candidate k e u)" if "stays t True u" for k e u
    using that by (auto simp: abandon_candidate_def drop_candidate_def kill_def split: option.split)
  moreover have "k_phase (sv_kernel s) = Live" using assms by (simp add: stays_def live_def)
  ultimately show ?thesis using assms unfolding place_recovery_worker_def
    by (auto intro!: leaves_rules)
qed

lemma start_recovery_stays: "stays t True s \<Longrightarrow> leaves (stays t True) (start_recovery X E s)"
  unfolding start_recovery_def by (auto intro!: leaves_rules place_recovery_worker_stays split: sum.split)

lemma launch_candidate_stays [leaves_rules]: "stays t l s \<Longrightarrow> leaves (stays t l) (launch_candidate X E w s)"
  unfolding launch_candidate_def by (auto intro!: leaves_rules)

lemma prepare_rollover_stays [leaves_rules]: "stays t l s \<Longrightarrow> leaves (stays t l) (prepare_rollover X E m s)"
  unfolding prepare_rollover_def by (auto intro!: leaves_rules split: sum.split option.split)

lemma observe_channel_stays [leaves_rules]: "stays t l s \<Longrightarrow> leaves (stays t l) (observe_channel X E s)"
  unfolding observe_channel_def by (auto intro!: leaves_rules split: sum.split option.split)

lemma tick_rest_stays:
  assumes "stays t l s" and "l \<or> sv_phase s \<noteq> Recovering"
  shows "leaves (stays t l) (tick_rest X E s)"
proof (cases "sv_phase s = Recovering")
  case True
  with assms have "stays t True s" by simp
  moreover from this have "leaves (stays t True) (catchO (start_recovery X E) (\<lambda>_. await_retry E) (u\<lparr>sv_retry_at := None\<rparr>))"
    if "stays t True u" for u using that by (intro leaves_catch start_recovery_stays internal_ops_stay) auto
  ultimately have "leaves (stays t True) (tick_rest X E s)"
    unfolding tick_rest_def by (auto intro!: leaves_bind internal_ops_stay observe_channel_stays)
  with assms True show ?thesis by simp
next
  case False
  with assms show ?thesis unfolding tick_rest_def bindO_def
    by (auto intro!: observe_channel_stays)
qed

lemma client_ops_stay [leaves_rules]:
  assumes "stays t l s"
  shows "leaves (stays t l) (queue_or_reject X E f s)" "leaves (stays t l) (route_callback_response X E i f s)"
    "leaves (stays t l) (route_cancellation X E f s)" "leaves (stays t l) (send_or_lose X E p s)"
    "leaves (stays t l) (forward_initialized X E f s)" "leaves (stays t l) (forward_request X E f m s)"
proof -
  have k: "stays t l (s\<lparr>sv_kernel := snd (queue_client_frame f queue_capacity (sv_kernel s))\<rparr>)"
    by (rule kernel_step_stays [OF assms]) (use enqueue_shrinks [of "sv_kernel s" f queue_capacity] in \<open>simp add: kernel_shrinks_def\<close>)
  show "leaves (stays t l) (queue_or_reject X E f s)"
    using k by (cases "queue_client_frame f queue_capacity (sv_kernel s)")
      (auto simp: queue_or_reject_def intro!: leaves_rules split: sum.split)
  show "leaves (stays t l) (route_callback_response X E i f s)" unfolding route_callback_response_def
    using assms by (auto intro!: leaves_rules split: sum.split option.split)
  show "leaves (stays t l) (route_cancellation X E f s)" unfolding route_cancellation_def
    using assms by (auto intro!: leaves_rules split: option.split)
  have lose: "leaves (stays t l) (send_or_lose X E q u)" if "stays t l u" for q u
    using that unfolding send_or_lose_def by (auto intro!: leaves_rules)
  show "leaves (stays t l) (send_or_lose X E p s)" by (rule lose [OF assms])
  show "leaves (stays t l) (forward_initialized X E f s)" unfolding forward_initialized_def Let_def
    using assms by (auto intro!: leaves_rules)
  show "leaves (stays t l) (forward_request X E f m s)" unfolding forward_request_def
    using assms lose by (auto intro!: leaves_rules split: option.split)
qed

section \<open>What waits\<close>

lemma busy_in_flight:
  assumes "ok b X s" and "sv_active s \<noteq> None" and "sv_candidate s \<noteq> None" and "k_pending (sv_kernel s) \<noteq> []"
  shows "has_in_flight (sv_kernel s)"
proof -
  obtain c where c: "sv_candidate s = Some c" using assms(3) by blast
  with ok_sup_inv [OF assms(1)] assms(2) have "cd_purpose c = Rollover" by (auto simp: sup_inv_def workers_ok_def)
  with ok_parts(2) [OF assms(1)] c have "unscheduled (sv_kernel s)" by (simp add: candidate_ok_def)
  with idle_pending assms(4) show ?thesis by blast
qed

lemma restore_waits: "has_in_flight (sv_kernel s) \<Longrightarrow> try_begin_restore X E s = (Inr (), s)"
  by (simp add: try_begin_restore_def)

text \<open>A host with a worker in service and a request in flight.\<close>

definition engaged :: "'n extern \<Rightarrow> u64 \<Rightarrow> 'n supervisor \<Rightarrow> bool" where
  "engaged X t s \<longleftrightarrow> ok True X s \<and> active_token s = Some t \<and> k_pending (sv_kernel s) \<noteq> []"

lemma engaged_facts:
  assumes "engaged X t s"
  shows "ok True X s" "stays t False s" "sv_active s \<noteq> None"
    "sv_candidate s \<noteq> None \<Longrightarrow> has_in_flight (sv_kernel s)"
    "sv_phase s \<noteq> PhaseNone \<Longrightarrow> has_in_flight (sv_kernel s)" "sv_phase s \<noteq> Recovering"
proof -
  show s: "ok True X s" "stays t False s" "sv_active s \<noteq> None"
    using assms by (auto simp: engaged_def stays_def active_token_def)
  show flight: "sv_candidate s \<noteq> None \<Longrightarrow> has_in_flight (sv_kernel s)"
    by (rule busy_in_flight [OF s(1,3)]) (use assms in \<open>simp_all add: engaged_def\<close>)
  show "sv_phase s \<noteq> PhaseNone \<Longrightarrow> has_in_flight (sv_kernel s)"
    using ok_parts(4) [OF s(1,3)] flight by blast
  show "sv_phase s \<noteq> Recovering" using ok_sup_inv [OF s(1)] s(3) by (auto simp: sup_inv_def workers_ok_def)
qed

lemma on_tick_stays:
  assumes e: "engaged X t s"
  shows "leaves (stays t False) (on_tick X E s)"
proof -
  note s = engaged_facts [OF e]
  obtain r u where ex: "candidate_expired E s = (r, u)" by fastforce
  note q = candidate_expired_result [OF ex]
  then obtain x where r: "r = Inr x" by blast
  have u: "stays t False u" "ok True X u" "sv_kernel u = sv_kernel s" "sv_active u = sv_active s"
    "sv_phase u = sv_phase s"
    using s quiet_stays [OF q(1)] quiet_ok [OF q(1)] by (simp_all add: quiet_fields [OF q(1)])
  show ?thesis
  proof (cases x)
    case None
    with ex r tick_rest_stays [OF u(1)] s(6) u(5) show ?thesis by (simp add: on_tick_def bindO_def)
  next
    case (Some c)
    then have c: "sv_candidate u = Some c" "sv_candidate s = Some c"
      using q(2) [OF r] quiet_fields(4) [OF q(1)] by auto
    then have roll: "cd_purpose c = Rollover"
      using ok_sup_inv [OF u(2)] s(3) u(4) by (auto simp: sup_inv_def workers_ok_def)
    then have "live (sv_kernel u)" using ok_parts(2) [OF u(2)] c by (simp add: candidate_ok_def)
    with u(1) have l: "stays t True u" by (simp add: stays_def)
    have "leaves (stays t True) (bindO (reject_candidate X E) (\<lambda>_. tick_rest X E) u)"
      by (rule leaves_bind) (rule reject_candidate_stays [OF l], simp add: tick_rest_stays)
    then have "leaves (stays t False) (bindO (reject_candidate X E) (\<lambda>_. tick_rest X E) u)"
      by (simp add: leaves_def stays_def)
    moreover have "try_begin_restore X E v = (Inr (), v)"
      if "v = set_candidate_deadline None (u\<lparr>sv_phase := Draining\<rparr>)" for v
      by (rule restore_waits) (use that s(4) c u(3) in \<open>simp add: set_candidate_deadline_def\<close>)
    ultimately show ?thesis using ex r Some roll u(1) by (simp add: on_tick_def bindO_def)
  qed
qed

text \<open>Frames from the client.\<close>

lemma list_tools_stays:
  assumes e: "engaged X t s"
  shows "leaves (stays t False) (list_tools X E f s)"
proof -
  note s = engaged_facts [OF e]
  have "try_begin_restore X E u = (Inr (), u)"
    if "u = set_candidate_deadline None (s\<lparr>sv_refresh := Some f, sv_phase := Draining\<rparr>)"
      "sv_phase s = AwaitingCatalogRefresh" for u
    by (rule restore_waits) (use that s(5) in \<open>simp add: set_candidate_deadline_def split: option.split\<close>)
  with s(2) show ?thesis unfolding list_tools_def
    by (auto intro!: leaves_rules)
qed

lemma dispatch_client_frame_stays:
  assumes e: "engaged X t s"
  shows "leaves (stays t False) (dispatch_client_frame X E f s)"
proof -
  note s = engaged_facts(2) [OF e] and l = list_tools_stays [OF e, of E f]
  note ops = client_ops_stay [OF s]
  show ?thesis unfolding dispatch_client_frame_def
    using l by (auto intro!: ops split: envelope.split)
qed

lemma observe_pending: "k_pending (snd (observe_client_frame f k)) = k_pending k"
  by (auto simp: observe_client_frame_def split: envelope.split option.split)

lemma handle_client_payload_stays:
  assumes e: "engaged X t s"
  shows "leaves (stays t False) (handle_client_payload X E p s)"
proof (cases "frame_parse X p")
  case (Inl err)
  with engaged_facts(2) [OF e] show ?thesis by (auto simp: handle_client_payload_def intro!: quiet_ops_stay)
next
  case (Inr f)
  then have f: "frame_ok X f" by (simp add: frame_parse_ok)
  obtain r k where o: "observe_client_frame f (sv_kernel s) = (r, k)" by fastforce
  note okay = engaged_facts(1) [OF e]
  have shr: "kernel_shrinks (sv_kernel s) k" using observe_shrinks [of "sv_kernel s" f] o by simp
  have "host_kernel X k" using host_observe [OF sup_inv_kernel [OF ok_sup_inv [OF okay]] f] o by simp
  with shr have "ok True X (s\<lparr>sv_kernel := k\<rparr>)"
    by (intro set_kernel_ok [OF okay]) (simp_all add: kernel_shrinks_def)
  moreover have "k_pending k = k_pending (sv_kernel s)" using observe_pending [of f "sv_kernel s"] o by simp
  ultimately have e': "engaged X t (s\<lparr>sv_kernel := k\<rparr>)" using e by (simp add: engaged_def active_token_def)
  note s' = engaged_facts(2) [OF e']
  show ?thesis using Inr o quiet_ops_stay(8) [OF s'] dispatch_client_frame_stays [OF e']
    by (cases r) (simp_all add: handle_client_payload_def)
qed

text \<open>Frames from the workers.\<close>

lemma publish_stays: "stays t l s \<Longrightarrow> stays t l (publish_active_catalog c s)"
  by (cases "sv_active s") (auto simp: publish_active_catalog_def stays_def active_token_def)

lemma catalog_answer_stays:
  assumes "stays t False s" and "has_in_flight (sv_kernel s)"
  shows "leaves (stays t False) (on_candidate_ready X E c s)"
proof -
  have "try_begin_restore X E u = (Inr (), u)" if "u = set_candidate_deadline None (s\<lparr>sv_phase := Draining\<rparr>)" for u
    by (rule restore_waits) (use that assms(2) in \<open>simp add: set_candidate_deadline_def split: option.split\<close>)
  with assms(1) show ?thesis unfolding on_candidate_ready_def
    by (auto intro!: leaves_rules split: sum.split)
qed

lemma internal_answer_stays:
  assumes e: "engaged X t s" and i: "map_of (sv_internal s) i = Some q"
  shows "leaves (stays t False) (handle_internal_response X E q f has_error
    (s\<lparr>sv_internal := AList.delete i (sv_internal s)\<rparr>))"
proof -
  let ?s = "s\<lparr>sv_internal := AList.delete i (sv_internal s)\<rparr>"
  note taken = take_internal [OF engaged_facts(1) [OF e] i]
  have st: "stays t False ?s" using engaged_facts(2) [OF e] by simp
  note stay = reject_candidate_stays [OF st, of X E] worker_loss_stays [OF st, of X E]
  show ?thesis
  proof (cases "ir_action q = ActiveCatalog")
    case True
    with stay st show ?thesis
      by (auto simp: handle_internal_response_def intro!: flush_queue_stays publish_stays split: sum.split)
  next
    case False
    then obtain c where c: "sv_candidate s = Some c" and a: "stage_action (cd_stage c) (ir_action q)"
      using taken(3) by blast
    then have flight: "has_in_flight (sv_kernel s)" using engaged_facts(4) [OF e] by simp
    have roll: "cd_purpose c = Rollover"
      using ok_sup_inv [OF engaged_facts(1) [OF e]] engaged_facts(3) [OF e] c by (auto simp: sup_inv_def workers_ok_def)
    then have k: "live (sv_kernel s)" "cd_stage c \<noteq> CandidateRestoring"
      using ok_parts(2) [OF engaged_facts(1) [OF e]] c e by (auto simp: candidate_ok_def engaged_def)
    have seed: "leaves (stays t False) (catchO (seed_candidate_catalog X E) (\<lambda>_. reject_candidate X E) ?s)"
      by (rule leaves_catch) (rule seeds_stay [OF st], rule reject_candidate_stays)
    have ready: "leaves (stays t False) (on_candidate_ready X E k' (?s\<lparr>sv_calls := n, sv_candidate := d\<rparr>))" for k' n d
      by (rule catalog_answer_stays) (use st flight in auto)
    show ?thesis using False a k c stay seed ready
      by (cases "ir_action q") (auto simp: handle_internal_response_def live_def stage_action_cases split: sum.split)
  qed
qed

lemma answered_stays:
  assumes s: "stays t l s"
  shows "leaves (stays t l) (answered X E completed f has_error s)"
proof -
  have "leaves (stays t l) (record_session_transition X g u)" if "stays t l u" for g u
  proof (cases "record_session_transition X g u")
    case (Pair r v)
    with record_session_transition_journal [OF Pair] that show ?thesis by auto
  qed
  with s show ?thesis unfolding answered_def by (auto intro!: leaves_rules)
qed

lemma other_answer_stays:
  assumes e: "engaged X t s" and f: "fr_envelope f = Response i he" and j: "map_of (k_pending (sv_kernel s)) j \<noteq> None"
    and ne: "j \<noteq> i"
  shows "leaves (stays t False) (forward_response X E token f he' s)"
proof -
  note okay = engaged_facts(1) [OF e]
  obtain r k where comp: "complete_response f (sv_kernel s) = (r, k)" by fastforce
  have shr: "kernel_shrinks (sv_kernel s) k" using complete_shrinks [of "sv_kernel s" f] comp by simp
  have "host_kernel X k"
    using host_complete [OF sup_inv_kernel [OF ok_sup_inv [OF okay]], of f] comp by simp
  with shr have ok': "ok True X (s\<lparr>sv_kernel := k\<rparr>)"
    by (intro set_kernel_ok [OF okay]) (simp_all add: kernel_shrinks_def)
  have "map_of (k_pending k) j = map_of (k_pending (sv_kernel s)) j"
    using comp f ne by (auto simp: complete_response_def Let_def remove_queued_request_def delete_conv'
        split: option.splits sum.splits if_splits)
  then have e': "engaged X t (s\<lparr>sv_kernel := k\<rparr>)"
    using ok' e j by (auto simp: engaged_def active_token_def)
  note s' = engaged_facts(2) [OF e']
  show ?thesis
  proof (cases r)
    case (Inl err)
    with comp worker_loss_stays [OF s'] show ?thesis by (simp add: forward_response_def)
  next
    case (Inr completed)
    have A: "leaves (alike X (s\<lparr>sv_kernel := k\<rparr>)) (answered X E completed f he' (s\<lparr>sv_kernel := k\<rparr>))"
      by (rule answered_alike [OF ok'])
    have "leaves (stays t False) (bindO (answered X E completed f he') (\<lambda>_. try_begin_restore X E) (s\<lparr>sv_kernel := k\<rparr>))"
    proof (rule leaves_bind)
      show "leaves (stays t False) (answered X E completed f he' (s\<lparr>sv_kernel := k\<rparr>))"
        by (rule answered_stays [OF s'])
    next
      fix a u assume "answered X E completed f he' (s\<lparr>sv_kernel := k\<rparr>) = (Inr a, u)" and u: "stays t False u"
      with A have "sv_kernel u = k" "sv_phase u = sv_phase s" by (simp_all add: alike_def)
      with engaged_facts(5) [OF e'] have "try_begin_restore X E u = (Inr (), u)"
        by (cases "sv_phase s = PhaseNone") (auto simp: try_begin_restore_def)
      with u show "leaves (stays t False) (try_begin_restore X E u)" by simp
    qed
    with comp Inr show ?thesis by (simp add: forward_response_answered)
  qed
qed

text \<open>The incumbent's answer to the one request that may still be in flight.\<close>

definition last_answer :: "'n extern \<Rightarrow> u64 \<Rightarrow> 'n request_id \<Rightarrow> sup_event \<Rightarrow> bool" where
  "last_answer X t j ev \<longleftrightarrow> (\<exists>p f he. ev = WorkerFrame t p \<and> frame_parse X p = Inr f \<and> fr_envelope f = Response j he)"

lemma forward_callback_stays:
  assumes "stays t l s"
  shows "leaves (stays t l) (forward_callback X E token i f s)"
proof -
  have "leaves (stays t l) (next_callback_id u)" if "stays t l u" for u
    using that by (auto simp: next_callback_id_def split: option.split)
  with assms show ?thesis unfolding forward_callback_def
    by (auto intro!: leaves_bind quiet_ops_stay split: sum.split)
qed

lemma handle_worker_payload_stays:
  assumes e: "engaged X t s" and j: "map_of (k_pending (sv_kernel s)) j \<noteq> None"
    and other: "\<not> last_answer X t j (WorkerFrame token p)"
  shows "leaves (stays t False) (handle_worker_payload X E token p s)"
proof (cases "frame_parse X p")
  case (Inl err)
  note s = engaged_facts(2) [OF e]
  show ?thesis using Inl reject_candidate_stays [OF s] worker_loss_stays [OF s]
    by (simp add: handle_worker_payload_def)
next
  case (Inr f)
  note s = engaged_facts(2) [OF e]
  note stay = reject_candidate_stays [OF s] forward_callback_stays [OF s] quiet_ops_stay(1) [OF s]
  show ?thesis
  proof (cases "fr_envelope f")
    case (Response i he)
    have "leaves (stays t False) (forward_response X E token f he s)" if "active_token s = Some token"
    proof -
      have "token = t" using that e by (simp add: engaged_def)
      with other Inr Response have "j \<noteq> i" by (auto simp: last_answer_def)
      then show ?thesis by (rule other_answer_stays [OF e Response j])
    qed
    with Inr Response s internal_answer_stays [OF e] show ?thesis
      by (auto simp: handle_worker_payload_def Let_def split: option.split)
  qed (use Inr stay s in \<open>simp_all add: handle_worker_payload_def\<close>)
qed

lemma handle_event_stays:
  assumes e: "engaged X t s" and j: "map_of (k_pending (sv_kernel s)) j \<noteq> None"
    and other: "\<not> last_answer X t j ev"
  shows "leaves (stays t False) (handle_event X E ev s)"
proof -
  have "sv_active (shutdown s) = None"
    by (auto simp: shutdown_def drop_candidate_def kill_def record_effect_def split: option.split)
  then have "stays t False (shutdown s)" by (simp add: stays_def)
  then show ?thesis
    using handle_client_payload_stays [OF e] handle_worker_payload_stays [OF e j] other
      handle_worker_loss_stays [OF engaged_facts(2) [OF e]] on_tick_stays [OF e]
    by (cases ev) (auto simp: handle_event_def intro!: leaves_bind)
qed

lemma busy_incumbent_stays:
  assumes run: "start X E c evs (new_supervisor c) = (Inr True, s)" and ev: "handle_event X E ev s = (r, s')"
    and w: "sv_active s = Some w" and w': "sv_active s' = Some w'" and ne: "wh_token w' \<noteq> wh_token w"
    and j: "map_of (k_pending (sv_kernel s)) j \<noteq> None"
  shows "last_answer X (wh_token w) j ev"
proof (rule ccontr)
  assume other: "\<not> last_answer X (wh_token w) j ev"
  have "engaged X (wh_token w) s" using start_ok [OF run] w j by (auto simp: engaged_def active_token_def)
  from handle_event_stays [OF this j other, of E] ev have "stays (wh_token w) False s'" by simp
  with w' ne show False by (simp add: stays_def active_token_def)
qed

section \<open>A rollover, run\<close>

text \<open>
  A host whose first worker is of another generation than the one its release channel now
  names: the candidate starts at the tick while a request is in flight, and takes over at the
  incumbent's answer to it.
\<close>

definition rollover_config :: config where
  "rollover_config = sample_config\<lparr>cf_initial := (sample_release StatelessState)\<lparr>mf_generation := ReleaseId []\<rparr>\<rparr>"

definition rollover_session :: "sup_event list" where
  "rollover_session = [ClientPayload [0], WorkerFrame 1 [4], ClientPayload [1], WorkerFrame 1 [10],
     ClientPayload [3], Tick, WorkerFrame 2 [11], WorkerFrame 2 [12]]"

lemma rollover_verify:
  "verify_release (sample_depot state) ((sample_release state)\<lparr>mf_generation := g\<rparr>) = Inr ()"
  using sample_verify [of state] by (simp add: verify_release_def)

lemma rollover_parse:
  "frame_parse host_extern [3] = Inr (host_frame [3])"
  "fr_envelope (host_frame [3]) = Request (IdNumber 2) (RpcMethod ''tools/call'')" "fr_payload (host_frame [3]) = [3]"
  "parse_tool_call_meta host_extern (host_frame [3]) (RpcMethod ''tools/call'') = None"
  "parse_tool_call_meta host_extern (host_frame [3]) tools_call = None"
  by code_simp+

lemma rollover_releases:
  "mf_generation (sample_release state) = ReleaseId sample_digits" "mf_state (sample_release state) = state"
  "sample_digits \<noteq> []"
  by (simp_all add: sample_release_def sample_digits_def)

lemmas rollover_defs = rollover_config_def rollover_session_def rollover_verify rollover_parse rollover_releases
  sample_load accepts_def observe_channel_def prepare_rollover_def launch_candidate_def continue_restore_def
  activate_candidate_def install_candidate_def reject_generation_def ask_def bindO_def catchO_def

lemma rollover_run:
  "start host_extern calm_env rollover_config rollover_session (new_supervisor rollover_config) = (r, s) \<Longrightarrow>
     r = Inr True \<and> active_token s = Some 1 \<and> map_of (k_pending (sv_kernel s)) (IdNumber 2) \<noteq> None \<and>
     active_token (snd (handle_event host_extern calm_env (WorkerFrame 1 [14]) s)) = Some 2"
  by (simp add: rollover_defs run_defs reply_defs recovery_defs del: bindO_simps catchO_simps bindO_pure)
    (clarsimp simp: rollover_defs run_defs reply_defs recovery_defs simp del: bindO_simps catchO_simps bindO_pure)

section \<open>A rollover waits for the incumbent\<close>

text \<open>
  C6. While a request of the client is in flight with the worker in service, no event of the
  host replaces that worker by another: whatever the client sends, whatever either worker
  answers or asks, whichever worker is lost and however late the tick, the next state has the
  same worker in service or none. The one exception is the event that ends the wait, a frame
  of the incumbent that answers that very request; so nothing else may then be in flight.
\<close>

theorem rollover_waits_for_incumbent:
  assumes "start X E c evs (new_supervisor c) = (Inr True, s)" and "handle_event X E ev s = (r, s')"
    and "sv_active s = Some w" and "sv_active s' = Some w'" and "wh_token w' \<noteq> wh_token w"
    and "map_of (k_pending (sv_kernel s)) i = Some q"
  shows "\<exists>p f he. ev = WorkerFrame (wh_token w) p \<and> frame_parse X p = Inr f \<and> fr_envelope f = Response i he"
  using busy_incumbent_stays [OF assms(1-5), of i] assms(6) by (simp add: last_answer_def)

theorem rollover_waits_for_incumbent_witness:
  "\<exists>s r s' w w'. start host_extern calm_env rollover_config rollover_session (new_supervisor rollover_config) = (Inr True, s) \<and>
     handle_event host_extern calm_env (WorkerFrame 1 [14]) s = (r, s') \<and>
     sv_active s = Some w \<and> sv_active s' = Some w' \<and> wh_token w' \<noteq> wh_token w \<and>
     (\<exists>p f he. WorkerFrame 1 [14] = WorkerFrame (wh_token w) p \<and> frame_parse host_extern p = Inr f \<and>
        fr_envelope f = Response (IdNumber 2) he)"
proof -
  obtain r s where run: "start host_extern calm_env rollover_config rollover_session
      (new_supervisor rollover_config) = (r, s)" by fastforce
  obtain r' s' where ev: "handle_event host_extern calm_env (WorkerFrame 1 [14]) s = (r', s')" by fastforce
  note o = rollover_run [OF run]
  obtain w w' q where w: "sv_active s = Some w" "wh_token w = 1" "sv_active s' = Some w'" "wh_token w' = 2"
      "map_of (k_pending (sv_kernel s)) (IdNumber 2) = Some q"
    using o ev by (auto simp: active_token_def)
  have "wh_token w' \<noteq> wh_token w" using w by simp
  with rollover_waits_for_incumbent [OF run [unfolded conjunct1 [OF o]] ev w(1,3) this w(5)] run o ev w show ?thesis by blast
qed

section \<open>The candidate of a reachable host\<close>

text \<open>
  C11. Between events the candidate and the session agree, whatever has happened. There is a
  rollover candidate only beside a worker in service and a recovery candidate only without
  one; a rollover candidate means a live session in which nothing waits to be replayed; the
  journal is replayed into a candidate only in the phase \<open>Draining\<close>, and for a rollover only
  with no request of the client unanswered. The host has at most one request open with the
  candidate, put to that worker at the stage it belongs to, and catalogs are asked for, and
  published, only in a live session.
\<close>

theorem candidate_stages_consistent:
  assumes "start X E c evs (new_supervisor c) = (Inr True, s)"
  shows "(\<forall>x. sv_candidate s = Some x \<longrightarrow>
       (cd_purpose x = Rollover \<longleftrightarrow> sv_active s \<noteq> None) \<and>
       (cd_purpose x = Rollover \<longrightarrow> k_phase (sv_kernel s) = Live \<and> scheduled_ids (k_pending (sv_kernel s)) = {}) \<and>
       (cd_stage x = CandidateRestoring \<longrightarrow> sv_phase s = Draining \<and>
          (cd_purpose x = Rollover \<longrightarrow> k_pending (sv_kernel s) = []))) \<and>
     length (filter (\<lambda>(i, q). ir_action q \<noteq> ActiveCatalog) (sv_internal s)) \<le> 1 \<and>
     (\<forall>(i, q)\<in>set (sv_internal s). ir_action q \<noteq> ActiveCatalog \<longrightarrow>
        (\<exists>x. sv_candidate s = Some x \<and> ir_worker q = wh_token (cd_worker x) \<and> stage_action (cd_stage x) (ir_action q))) \<and>
     (\<forall>(i, q)\<in>set (sv_internal s). needs_live (ir_action q) \<longrightarrow> k_phase (sv_kernel s) = Live) \<and>
     (sv_published s \<noteq> None \<longrightarrow> k_phase (sv_kernel s) = Live)"
proof -
  have okay: "ok True X s" by (rule start_ok [OF assms])
  have e: "entries_ok (sv_candidate s) (sv_internal s)" by (rule ok_parts(1) [OF okay])
  have one: "length (filter (\<lambda>(i, q). ir_action q \<noteq> ActiveCatalog) (sv_internal s)) \<le> 1"
    using e by (simp add: entries_ok_def candidate_entries_def case_prod_unfold)
  have stage: "\<exists>x. sv_candidate s = Some x \<and> ir_worker q = wh_token (cd_worker x) \<and> stage_action (cd_stage x) (ir_action q)"
    if "(i, q) \<in> set (sv_internal s)" "ir_action q \<noteq> ActiveCatalog" for i q
  proof -
    have "(i, q) \<in> set (candidate_entries (sv_internal s))" using that by (simp add: candidate_entries_def)
    with e show ?thesis by (fastforce simp: entries_ok_def split: option.splits)
  qed
  have workers: "cd_purpose x = Rollover \<longleftrightarrow> sv_active s \<noteq> None" if "sv_candidate s = Some x" for x
    using ok_sup_inv [OF okay] that by (auto simp: sup_inv_def workers_ok_def)
  have candidate: "(cd_purpose x = Rollover \<longrightarrow> k_phase (sv_kernel s) = Live \<and> scheduled_ids (k_pending (sv_kernel s)) = {}) \<and>
      (cd_stage x = CandidateRestoring \<longrightarrow> sv_phase s = Draining \<and>
        (cd_purpose x = Rollover \<longrightarrow> k_pending (sv_kernel s) = []))" if "sv_candidate s = Some x" for x
    using ok_parts(2) [OF okay] that by (simp add: candidate_ok_def live_def unscheduled_def)
  have catalogs: "\<forall>(i, q)\<in>set (sv_internal s). needs_live (ir_action q) \<longrightarrow> k_phase (sv_kernel s) = Live"
    "sv_published s \<noteq> None \<longrightarrow> k_phase (sv_kernel s) = Live"
    using okay by (fastforce simp: ok_def stages_ok_def live_def)+
  show ?thesis using one stage workers candidate catalogs by (intro conjI allI impI) blast+
qed

theorem candidate_stages_consistent_witness:
  "\<exists>s. start host_extern calm_env rollover_config rollover_session (new_supervisor rollover_config) = (Inr True, s) \<and>
     length (filter (\<lambda>(i, q). ir_action q \<noteq> ActiveCatalog) (sv_internal s)) \<le> 1"
proof -
  obtain r s where run: "start host_extern calm_env rollover_config rollover_session
      (new_supervisor rollover_config) = (r, s)" by fastforce
  have ok: "r = Inr True" using rollover_run [OF run] by blast
  have "length (filter (\<lambda>(i, q). ir_action q \<noteq> ActiveCatalog) (sv_internal s)) \<le> 1"
    using candidate_stages_consistent [OF run [unfolded ok]] by blast
  with run ok show ?thesis by blast
qed

end
