(* ===== verification/WorkerIo.thy ===== *)
theory WorkerIo
  imports Handlers
begin

text \<open>
  The I/O tasks of the supervisor (\<open>supervisor.rs\<close>): the reader of the client's stream, and
  the task of one worker process, which reads its frames, writes its commands, and kills its
  process tree and reports its end when either stream fails or the host retires it.

  A worker's task is driven by wake-ups. One wake-up is what the task finds when it is polled:
  whether it has been retired, whether the host still listens, how many \<open>fill_buf\<close> calls
  complete, how many events the channel takes, and how many commands arrive and are written
  before the next has to wait. The loop is polled in the order of the biased \<open>select!\<close>; a
  read that has to wait keeps the bytes it has, since its future is kept across wake-ups.
  Bytes of a command count as written when \<open>write_frame\<close> completes.
\<close>

section \<open>The owner of a process tree\<close>

datatype signal = GroupKilled nat | ChildKilled | ChildReaped

record tree_owner =
  to_leader :: nat
  to_armed :: bool

definition tree_owner_new :: "nat option \<Rightarrow> sup_error + tree_owner" where
  "tree_owner_new child_id =
     (case child_id of
        None \<Rightarrow> Inl (SupContract ''spawned worker has no valid process ID'')
      | Some i \<Rightarrow>
          if i \<ge> 2 ^ 31 \<or> i = 0 then Inl (SupContract ''spawned worker has no valid process ID'')
          else Inr \<lparr>to_leader = i, to_armed = True\<rparr>)"

definition tree_owner_kill :: "tree_owner \<Rightarrow> tree_owner \<times> signal list" where
  "tree_owner_kill w =
     (if \<not> to_armed w then (w, []) else (w\<lparr>to_armed := False\<rparr>, [GroupKilled (to_leader w)]))"

definition tree_owner_drop :: "tree_owner \<Rightarrow> signal list" where
  "tree_owner_drop w = snd (tree_owner_kill w)"

section \<open>The reader of the client\<close>

lemma consume_size: "source_size (consume n src) \<le> source_size src"
  by (auto simp: consume_def source_size_def split: list.split sum.split)

lemma read_frame_loop_size:
  "read_frame_loop limit line src = (Inr (Frame p), src') \<Longrightarrow>
     source_size src' \<le> source_size src \<and> (line = [] \<longrightarrow> source_size src' < source_size src)"
proof (induction limit line src rule: read_frame_loop.induct)
  case (3 limit line b rest)
  show ?case
  proof (cases "b = [] \<or> usize_checked_add (length line) (case position b of None \<Rightarrow> length b | Some i \<Rightarrow> i) = None")
    case True
    with 3(3) show ?thesis by (auto simp: Let_def end_of_input_def split: if_splits)
  next
    case False
    let ?n = "case position b of None \<Rightarrow> length b | Some i \<Rightarrow> i + 1"
    have "0 < ?n" using False by (cases "position b") auto
    then have "source_size (consume ?n (Inr b # rest)) < source_size (Inr b # rest)"
      using False by (intro consume_smaller) auto
    with 3 False show ?thesis by (fastforce simp: Let_def split: if_splits option.splits)
  qed
qed (auto simp: end_of_input_def split: if_splits)

text \<open>\<open>listening n\<close> is whether the host takes the \<open>n\<close>-th event.\<close>

function client_reader :: "nat \<Rightarrow> (nat \<Rightarrow> bool) \<Rightarrow> nat \<Rightarrow> source \<Rightarrow> sup_event list" where
  "client_reader limit listening n src =
     (case read_frame limit src of
        (Inr (Frame payload), src') \<Rightarrow>
          if listening n then ClientPayload payload # client_reader limit listening (Suc n) src' else []
      | (Inr EndOfStream, _) \<Rightarrow> if listening n then [ClientEnd] else []
      | (Inl e, _) \<Rightarrow> if listening n then [ClientFault e] else [])"
  by pat_completeness auto
termination
  by (relation "measure (\<lambda>(limit, listening, n, src). source_size src)")
    (auto simp: read_frame_def dest!: read_frame_loop_size [OF sym])

declare client_reader.simps [simp del]

section \<open>The task of a worker\<close>

text \<open>One iteration of the loop of \<open>read_frame\<close>: on the left the line it goes on with.\<close>

definition read_step ::
    "nat \<Rightarrow> byte list \<Rightarrow> source \<Rightarrow> (byte list + (io_error + frame_outcome)) \<times> source" where
  "read_step limit line src =
     (case src of
        [] \<Rightarrow> (Inr (Inr (end_of_input line)), [])
      | Inl e # rest \<Rightarrow> (Inr (Inl e), rest)
      | Inr buffer # rest \<Rightarrow>
          if buffer = [] then (Inr (Inr (end_of_input line)), src)
          else
            let delimiter = position buffer;
                payload_bytes = (case delimiter of None \<Rightarrow> length buffer | Some i \<Rightarrow> i)
            in (case usize_checked_add (length line) payload_bytes of
                  None \<Rightarrow> (Inr (Inl frame_limit_error), src)
                | Some next_len \<Rightarrow>
                    if next_len > limit then (Inr (Inl frame_limit_error), src)
                    else
                      let line' = line @ take payload_bytes buffer;
                          consumed = (case delimiter of None \<Rightarrow> payload_bytes | Some i \<Rightarrow> i + 1);
                          src' = consume consumed src
                      in if delimiter = None then (Inl line', src')
                         else if strip_cr line' = [] then (Inl [], src')
                         else (Inr (Inr (Frame (strip_cr line'))), src')))"

lemma read_frame_loop_step:
  "read_frame_loop limit line src =
     (case read_step limit line src of
        (Inl line', src') \<Rightarrow> read_frame_loop limit line' src'
      | (Inr r, src') \<Rightarrow> (r, src'))"
proof (cases src)
  case (Cons c rest)
  then show ?thesis by (cases c) (auto simp: read_step_def Let_def split: option.split)
qed (simp add: read_step_def)

datatype reader_state = Reading "byte list" | Delivering "byte list"

text \<open>
  The streams are what is still to come: \<open>wt_output\<close> what the worker will have written to its
  output, \<open>wt_commands\<close> what the host will have put in the mailbox. \<open>wt_input\<close>, \<open>wt_events\<close>
  and \<open>wt_signals\<close> are what the task has done so far.
\<close>

record worker_task =
  wt_token :: u64
  wt_limit :: nat
  wt_reader :: reader_state
  wt_output :: source
  wt_commands :: "byte list list"
  wt_writing :: "byte list option"
  wt_input :: "byte list"
  wt_owner :: tree_owner
  wt_signals :: "signal list"
  wt_events :: "sup_event list"
  wt_ended :: "string option"

record wake =
  wk_retired :: bool
  wk_listening :: bool
  wk_reads :: nat
  wk_slots :: nat
  wk_closed :: bool
  wk_arrivals :: nat
  wk_writes :: "io_error option list"
  wk_hears_end :: bool

function reader_poll ::
    "(io_error \<Rightarrow> string) \<Rightarrow> bool \<Rightarrow> nat \<Rightarrow> nat \<Rightarrow> worker_task \<Rightarrow> string option \<times> worker_task" where
  "reader_poll text_of listening reads slots t =
     (case wt_reader t of
        Reading line \<Rightarrow>
          (case reads of
             0 \<Rightarrow> (None, t)
           | Suc r \<Rightarrow>
               (case read_step (wt_limit t) line (wt_output t) of
                  (Inl line', src) \<Rightarrow>
                    reader_poll text_of listening r slots (t\<lparr>wt_reader := Reading line', wt_output := src\<rparr>)
                | (Inr (Inr (Frame payload)), src) \<Rightarrow>
                    reader_poll text_of listening r slots (t\<lparr>wt_reader := Delivering payload, wt_output := src\<rparr>)
                | (Inr (Inr EndOfStream), src) \<Rightarrow> (Some ''worker stdout closed'', t\<lparr>wt_output := src\<rparr>)
                | (Inr (Inl e), src) \<Rightarrow> (Some (''worker output failed: '' @ text_of e), t\<lparr>wt_output := src\<rparr>)))
      | Delivering payload \<Rightarrow>
          if \<not> listening then (Some ''host event receiver closed'', t)
          else (case slots of
             0 \<Rightarrow> (None, t)
           | Suc n \<Rightarrow>
               reader_poll text_of listening reads n (t\<lparr>wt_reader := Reading [],
                 wt_events := wt_events t @ [WorkerFrame (wt_token t) payload]\<rparr>)))"
  by pat_completeness auto
termination
  by (relation "measure (\<lambda>(text_of, listening, reads, slots, t). reads + slots)") auto

declare reader_poll.simps [simp del]

function writer_poll ::
    "(io_error \<Rightarrow> string) \<Rightarrow> bool \<Rightarrow> nat \<Rightarrow> io_error option list \<Rightarrow> worker_task \<Rightarrow>
       string option \<times> worker_task" where
  "writer_poll text_of closed arrivals writes t =
     (case wt_writing t of
        None \<Rightarrow>
          (case wt_commands t of
             [] \<Rightarrow> (if closed then Some ''host command channel closed'' else None, t)
           | c # cs \<Rightarrow>
               (case arrivals of
                  0 \<Rightarrow> (None, t)
                | Suc n \<Rightarrow>
                    writer_poll text_of closed n writes (t\<lparr>wt_commands := cs, wt_writing := Some c\<rparr>)))
      | Some payload \<Rightarrow>
          (case validate_frame_payload payload (wt_limit t) of
             Inl e \<Rightarrow> (Some (''worker input failed: '' @ text_of e), t)
           | Inr _ \<Rightarrow>
               (case writes of
                  [] \<Rightarrow> (None, t)
                | io # rest \<Rightarrow>
                    (case write_frame io payload (wt_limit t) (wt_input t) of
                       (Inl e, input) \<Rightarrow>
                         (Some (''worker input failed: '' @ text_of e), t\<lparr>wt_input := input\<rparr>)
                     | (Inr _, input) \<Rightarrow>
                         writer_poll text_of closed arrivals rest
                           (t\<lparr>wt_input := input, wt_writing := None\<rparr>)))))"
  by pat_completeness auto
termination
  by (relation "measure (\<lambda>(text_of, closed, arrivals, writes, t). arrivals + length writes)") auto

declare writer_poll.simps [simp del]

definition select_poll :: "(io_error \<Rightarrow> string) \<Rightarrow> wake \<Rightarrow> worker_task \<Rightarrow> string option \<times> worker_task" where
  "select_poll text_of w t =
     (if wk_retired w then (Some ''worker reaped by host'', t)
      else case reader_poll text_of (wk_listening w) (wk_reads w) (wk_slots w) t of
          (Some detail, t1) \<Rightarrow> (Some detail, t1)
        | (None, t1) \<Rightarrow> writer_poll text_of (wk_closed w) (wk_arrivals w) (wk_writes w) t1)"

definition kill_worker_tree :: "worker_task \<Rightarrow> worker_task" where
  "kill_worker_tree t =
     (case tree_owner_kill (wt_owner t) of
        (owner, signals) \<Rightarrow>
          t\<lparr>wt_owner := owner, wt_signals := wt_signals t @ signals @ [ChildKilled, ChildReaped]\<rparr>)"

definition report_gone :: "bool \<Rightarrow> string \<Rightarrow> worker_task \<Rightarrow> worker_task" where
  "report_gone heard detail t =
     t\<lparr>wt_events := wt_events t @ (if heard then [WorkerGone (wt_token t)] else []),
       wt_ended := Some detail\<rparr>"

definition worker_io_wake :: "(io_error \<Rightarrow> string) \<Rightarrow> wake \<Rightarrow> worker_task \<Rightarrow> worker_task" where
  "worker_io_wake text_of w t =
     (case select_poll text_of w t of
        (None, t1) \<Rightarrow> t1
      | (Some detail, t1) \<Rightarrow> report_gone (wk_hears_end w) detail (kill_worker_tree t1))"

fun worker_io_loop :: "(io_error \<Rightarrow> string) \<Rightarrow> wake list \<Rightarrow> worker_task \<Rightarrow> worker_task" where
  "worker_io_loop text_of [] t = t"
| "worker_io_loop text_of (w # ws) t =
     (if wt_ended t \<noteq> None then t else worker_io_loop text_of ws (worker_io_wake text_of w t))"

record worker_child =
  ch_id :: "nat option"
  ch_stdin :: bool
  ch_stdout :: "source option"

definition spawn_worker_io ::
    "u64 \<Rightarrow> worker_child \<Rightarrow> tree_owner \<Rightarrow> byte list list \<Rightarrow> nat \<Rightarrow> (sup_error + worker_task) \<times> signal list" where
  "spawn_worker_io token child owner commands limit =
     (if \<not> ch_stdin child
      then (Inl (SupContract ''worker stdin was not piped''), tree_owner_drop owner)
      else case ch_stdout child of
          None \<Rightarrow> (Inl (SupContract ''worker stdout was not piped''), tree_owner_drop owner)
        | Some output \<Rightarrow>
            (Inr \<lparr>wt_token = token, wt_limit = limit, wt_reader = Reading [], wt_output = output,
                  wt_commands = commands, wt_writing = None, wt_input = [], wt_owner = owner,
                  wt_signals = [], wt_events = [], wt_ended = None\<rparr>, []))"

text \<open>The runtime drops a task that has not ended when the host's \<open>main\<close> returns.\<close>

definition drop_task :: "worker_task \<Rightarrow> worker_task" where
  "drop_task t = t\<lparr>wt_signals := wt_signals t @ tree_owner_drop (wt_owner t)\<rparr>"

section \<open>What a task does of its streams\<close>

text \<open>The frames of a stream, read one after the other up to its end or its first fault.\<close>

function worker_frames :: "nat \<Rightarrow> source \<Rightarrow> byte list list" where
  "worker_frames limit src =
     (case read_frame limit src of
        (Inr (Frame payload), src') \<Rightarrow> payload # worker_frames limit src'
      | _ \<Rightarrow> [])"
  by pat_completeness auto
termination
  by (relation "measure (\<lambda>(limit, src). source_size src)") (auto simp: read_frame_def dest!: read_frame_loop_size [OF sym])

declare worker_frames.simps [simp del]

definition frames_after :: "nat \<Rightarrow> (io_error + frame_outcome) \<times> source \<Rightarrow> byte list list" where
  "frames_after limit r = (case r of (Inr (Frame payload), src) \<Rightarrow> payload # worker_frames limit src | _ \<Rightarrow> [])"

lemma worker_frames_after: "worker_frames limit src = frames_after limit (read_frame_loop limit [] src)"
  by (subst worker_frames.simps) (simp add: frames_after_def read_frame_def)

definition ahead :: "worker_task \<Rightarrow> byte list list" where
  "ahead t = (case wt_reader t of
     Reading line \<Rightarrow> frames_after (wt_limit t) (read_frame_loop (wt_limit t) line (wt_output t))
   | Delivering payload \<Rightarrow> payload # worker_frames (wt_limit t) (wt_output t))"

lemma ahead_updates [simp]:
  "ahead (t\<lparr>wt_commands := cs\<rparr>) = ahead t" "ahead (t\<lparr>wt_writing := p\<rparr>) = ahead t"
  "ahead (t\<lparr>wt_input := bs\<rparr>) = ahead t"
  by (simp_all add: ahead_def split: reader_state.split)

definition backlog :: "worker_task \<Rightarrow> byte list list" where
  "backlog t = (case wt_writing t of None \<Rightarrow> [] | Some p \<Rightarrow> [p]) @ wt_commands t"

text \<open>
  From \<open>t0\<close> to \<open>t\<close> the task has reported frames that were ahead, in order, and written commands
  of its backlog, in order; \<open>G\<close> is what is known of the frames it has not reported.
\<close>

definition course :: "worker_task \<Rightarrow> (byte list list \<Rightarrow> bool) \<Rightarrow> worker_task \<Rightarrow> bool" where
  "course t0 G t \<longleftrightarrow> wt_token t = wt_token t0 \<and> wt_limit t = wt_limit t0 \<and> wt_ended t = wt_ended t0 \<and>
     wt_signals t = wt_signals t0 \<and> wt_owner t = wt_owner t0 \<and>
     (\<exists>ps rest. wt_events t = wt_events t0 @ map (WorkerFrame (wt_token t0)) ps \<and> ahead t0 = ps @ rest \<and> G rest) \<and>
     (\<exists>written. backlog t0 = written @ backlog t \<and>
        wt_input t = wt_input t0 @ concat (map (\<lambda>p. p @ [newline]) written))"

definition fate :: "string option \<Rightarrow> worker_task \<Rightarrow> byte list list \<Rightarrow> bool" where
  "fate r t rest \<longleftrightarrow> (case r of None \<Rightarrow> rest = ahead t | Some d \<Rightarrow> d = ''worker stdout closed'' \<longrightarrow> rest = [])"

lemma fate_simps [simp]:
  "fate None t rest \<longleftrightarrow> rest = ahead t" "fate (Some d) t rest \<longleftrightarrow> (d = ''worker stdout closed'' \<longrightarrow> rest = [])"
  by (simp_all add: fate_def)

lemma course_refl: "course t (fate None t) t"
  by (auto simp: course_def)

lemma course_trans:
  assumes "course t0 (fate None t1) t1" and "course t1 G t2"
  shows "course t0 G t2"
proof -
  obtain ps where p: "wt_events t1 = wt_events t0 @ map (WorkerFrame (wt_token t0)) ps" "ahead t0 = ps @ ahead t1"
    using assms(1) by (auto simp: course_def)
  obtain qs rest where q: "wt_events t2 = wt_events t1 @ map (WorkerFrame (wt_token t1)) qs" "ahead t1 = qs @ rest" "G rest"
    using assms(2) by (auto simp: course_def)
  have reported: "\<exists>ps rest. wt_events t2 = wt_events t0 @ map (WorkerFrame (wt_token t0)) ps \<and>
      ahead t0 = ps @ rest \<and> G rest"
    by (rule exI [of _ "ps @ qs"], rule exI [of _ rest]) (use p q assms(1) in \<open>simp add: course_def\<close>)
  obtain us vs where "backlog t0 = us @ backlog t1" "backlog t1 = vs @ backlog t2"
    "wt_input t1 = wt_input t0 @ concat (map (\<lambda>p. p @ [newline]) us)"
    "wt_input t2 = wt_input t1 @ concat (map (\<lambda>p. p @ [newline]) vs)"
    using assms by (auto simp: course_def)
  then have "\<exists>written. backlog t0 = written @ backlog t2 \<and>
      wt_input t2 = wt_input t0 @ concat (map (\<lambda>p. p @ [newline]) written)"
    by (intro exI [of _ "us @ vs"]) simp
  with reported assms show ?thesis by (simp add: course_def)
qed

text \<open>One turn of the reader: it goes on from a state it has reached, or it stops there.\<close>

definition reader_turn ::
    "(io_error \<Rightarrow> string) \<Rightarrow> bool \<Rightarrow> nat \<Rightarrow> nat \<Rightarrow> worker_task \<Rightarrow> bool" where
  "reader_turn text_of listening reads slots t \<longleftrightarrow>
     (\<exists>r n t1. r + n < reads + slots \<and> course t (fate None t1) t1 \<and>
        reader_poll text_of listening reads slots t = reader_poll text_of listening r n t1) \<or>
     (\<exists>r t1. course t (fate r t1) t1 \<and> reader_poll text_of listening reads slots t = (r, t1))"

lemma turn_on:
  "r + n < reads + slots \<Longrightarrow> course t (fate None t1) t1 \<Longrightarrow>
     reader_poll text_of listening reads slots t = reader_poll text_of listening r n t1 \<Longrightarrow>
     reader_turn text_of listening reads slots t"
  unfolding reader_turn_def by blast

lemma turn_stop:
  "course t (fate r t1) t1 \<Longrightarrow> reader_poll text_of listening reads slots t = (r, t1) \<Longrightarrow>
     reader_turn text_of listening reads slots t"
  unfolding reader_turn_def by blast

lemma delivering_turn:
  assumes d: "wt_reader t = Delivering p"
  shows "reader_turn text_of listening reads slots t"
proof -
  let ?t = "t\<lparr>wt_reader := Reading [], wt_events := wt_events t @ [WorkerFrame (wt_token t) p]\<rparr>"
  have step: "course t (fate None ?t) ?t"
    using d by (auto simp: course_def ahead_def backlog_def worker_frames_after)
  consider (shut) "\<not> listening" | (full) "listening" "slots = 0" | (free) n where "listening" "slots = Suc n"
    by (cases slots) auto
  then show ?thesis
  proof cases
    case shut
    have "course t (fate (Some ''host event receiver closed'') t) t" by (simp add: course_def)
    then show ?thesis by (rule turn_stop) (use d shut in \<open>subst reader_poll.simps, simp\<close>)
  next
    case full
    show ?thesis by (rule turn_stop [OF course_refl]) (use d full in \<open>subst reader_poll.simps, simp\<close>)
  next
    case free
    show ?thesis by (rule turn_on [OF _ step, of reads n]) (use d free in \<open>simp, subst reader_poll.simps, simp\<close>)
  qed
qed

lemma reading_turn:
  assumes line: "wt_reader t = Reading line"
  shows "reader_turn text_of listening reads slots t"
proof (cases reads)
  case 0
  show ?thesis by (rule turn_stop [OF course_refl]) (use line 0 in \<open>subst reader_poll.simps, simp\<close>)
next
  case (Suc k)
  obtain x src where x: "read_step (wt_limit t) line (wt_output t) = (x, src)" by fastforce
  note after = read_frame_loop_step [of "wt_limit t" line "wt_output t", unfolded x]
  let ?go = "\<lambda>st. t\<lparr>wt_reader := st, wt_output := src\<rparr>"
  have go: "course t (fate None (?go st)) (?go st)" if "ahead (?go st) = ahead t" for st
    using that by (simp add: course_def backlog_def)
  consider (on) l where "x = Inl l" | (frame) p where "x = Inr (Inr (Frame p))"
    | (stop) "x = Inr (Inr EndOfStream) \<or> (\<exists>e. x = Inr (Inl e))"
    by (cases x; cases "projr x"; cases "projr (projr x)") auto
  then show ?thesis
  proof cases
    case on
    have "ahead (?go (Reading l)) = ahead t" using after on line by (simp add: ahead_def)
    from go [OF this] show ?thesis
      by (rule turn_on [of k slots, rotated]) (use line Suc x on in \<open>subst reader_poll.simps, simp, simp\<close>)
  next
    case frame
    have "ahead (?go (Delivering p)) = ahead t" using after frame line by (simp add: ahead_def frames_after_def)
    from go [OF this] show ?thesis
      by (rule turn_on [of k slots, rotated]) (use line Suc x frame in \<open>subst reader_poll.simps, simp, simp\<close>)
  next
    case stop
    then have "ahead t = []" using after line by (auto simp: ahead_def frames_after_def)
    then have "course t (fate (Some d) (t\<lparr>wt_output := src\<rparr>)) (t\<lparr>wt_output := src\<rparr>)" for d
      by (simp add: course_def backlog_def)
    moreover have "\<exists>d. reader_poll text_of listening reads slots t = (Some d, t\<lparr>wt_output := src\<rparr>)"
      using line Suc x stop by (subst reader_poll.simps) auto
    ultimately show ?thesis using turn_stop by blast
  qed
qed

lemma reader_poll_course:
  "reader_poll text_of listening reads slots t = (r, t') \<Longrightarrow> course t (fate r t') t'"
proof (induction "reads + slots" arbitrary: reads slots t rule: less_induct)
  case less
  have "reader_turn text_of listening reads slots t"
    by (cases "wt_reader t") (auto intro: reading_turn delivering_turn)
  then consider (on) k n t1 where "k + n < reads + slots" "course t (fate None t1) t1"
      "reader_poll text_of listening k n t1 = (r, t')"
    | (stop) "course t (fate r t') t'"
    using less.prems unfolding reader_turn_def by (elim disjE exE conjE) simp_all
  then show ?case
  proof cases
    case on
    from on(2) less.hyps [OF on(1,3)] show ?thesis by (rule course_trans)
  qed
qed

lemma writer_poll_course:
  "writer_poll text_of closed arrivals writes t = (r, t') \<Longrightarrow> course t (fate r t') t'"
proof (induction text_of closed arrivals writes t rule: writer_poll.induct)
  case (1 text_of closed arrivals writes t)
  note run = "1.prems"
  have ended: "course t (fate (Some d) t) t" if "d \<noteq> ''worker stdout closed''" for d
    using that by (simp add: course_def)
  show ?case
  proof (cases "wt_writing t")
    case None
    let ?t = "\<lambda>c cs. t\<lparr>wt_commands := cs, wt_writing := Some c\<rparr>"
    have step: "course t (fate None (?t c cs)) (?t c cs)" if "wt_commands t = c # cs" for c cs
      using None that by (auto simp: course_def backlog_def)
    consider (idle) "wt_commands t = []" | (quiet) c cs where "wt_commands t = c # cs" "arrivals = 0"
      | (next_one) c cs n where "wt_commands t = c # cs" "arrivals = Suc n"
      by (cases "wt_commands t"; cases arrivals) auto
    then show ?thesis
    proof cases
      case idle
      then have "r = (if closed then Some ''host command channel closed'' else None)" "t' = t"
        using run None by (subst (asm) writer_poll.simps; simp)+
      moreover have "course t (fate (if closed then Some ''host command channel closed'' else None) t) t"
        by (cases closed) (simp_all only: if_True if_False course_refl, rule ended, simp)
      ultimately show ?thesis by (simp only:)
    next
      case quiet
      then have "r = None" "t' = t" using run None by (subst (asm) writer_poll.simps; simp)+
      then show ?thesis by (simp only: course_refl)
    next
      case next_one
      have "writer_poll text_of closed arrivals writes t = writer_poll text_of closed n writes (?t c cs)"
        using None next_one by (subst writer_poll.simps) simp
      then have "course (?t c cs) (fate r t') t'" using "1.IH"(1) [OF None next_one] run by simp
      with step [OF next_one(1)] show ?thesis by (rule course_trans)
    qed
  next
    case (Some p)
    show ?thesis
    proof (cases "\<exists>io ws. writes = io # ws \<and> validate_frame_payload p (wt_limit t) = Inr () \<and> io = None")
      case True
      then obtain ws where w: "writes = None # ws" "validate_frame_payload p (wt_limit t) = Inr ()" by blast
      have wf: "write_frame None p (wt_limit t) (wt_input t) = (Inr (), wt_input t @ p @ [newline])"
        using w(2) by (simp add: write_frame_def)
      let ?t = "t\<lparr>wt_input := wt_input t @ p @ [newline], wt_writing := None\<rparr>"
      have "course t (fate None ?t) ?t" using Some by (auto simp: course_def backlog_def)
      moreover have "writer_poll text_of closed arrivals writes t = writer_poll text_of closed arrivals ws ?t"
        using Some w wf by (subst writer_poll.simps) simp
      then have "course ?t (fate r t') t'" using "1.IH"(2) [OF Some w(2,1) wf [symmetric] refl] run by simp
      ultimately show ?thesis by (rule course_trans)
    next
      case False
      have "t' = t \<and> (r = None \<or> (\<exists>e. r = Some (''worker input failed: '' @ text_of e)))"
        using run Some False
        by (subst (asm) writer_poll.simps) (auto simp: write_frame_def split: sum.splits list.splits option.splits)
      then show ?thesis using course_refl [of t] by (elim conjE disjE) (simp_all only:, auto intro: ended)
    qed
  qed
qed

lemma select_poll_course: "select_poll text_of w t = (r, t') \<Longrightarrow> course t (fate r t') t'"
proof -
  assume run: "select_poll text_of w t = (r, t')"
  show ?thesis
  proof (cases "wk_retired w")
    case True
    with run have "r = Some ''worker reaped by host''" "t' = t" by (auto simp: select_poll_def)
    then show ?thesis by (simp add: course_def)
  next
    case False
    obtain x t1 where x: "reader_poll text_of (wk_listening w) (wk_reads w) (wk_slots w) t = (x, t1)" by fastforce
    note first = reader_poll_course [OF x]
    show ?thesis
    proof (cases x)
      case None
      with run x False have "writer_poll text_of (wk_closed w) (wk_arrivals w) (wk_writes w) t1 = (r, t')"
        by (simp add: select_poll_def)
      then have "course t1 (fate r t') t'" by (rule writer_poll_course)
      with first [unfolded None] show ?thesis by (rule course_trans)
    next
      case (Some d)
      with run x False have "r = x" "t' = t1" by (auto simp: select_poll_def)
      then show ?thesis using first by (simp only:)
    qed
  qed
qed

section \<open>What the host hears of a worker\<close>

text \<open>How a task stands that was spawned with \<open>t0\<close>.\<close>

definition task_account :: "worker_task \<Rightarrow> wake list \<Rightarrow> worker_task \<Rightarrow> bool" where
  "task_account t0 ws t \<longleftrightarrow>
     (case wt_ended t of
        None \<Rightarrow> course t0 (fate None t) t
      | Some d \<Rightarrow> (\<exists>t1 heard. course t0 (fate (Some d) t1) t1 \<and> t = report_gone heard d (kill_worker_tree t1) \<and>
          ((\<forall>w\<in>set ws. wk_hears_end w) \<longrightarrow> heard)))"

lemma wake_account:
  assumes t: "course t0 (fate None t) t" and fresh: "wt_ended t0 = None" and ws: "w \<in> set ws"
  shows "task_account t0 ws (worker_io_wake text_of w t)"
proof -
  obtain r t1 where sel: "select_poll text_of w t = (r, t1)" by fastforce
  have c: "course t0 (fate r t1) t1" by (rule course_trans [OF t select_poll_course [OF sel]])
  then have e: "wt_ended t1 = None" using fresh by (simp add: course_def)
  show ?thesis
  proof (cases r)
    case None
    with sel c e show ?thesis by (simp add: worker_io_wake_def task_account_def)
  next
    case (Some d)
    have "task_account t0 ws (report_gone (wk_hears_end w) d (kill_worker_tree t1))"
      unfolding task_account_def using c Some ws by (auto simp: report_gone_def)
    with sel Some show ?thesis by (simp add: worker_io_wake_def)
  qed
qed

lemma loop_account:
  assumes "task_account t0 all t" and "wt_ended t0 = None" and "set ws \<subseteq> set all"
  shows "task_account t0 all (worker_io_loop text_of ws t)"
  using assms(1,3)
proof (induction ws arbitrary: t)
  case (Cons w ws)
  show ?case
  proof (cases "wt_ended t")
    case None
    with Cons.prems have "course t0 (fate None t) t" by (simp add: task_account_def)
    then have "task_account t0 all (worker_io_wake text_of w t)" using assms(2) Cons.prems by (intro wake_account) auto
    with None Cons show ?thesis by simp
  qed (use Cons in simp)
qed simp

lemma task_account_facts:
  assumes acc: "task_account t0 ws t" and t0: "spawn_worker_io token child \<lparr>to_leader = l, to_armed = True\<rparr> commands limit = (Inr t0, sg)"
    and out: "ch_stdout child = Some src"
  shows "\<exists>ps rest n. worker_frames limit src = ps @ rest \<and>
     wt_input t = concat (map (\<lambda>p. p @ [newline]) (take n commands)) \<and>
     (case wt_ended t of
        None \<Rightarrow> wt_events t = map (WorkerFrame token) ps \<and> wt_signals t = [] \<and>
          wt_signals (drop_task t) = [GroupKilled l]
      | Some d \<Rightarrow> wt_signals t = [GroupKilled l, ChildKilled, ChildReaped] \<and>
          wt_signals (drop_task t) = wt_signals t \<and>
          (\<exists>gone. wt_events t = map (WorkerFrame token) ps @ gone \<and> (gone = [] \<or> gone = [WorkerGone token]) \<and>
             ((\<forall>w\<in>set ws. wk_hears_end w) \<longrightarrow> gone = [WorkerGone token])) \<and>
          (d = ''worker stdout closed'' \<longrightarrow> rest = []))"
proof -
  have s: "wt_token t0 = token" "wt_limit t0 = limit" "wt_reader t0 = Reading []" "wt_output t0 = src"
    "wt_events t0 = []" "wt_signals t0 = []" "wt_owner t0 = \<lparr>to_leader = l, to_armed = True\<rparr>" "wt_input t0 = []"
    "backlog t0 = commands"
    using t0 out by (auto simp: spawn_worker_io_def backlog_def split: if_splits)
  have whole: "ahead t0 = worker_frames limit src" using s by (simp add: ahead_def worker_frames_after)
  have reached: "\<exists>ps rest n. worker_frames limit src = ps @ rest \<and> G rest \<and> wt_token u = token \<and>
      wt_input u = concat (map (\<lambda>p. p @ [newline]) (take n commands)) \<and> wt_signals u = [] \<and>
      wt_owner u = \<lparr>to_leader = l, to_armed = True\<rparr> \<and> wt_events u = map (WorkerFrame token) ps"
    if c: "course t0 G u" for G u
  proof -
    obtain ps rest where p: "wt_events u = map (WorkerFrame token) ps" "worker_frames limit src = ps @ rest" "G rest"
      using c s whole by (auto simp: course_def)
    obtain written where "commands = written @ backlog u" "wt_input u = concat (map (\<lambda>p. p @ [newline]) written)"
      using c s by (auto simp: course_def)
    then have "wt_input u = concat (map (\<lambda>p. p @ [newline]) (take (length written) commands))" by simp
    with p c s show ?thesis
      by (intro exI [of _ ps] exI [of _ rest] exI [of _ "length written"]) (simp add: course_def)
  qed
  show ?thesis
  proof (cases "wt_ended t")
    case None
    with acc have "course t0 (fate None t) t" by (simp add: task_account_def)
    from reached [OF this] None show ?thesis
      by (fastforce simp: drop_task_def tree_owner_drop_def tree_owner_kill_def)
  next
    case (Some d)
    then obtain t1 heard where t1: "course t0 (fate (Some d) t1) t1" "t = report_gone heard d (kill_worker_tree t1)"
        "(\<forall>w\<in>set ws. wk_hears_end w) \<longrightarrow> heard"
      using acc by (auto simp: task_account_def)
    obtain ps rest n where r: "worker_frames limit src = ps @ rest" "fate (Some d) t1 rest" "wt_token t1 = token"
        "wt_input t1 = concat (map (\<lambda>p. p @ [newline]) (take n commands))" "wt_signals t1 = []"
        "wt_owner t1 = \<lparr>to_leader = l, to_armed = True\<rparr>" "wt_events t1 = map (WorkerFrame token) ps"
      using reached [OF t1(1)] by blast
    have t: "wt_signals t = [GroupKilled l, ChildKilled, ChildReaped]" "wt_signals (drop_task t) = wt_signals t"
      "wt_input t = wt_input t1"
      "wt_events t = map (WorkerFrame token) ps @ (if heard then [WorkerGone token] else [])"
      using r t1(2)
      by (simp_all add: report_gone_def kill_worker_tree_def tree_owner_kill_def drop_task_def tree_owner_drop_def)
    show ?thesis unfolding Some option.case
      using r(1,2,4) t t1(3) by (intro exI [of _ ps] exI [of _ rest] exI [of _ n]) auto
  qed
qed

section \<open>A stream without a fault\<close>

text \<open>Whether the reader gets to the end of a stream without a fault.\<close>

function stream_clean :: "nat \<Rightarrow> source \<Rightarrow> bool" where
  "stream_clean limit src =
     (case read_frame limit src of
        (Inr (Frame payload), src') \<Rightarrow> stream_clean limit src'
      | (Inr EndOfStream, _) \<Rightarrow> True
      | (Inl e, _) \<Rightarrow> False)"
  by pat_completeness auto
termination
  by (relation "measure (\<lambda>(limit, src). source_size src)") (auto simp: read_frame_def dest!: read_frame_loop_size [OF sym])

declare stream_clean.simps [simp del]

definition clean_after :: "nat \<Rightarrow> (io_error + frame_outcome) \<times> source \<Rightarrow> bool" where
  "clean_after limit r =
     (case r of
        (Inr (Frame payload), src) \<Rightarrow> stream_clean limit src
      | (Inr EndOfStream, _) \<Rightarrow> True
      | (Inl e, _) \<Rightarrow> False)"

lemma stream_clean_after: "stream_clean limit src = clean_after limit (read_frame_loop limit [] src)"
  by (subst stream_clean.simps) (simp add: clean_after_def read_frame_def)

definition clean :: "worker_task \<Rightarrow> bool" where
  "clean t = (case wt_reader t of
     Reading line \<Rightarrow> clean_after (wt_limit t) (read_frame_loop (wt_limit t) line (wt_output t))
   | Delivering payload \<Rightarrow> stream_clean (wt_limit t) (wt_output t))"

definition todo :: "worker_task \<Rightarrow> nat" where
  "todo t = source_size (wt_output t) + (case wt_reader t of Reading line \<Rightarrow> length line | _ \<Rightarrow> 0)"

lemma read_step_smaller:
  assumes "read_step limit line src = (x, src')"
  shows "x = Inl line' \<Longrightarrow> source_size src' + length line' < source_size src + length line"
    and "x = Inr (Inr (Frame p)) \<Longrightarrow> source_size src' < source_size src + length line"
proof -
  show "source_size src' + length line' < source_size src + length line" if "x = Inl line'"
    using assms that
    by (auto simp: read_step_def Let_def consume_def source_size_def usize_checked_add_def
        split: list.splits sum.splits option.splits if_splits dest!: position_Some)
  show "source_size src' < source_size src + length line" if "x = Inr (Inr (Frame p))"
    using assms that
    by (auto simp: read_step_def Let_def consume_def source_size_def usize_checked_add_def end_of_input_def
        split: list.splits sum.splits option.splits if_splits dest!: position_Some)
qed

lemma clean_step:
  assumes "wt_reader t = Reading line" and "read_step (wt_limit t) line (wt_output t) = (x, src)" and "clean t"
  shows "x = Inl line' \<Longrightarrow> clean (t\<lparr>wt_reader := Reading line', wt_output := src\<rparr>) \<and>
      ahead (t\<lparr>wt_reader := Reading line', wt_output := src\<rparr>) = ahead t \<and>
      todo (t\<lparr>wt_reader := Reading line', wt_output := src\<rparr>) < todo t"
    and "x = Inr (Inr (Frame p)) \<Longrightarrow> clean (t\<lparr>wt_reader := Delivering p, wt_output := src\<rparr>) \<and>
      ahead (t\<lparr>wt_reader := Delivering p, wt_output := src\<rparr>) = ahead t \<and>
      todo (t\<lparr>wt_reader := Delivering p, wt_output := src\<rparr>) < todo t"
    and "x \<noteq> Inr (Inl e)"
  using assms read_step_smaller [OF assms(2)] read_frame_loop_step [of "wt_limit t" line "wt_output t"]
  by (auto simp: clean_def clean_after_def todo_def ahead_def frames_after_def)

lemma clean_delivered:
  assumes "wt_reader t = Delivering p" and "clean t"
  shows "clean (t\<lparr>wt_reader := Reading [], wt_events := es\<rparr>)"
    and "ahead t = p # ahead (t\<lparr>wt_reader := Reading [], wt_events := es\<rparr>)"
    and "todo (t\<lparr>wt_reader := Reading [], wt_events := es\<rparr>) = todo t"
  using assms by (auto simp: clean_def todo_def ahead_def stream_clean_after worker_frames_after)

text \<open>With room for what is left, one poll of the reader reaches the end of the stream.\<close>

lemma reader_poll_finishes:
  "clean t \<Longrightarrow> todo t < reads \<Longrightarrow> length (ahead t) \<le> slots \<Longrightarrow>
     \<exists>t'. reader_poll text_of True reads slots t = (Some ''worker stdout closed'', t')"
proof (induction "reads + slots" arbitrary: reads slots t rule: less_induct)
  case less
  show ?case
  proof (cases "wt_reader t")
    case (Reading line)
    obtain k where k: "reads = Suc k" using less.prems(2) by (cases reads) auto
    obtain x src where x: "read_step (wt_limit t) line (wt_output t) = (x, src)" by fastforce
    note st = clean_step [OF Reading x less.prems(1)]
    consider (on) l where "x = Inl l" | (frame) p where "x = Inr (Inr (Frame p))" | (stop) "x = Inr (Inr EndOfStream)"
      using st(3) by (cases x; cases "projr x"; cases "projr (projr x)") auto
    then show ?thesis
    proof cases
      case on
      have "\<exists>t'. reader_poll text_of True k slots (t\<lparr>wt_reader := Reading l, wt_output := src\<rparr>) =
          (Some ''worker stdout closed'', t')"
        by (rule less.hyps) (use st(1) [OF on] k less.prems in auto)
      with Reading k x on show ?thesis by (subst reader_poll.simps) simp
    next
      case frame
      have "\<exists>t'. reader_poll text_of True k slots (t\<lparr>wt_reader := Delivering p, wt_output := src\<rparr>) =
          (Some ''worker stdout closed'', t')"
        by (rule less.hyps) (use st(2) [OF frame] k less.prems in auto)
      with Reading k x frame show ?thesis by (subst reader_poll.simps) simp
    qed (use Reading k x in \<open>subst reader_poll.simps, simp\<close>)
  next
    case (Delivering p)
    let ?t = "t\<lparr>wt_reader := Reading [], wt_events := wt_events t @ [WorkerFrame (wt_token t) p]\<rparr>"
    note d = clean_delivered [OF Delivering less.prems(1), of "wt_events t @ [WorkerFrame (wt_token t) p]"]
    obtain n where n: "slots = Suc n" using less.prems(3) d(2) by (cases slots) auto
    have "\<exists>t'. reader_poll text_of True reads n ?t = (Some ''worker stdout closed'', t')"
      by (rule less.hyps) (use d n less.prems in auto)
    with Delivering n show ?thesis by (subst reader_poll.simps) simp
  qed
qed

lemma reader_poll_clean:
  "clean t \<Longrightarrow> reader_poll text_of listening reads slots t = (None, t') \<Longrightarrow> clean t' \<and> todo t' \<le> todo t"
proof (induction "reads + slots" arbitrary: reads slots t rule: less_induct)
  case less
  show ?case
  proof (cases "wt_reader t")
    case (Reading line)
    show ?thesis
    proof (cases reads)
      case 0
      with Reading less.prems show ?thesis by (subst (asm) reader_poll.simps) simp
    next
      case (Suc k)
      obtain x src where x: "read_step (wt_limit t) line (wt_output t) = (x, src)" by fastforce
      note st = clean_step [OF Reading x less.prems(1)]
      have poll: "reader_poll text_of listening reads slots t = (None, t')" by (rule less.prems(2))
      then consider
          (on) l where "x = Inl l" "reader_poll text_of listening k slots (t\<lparr>wt_reader := Reading l, wt_output := src\<rparr>) = (None, t')"
        | (frame) p where "x = Inr (Inr (Frame p))"
            "reader_poll text_of listening k slots (t\<lparr>wt_reader := Delivering p, wt_output := src\<rparr>) = (None, t')"
        using Reading Suc x by (subst (asm) reader_poll.simps) (auto split: sum.splits frame_outcome.splits)
      then show ?thesis
      proof cases
        case on
        with less.hyps [OF _ _ on(2)] st(1) [OF on(1)] Suc show ?thesis by fastforce
      next
        case frame
        with less.hyps [OF _ _ frame(2)] st(2) [OF frame(1)] Suc show ?thesis by fastforce
      qed
    qed
  next
    case (Delivering p)
    let ?t = "t\<lparr>wt_reader := Reading [], wt_events := wt_events t @ [WorkerFrame (wt_token t) p]\<rparr>"
    note d = clean_delivered [OF Delivering less.prems(1), of "wt_events t @ [WorkerFrame (wt_token t) p]"]
    consider "t' = t" | n where "slots = Suc n" "reader_poll text_of listening reads n ?t = (None, t')"
      using less.prems(2) Delivering
      by (subst (asm) reader_poll.simps) (auto split: if_splits nat.splits)
    then show ?thesis
    proof cases
      case 2
      with less.hyps [OF _ d(1) 2(2)] d(3) show ?thesis by simp
    qed (use less.prems in simp)
  qed
qed

lemma writer_poll_output:
  "writer_poll text_of closed arrivals writes t = (r, t') \<Longrightarrow>
     wt_reader t' = wt_reader t \<and> wt_output t' = wt_output t \<and> wt_limit t' = wt_limit t"
proof (induction text_of closed arrivals writes t arbitrary: t' rule: writer_poll.induct)
  case (1 text_of closed arrivals writes t)
  from "1.prems" show ?case
    by (subst (asm) writer_poll.simps)
      (auto simp: write_frame_def split: option.splits list.splits nat.splits sum.splits if_splits
        dest: "1.IH")
qed

lemma loop_ended: "wt_ended t \<noteq> None \<Longrightarrow> worker_io_loop text_of ws t = t"
  by (cases ws) simp_all

lemma wake_clean:
  assumes "clean t" and "wt_ended (worker_io_wake text_of w t) = None"
  shows "clean (worker_io_wake text_of w t) \<and> todo (worker_io_wake text_of w t) \<le> todo t"
proof -
  have sel: "select_poll text_of w t = (None, worker_io_wake text_of w t)"
    using assms(2) by (auto simp: worker_io_wake_def report_gone_def split: prod.splits option.splits)
  then obtain t1 where r: "reader_poll text_of (wk_listening w) (wk_reads w) (wk_slots w) t = (None, t1)"
      and o: "writer_poll text_of (wk_closed w) (wk_arrivals w) (wk_writes w) t1 = (None, worker_io_wake text_of w t)"
    by (auto simp: select_poll_def split: if_splits prod.splits option.splits)
  show ?thesis using reader_poll_clean [OF assms(1) r] writer_poll_output [OF o]
    by (cases "wt_reader t1") (simp_all add: clean_def todo_def)
qed

lemma loop_clean:
  "clean t \<Longrightarrow> wt_ended (worker_io_loop text_of ws t) = None \<Longrightarrow>
     clean (worker_io_loop text_of ws t) \<and> todo (worker_io_loop text_of ws t) \<le> todo t"
proof (induction ws arbitrary: t)
  case (Cons w ws)
  show ?case
  proof (cases "wt_ended t")
    case None
    then have run: "worker_io_loop text_of (w # ws) t = worker_io_loop text_of ws (worker_io_wake text_of w t)" by simp
    have "wt_ended (worker_io_wake text_of w t) = None"
      using Cons.prems(2) loop_ended [of "worker_io_wake text_of w t" text_of ws] unfolding run by fastforce
    with wake_clean [OF Cons.prems(1)] Cons.IH [of "worker_io_wake text_of w t"] Cons.prems(2) show ?thesis
      unfolding run using order_trans by blast
  qed (use Cons in simp)
qed simp

lemma loop_append:
  "worker_io_loop text_of (ws @ vs) t = worker_io_loop text_of vs (worker_io_loop text_of ws t)"
  by (induction ws arbitrary: t) (simp_all add: loop_ended)

lemma spawned_account:
  assumes "spawn_worker_io token child leader commands limit = (Inr t0, sg)"
  shows "task_account t0 ws (worker_io_loop text_of ws t0)"
proof -
  have fresh: "wt_ended t0 = None" using assms by (auto simp: spawn_worker_io_def split: if_splits option.splits)
  have "task_account t0 ws t0" using fresh course_refl [of t0] by (simp add: task_account_def)
  then show ?thesis using fresh by (intro loop_account) auto
qed

lemma written_stream:
  assumes "\<forall>p\<in>set ps. validate_frame_payload p limit = Inr ()"
    and "source_ok src" and "source_bytes src = write_all ps limit []" and "limit \<le> usize_max"
  shows "client_reader limit (\<lambda>_. True) n src = map ClientPayload ps @ [ClientEnd] \<and>
     worker_frames limit src = ps \<and> stream_clean limit src"
proof -
  have bytes: "source_bytes src = concat (map (\<lambda>p. p @ [newline]) ps)"
    using write_all_bytes [OF assms(1), of "[]"] assms(3) by simp
  from assms(1,2) bytes show ?thesis
  proof (induction ps arbitrary: src n)
    case Nil
    then have "frame_spec limit (source_bytes src) = Inr (EndOfStream, [])"
      by (subst frame_spec.simps) simp
    with buffered.read_refines [of src limit] Nil(2) assms(4) obtain src' where
        "read_frame limit src = (Inr EndOfStream, src')"
      by (cases "read_frame limit src") (auto simp: refines_def)
    then show ?case by (subst client_reader.simps, subst worker_frames.simps, subst stream_clean.simps) simp
  next
    case (Cons p ps)
    obtain src' where r: "read_frame limit src = (Inr (Frame p), src')" "source_ok src'"
        "source_bytes src' = concat (map (\<lambda>p. p @ [newline]) ps)"
      using buffered.read_one [of src limit p "concat (map (\<lambda>p. p @ [newline]) ps)"] Cons.prems assms(4)
      by (cases "read_frame limit src") auto
    with Cons.IH [OF _ r(2,3)] Cons.prems show ?case
      by (subst client_reader.simps, subst worker_frames.simps, subst stream_clean.simps) simp
  qed
qed

text \<open>A task with room for what is left of a faultless stream reports all of it, and its end.\<close>

lemma spawned_finishes:
  assumes "spawn_worker_io token child leader commands limit = (Inr t0, sg)" and "ch_stdout child = Some src"
    and "stream_clean limit src" and "wt_ended (worker_io_loop text_of ws t0) = None"
    and w: "\<not> wk_retired w" "wk_listening w" "source_size src < wk_reads w"
      "length (worker_frames limit src) \<le> wk_slots w" "wk_hears_end w"
  shows "wt_ended (worker_io_loop text_of (ws @ [w]) t0) = Some ''worker stdout closed'' \<and>
     wt_events (worker_io_loop text_of (ws @ [w]) t0) = map (WorkerFrame token) (worker_frames limit src) @ [WorkerGone token]"
proof -
  let ?t = "worker_io_loop text_of ws t0"
  have t0: "wt_token t0 = token" "wt_limit t0 = limit" "wt_reader t0 = Reading []" "wt_output t0 = src" "wt_events t0 = []"
    using assms(1,2) by (auto simp: spawn_worker_io_def split: if_splits)
  have whole: "ahead t0 = worker_frames limit src" using t0 by (simp add: ahead_def worker_frames_after)
  have "clean t0" "todo t0 = source_size src" using t0 assms(3) by (simp_all add: clean_def stream_clean_after todo_def)
  then have cl: "clean ?t" "todo ?t < wk_reads w" using loop_clean [OF _ assms(4)] w(3) by auto
  have c: "course t0 (fate None ?t) ?t"
    using spawned_account [OF assms(1), of ws text_of] assms(4) by (simp add: task_account_def)
  then have "length (ahead ?t) \<le> wk_slots w" using whole w(4) by (auto simp: course_def)
  from reader_poll_finishes [OF cl this] obtain t1 where
      poll: "reader_poll text_of True (wk_reads w) (wk_slots w) ?t = (Some ''worker stdout closed'', t1)" by blast
  have "course t0 (fate (Some ''worker stdout closed'') t1) t1"
    by (rule course_trans [OF c reader_poll_course [OF poll]])
  then have e: "wt_events t1 = map (WorkerFrame token) (worker_frames limit src)" "wt_token t1 = token"
    using t0 whole by (auto simp: course_def)
  have "worker_io_loop text_of (ws @ [w]) t0 = report_gone True ''worker stdout closed'' (kill_worker_tree t1)"
    using assms(4) w poll by (simp add: loop_append worker_io_wake_def select_poll_def)
  then show ?thesis using e by (simp add: report_gone_def kill_worker_tree_def tree_owner_kill_def)
qed

section \<open>Properties\<close>

text \<open>
  C7. Whatever wakes the task of a worker, and in whatever order output, commands, their
  writing and its retirement come: the host hears the worker's frames in the order it wrote
  them, none twice and none left out, also when a frame was cut by other work; the worker is
  sent the host's commands in order; and no frame follows the report of its end. While the
  task runs nothing has been killed. When it ends the process group has been killed once, the
  child killed and reaped, and then its end is reported, once, to a host that listens; if it
  ended since the worker closed its output, every frame of that output was heard before. A
  task that is dropped leaves the group killed exactly once all the same.
\<close>

theorem worker_task_accounted:
  assumes "tree_owner_new (ch_id child) = Inr leader"
    and "spawn_worker_io token child leader commands limit = (Inr t0, sg)"
    and "ch_stdout child = Some src" and "t = worker_io_loop text_of ws t0"
  shows "\<exists>ps rest n. worker_frames limit src = ps @ rest \<and>
     wt_input t = concat (map (\<lambda>p. p @ [newline]) (take n commands)) \<and>
     (case wt_ended t of
        None \<Rightarrow> wt_events t = map (WorkerFrame token) ps \<and> wt_signals t = [] \<and>
          wt_signals (drop_task t) = [GroupKilled (to_leader leader)]
      | Some d \<Rightarrow> wt_signals t = [GroupKilled (to_leader leader), ChildKilled, ChildReaped] \<and>
          wt_signals (drop_task t) = wt_signals t \<and>
          (\<exists>gone. wt_events t = map (WorkerFrame token) ps @ gone \<and> (gone = [] \<or> gone = [WorkerGone token]) \<and>
             ((\<forall>w\<in>set ws. wk_hears_end w) \<longrightarrow> gone = [WorkerGone token])) \<and>
          (d = ''worker stdout closed'' \<longrightarrow> rest = []))"
proof -
  have l: "leader = \<lparr>to_leader = to_leader leader, to_armed = True\<rparr>"
    using assms(1) by (auto simp: tree_owner_new_def split: option.splits if_splits)
  have acc: "task_account t0 ws t" unfolding assms(4) by (rule spawned_account [OF assms(2)])
  show ?thesis
    by (rule task_account_facts [OF acc _ assms(3)], subst l [symmetric]) (rule assms(2))
qed

text \<open>
  C22. What a peer writes with the writer is what the host hears, however the stream is cut.
  The client's frames come to the event loop as events, each whole and in order, and after
  them the end of the session. Of a worker that wrote \<open>ps\<close> and closed its output, the host has
  at any moment heard a beginning of \<open>ps\<close>, in order, and nothing after the report of its end;
  it has heard all of \<open>ps\<close> if the task ended since the output closed. And a task that still runs
  is never stuck: the next wake-up that can read and deliver what is left (it is not retired,
  the host listens and has room) reports every frame that is left and then the end.
\<close>

theorem client_stream_delivered:
  assumes "\<forall>p\<in>set ps. validate_frame_payload p limit = Inr ()"
    and "source_ok src" and "source_bytes src = write_all ps limit []" and "limit \<le> usize_max"
    and "tree_owner_new (ch_id child) = Inr leader"
    and "spawn_worker_io token child leader commands limit = (Inr t0, sg)"
    and "ch_stdout child = Some src" and "t = worker_io_loop text_of ws t0"
  shows "client_reader limit (\<lambda>_. True) n src = map ClientPayload ps @ [ClientEnd] \<and>
     (\<exists>k gone. wt_events t = map (WorkerFrame token) (take k ps) @ gone \<and>
        (gone = [] \<or> wt_ended t \<noteq> None \<and> gone = [WorkerGone token]) \<and>
        (wt_ended t = Some ''worker stdout closed'' \<longrightarrow> take k ps = ps)) \<and>
     (wt_ended t = None \<longrightarrow> (\<forall>w. \<not> wk_retired w \<and> wk_listening w \<and> source_size src < wk_reads w \<and>
        length ps \<le> wk_slots w \<and> wk_hears_end w \<longrightarrow>
          wt_ended (worker_io_loop text_of (ws @ [w]) t0) = Some ''worker stdout closed'' \<and>
          wt_events (worker_io_loop text_of (ws @ [w]) t0) = map (WorkerFrame token) ps @ [WorkerGone token]))"
proof -
  have l: "leader = \<lparr>to_leader = to_leader leader, to_armed = True\<rparr>"
    using assms(5) by (auto simp: tree_owner_new_def split: option.splits if_splits)
  note s = written_stream [OF assms(1-4)]
  then have fr: "worker_frames limit src = ps" and cl: "stream_clean limit src" by simp_all
  have spawn: "spawn_worker_io token child \<lparr>to_leader = to_leader leader, to_armed = True\<rparr> commands limit = (Inr t0, sg)"
    using assms(6) l by simp
  note facts = task_account_facts [OF spawned_account [OF assms(6), of ws text_of] spawn assms(7)]
  have heard: "\<exists>k gone. wt_events t = map (WorkerFrame token) (take k ps) @ gone \<and>
        (gone = [] \<or> wt_ended t \<noteq> None \<and> gone = [WorkerGone token]) \<and>
        (wt_ended t = Some ''worker stdout closed'' \<longrightarrow> take k ps = ps)"
  proof (cases "wt_ended t")
    case None
    then obtain qs rest where "ps = qs @ rest" "wt_events t = map (WorkerFrame token) qs"
      using facts fr assms(8) by auto
    with None show ?thesis by (intro exI [of _ "length qs"]) auto
  next
    case (Some d)
    then obtain qs rest gone where q: "ps = qs @ rest" "wt_events t = map (WorkerFrame token) qs @ gone"
        "gone = [] \<or> gone = [WorkerGone token]" "d = ''worker stdout closed'' \<longrightarrow> rest = []"
      using facts unfolding fr assms(8) [symmetric] by (elim exE conjE) (simp only: option.case, blast)
    with Some show ?thesis by (intro exI [of _ "length qs"] exI [of _ gone]) auto
  qed
  from s heard spawned_finishes [OF assms(6,7) cl, of text_of ws] fr assms(8) show ?thesis by blast
qed

section \<open>A worker, run\<close>

text \<open>
  A worker that answers twice, the first answer cut after one byte; a command comes and is
  written before the rest of the answer.
\<close>

definition sample_child :: worker_child where
  "sample_child = \<lparr>ch_id = Some 7, ch_stdin = True, ch_stdout = Some [Inr [49], Inr [50, 10, 51, 10]]\<rparr>"

definition sample_wakes :: "wake list" where
  "sample_wakes =
     [\<lparr>wk_retired = False, wk_listening = True, wk_reads = 1, wk_slots = 1, wk_closed = False,
       wk_arrivals = 1, wk_writes = [None], wk_hears_end = True\<rparr>,
      \<lparr>wk_retired = False, wk_listening = True, wk_reads = 3, wk_slots = 2, wk_closed = False,
       wk_arrivals = 0, wk_writes = [], wk_hears_end = True\<rparr>]"

definition sample_room :: wake where
  "sample_room = \<lparr>wk_retired = False, wk_listening = True, wk_reads = 9, wk_slots = 2, wk_closed = False,
     wk_arrivals = 0, wk_writes = [], wk_hears_end = True\<rparr>"

definition sample_task :: worker_task where
  "sample_task = \<lparr>wt_token = 1, wt_limit = 5, wt_reader = Reading [], wt_output = [Inr [49], Inr [50, 10, 51, 10]],
     wt_commands = [[65]], wt_writing = None, wt_input = [], wt_owner = \<lparr>to_leader = 7, to_armed = True\<rparr>,
     wt_signals = [], wt_events = [], wt_ended = None\<rparr>"

lemmas task_defs = reader_poll.simps writer_poll.simps read_step_def newline_def carriage_return_def
  strip_cr_def consume_def usize_checked_add_def usize_max_def end_of_input_def validate_frame_payload_def
  write_frame_def

lemma sample_spawned:
  "spawn_worker_io 1 sample_child \<lparr>to_leader = 7, to_armed = True\<rparr> [[65]] 5 = (Inr sample_task, [])"
  by (simp add: spawn_worker_io_def sample_child_def sample_task_def)

lemma sample_task_run:
  "wt_ended (worker_io_loop (\<lambda>_. []) sample_wakes sample_task) = Some ''worker stdout closed'' \<and>
   wt_events (worker_io_loop (\<lambda>_. []) sample_wakes sample_task) =
     [WorkerFrame 1 [49, 50], WorkerFrame 1 [51], WorkerGone 1] \<and>
   wt_input (worker_io_loop (\<lambda>_. []) sample_wakes sample_task) = [65, 10]"
  by (simp add: sample_wakes_def sample_task_def worker_io_wake_def select_poll_def task_defs
      report_gone_def kill_worker_tree_def tree_owner_kill_def)

theorem worker_task_accounted_witness:
  "\<exists>ps. worker_frames 5 [Inr [49], Inr [50, 10, 51, 10]] = ps \<and>
     wt_events (worker_io_loop (\<lambda>_. []) sample_wakes sample_task) = map (WorkerFrame 1) ps @ [WorkerGone 1] \<and>
     map (WorkerFrame 1) ps = [WorkerFrame 1 [49, 50], WorkerFrame 1 [51]]"
proof -
  let ?t = "worker_io_loop (\<lambda>_. []) sample_wakes sample_task"
  have owner: "tree_owner_new (ch_id sample_child) = Inr \<lparr>to_leader = 7, to_armed = True\<rparr>"
    by (simp add: tree_owner_new_def sample_child_def)
  have out: "ch_stdout sample_child = Some [Inr [49], Inr [50, 10, 51, 10]]" by (simp add: sample_child_def)
  note o = sample_task_run
  have all_hear: "\<forall>w\<in>set sample_wakes. wk_hears_end w" by (simp add: sample_wakes_def)
  obtain ps rest where p: "worker_frames 5 [Inr [49], Inr [50, 10, 51, 10]] = ps @ rest" "rest = []"
    "wt_events ?t = map (WorkerFrame 1) ps @ [WorkerGone 1]"
    using worker_task_accounted [OF owner sample_spawned out refl, of "\<lambda>_. []" sample_wakes] o all_hear by auto
  have "map (WorkerFrame 1) ps = [WorkerFrame 1 [49, 50], WorkerFrame 1 [51]]"
  proof -
    have "map (WorkerFrame 1) ps @ [WorkerGone 1] = [WorkerFrame 1 [49, 50], WorkerFrame 1 [51]] @ [WorkerGone 1]"
      using p(3) conjunct1 [OF conjunct2 [OF o]] by simp
    then show ?thesis by (simp only: append_same_eq)
  qed
  with p show ?thesis by simp
qed

theorem client_stream_delivered_witness:
  "client_reader 5 (\<lambda>_. True) 0 [Inr [49], Inr [50, 10, 51, 10]] =
     [ClientPayload [49, 50], ClientPayload [51], ClientEnd] \<and>
   wt_ended (worker_io_loop (\<lambda>_. []) [hd sample_wakes] sample_task) = None \<and>
   wt_events (worker_io_loop (\<lambda>_. []) [hd sample_wakes, sample_room] sample_task) =
     [WorkerFrame 1 [49, 50], WorkerFrame 1 [51], WorkerGone 1]"
proof -
  have owner: "tree_owner_new (ch_id sample_child) = Inr \<lparr>to_leader = 7, to_armed = True\<rparr>"
    by (simp add: tree_owner_new_def sample_child_def)
  have out: "ch_stdout sample_child = Some [Inr [49], Inr [50, 10, 51, 10]]" by (simp add: sample_child_def)
  have run: "wt_ended (worker_io_loop (\<lambda>_. []) [hd sample_wakes] sample_task) = None"
    by (simp add: sample_wakes_def sample_task_def worker_io_wake_def select_poll_def task_defs)
  have frames: "\<forall>p\<in>set [[49, 50], [51 :: byte]]. validate_frame_payload p 5 = Inr ()"
    by (simp add: validate_frame_payload_def newline_def carriage_return_def)
  have src: "source_ok [Inr [49], Inr [50, 10, 51, 10]]" by simp
  have bytes: "source_bytes [Inr [49], Inr [50, 10, 51, 10]] = write_all [[49, 50], [51]] 5 []"
    by (simp add: write_frame_def validate_frame_payload_def newline_def carriage_return_def)
  have room: "\<not> wk_retired sample_room" "wk_listening sample_room" "wk_hears_end sample_room"
    "source_size [Inr [49], Inr [50, 10, 51, 10]] < wk_reads sample_room" "wk_slots sample_room = 2"
    by (simp_all add: sample_room_def source_size_def)
  show ?thesis
    using client_stream_delivered [OF frames src bytes _ owner sample_spawned out refl,
        where n = 0 and text_of = "\<lambda>_. []" and ws = "[hd sample_wakes]"] run room
    by (simp add: usize_max_def)
qed

end
