(* ===== verification/TestKit.thy ===== *)
theory TestKit
  imports Session Telemetry Projection
begin

text \<open>
  The helpers for consumers' tests (\<open>libmcp-testkit\<close>): the churn harness, which drives the
  session kernel and keeps every frame that crossed the worker boundary; the reader of JSONL
  files; and the check of a projection against its policy. Scratch directories belong to
  \<open>tempfile\<close> and are left out. \<open>serde_json::from_str\<close> and the UTF-8 test are arguments.
\<close>

section \<open>The churn harness\<close>

record 'n churn_harness =
  hn_kernel :: "'n kernel"
  hn_dispatched :: "'n frame list"

type_synonym ('n, 'a) hop = "'n churn_harness \<Rightarrow> (rejection + 'a) \<times> 'n churn_harness"

definition harness_cold :: "'n churn_harness" where
  "harness_cold = \<lparr>hn_kernel = cold, hn_dispatched = []\<rparr>"

definition dispatch_first ::
    "'n extern \<Rightarrow> nat \<Rightarrow> 'n frame \<Rightarrow> contract \<Rightarrow> nat \<Rightarrow> ('n, 'n request_id) hop" where
  "dispatch_first X now f contract capacity h =
     (case begin_request_dispatch X now f contract capacity (hn_kernel h) of
        (Inl e, k) \<Rightarrow> (Inl e, h\<lparr>hn_kernel := k\<rparr>)
      | (Inr i, k) \<Rightarrow> (Inr i, h\<lparr>hn_kernel := k, hn_dispatched := hn_dispatched h @ [f]\<rparr>))"

definition kill_worker :: "replay_budget \<Rightarrow> 'n churn_harness \<Rightarrow> 'n requeue_outcome \<times> 'n churn_harness" where
  "kill_worker budget h =
     (case requeue_pending_for_replay budget (hn_kernel h) of (outcome, k) \<Rightarrow> (outcome, h\<lparr>hn_kernel := k\<rparr>))"

definition dispatch_next :: "('n, 'n queue_outcome) hop" where
  "dispatch_next h =
     (case pop_next_dispatch (hn_kernel h) of
        (Inl e, k) \<Rightarrow> (Inl e, h\<lparr>hn_kernel := k\<rparr>)
      | (Inr outcome, k) \<Rightarrow>
          (Inr outcome,
           case outcome of
             ReplayFrame f \<Rightarrow> h\<lparr>hn_kernel := k, hn_dispatched := hn_dispatched h @ [f]\<rparr>
           | _ \<Rightarrow> h\<lparr>hn_kernel := k\<rparr>))"

definition harness_resolve_probe ::
    "'n request_id \<Rightarrow> probe_resolution \<Rightarrow> u8 \<Rightarrow> ('n, 'n probe_outcome) hop" where
  "harness_resolve_probe i resolution max_attempts h =
     (case resolve_probe i resolution max_attempts (hn_kernel h) of (r, k) \<Rightarrow> (r, h\<lparr>hn_kernel := k\<rparr>))"

definition harness_complete :: "'n frame \<Rightarrow> ('n, 'n pending_request) hop" where
  "harness_complete response h =
     (case complete_response response (hn_kernel h) of (r, k) \<Rightarrow> (r, h\<lparr>hn_kernel := k\<rparr>))"

section \<open>JSONL files\<close>

text \<open>
  The items of \<open>BufRead::lines\<close>: the readable bytes of the file, and the fault that ends
  them when it is not the end of the file.
\<close>

definition line_text :: "byte list \<Rightarrow> string" where
  "line_text line = map (\<lambda>b. char_of (unat b)) line"

definition line_item :: "(byte list \<Rightarrow> bool) \<Rightarrow> byte list \<Rightarrow> io_error + string" where
  "line_item utf8 line =
     (if utf8 line then Inr (line_text line) else Inl (InvalidData ''stream did not contain valid UTF-8''))"

function buf_lines :: "(byte list \<Rightarrow> bool) \<Rightarrow> io_error option \<Rightarrow> byte list \<Rightarrow> (io_error + string) list" where
  "buf_lines utf8 fault bs =
     (case position bs of
        Some i \<Rightarrow> line_item utf8 (strip_cr (take i bs)) # buf_lines utf8 fault (drop (Suc i) bs)
      | None \<Rightarrow>
          (case fault of
             Some e \<Rightarrow> [Inl e]
           | None \<Rightarrow> if bs = [] then [] else [line_item utf8 bs]))"
  by pat_completeness auto
termination
  by (relation "measure (\<lambda>(utf8, fault, bs). length bs)") (auto dest: position_Some)

declare buf_lines.simps [simp del]

fun typed_records :: "(string \<Rightarrow> string + 'a) \<Rightarrow> (io_error + string) list \<Rightarrow> io_error + 'a list" where
  "typed_records decode [] = Inr []"
| "typed_records decode (Inl e # _) = Inl e"
| "typed_records decode (Inr line # rest) =
     (if trim line = [] then typed_records decode rest
      else case decode line of
          Inl e \<Rightarrow> Inl (InvalidData (''invalid JSONL test record: '' @ e))
        | Inr r \<Rightarrow> bindE (typed_records decode rest) (\<lambda>rs. Inr (r # rs)))"

definition read_json_lines ::
    "(byte list \<Rightarrow> bool) \<Rightarrow> (string \<Rightarrow> string + 'a) \<Rightarrow> io_error + (byte list \<times> io_error option) \<Rightarrow>
       io_error + 'a list" where
  "read_json_lines utf8 decode file =
     bindE file (\<lambda>(bs, fault). typed_records decode (buf_lines utf8 fault bs))"

section \<open>The doctrine of a projection\<close>

record projection_assertion =
  pn_path :: string
  pn_message :: string

definition projection_error_text :: "string \<Rightarrow> projection_error \<Rightarrow> string" where
  "projection_error_text serde_text e =
     (case e of
        Serialize \<Rightarrow> ''failed to serialize projection: '' @ serde_text
      | Policy path rule \<Rightarrow> ''projection policy violation at '' @ path @ '': '' @ rule)"

definition assertion_text :: "projection_assertion \<Rightarrow> string" where
  "assertion_text a = pn_path a @ '': '' @ pn_message a"

definition assert_projection_doctrine ::
    "string \<Rightarrow> 'n projection \<Rightarrow> projection_assertion + unit" where
  "assert_projection_doctrine serde_text p =
     (case structured_projection p Concise of
        Inl e \<Rightarrow> Inl \<lparr>pn_path = ''$concise'', pn_message = projection_error_text serde_text e\<rparr>
      | Inr _ \<Rightarrow>
          (case structured_projection p Full of
             Inl e \<Rightarrow> Inl \<lparr>pn_path = ''$full'', pn_message = projection_error_text serde_text e\<rparr>
           | Inr _ \<Rightarrow> Inr ()))"

section \<open>The harness and the kernel\<close>

text \<open>The calls of a test on the harness, and the kernel operations they stand for.\<close>

datatype 'n harness_call = DispatchFirst nat "'n frame" contract nat | KillWorker replay_budget
  | DispatchNext | ResolveProbe "'n request_id" probe_resolution u8 | CompleteWith "'n frame"

definition harness_step :: "'n extern \<Rightarrow> 'n churn_harness \<Rightarrow> 'n harness_call \<Rightarrow> 'n churn_harness" where
  "harness_step X h c = (case c of
      DispatchFirst now f contract capacity \<Rightarrow> snd (dispatch_first X now f contract capacity h)
    | KillWorker budget \<Rightarrow> snd (kill_worker budget h)
    | DispatchNext \<Rightarrow> snd (dispatch_next h)
    | ResolveProbe i r m \<Rightarrow> snd (harness_resolve_probe i r m h)
    | CompleteWith f \<Rightarrow> snd (harness_complete f h))"

fun call_event :: "'n harness_call \<Rightarrow> 'n kevent" where
  "call_event (DispatchFirst now f contract capacity) = Begin now f contract capacity"
| "call_event (KillWorker budget) = Requeue budget"
| "call_event DispatchNext = Pop"
| "call_event (ResolveProbe i r m) = Resolve i r m"
| "call_event (CompleteWith f) = Complete f"

lemma replayed_frame:
  assumes "pop_next_dispatch k = (Inr (ReplayFrame f), k')"
  shows "\<exists>i m r. fr_envelope f = Request i m \<and> map_of (k_pending k) i = Some r"
  using assms by (auto simp: pop_next_dispatch_def Let_def
      split: list.splits envelope.splits option.splits disposition.splits sum.splits)

text \<open>A recorded frame and an entry of the dispatch log, for the same invocation.\<close>

lemma harness_step_mirrors:
  assumes "hn_kernel h = k"
  shows "hn_kernel (harness_step X h c) = kstep X k (call_event c) \<and>
    length (hn_dispatched (harness_step X h c)) = length (hn_dispatched h) + length (dispatched X k (call_event c))"
proof (cases c)
  case DispatchNext
  then show ?thesis using assms replayed_frame [of k]
    by (auto simp: harness_step_def dispatch_next_def kstep_def dispatched_def frame_id_def
        split: prod.split sum.split queue_outcome.split option.split envelope.split)
next
  case (DispatchFirst now f contract capacity)
  with assms show ?thesis
    by (auto simp: harness_step_def dispatch_first_def kstep_def dispatched_def split: prod.split sum.split)
qed (use assms in \<open>auto simp: harness_step_def kill_worker_def harness_resolve_probe_def harness_complete_def
    kstep_def dispatched_def split: prod.split\<close>)

lemma harness_run_mirrors:
  "hn_kernel (foldl (harness_step X) harness_cold cs) = fst (session_run X (map call_event cs)) \<and>
   length (hn_dispatched (foldl (harness_step X) harness_cold cs)) =
     length (run_dispatches (session_run X (map call_event cs)))"
proof (induction cs rule: rev_induct)
  case Nil
  show ?case by (simp add: harness_cold_def session_run_def run_dispatches_def)
next
  case (snoc c cs)
  obtain k d t where run: "session_run X (map call_event cs) = (k, d, t)" by (cases "session_run X (map call_event cs)")
  then have next_run: "session_run X (map call_event (cs @ [c])) =
      (kstep X k (call_event c), d @ dispatched X k (call_event c), t @ terminated k (call_event c))"
    by (simp add: session_run_def)
  with snoc run harness_step_mirrors [of "foldl (harness_step X) harness_cold cs" k X c] show ?case
    by (simp add: run_dispatches_def)
qed

section \<open>Reading back a telemetry log\<close>

text \<open>
  What \<open>serde_json\<close> is known for: a record is one JSON object on one line of UTF-8, and it
  parses back to the record.
\<close>

definition json_codec :: "'n encoder \<Rightarrow> (byte list \<Rightarrow> bool) \<Rightarrow> (string \<Rightarrow> string + 'n telemetry_record) \<Rightarrow> bool" where
  "json_codec enc utf8 decode \<longleftrightarrow> (\<forall>v b. enc v = Some b \<longrightarrow>
     b \<noteq> [] \<and> hd b = 123 \<and> last b = 125 \<and> newline \<notin> set b \<and> utf8 b \<and> decode (line_text b) = Inr v)"

lemma codec_line:
  assumes "json_codec enc utf8 decode" and "enc v = Some b"
  shows "buf_lines utf8 fault (b @ newline # rest) = Inr (line_text b) # buf_lines utf8 fault rest"
    and "trim (line_text b) \<noteq> []" and "decode (line_text b) = Inr v"
proof -
  have b: "b \<noteq> []" "hd b = 123" "last b = 125" "newline \<notin> set b" "utf8 b" "decode (line_text b) = Inr v"
    using assms unfolding json_codec_def by blast+
  have "strip_cr b = b" using b by (simp add: strip_cr_def carriage_return_def)
  then show "buf_lines utf8 fault (b @ newline # rest) = Inr (line_text b) # buf_lines utf8 fault rest"
    using b by (subst buf_lines.simps) (simp add: position_append line_item_def)
  have "trim (line_text b) = line_text b"
    using b by (intro trim_graphic) (simp_all add: line_text_def hd_map last_map)
  then show "trim (line_text b) \<noteq> []" using b(1) by (simp add: line_text_def)
  show "decode (line_text b) = Inr v" by (rule b(6))
qed

lemma records_read_back:
  assumes codec: "json_codec enc utf8 decode"
  shows "list_all (\<lambda>v. enc v \<noteq> None) vs \<Longrightarrow>
    typed_records decode (buf_lines utf8 None (concat (map (record_line enc) vs))) = Inr vs"
proof (induction vs)
  case Nil
  show ?case by (subst buf_lines.simps) simp
next
  case (Cons v vs)
  then obtain b where b: "enc v = Some b" by auto
  have "record_line enc v = b @ [newline]" by (simp add: record_line_def b newline_def)
  with Cons codec_line [OF codec b] show ?case by simp
qed

text \<open>
  C30. The telemetry log can be read back. Whatever the writers, the order of their sections
  under the lock and the failures of the system, the file stays within its bound. As long as
  no write of the operating system is cut short, reading it line by line at any moment gives
  records that calls handed to it, in the order of the appends: since the file was last
  emptied every record whose append reported success, and otherwise only ones whose call
  failed after its append. It is emptied only when what was handed to it exceeds eight
  mebibytes. An append with nothing failing reports success.
\<close>

theorem telemetry_log_reads_back:
  assumes "json_codec enc utf8 decode" and "file = snd (foldl (tele_step enc) (ws, []) es)"
    and "handed = attempts enc (ws, []) es"
  shows "length file \<le> telemetry_max_bytes \<and>
    (list_all writes_complete es \<longrightarrow>
      (\<exists>before after vs. handed = before @ after \<and> read_json_lines utf8 decode (Inr (file, None)) = Inr vs \<and>
         subseq vs (map fst after) \<and> subseq (map fst (filter (\<lambda>(v, ans, ok). ok) after)) vs \<and>
         (before \<noteq> [] \<longrightarrow> after \<noteq> [] \<and>
            telemetry_max_bytes < sum_list (map (\<lambda>x. length (record_line enc (fst x))) (before @ [hd after]))))) \<and>
    (\<forall>v ok b. (v, calm_append, ok) \<in> set handed \<and> enc v = Some b \<and> length b < telemetry_max_bytes \<longrightarrow> ok)"
proof -
  have "length file \<le> telemetry_max_bytes"
    unfolding assms(2) using telemetry_bound.inv_run [of "(ws, [])" es enc]
    by (simp add: within_bound_def list_all_iff)
  moreover have "\<exists>before after vs. handed = before @ after \<and> read_json_lines utf8 decode (Inr (file, None)) = Inr vs \<and>
         subseq vs (map fst after) \<and> subseq (map fst (filter (\<lambda>(v, ans, ok). ok) after)) vs \<and>
         (before \<noteq> [] \<longrightarrow> after \<noteq> [] \<and>
            telemetry_max_bytes < sum_list (map (\<lambda>x. length (record_line enc (fst x))) (before @ [hd after])))"
    if whole: "list_all writes_complete es"
  proof -
    obtain vs where h: "log_holds enc handed file vs" using log_holds_run [OF whole] unfolding assms(2,3) by blast
    then have "read_json_lines utf8 decode (Inr (file, None)) = Inr vs"
      using records_read_back [OF assms(1), of vs] by (simp add: log_holds_def read_json_lines_def)
    with h show ?thesis unfolding log_holds_def by blast
  qed
  ultimately show ?thesis unfolding assms(3) using calm_attempts [where enc = enc] by blast
qed

definition sample_call_record :: "u64 telemetry_record" where
  "sample_call_record = ToolCallRecord (tool_record sample_log 5 sample_completion)"

definition sample_hot_record :: "u64 telemetry_record" where
  "sample_hot_record = (let line = exact_line (''/a'', \<lparr>pa_request_count = 1, pa_error_count = 0,
       pa_total_latency = 12, pa_max_latency = 12\<rparr>)
     in HotPathsRecord \<lparr>hp_ts = 6, hp_repo_root = ''/r'', hp_total_tool_events = 1, hp_hottest = [line], hp_slowest = [line]\<rparr>)"

definition sample_decode :: "string \<Rightarrow> string + u64 telemetry_record" where
  "sample_decode s = (if s = ''{1}'' then Inr sample_call_record
     else if s = ''{2}'' then Inr sample_hot_record else Inl ''expected value'')"

definition sample_codec :: "u64 encoder" where
  "sample_codec v = (if v = sample_call_record then Some [123, 49, 125]
     else if v = sample_hot_record then Some [123, 50, 125] else None)"

lemma sample_lines: "line_text [123, 49, 125] = ''{1}''" "line_text [123, 50, 125] = ''{2}''"
  by code_simp+

lemma sample_records_differ: "sample_hot_record \<noteq> sample_call_record" "sample_call_record \<noteq> sample_hot_record"
  by (simp_all add: sample_hot_record_def sample_call_record_def Let_def)

lemma sample_json_codec: "json_codec sample_codec (\<lambda>_. True) sample_decode"
  by (simp add: json_codec_def sample_codec_def sample_decode_def sample_lines sample_records_differ newline_def)

text \<open>Two writers; the append of the second comes between the two sections of the first.\<close>

definition sample_sections :: "u64 tele_event list" where
  "sample_sections = [Completed 0 sample_completion (Some 5) calm_append, Completed 1 sample_completion (Some 5) calm_append,
     SnapshotDue 0 (Some 6) calm_append]"

definition sample_writers :: "telemetry_writer list" where
  "sample_writers = [\<lparr>wr_log = sample_log, wr_due = False\<rparr>, \<lparr>wr_log = sample_log, wr_due = False\<rparr>]"

lemmas sample_section_defs = sample_sections_def sample_writers_def record_append_def hot_paths_snapshot_def
  sample_completion_def sample_log_def calm_append_def
  sample_call_record_def sample_hot_record_def exact_line_def unix_ms_now_def updated_path_def update_aggregate_def
  default_aggregate_def checked_add_def write_json_line_def bounded_append_def write_all_def answer_def
  sync_record_def write_hot_paths_snapshot_def hottest_lines_def slowest_lines_def hot_path_line_of_def
  telemetry_max_bytes_def Let_def

lemma sample_codec_run:
  "snd (foldl (tele_step sample_codec) (sample_writers, []) sample_sections) =
     [123, 49, 125, 10, 123, 49, 125, 10, 123, 50, 125, 10]"
  "attempts sample_codec (sample_writers, []) sample_sections =
     [(sample_call_record, calm_append, True), (sample_call_record, calm_append, True), (sample_hot_record, calm_append, True)]"
proof -
  have enc: "sample_codec sample_call_record = Some [123, 49, 125]" "sample_codec sample_hot_record = Some [123, 50, 125]"
    by (simp_all add: sample_codec_def sample_records_differ)
  show "snd (foldl (tele_step sample_codec) (sample_writers, []) sample_sections) =
     [123, 49, 125, 10, 123, 49, 125, 10, 123, 50, 125, 10]"
    using enc by (simp add: sample_section_defs)
  show "attempts sample_codec (sample_writers, []) sample_sections =
     [(sample_call_record, calm_append, True), (sample_call_record, calm_append, True), (sample_hot_record, calm_append, True)]"
    using enc by (simp add: sample_section_defs)
qed

theorem telemetry_log_reads_back_witness:
  "read_json_lines (\<lambda>_. True) sample_decode
     (Inr (snd (foldl (tele_step sample_codec) (sample_writers, []) sample_sections), None)) =
     Inr [sample_call_record, sample_call_record, sample_hot_record]"
proof -
  have all: "list_all writes_complete sample_sections"
    by (simp add: sample_sections_def writes_complete_def calm_append_def)
  have lines: "length (record_line sample_codec v) \<le> 4" for v
    by (simp add: record_line_def sample_codec_def)
  obtain before after vs where h:
      "[(sample_call_record, calm_append, True), (sample_call_record, calm_append, True), (sample_hot_record, calm_append, True)] = before @ after"
      "read_json_lines (\<lambda>_. True) sample_decode
        (Inr (snd (foldl (tele_step sample_codec) (sample_writers, []) sample_sections), None)) = Inr vs"
      "subseq vs (map fst after)" "subseq (map fst (filter (\<lambda>(v, ans, ok). ok) after)) vs"
      "before \<noteq> [] \<longrightarrow> after \<noteq> [] \<and>
         telemetry_max_bytes < sum_list (map (\<lambda>x. length (record_line sample_codec (fst x))) (before @ [hd after]))"
    using telemetry_log_reads_back [OF sample_json_codec refl refl, of sample_writers sample_sections] all
    unfolding sample_codec_run(2) by blast
  have "before = []"
  proof (rule ccontr)
    assume b: "before \<noteq> []"
    have "length before \<le> 3" using arg_cong [OF h(1), of length] by simp
    moreover have "sum_list (map (\<lambda>x. length (record_line sample_codec (fst x))) (before @ [hd after])) \<le>
        sum_list (map (\<lambda>x. 4) (before @ [hd after]))" by (rule sum_list_mono) (rule lines)
    ultimately show False using h(5) b by (simp add: sum_list_triv telemetry_max_bytes_def)
  qed
  with h(1,3,4) have "vs = [sample_call_record, sample_call_record, sample_hot_record]"
    by (auto intro!: subseq_order.antisym)
  with h(2) show ?thesis by simp
qed

end
