(* ===== verification/Spec2Isabelle.thy ===== *)
theory Spec2Isabelle
  imports Types Normalize Json Jsonrpc Framing TimedReader Replay Host HostInv Requeue KernelRuns
    Samples Session Snapshot Effect Health Release Ops Supervisor Handlers SupInv SupSteps HostRuns
    Wedge HostSamples HostTheorems Render RenderRead Projection
    Telemetry Derive ReleaseRun SnapshotFile Stages Drain WorkerIo TestKit
begin

text \<open>
  libmcp: a library of MCP servers whose public session outlives its worker processes. The
  crate \<open>src/crates/libmcp/src\<close> has these parts, and these theories model them.

  \<^bold>\<open>The session kernel\<close> (\<open>host.rs\<close>, \<open>replay.rs\<close>) keeps the public session: its phase,
  the invocations pending with a worker and the frames queued for one. \<open>Replay\<close> is the law
  of one invocation (what a dispatch, a loss, an outcome and a probe do to what is known of
  it, and when a replay is authorised); \<open>Host\<close> has the record \<open>kernel\<close> for
  \<open>HostSessionKernel\<close> and one definition per operation. \<open>HostInv\<close> and \<open>Requeue\<close> prove the
  kernel's invariant and the closed form of the recovery loop, \<open>KernelRuns\<close> the account of
  dispatches and endings over any run, \<open>Session\<close> the invariants of phase, seed and frames
  and the kernel's properties. \<open>Snapshot\<close> has taking, validating and restoring a snapshot.

  \<^bold>\<open>The supervisor\<close> (\<open>supervisor.rs\<close>) drives the kernel: it owns the incumbent worker,
  a candidate for rollover or recovery, the callbacks of the worker, the session journal.
  \<open>Supervisor\<close> has its state and the operations of its handlers, \<open>Handlers\<close> one definition
  per handler and the event loop; \<open>Ops\<close> has the composition of operations with errors.
  \<open>SupInv\<close> and \<open>SupSteps\<close> prove that every handler keeps the invariant \<open>sup_inv\<close>, in which
  the kernel is one its own operations reach, so that the kernel's theorems hold under the
  supervisor; \<open>HostRuns\<close>, \<open>Wedge\<close> and \<open>HostTheorems\<close> draw the properties of the whole
  host. \<open>Stages\<close> proves a second invariant, of the stage of a candidate and what the host has
  asked of it, and \<open>Drain\<close> what it gives: a rollover waits for the incumbent. \<open>WorkerIo\<close> has
  the I/O tasks: the reader of the client, and the task of a worker with its reader, its
  writer, its retirement and the killing of its process tree.

  \<^bold>\<open>The wire\<close> (\<open>jsonrpc.rs\<close>): \<open>Json\<close> has JSON values and the visitor that refuses
  repeated members, \<open>Jsonrpc\<close> envelopes, identifiers, methods and tool metadata, \<open>Framing\<close>
  the bounded line reader and writer against a reference on flat bytes, \<open>TimedReader\<close> the
  reader of a descriptor with timeouts.

  \<^bold>\<open>Contracts, releases and health\<close>: \<open>Effect\<close> (\<open>effect.rs\<close>) parses tool catalogs into
  private effect contracts and their public projection; \<open>Release\<close> (\<open>rollout.rs\<close>) has
  identities, manifests, loading and verifying over a parametric file system; \<open>Health\<close>
  (\<open>health.rs\<close>) the operational ledger; \<open>Types\<close> (\<open>types.rs\<close>, \<open>fault.rs\<close>) generations and
  faults; \<open>Normalize\<close> (\<open>normalize.rs\<close>) human integers, tokens and paths.

  \<^bold>\<open>Handoff of a server\<close>: \<open>ReleaseRun\<close> (\<open>rollout.rs\<close>) has how a process discovers how it was
  started, the observation of the selected release, the arming of a successor, and the
  two-phase handoff as a step relation of two processes over one socket, with the public
  input they compete for; \<open>SnapshotFile\<close>
  (\<open>host.rs\<close>) the private capsule files in which the session goes from one to the other.

  \<^bold>\<open>Surfaces\<close>: \<open>Render\<close> and \<open>RenderRead\<close> (\<open>render.rs\<close>) have paths, presentation controls and
  the porcelain layout of a value with a reader of it (what is assumed there of the JSON
  library is that its text reads back and that an escape stands for its character); \<open>Projection\<close> (\<open>projection.rs\<close>) surface
  policies and their validation; \<open>Derive\<close> (\<open>libmcp-derive\<close>) the declarations the macros accept
  and what the generated implementations compute; \<open>Telemetry\<close> (\<open>telemetry.rs\<close>) the bounded
  log shared by several writers, whose sections under the file lock interleave; \<open>TestKit\<close> (\<open>libmcp-testkit\<close>) the churn harness over the
  session kernel, the JSONL reader, and with it that a telemetry log reads back.

  \<^bold>\<open>Correspondence.\<close> A struct is a record, an enum a datatype, \<open>u64\<close> and \<open>u8\<close> are words
  and their \<open>checked_add\<close> and \<open>saturating_add\<close> are written out; \<open>usize\<close> is a natural number
  with its bound \<open>usize_max\<close> where the code checks it. A \<open>HashMap\<close> is an association list
  of distinct keys; what the code does in the map's own order is proved not to depend on
  it. A String is its list of bytes. A \<open>Result\<close> is a sum with the error on the left; a
  method on \<open>&mut self\<close> is a function that returns its result beside the new state, on its
  error branches too.

  \<^bold>\<open>What is a parameter.\<close> The JSON parser and printer, number conversions and the URL
  parser are the record \<open>extern\<close>; the file system, SHA-256 and the decoders of manifests are
  \<open>release_os\<close>; what the calls of the supervisor to the outside answer is \<open>env\<close>, one
  answer per call. Theorems hold for every value of them; a law that is relied on is a
  hypothesis with a witness.

  \<^bold>\<open>Loops.\<close> The frame readers recurse on the bytes left, the queue loop on the length of
  the queue, the search for a path hint carries fuel that is proved to suffice; an event
  loop is a function of the list of its events, a worker's task of the list of its wake-ups.

  \<^bold>\<open>Not modelled.\<close> What a process or a pipe does beyond the answers a definition takes as
  arguments; the bytes of a frame the operating system has taken when a write is dropped
  half-way (a frame counts as written when the write returns); the order in which the event
  channel mixes its senders, which is an arbitrary list of events; diagnostics on the error
  stream; the branches for systems other than Unix; getters, the trait implementations that
  are derived or print, and the JSON schemas; of the test kit the scratch directories and the
  handoff fixture. A full command channel makes the code wait and the model go on.
\<close>

end
